(* ===== verification/Prelude.thy ===== *)
theory Prelude
  imports Main "HOL-Library.Word" "HOL-Library.Monad_Syntax" "HOL-Library.Product_Lexorder"
    "HOL-Library.Multiset" Complex_Main
begin

text \<open>
  Shared vocabulary of the development: bounds-checked vectors (a C++ \<open>operator[]\<close> outside
  the vector has no defined behaviour, which is the value \<open>None\<close> here), ordered
  association lists for \<open>std::map\<close>, ordered duplicate-free lists for \<open>std::set\<close>, loops
  over a container in the option monad, and the generic lemmas the components share.
\<close>

named_theorems vec_simps \<open>reading and writing bounds-checked vectors\<close>
named_theorems omap_simps \<open>lookups in ordered association lists\<close>

declare of_nat_unat [simp del]

subsection \<open>Vectors\<close>

text \<open>\<open>v[i]\<close> for a \<open>std::vector\<close> or a C array, \<open>i\<close> a signed index.\<close>

definition vec_at :: "'a list \<Rightarrow> int \<Rightarrow> 'a option" where
  "vec_at xs i = (if 0 \<le> i \<and> nat i < length xs then Some (xs ! nat i) else None)"

text \<open>\<open>v[i] = x\<close>.\<close>

definition vec_set :: "'a list \<Rightarrow> int \<Rightarrow> 'a \<Rightarrow> 'a list option" where
  "vec_set xs i x = (if 0 \<le> i \<and> nat i < length xs then Some (xs[nat i := x]) else None)"

text \<open>\<open>v.resize(n, x)\<close> where it can only grow the vector.\<close>

definition vec_grow :: "nat \<Rightarrow> 'a \<Rightarrow> 'a list \<Rightarrow> 'a list" where
  "vec_grow n x xs = xs @ replicate (n - length xs) x"

lemma vec_at_int [vec_simps]: "vec_at xs (int n) = (if n < length xs then Some (xs ! n) else None)"
  by (simp add: vec_at_def)

lemma vec_at_Some_iff [vec_simps]:
  "vec_at xs i = Some x \<longleftrightarrow> 0 \<le> i \<and> nat i < length xs \<and> x = xs ! nat i"
  by (auto simp: vec_at_def)

lemma vec_at_None_iff [vec_simps]: "vec_at xs i = None \<longleftrightarrow> i < 0 \<or> length xs \<le> nat i"
  by (auto simp: vec_at_def)

lemma vec_at_in_range: "0 \<le> i \<Longrightarrow> i < int (length xs) \<Longrightarrow> vec_at xs i = Some (xs ! nat i)"
  by (auto simp: vec_at_def nat_less_iff)

lemma vec_at_Nil [simp]: "vec_at [] i = None"
  by (simp add: vec_at_def)

lemma vec_set_Some_iff [vec_simps]:
  "vec_set xs i x = Some ys \<longleftrightarrow> 0 \<le> i \<and> nat i < length xs \<and> ys = xs[nat i := x]"
  by (auto simp: vec_set_def)

lemma vec_set_in_range:
  "0 \<le> i \<Longrightarrow> i < int (length xs) \<Longrightarrow> vec_set xs i x = Some (xs[nat i := x])"
  by (auto simp: vec_set_def nat_less_iff)

lemma length_vec_grow [simp]: "length (vec_grow n x xs) = max n (length xs)"
  by (simp add: vec_grow_def)

lemma vec_grow_eq_Nil [simp]: "vec_grow n x xs = [] \<longleftrightarrow> n = 0 \<and> xs = []"
  by (auto simp: vec_grow_def)

lemma nth_vec_grow:
  "i < max n (length xs) \<Longrightarrow> vec_grow n x xs ! i = (if i < length xs then xs ! i else x)"
  by (auto simp: vec_grow_def nth_append)

subsection \<open>Ordered association lists\<close>

text \<open>
  \<open>std::map\<close>: the entries in ascending key order; \<open>omap_update k v m\<close> is \<open>m[k] = v\<close>,
  \<open>map_of m\<close> is \<open>find\<close>.
\<close>

fun omap_update :: "'k::linorder \<Rightarrow> 'v \<Rightarrow> ('k \<times> 'v) list \<Rightarrow> ('k \<times> 'v) list" where
  "omap_update k v [] = [(k, v)]"
| "omap_update k v ((k', v') # m) =
     (if k < k' then (k, v) # (k', v') # m
      else if k = k' then (k, v) # m
      else (k', v') # omap_update k v m)"

abbreviation omap_ok :: "('k::linorder \<times> 'v) list \<Rightarrow> bool" where
  "omap_ok m \<equiv> sorted_wrt (<) (map fst m)"

text \<open>\<open>m[k] += d\<close>, where a missing entry is first created with the value 0.\<close>

definition omap_add :: "'k::linorder \<Rightarrow> 'v::{zero,plus} \<Rightarrow> ('k \<times> 'v) list \<Rightarrow> ('k \<times> 'v) list" where
  "omap_add k d m = omap_update k ((case map_of m k of None \<Rightarrow> 0 | Some v \<Rightarrow> v) + d) m"

lemma map_of_omap_update [omap_simps]:
  "omap_ok m \<Longrightarrow> map_of (omap_update k v m) = (map_of m)(k \<mapsto> v)"
proof (induction k v m rule: omap_update.induct)
  case (2 k v k' v' m)
  have "map_of m k = None" if "k < k'"
    using "2.prems" that by (auto simp: map_of_eq_None_iff dest: less_asym)
  with 2 show ?case by (auto simp: fun_eq_iff)
qed simp

lemma set_fst_omap_update [simp]: "fst ` set (omap_update k v m) = insert k (fst ` set m)"
  by (induction k v m rule: omap_update.induct) auto

lemma omap_ok_update [simp]: "omap_ok m \<Longrightarrow> omap_ok (omap_update k v m)"
proof (induction k v m rule: omap_update.induct)
  case (2 k v k' v' m)
  then show ?case
    using set_fst_omap_update [of k v m] by (auto simp: image_iff)
qed simp

lemma omap_ok_distinct: "omap_ok m \<Longrightarrow> distinct (map fst m)"
  by (simp add: strict_sorted_iff)

lemma omap_ok_add [simp]: "omap_ok m \<Longrightarrow> omap_ok (omap_add k d m)"
  by (simp add: omap_add_def)

lemma map_of_omap_add [omap_simps]:
  "omap_ok m \<Longrightarrow>
   map_of (omap_add k d m) = (map_of m)(k \<mapsto> (case map_of m k of None \<Rightarrow> 0 | Some v \<Rightarrow> v) + d)"
  by (simp add: omap_add_def map_of_omap_update)

subsection \<open>Ordered sets\<close>

text \<open>\<open>std::set\<close>: the elements in ascending order, without duplicates.\<close>

abbreviation oset_ok :: "'a::linorder list \<Rightarrow> bool" where
  "oset_ok xs \<equiv> sorted_wrt (<) xs"

fun oset_insert :: "'a::linorder \<Rightarrow> 'a list \<Rightarrow> 'a list" where
  "oset_insert x [] = [x]"
| "oset_insert x (y # ys) =
     (if x < y then x # y # ys else if x = y then y # ys else y # oset_insert x ys)"

lemma set_oset_insert [simp]: "set (oset_insert x xs) = insert x (set xs)"
  by (induction x xs rule: oset_insert.induct) auto

lemma oset_ok_insert [simp]: "oset_ok xs \<Longrightarrow> oset_ok (oset_insert x xs)"
  by (induction x xs rule: oset_insert.induct) auto

lemma oset_insert_not_Nil [simp]: "oset_insert x xs \<noteq> []"
  by (cases xs) auto

lemma oset_eqI: "oset_ok xs \<Longrightarrow> oset_ok ys \<Longrightarrow> set xs = set ys \<Longrightarrow> xs = ys"
  by (rule strict_sorted_equal) (auto simp: strict_sorted_iff)

lemma oset_insert_commute:
  "oset_ok xs \<Longrightarrow> oset_insert x (oset_insert y xs) = oset_insert y (oset_insert x xs)"
  by (rule oset_eqI) auto

lemma oset_ok_fold [simp]: "oset_ok xs \<Longrightarrow> oset_ok (fold oset_insert ys xs)"
  by (induction ys arbitrary: xs) auto

lemma set_fold_oset_insert [simp]: "set (fold oset_insert ys xs) = set ys \<union> set xs"
  by (induction ys arbitrary: xs) auto

subsection \<open>Loops in the option monad\<close>

text \<open>\<open>for (x : xs) s = f x s\<close>, abandoned as soon as one round has no defined result.\<close>

fun foldM :: "('a \<Rightarrow> 's \<Rightarrow> 's option) \<Rightarrow> 'a list \<Rightarrow> 's \<Rightarrow> 's option" where
  "foldM f [] s = Some s"
| "foldM f (x # xs) s = do { s' \<leftarrow> f x s; foldM f xs s' }"

lemma foldM_append: "foldM f (xs @ ys) s = do { s' \<leftarrow> foldM f xs s; foldM f ys s' }"
  by (induction xs arbitrary: s) (auto split: bind_splits)

lemma foldM_cong [fundef_cong]:
  "xs = ys \<Longrightarrow> s = t \<Longrightarrow> (\<And>x s. x \<in> set ys \<Longrightarrow> f x s = g x s) \<Longrightarrow> foldM f xs s = foldM g ys t"
  by (induction xs arbitrary: ys s t) (auto cong: Option.bind_cong)

text \<open>Loop invariant rule: what every round keeps holds at the end.\<close>

lemma foldM_invariant:
  assumes "foldM f xs s = Some s'" and "P s"
    and "\<And>x t t'. x \<in> set xs \<Longrightarrow> P t \<Longrightarrow> f x t = Some t' \<Longrightarrow> P t'"
  shows "P s'"
  using assms by (induction xs arbitrary: s) (auto split: bind_splits simp: bind_eq_Some_conv)

text \<open>A loop whose rounds all have a defined result has one.\<close>

lemma foldM_defined:
  assumes "P s" and "\<And>x t. x \<in> set xs \<Longrightarrow> P t \<Longrightarrow> \<exists>t'. f x t = Some t' \<and> P t'"
  shows "\<exists>s'. foldM f xs s = Some s' \<and> P s'"
  using assms
proof (induction xs arbitrary: s)
  case (Cons x xs)
  obtain t where "f x s = Some t" "P t"
    using Cons.prems(1) Cons.prems(2) [of x s] by auto
  moreover obtain s' where "foldM f xs t = Some s'" "P s'"
    using Cons.IH [OF \<open>P t\<close>] Cons.prems(2) by auto
  ultimately show ?case by auto
qed simp

text \<open>The invariant of a counting loop may speak of the counter.\<close>

lemma foldM_upt:
  assumes "P 0 s" and "\<And>k t. k < n \<Longrightarrow> P k t \<Longrightarrow> \<exists>t'. f k t = Some t' \<and> P (Suc k) t'"
  shows "\<exists>s'. foldM f [0..<n] s = Some s' \<and> P n s'"
  using assms
proof (induction n)
  case (Suc n)
  then obtain t where t: "foldM f [0..<n] s = Some t" "P n t" by fastforce
  moreover obtain t' where "f n t = Some t'" "P (Suc n) t'" using Suc.prems(2) [OF _ t(2)] by blast
  ultimately show ?case by (simp add: foldM_append)
qed simp

text \<open>A loop that only adds a defined amount to an accumulator computes the sum.\<close>

lemma foldM_sum:
  fixes s :: "'s::comm_monoid_add"
  assumes "\<And>x t. x \<in> set xs \<Longrightarrow> f x t = Some (t + g x)"
  shows "foldM f xs s = Some (s + (\<Sum>x\<leftarrow>xs. g x))"
  using assms by (induction xs arbitrary: s) (auto simp: add.assoc)

text \<open>A loop that refines another one round by round refines it as a whole.\<close>

lemma foldM_abs:
  assumes "\<And>x s. x \<in> set xs \<Longrightarrow> map_option h (f x s) = g x (h s)"
  shows "map_option h (foldM f xs s) = foldM g xs (h s)"
  using assms
proof (induction xs arbitrary: s)
  case (Cons x xs)
  then show ?case using Cons.prems [of x s] by (cases "f x s") (auto dest: sym)
qed simp

subsection \<open>Sums\<close>

lemma sum_list_map_eq_sum_nth: "(\<Sum>x\<leftarrow>xs. f x) = (\<Sum>i<length xs. f (xs ! i))"
  by (simp add: sum_list_sum_nth atLeast0LessThan)

subsection \<open>Stable sorting\<close>

lemma insort_key_map: "insort_key f (g x) (map g xs) = map g (insort_key (\<lambda>x. f (g x)) x xs)"
  by (induction xs) auto

lemma sort_key_map: "sort_key f (map g xs) = map g (sort_key (\<lambda>x. f (g x)) xs)"
  by (induction xs) (simp_all add: insort_key_map)

lemma insort_key_eq:
  "f x = g x \<Longrightarrow> (\<And>y. y \<in> set xs \<Longrightarrow> f y = g y) \<Longrightarrow> insort_key f x xs = insort_key g x xs"
  by (induction xs) auto

lemma sort_key_eq: "(\<And>x. x \<in> set xs \<Longrightarrow> f x = g x) \<Longrightarrow> sort_key f xs = sort_key g xs"
  by (induction xs) (auto intro: insort_key_eq)

text \<open>In a strictly ascending list the smaller elements are the earlier ones.\<close>

lemma strict_sorted_below:
  fixes xs :: "'a::linorder list"
  assumes "sorted_wrt (<) xs" and "i < length xs"
  shows "{x \<in> set xs. x < xs ! i} = set (take i xs)"
proof
  show "set (take i xs) \<subseteq> {x \<in> set xs. x < xs ! i}"
  proof
    fix x assume "x \<in> set (take i xs)"
    then obtain k where k: "k < i" "x = xs ! k" by (auto simp: in_set_conv_nth)
    with assms show "x \<in> {x \<in> set xs. x < xs ! i}" using sorted_wrt_nth_less [OF assms(1), of k i] by simp
  qed
  show "{x \<in> set xs. x < xs ! i} \<subseteq> set (take i xs)"
  proof
    fix x assume "x \<in> {x \<in> set xs. x < xs ! i}"
    then obtain j where j: "j < length xs" "x = xs ! j" "xs ! j < xs ! i" by (auto simp: in_set_conv_nth)
    then have "\<not> i \<le> j"
      using assms by (metis le_neq_implies_less less_asym less_irrefl sorted_wrt_iff_nth_less)
    with j show "x \<in> set (take i xs)" using assms(2) by (auto simp: in_set_conv_nth intro!: exI [of _ j])
  qed
qed

end
