(* ===== verification/PIM_Common.thy ===== *)
theory PIM_Common
  imports Prelude
begin

unbundle bit_operations_syntax

text \<open>
  \<open>PIMProfSolver/Common.h\<close>: identifiers, the cost sites, decisions, the control word of the
  magic instructions and the hash of a UUID. A \<open>double\<close> (\<open>COST\<close>) is an exact real here;
  rounding is not modelled, division by zero and \<open>FLT_MAX\<close> are written out where the code
  meets them. A \<open>BBLID\<close> (\<open>int64_t\<close>) is used as an index only and is an \<open>int\<close>;
  counters (\<open>uint64_t\<close>) stay 64-bit words.
\<close>

type_synonym COST = real
type_synonym BBLID = int
type_synonym u64 = "64 word"
type_synonym u32 = "32 word"
type_synonym UUID = "u64 \<times> u64"

definition FLT_MAX :: COST where
  "FLT_MAX = (2 - 1 / 2 ^ 23) * 2 ^ 127"

subsection \<open>Cost sites\<close>

text \<open>The enumerator \<open>ALL\<close> is a keyword of the logic and is called \<open>ALL_SITES\<close>.\<close>

datatype CostSite = CPU | PIM | MAX_COST_SITE | NOTPIM | ALL_SITES | Follower | DEFAULT | INVALID

fun site_code :: "CostSite \<Rightarrow> int" where
  "site_code CPU = 0"
| "site_code PIM = 1"
| "site_code MAX_COST_SITE = 2"
| "site_code NOTPIM = 3"
| "site_code ALL_SITES = 4"
| "site_code Follower = 5"
| "site_code DEFAULT = 0x0fffffff"
| "site_code INVALID = 0x3fffffff"

definition CostSiteString :: "string list" where
  "CostSiteString = [''C'', ''P'', ''M'', ''N'', ''A'', ''F'', ''D'', ''I'']"

definition getCostSiteString :: "CostSite \<Rightarrow> string option" where
  "getCostSiteString site = vec_at CostSiteString (site_code site)"

text \<open>An array declared with \<open>[MAX_COST_SITE]\<close> entries, indexed by a cost site.\<close>

definition site_at :: "'a list \<Rightarrow> CostSite \<Rightarrow> 'a option" where
  "site_at xs s = vec_at xs (site_code s)"

type_synonym DECISION = "CostSite list"
type_synonym DecisionFromFile = "(UUID \<times> CostSite) list"

lemma site_code_inj: "inj site_code"
proof (rule injI)
  fix s t :: CostSite
  assume "site_code s = site_code t"
  then show "s = t" by (cases s; cases t) simp_all
qed

lemma site_at_two [simp]:
  "site_at [c, p] CPU = Some c" "site_at [c, p] PIM = Some p"
  by (simp_all add: site_at_def vec_at_def)

lemma site_at_two_out:
  "site_at [c, p] s \<noteq> None \<longleftrightarrow> s = CPU \<or> s = PIM"
  by (cases s) (simp_all add: site_at_def vec_at_def)

subsection \<open>Access types and magic operations\<close>

datatype ACCESS_TYPE = ACCESS_TYPE_LOAD | ACCESS_TYPE_STORE

datatype MAGIC_OP =
    MAGIC_OP_ANNOTATIONHEAD
  | MAGIC_OP_ANNOTATIONTAIL
  | MAGIC_OP_ROIBEGIN
  | MAGIC_OP_ROIEND
  | MAGIC_OP_ROIDECISIONBEGIN
  | MAGIC_OP_ROIDECISIONEND

fun magic_code :: "MAGIC_OP \<Rightarrow> u64" where
  "magic_code MAGIC_OP_ANNOTATIONHEAD = 0"
| "magic_code MAGIC_OP_ANNOTATIONTAIL = 1"
| "magic_code MAGIC_OP_ROIBEGIN = 2"
| "magic_code MAGIC_OP_ROIEND = 3"
| "magic_code MAGIC_OP_ROIDECISIONBEGIN = 4"
| "magic_code MAGIC_OP_ROIDECISIONEND = 5"

definition SNIPER_SIM_CMD_ROI_START :: u64 where "SNIPER_SIM_CMD_ROI_START = 1"
definition SNIPER_SIM_CMD_ROI_END :: u64 where "SNIPER_SIM_CMD_ROI_END = 2"
definition SNIPER_SIM_PIMPROF_BBL_START :: u64 where "SNIPER_SIM_PIMPROF_BBL_START = 1024"
definition SNIPER_SIM_PIMPROF_BBL_END :: u64 where "SNIPER_SIM_PIMPROF_BBL_END = 1025"
definition SNIPER_SIM_PIMPROF_OFFLOAD_START :: u64 where "SNIPER_SIM_PIMPROF_OFFLOAD_START = 1026"
definition SNIPER_SIM_PIMPROF_OFFLOAD_END :: u64 where "SNIPER_SIM_PIMPROF_OFFLOAD_END = 1027"
definition PIMPROF_DECISION_CPU :: u64 where "PIMPROF_DECISION_CPU = 0"
definition PIMPROF_DECISION_PIM :: u64 where "PIMPROF_DECISION_PIM = 1"

definition GLOBAL_BBLID :: BBLID where "GLOBAL_BBLID = 0"
definition GLOBAL_BBLHASH :: UUID where "GLOBAL_BBLHASH = (0, 0)"
definition MAIN_BBLID :: BBLID where "MAIN_BBLID = 1"
definition TSJ_BBLID :: BBLID where "TSJ_BBLID = 1"
definition MAIN_BBLHASH :: UUID where "MAIN_BBLHASH = (1, 1)"

subsection \<open>The control word and the UUID hash\<close>

definition GetControlValue :: "u64 \<Rightarrow> u64 \<Rightarrow> u64" where
  "GetControlValue optype isomp = push_bit 32 isomp OR optype"

definition GetIsOpenMP :: "u64 \<Rightarrow> u64" where
  "GetIsOpenMP controlvalue = drop_bit 32 controlvalue"

definition GetOpType :: "u64 \<Rightarrow> u64" where
  "GetOpType controlvalue = (push_bit 32 1 - 1) AND controlvalue"

definition UUIDHashFunc :: "UUID \<Rightarrow> u64" where
  "UUIDHashFunc key = fst key XOR snd key"

lemma low32_mask: "(push_bit 32 1 - 1 :: u64) = mask 32"
  by (simp add: mask_eq_exp_minus_1 push_bit_eq_mult)

lemma GetOpType_take_bit: "GetOpType c = take_bit 32 c"
  unfolding GetOpType_def low32_mask by (simp only: take_bit_eq_mask and.commute)

lemma control_value_roundtrip:
  assumes "optype < 2 ^ 32" and "isomp < 2 ^ 32"
  shows "GetOpType (GetControlValue optype isomp) = optype"
    and "GetIsOpenMP (GetControlValue optype isomp) = isomp"
proof -
  have hi: "n < 32" if "w < 2 ^ 32" "bit w n" for w :: u64 and n
  proof -
    have "take_bit 32 w = w"
      using that(1) less_mask_eq [of w 32] by (simp add: take_bit_eq_mask)
    with that(2) show ?thesis
      by (metis bit_take_bit_iff)
  qed
  show "GetOpType (GetControlValue optype isomp) = optype"
    using hi [OF assms(1)]
    by (intro bit_word_eqI) (auto simp: GetOpType_take_bit GetControlValue_def bit_simps)
  show "GetIsOpenMP (GetControlValue optype isomp) = isomp"
    using hi [OF assms(1)] hi [OF assms(2)]
    by (intro bit_word_eqI) (fastforce simp: GetIsOpenMP_def GetControlValue_def bit_simps)
qed

end
