(* ===== verification/Reuse_Trie.thy ===== *)
theory Reuse_Trie
  imports PIM_Common
begin

text \<open>
  Data reuse segments and the trie that stores them (\<open>DataReuseSegment\<close>, \<open>TrieNode\<close>,
  \<open>DataReuse\<close> of \<open>PIMProfSolver/DataReuse.h\<close>). A node pointer is the pair of the trie it
  lives in and the keys on the way to it, so the parent link is the shorter path; the tries are
  kept in a small heap, because \<open>UpdateTrie\<close> may be called on a second trie whose leaves are
  then recorded in the same leaf list and outlive that trie.
\<close>

subsection \<open>Segments\<close>

text \<open>The constructor leaves \<open>_head\<close> uninitialised: \<open>None\<close>.\<close>

record 'a DataReuseSegment =
  seg_head :: "'a option"
  seg_set :: "'a list"
  seg_count :: u64

definition new_segment :: "'a DataReuseSegment" where
  "new_segment = \<lparr>seg_head = None, seg_set = [], seg_count = 1\<rparr>"

definition seg_size :: "'a DataReuseSegment \<Rightarrow> nat" where
  "seg_size seg = length (seg_set seg)"

definition seg_insert :: "'a::linorder \<Rightarrow> 'a DataReuseSegment \<Rightarrow> 'a DataReuseSegment" where
  "seg_insert elem seg =
     seg\<lparr>seg_head := (if seg_set seg = [] then Some elem else seg_head seg),
         seg_set := oset_insert elem (seg_set seg)\<rparr>"

definition seg_insert_all :: "'a::linorder DataReuseSegment \<Rightarrow> 'a DataReuseSegment \<Rightarrow> 'a DataReuseSegment" where
  "seg_insert_all other seg = seg\<lparr>seg_set := fold oset_insert (seg_set other) (seg_set seg)\<rparr>"

definition seg_diff :: "'a DataReuseSegment \<Rightarrow> 'a DataReuseSegment \<Rightarrow> 'a list" where
  "seg_diff seg other = filter (\<lambda>x. x \<notin> set (seg_set other)) (seg_set seg)"

definition seg_clear :: "'a DataReuseSegment \<Rightarrow> 'a DataReuseSegment" where
  "seg_clear seg = seg\<lparr>seg_set := [], seg_count := 1\<rparr>"

definition seg_setHead :: "'a \<Rightarrow> 'a DataReuseSegment \<Rightarrow> 'a DataReuseSegment" where
  "seg_setHead h seg = seg\<lparr>seg_head := Some h\<rparr>"

definition seg_setCount :: "u64 \<Rightarrow> 'a DataReuseSegment \<Rightarrow> 'a DataReuseSegment" where
  "seg_setCount c seg = seg\<lparr>seg_count := c\<rparr>"

text \<open>What every segment built with the operations satisfies: an ordered set that contains
  its head.\<close>

definition seg_ok :: "'a::linorder DataReuseSegment \<Rightarrow> bool" where
  "seg_ok seg \<longleftrightarrow> oset_ok (seg_set seg) \<and>
     (seg_set seg \<noteq> [] \<longrightarrow> (\<exists>h \<in> set (seg_set seg). seg_head seg = Some h))"

lemma seg_ok_new [simp]: "seg_ok new_segment"
  by (simp add: seg_ok_def new_segment_def)

lemma seg_ok_insert [simp]: "seg_ok seg \<Longrightarrow> seg_ok (seg_insert x seg)"
  by (auto simp: seg_ok_def seg_insert_def)

lemma seg_ok_clear [simp]: "seg_ok (seg_clear seg)"
  by (simp add: seg_ok_def seg_clear_def)

lemma seg_ok_setCount [simp]: "seg_ok (seg_setCount c seg) = seg_ok seg"
  by (simp add: seg_ok_def seg_setCount_def)

lemma seg_ok_setHead: "seg_ok seg \<Longrightarrow> h \<in> set (seg_set seg) \<Longrightarrow> seg_ok (seg_setHead h seg)"
  by (auto simp: seg_ok_def seg_setHead_def)

subsection \<open>Trie nodes\<close>

datatype 'a TrieNode =
  TrieNode (isLeaf: bool) (node_cur: "'a option") (node_count: u64)
    (node_children: "('a \<times> 'a TrieNode) list")

definition new_node :: "'a option \<Rightarrow> 'a TrieNode" where
  "new_node k = TrieNode False k 0 []"

lemma size_child [termination_simp]:
  "(k, t) \<in> set ch \<Longrightarrow> size t < Suc (size_list (size_prod (\<lambda>_. 0) size) ch)"
  by (induction ch) auto

fun node_at :: "'a TrieNode \<Rightarrow> 'a list \<Rightarrow> 'a TrieNode option" where
  "node_at t [] = Some t"
| "node_at t (x # xs) =
     (case map_of (node_children t) x of None \<Rightarrow> None | Some t' \<Rightarrow> node_at t' xs)"

text \<open>
  The walk of \<open>UpdateTrie\<close>: missing nodes on the way are created, the last one becomes a leaf
  and its counter grows; the assertion on the 64-bit counter fails with \<open>None\<close>.
\<close>

fun trie_update :: "'a::linorder list \<Rightarrow> u64 \<Rightarrow> 'a TrieNode \<Rightarrow> 'a TrieNode option" where
  "trie_update [] c (TrieNode l k n ch) =
     (if n + c \<ge> n then Some (TrieNode True k (n + c) ch) else None)"
| "trie_update (x # xs) c (TrieNode l k n ch) = do {
     t' \<leftarrow> trie_update xs c (case map_of ch x of None \<Rightarrow> new_node (Some x) | Some t \<Rightarrow> t);
     Some (TrieNode l k n (omap_update x t' ch)) }"

subsection \<open>DataReuse\<close>

type_synonym 'a node_ptr = "nat \<times> 'a list"

text \<open>Trie 0 is the root of the object itself.\<close>

record 'a DataReuse =
  tries :: "nat \<rightharpoonup> 'a TrieNode"
  leaves :: "'a node_ptr list"

definition own_root :: nat where "own_root = 0"

definition new_DataReuse :: "'a DataReuse" where
  "new_DataReuse = \<lparr>tries = [own_root \<mapsto> new_node None], leaves = []\<rparr>"

definition new_trie :: "nat \<Rightarrow> 'a DataReuse \<Rightarrow> 'a DataReuse" where
  "new_trie rid dr = dr\<lparr>tries := (tries dr)(rid \<mapsto> new_node None)\<rparr>"

definition deref :: "'a DataReuse \<Rightarrow> 'a node_ptr \<Rightarrow> 'a TrieNode option" where
  "deref dr p = do { t \<leftarrow> tries dr (fst p); node_at t (snd p) }"

definition UpdateTrie :: "nat \<Rightarrow> 'a::linorder DataReuseSegment \<Rightarrow> 'a DataReuse \<Rightarrow> 'a DataReuse option" where
  "UpdateTrie rid seg dr =
     (if seg_size seg \<le> 1 then Some dr
      else do {
        t \<leftarrow> tries dr rid;
        h \<leftarrow> seg_head seg;
        let path = seg_set seg @ [h];
        t' \<leftarrow> trie_update path (seg_count seg) t;
        Some (dr\<lparr>tries := (tries dr)(rid \<mapsto> t'),
                 leaves := (if node_at t path = None then leaves dr @ [(rid, path)] else leaves dr)\<rparr>) })"

definition DeleteTrie :: "nat \<Rightarrow> 'a DataReuse \<Rightarrow> 'a DataReuse" where
  "DeleteTrie rid dr = dr\<lparr>tries := (tries dr)(rid := None)\<rparr>"

text \<open>Following the parent links from a leaf up to the root, inserting every node's key.\<close>

fun export_walk :: "'a::linorder TrieNode \<Rightarrow> 'a list \<Rightarrow> nat \<Rightarrow> 'a DataReuseSegment \<Rightarrow> 'a DataReuseSegment option" where
  "export_walk t path 0 seg = Some seg"
| "export_walk t path (Suc n) seg = do {
     node \<leftarrow> node_at t (take (Suc n) path);
     c \<leftarrow> node_cur node;
     export_walk t path n (seg_insert c seg) }"

definition ExportSegment :: "'a::linorder DataReuse \<Rightarrow> 'a DataReuseSegment \<Rightarrow> 'a node_ptr \<Rightarrow> 'a DataReuseSegment option" where
  "ExportSegment dr seg leaf = do {
     t \<leftarrow> tries dr (fst leaf);
     node \<leftarrow> node_at t (snd leaf);
     if isLeaf node then do {
       c \<leftarrow> node_cur node;
       export_walk t (snd leaf) (length (snd leaf)) (seg_setCount (node_count node) (seg_setHead c seg)) }
     else None }"

text \<open>Descending by the counters behind the pointers; a dangling pointer has no defined order.\<close>

definition SortLeaves :: "'a DataReuse \<Rightarrow> 'a DataReuse option" where
  "SortLeaves dr =
     (if \<forall>p \<in> set (leaves dr). deref dr p \<noteq> None
      then Some (dr\<lparr>leaves := sort_key (\<lambda>p. - int (unat (node_count (the (deref dr p))))) (leaves dr)\<rparr>)
      else None)"

subsection \<open>Leaf entries and well-formed tries\<close>

fun leaf_entries :: "'a list \<Rightarrow> 'a TrieNode \<Rightarrow> ('a list \<times> u64) list" where
  "leaf_entries pre (TrieNode l k n ch) =
     (if l then [(pre, n)] else concat (map (\<lambda>(x, t). leaf_entries (pre @ [x]) t) ch))"

text \<open>The path of a segment: at least two members in ascending order, then one of them again.\<close>

definition seg_path :: "'a::linorder list \<Rightarrow> bool" where
  "seg_path p \<longleftrightarrow> (\<exists>s h. p = s @ [h] \<and> oset_ok s \<and> h \<in> set s \<and> 2 \<le> length s)"

fun trie_ok :: "'a::linorder list \<Rightarrow> 'a TrieNode \<Rightarrow> bool" where
  "trie_ok pre (TrieNode l k n ch) \<longleftrightarrow>
     omap_ok ch \<and> (l \<longrightarrow> ch = [] \<and> seg_path pre) \<and> (\<not> l \<longrightarrow> n = 0) \<and> (ch \<noteq> [] \<longrightarrow> oset_ok pre) \<and>
     (\<forall>(x, t) \<in> set ch. node_cur t = Some x \<and> trie_ok (pre @ [x]) t)"

lemma seg_path_not_oset: "seg_path p \<Longrightarrow> \<not> oset_ok p"
  by (auto simp: seg_path_def sorted_wrt_append)

lemma seg_path_prefix: "seg_path (p @ x # xs) \<Longrightarrow> oset_ok p"
proof -
  assume "seg_path (p @ x # xs)"
  then obtain s h where s: "p @ x # xs = s @ [h]" "oset_ok s" by (auto simp: seg_path_def)
  then have "s = p @ butlast (x # xs)" by (metis butlast_append butlast_snoc list.distinct(1))
  with s(2) show ?thesis by (simp add: sorted_wrt_append)
qed

lemma seg_path_of_seg:
  "seg_ok seg \<Longrightarrow> 1 < seg_size seg \<Longrightarrow> seg_head seg = Some h \<Longrightarrow> seg_path (seg_set seg @ [h])"
  by (auto simp: seg_ok_def seg_size_def seg_path_def)

lemma node_cur_trie_update: "trie_update xs c t = Some t' \<Longrightarrow> node_cur t' = node_cur t"
  by (cases xs; cases t) (auto split: if_splits bind_splits)

lemma map_of_in: "omap_ok m \<Longrightarrow> map_of m x = Some t \<longleftrightarrow> (x, t) \<in> set m"
  using omap_ok_distinct [of m] by auto

lemma set_omap_update:
  "omap_ok m \<Longrightarrow> set (omap_update x t m) = insert (x, t) {(y, u) \<in> set m. y \<noteq> x}"
proof -
  assume ok: "omap_ok m"
  have "(y, u) \<in> set (omap_update x t m) \<longleftrightarrow> (y, u) \<in> insert (x, t) {(y, u) \<in> set m. y \<noteq> x}" for y u
    using map_of_in [OF omap_ok_update [OF ok], of x t y u] map_of_in [OF ok, of y u]
    by (auto simp: map_of_omap_update [OF ok] split: if_splits)
  then show ?thesis by auto
qed

lemma trie_ok_update:
  "trie_ok pre t \<Longrightarrow> seg_path (pre @ xs) \<Longrightarrow> trie_update xs c t = Some t' \<Longrightarrow> trie_ok pre t'"
proof (induction xs c t arbitrary: pre t' rule: trie_update.induct)
  case (1 c l k n ch)
  then show ?case by (auto split: if_splits dest: seg_path_not_oset)
next
  case (2 x xs c l k n ch)
  let ?s = "case map_of ch x of None \<Rightarrow> new_node (Some x) | Some t \<Rightarrow> t"
  from "2.prems" obtain u where u: "trie_update xs c ?s = Some u"
    and t': "t' = TrieNode l k n (omap_update x u ch)" by (auto simp: bind_eq_Some_conv)
  have ok: "omap_ok ch" and pre: "oset_ok pre" using "2.prems" seg_path_prefix by auto
  have s: "trie_ok (pre @ [x]) ?s" "node_cur ?s = Some x"
    using "2.prems"(1) ok by (auto simp: new_node_def map_of_in split: option.splits)
  from "2.prems"(2) have "seg_path ((pre @ [x]) @ xs)" by simp
  then have "trie_ok (pre @ [x]) u" using "2.IH" s u by blast
  moreover have "\<not> l" using "2.prems"(1) pre by (auto dest: seg_path_not_oset)
  ultimately show ?case
    using "2.prems"(1) pre ok s(2) u
    by (auto simp: t' set_omap_update dest: node_cur_trie_update)
qed

lemma sum_omap_update:
  fixes g :: "'k::linorder \<Rightarrow> 'v \<Rightarrow> real"
  assumes "omap_ok m"
  shows "(\<Sum>(y, u) \<leftarrow> omap_update x t m. g y u) =
    (\<Sum>(y, u) \<leftarrow> m. g y u) - (case map_of m x of None \<Rightarrow> 0 | Some u \<Rightarrow> g x u) + g x t"
  using assms
proof (induction x t m rule: omap_update.induct)
  case (2 x t y u m)
  have "map_of m x = None" if "x < y"
    using "2.prems" that by (auto simp: map_of_eq_None_iff dest: less_asym)
  moreover have "map_of m y = None"
    using "2.prems" by (auto simp: map_of_eq_None_iff)
  ultimately show ?case using 2 by (auto split: option.splits)
qed simp

text \<open>The weighted sum over the leaves grows by exactly the inserted segment.\<close>

definition leaf_sum :: "('a list \<Rightarrow> real) \<Rightarrow> 'a list \<Rightarrow> 'a TrieNode \<Rightarrow> real" where
  "leaf_sum f pre t = (\<Sum>(p, n) \<leftarrow> leaf_entries pre t. real (unat n) * f p)"

lemma leaf_sum_node [simp]:
  "leaf_sum f pre (TrieNode True k n ch) = real (unat n) * f pre"
  "leaf_sum f pre (TrieNode False k n ch) = (\<Sum>(x, t) \<leftarrow> ch. leaf_sum f (pre @ [x]) t)"
proof -
  show "leaf_sum f pre (TrieNode False k n ch) = (\<Sum>(x, t) \<leftarrow> ch. leaf_sum f (pre @ [x]) t)"
    by (induction ch) (auto simp: leaf_sum_def)
qed (simp add: leaf_sum_def)

lemma no_overflow: "n + c \<ge> n \<Longrightarrow> unat (n + c) = unat n + unat c" for n c :: u64
  by (metis add.commute no_olen_add_nat word_le_nat_alt not_less unat_plus_simple)

lemma leaf_sum_update:
  "trie_ok pre t \<Longrightarrow> seg_path (pre @ xs) \<Longrightarrow> trie_update xs c t = Some t' \<Longrightarrow>
   leaf_sum f pre t' = leaf_sum f pre t + real (unat c) * f (pre @ xs)"
proof (induction xs c t arbitrary: pre t' rule: trie_update.induct)
  case (1 c l k n ch)
  then show ?case
    by (cases l) (auto split: if_splits dest: seg_path_not_oset simp: no_overflow distrib_right)
next
  case (2 x xs c l k n ch)
  let ?s = "case map_of ch x of None \<Rightarrow> new_node (Some x) | Some t \<Rightarrow> t"
  from "2.prems" obtain u where u: "trie_update xs c ?s = Some u"
    and t': "t' = TrieNode l k n (omap_update x u ch)" by (auto simp: bind_eq_Some_conv)
  have ok: "omap_ok ch" and l: "\<not> l" using "2.prems" seg_path_prefix seg_path_not_oset by auto
  have s: "trie_ok (pre @ [x]) ?s"
    using "2.prems"(1) ok by (auto simp: new_node_def map_of_in split: option.splits)
  from "2.prems"(2) have "seg_path ((pre @ [x]) @ xs)" by simp
  from "2.IH" [OF s this u]
  have "leaf_sum f (pre @ [x]) u = leaf_sum f (pre @ [x]) ?s + real (unat c) * f (pre @ x # xs)"
    by simp
  with l ok show ?case
    by (auto simp: t' sum_omap_update new_node_def split: option.splits)
qed

subsection \<open>Reading a leaf back\<close>

definition leaf_at :: "'a TrieNode \<Rightarrow> 'a list \<Rightarrow> u64 option" where
  "leaf_at t p = (case node_at t p of
     Some n \<Rightarrow> if isLeaf n then Some (node_count n) else None | None \<Rightarrow> None)"

lemma leaf_at_new_node [simp]: "leaf_at (new_node k) p = None"
  by (cases p) (auto simp: leaf_at_def new_node_def)

lemma leaf_at_Nil [simp]: "leaf_at (TrieNode l k n ch) [] = (if l then Some n else None)"
  by (simp add: leaf_at_def)

lemma leaf_at_Cons [simp]:
  "leaf_at (TrieNode l k n ch) (x # xs) = (case map_of ch x of None \<Rightarrow> None | Some t \<Rightarrow> leaf_at t xs)"
  by (simp add: leaf_at_def split: option.split)

lemma leaf_at_update:
  "trie_ok pre t \<Longrightarrow> seg_path (pre @ xs) \<Longrightarrow> trie_update xs c t = Some t' \<Longrightarrow>
   leaf_at t' q = (if q = xs then Some ((case leaf_at t xs of None \<Rightarrow> 0 | Some n \<Rightarrow> n) + c) else leaf_at t q)"
proof (induction xs c t arbitrary: pre t' q rule: trie_update.induct)
  case (1 c l k n ch)
  have "ch = []" using "1.prems"(1,2) by (auto dest: seg_path_not_oset)
  with 1 show ?case
    by (cases l; cases q) (auto split: if_splits)
next
  case (2 x xs c l k n ch)
  let ?s = "case map_of ch x of None \<Rightarrow> new_node (Some x) | Some t \<Rightarrow> t"
  from "2.prems" obtain u where u: "trie_update xs c ?s = Some u"
    and t': "t' = TrieNode l k n (omap_update x u ch)" by (auto simp: bind_eq_Some_conv)
  have ok: "omap_ok ch" using "2.prems" by auto
  have s: "trie_ok (pre @ [x]) ?s"
    using "2.prems"(1) ok by (auto simp: new_node_def map_of_in split: option.splits)
  from "2.prems"(2) have "seg_path ((pre @ [x]) @ xs)" by simp
  note IH = "2.IH" [OF s this u]
  show ?case
  proof (cases q)
    case Nil
    then show ?thesis by (simp add: t')
  next
    case (Cons y ys)
    with IH [of ys] ok show ?thesis
      by (auto simp: t' map_of_omap_update split: option.splits)
  qed
qed

lemma node_at_cur:
  "trie_ok pre t \<Longrightarrow> node_at t (xs @ [x]) = Some n \<Longrightarrow> node_cur n = Some x"
proof (induction xs arbitrary: pre t)
  case Nil
  then show ?case by (cases t) (auto simp: map_of_in split: option.splits)
next
  case (Cons y xs)
  obtain l k m ch where t: "t = TrieNode l k m ch" by (cases t)
  with Cons.prems obtain u where "map_of ch y = Some u" "node_at u (xs @ [x]) = Some n"
    by (auto split: option.splits)
  with Cons t show ?case by (auto simp: map_of_in)
qed

lemma node_at_prefix: "node_at t (p @ q) = Some n \<Longrightarrow> \<exists>m. node_at t p = Some m"
  by (induction t p rule: node_at.induct) (auto split: option.splits)

lemma export_walk_spec:
  assumes "trie_ok [] t" and "node_at t path = Some n" and "i \<le> length path"
  shows "\<exists>seg'. export_walk t path i seg = Some seg' \<and> seg_count seg' = seg_count seg \<and>
    seg_set seg' = fold oset_insert (rev (take i path)) (seg_set seg) \<and>
    (seg_set seg \<noteq> [] \<longrightarrow> seg_head seg' = seg_head seg)"
  using assms(3)
proof (induction i arbitrary: seg)
  case (Suc i)
  have "path = take (Suc i) path @ drop (Suc i) path" by simp
  with assms(2) obtain m where m: "node_at t (take (Suc i) path) = Some m"
    by (metis node_at_prefix)
  have tk: "take (Suc i) path = take i path @ [path ! i]"
    using Suc.prems by (simp add: take_Suc_conv_app_nth)
  with m assms(1) have c: "node_cur m = Some (path ! i)" by (metis node_at_cur)
  from Suc obtain seg' where "export_walk t path i (seg_insert (path ! i) seg) = Some seg'"
    "seg_count seg' = seg_count seg"
    "seg_set seg' = fold oset_insert (rev (take i path)) (oset_insert (path ! i) (seg_set seg))"
    "seg_head seg' = (if seg_set seg = [] then Some (path ! i) else seg_head seg)"
    by (force simp: seg_insert_def)
  with m c tk show ?case by auto
qed simp

lemma leaf_shape:
  "trie_ok pre t \<Longrightarrow> leaf_at t q = Some n \<Longrightarrow> seg_path (pre @ q)"
proof (induction q arbitrary: pre t)
  case Nil
  then show ?case by (cases t) (auto split: if_splits)
next
  case (Cons y q)
  obtain l k m ch where t: "t = TrieNode l k m ch" by (cases t)
  with Cons.prems obtain u where u: "(y, u) \<in> set ch" "leaf_at u q = Some n"
    by (auto simp: map_of_in split: option.splits)
  with Cons.prems(1) t have "trie_ok (pre @ [y]) u" by auto
  from Cons.IH [OF this u(2)] show ?case by simp
qed

text \<open>A leaf gives back the set, the head and the counter it stands for.\<close>

lemma ExportSegment_leaf:
  assumes "tries dr rid = Some t" and "trie_ok [] t" and "leaf_at t p = Some n"
  obtains s h where "p = s @ [h]" "oset_ok s" "h \<in> set s" "2 \<le> length s"
    "ExportSegment dr new_segment (rid, p) = Some \<lparr>seg_head = Some h, seg_set = s, seg_count = n\<rparr>"
proof -
  from leaf_shape [OF assms(2,3)] obtain s h where p: "p = s @ [h]" "oset_ok s" "h \<in> set s" "2 \<le> length s"
    by (auto simp: seg_path_def)
  from assms(3) obtain node where node: "node_at t p = Some node" "isLeaf node" "node_count node = n"
    by (auto simp: leaf_at_def split: option.splits if_splits)
  have c: "node_cur node = Some h" using node_at_cur [OF assms(2)] node(1) p(1) by blast
  let ?s0 = "seg_setCount n (seg_setHead h new_segment)"
  have m: "export_walk t p (length p) ?s0 = export_walk t p (length s) (seg_insert h ?s0)"
    using node(1) c p(1) by simp
  from export_walk_spec [OF assms(2) node(1), of "length s" "seg_insert h ?s0"] p(1)
  obtain seg' where seg': "export_walk t p (length s) (seg_insert h ?s0) = Some seg'"
    "seg_count seg' = n" "seg_set seg' = fold oset_insert (rev s) [h]" "seg_head seg' = Some h"
    by (auto simp: seg_insert_def seg_setCount_def seg_setHead_def new_segment_def)
  moreover have "fold oset_insert (rev s) [h] = s"
    using p by (intro oset_eqI) auto
  ultimately have "export_walk t p (length p) ?s0 = Some \<lparr>seg_head = Some h, seg_set = s, seg_count = n\<rparr>"
    using m by simp
  then have "ExportSegment dr new_segment (rid, p) = Some \<lparr>seg_head = Some h, seg_set = s, seg_count = n\<rparr>"
    using assms(1) node c by (simp add: ExportSegment_def)
  with p that show ?thesis by blast
qed

subsection \<open>A sequence of segments\<close>

definition insert_segs :: "nat \<Rightarrow> 'a::linorder DataReuseSegment list \<Rightarrow> 'a DataReuse \<Rightarrow> 'a DataReuse option" where
  "insert_segs rid segs dr = foldM (UpdateTrie rid) segs dr"

text \<open>
  The specification: the segments with at least two members, as a bag keyed by member set and
  head, with the counts of equal segments added up.
\<close>

definition seg_key :: "'a DataReuseSegment \<Rightarrow> 'a list" where
  "seg_key seg = seg_set seg @ [the (seg_head seg)]"

definition big :: "'a DataReuseSegment list \<Rightarrow> 'a DataReuseSegment list" where
  "big segs = filter (\<lambda>seg. 1 < seg_size seg) segs"

definition key_total :: "'a DataReuseSegment list \<Rightarrow> 'a list \<Rightarrow> nat" where
  "key_total segs p = (\<Sum>seg \<leftarrow> big segs. if seg_key seg = p then unat (seg_count seg) else 0)"

definition segs_ok :: "'a::linorder DataReuseSegment list \<Rightarrow> bool" where
  "segs_ok segs \<longleftrightarrow> (\<forall>seg \<in> set segs. seg_ok seg) \<and> (\<forall>p \<in> seg_key ` set segs. key_total segs p < 2 ^ 64)"

definition trie_holds :: "'a::linorder TrieNode \<Rightarrow> 'a DataReuseSegment list \<Rightarrow> bool" where
  "trie_holds t segs \<longleftrightarrow> trie_ok [] t \<and>
     (\<forall>p. map_option unat (leaf_at t p) =
        (if p \<in> seg_key ` set (big segs) then Some (key_total segs p) else None)) \<and>
     (\<forall>p. seg_path p \<longrightarrow> node_at t p \<noteq> None \<longrightarrow> leaf_at t p \<noteq> None) \<and>
     (\<forall>f. leaf_sum f [] t = (\<Sum>seg \<leftarrow> big segs. real (unat (seg_count seg)) * f (seg_key seg)))"

lemma trie_update_defined:
  "trie_ok pre t \<Longrightarrow> seg_path (pre @ xs) \<Longrightarrow>
   unat (case leaf_at t xs of None \<Rightarrow> 0 | Some n \<Rightarrow> n) + unat c < 2 ^ 64 \<Longrightarrow> \<exists>t'. trie_update xs c t = Some t'"
proof (induction xs c t arbitrary: pre rule: trie_update.induct)
  case (1 c l k n ch)
  have "unat n + unat c < 2 ^ 64" using "1.prems" by (cases l) auto
  then have "n \<le> n + c" by (subst no_olen_add_nat) simp
  then show ?case by simp
next
  case (2 x xs c l k n ch)
  let ?s = "case map_of ch x of None \<Rightarrow> new_node (Some x) | Some t \<Rightarrow> t"
  have "trie_ok (pre @ [x]) ?s"
    using "2.prems"(1) by (auto simp: new_node_def map_of_in split: option.splits)
  moreover have "unat (case leaf_at ?s xs of None \<Rightarrow> 0 | Some n \<Rightarrow> n) + unat c < 2 ^ 64"
    using "2.prems"(3) by (auto split: option.splits)
  ultimately obtain u where "trie_update xs c ?s = Some u"
    using "2.IH" [of "pre @ [x]"] "2.prems"(2) by auto
  then show ?case by simp
qed

lemma node_at_update_dom:
  "trie_ok pre t \<Longrightarrow> seg_path (pre @ xs) \<Longrightarrow> trie_update xs c t = Some t' \<Longrightarrow>
   node_at t' q \<noteq> None \<Longrightarrow> node_at t q \<noteq> None \<or> (\<exists>r. xs = q @ r)"
proof (induction xs c t arbitrary: pre t' q rule: trie_update.induct)
  case (1 c l k n ch)
  then have "ch = []" by (auto dest: seg_path_not_oset)
  with 1 show ?case by (cases q) (auto split: if_splits)
next
  case (2 x xs c l k n ch)
  let ?s = "case map_of ch x of None \<Rightarrow> new_node (Some x) | Some t \<Rightarrow> t"
  from "2.prems" obtain u where u: "trie_update xs c ?s = Some u"
    and t': "t' = TrieNode l k n (omap_update x u ch)" by (auto simp: bind_eq_Some_conv)
  have ok: "omap_ok ch" using "2.prems" by auto
  have s: "trie_ok (pre @ [x]) ?s"
    using "2.prems"(1) ok by (auto simp: new_node_def map_of_in split: option.splits)
  from "2.prems"(2) have sp: "seg_path ((pre @ [x]) @ xs)" by simp
  show ?case
  proof (cases q)
    case (Cons y ys)
    show ?thesis
    proof (cases "y = x")
      case True
      with Cons "2.prems"(4) ok have "node_at u ys \<noteq> None" by (simp add: t' map_of_omap_update)
      from "2.IH" [OF s sp u this] show ?thesis
        using Cons True by (cases "map_of ch x"; cases ys) (auto simp: new_node_def)
    next
      case False
      with Cons "2.prems"(4) ok show ?thesis by (simp add: t' map_of_omap_update)
    qed
  qed simp
qed

lemma big_snoc: "big (segs @ [seg]) = big segs @ (if 1 < seg_size seg then [seg] else [])"
  by (simp add: big_def)

lemma key_total_snoc:
  "key_total (segs @ [seg]) p =
   key_total segs p + (if 1 < seg_size seg \<and> seg_key seg = p then unat (seg_count seg) else 0)"
  by (simp add: key_total_def big_snoc)

lemma key_total_absent: "p \<notin> seg_key ` set (big segs) \<Longrightarrow> key_total segs p = 0"
  by (auto simp: key_total_def sum_list_eq_0_iff)

text \<open>What a trie that stands for \<open>segs\<close> has at the path of a segment.\<close>

lemma trie_holds_at:
  assumes "trie_holds t segs"
  shows "trie_ok [] t" and "map_option unat (leaf_at t p) = (if p \<in> seg_key ` set (big segs) then Some (key_total segs p) else None)"
    and "seg_path p \<Longrightarrow> node_at t p = None \<longleftrightarrow> p \<notin> seg_key ` set (big segs)"
    and "unat (case leaf_at t p of None \<Rightarrow> 0 | Some n \<Rightarrow> n) = key_total segs p"
proof -
  show "trie_ok [] t" using assms by (simp add: trie_holds_def)
  show lf: "map_option unat (leaf_at t p) = (if p \<in> seg_key ` set (big segs) then Some (key_total segs p) else None)"
    using assms unfolding trie_holds_def by blast
  show "unat (case leaf_at t p of None \<Rightarrow> 0 | Some n \<Rightarrow> n) = key_total segs p"
    using lf key_total_absent [of p segs] by (cases "leaf_at t p") (auto split: if_splits)
  assume p: "seg_path p"
  have "leaf_at t p = None \<longleftrightarrow> p \<notin> seg_key ` set (big segs)"
    using lf by (cases "leaf_at t p") (auto split: if_splits)
  moreover have "node_at t p \<noteq> None \<Longrightarrow> leaf_at t p \<noteq> None" using assms p by (simp add: trie_holds_def)
  ultimately show "node_at t p = None \<longleftrightarrow> p \<notin> seg_key ` set (big segs)" by (auto simp: leaf_at_def)
qed

text \<open>An update creates no inner node at the path of a segment.\<close>

lemma update_leaf_closed:
  assumes closed: "\<forall>p. seg_path p \<longrightarrow> node_at t p \<noteq> None \<longrightarrow> leaf_at t p \<noteq> None" and tok: "trie_ok [] t"
    and q: "seg_path q" "trie_update q c t = Some t'" and p: "seg_path p" "node_at t' p \<noteq> None"
  shows "leaf_at t' p \<noteq> None"
proof (cases "p = q")
  case True
  then show ?thesis using q by (simp add: leaf_at_update [OF tok _ q(2)])
next
  case False
  have "\<not> (\<exists>r. q = p @ r)"
  proof
    assume "\<exists>r. q = p @ r"
    then obtain y ys where "q = p @ y # ys" using False by (metis append_Nil2 list.exhaust)
    with q(1) p(1) show False by (metis seg_path_prefix seg_path_not_oset)
  qed
  then have "node_at t p \<noteq> None" using node_at_update_dom [OF tok _ q(2) p(2)] q(1) by auto
  then have "leaf_at t p \<noteq> None" using closed p(1) by blast
  then show ?thesis using False q(1) by (simp add: leaf_at_update [OF tok _ q(2)])
qed

lemma trie_holds_update:
  assumes holds: "trie_holds t segs" and path: "seg_path (seg_key seg)" and big: "1 < seg_size seg"
    and total: "key_total (segs @ [seg]) (seg_key seg) < 2 ^ 64"
  obtains t' where "trie_update (seg_key seg) (seg_count seg) t = Some t'" "trie_holds t' (segs @ [seg])"
proof -
  note at = trie_holds_at [OF holds]
  note tok = at(1)
  have fits: "key_total segs (seg_key seg) + unat (seg_count seg) < 2 ^ 64"
    using total big by (simp add: key_total_snoc)
  obtain t' where t': "trie_update (seg_key seg) (seg_count seg) t = Some t'"
    using trie_update_defined [OF tok, of "seg_key seg"] path at(4) fits by (metis append_Nil)
  let ?new = "(case leaf_at t (seg_key seg) of None \<Rightarrow> 0 | Some n \<Rightarrow> n) + seg_count seg"
  have new: "unat ?new = key_total segs (seg_key seg) + unat (seg_count seg)"
    using at(4) fits by (simp add: unat_word_ariths)
  have leaf: "leaf_at t' p = (if p = seg_key seg then Some ?new else leaf_at t p)" for p
    using path by (simp add: leaf_at_update [OF tok _ t'])
  have "map_option unat (leaf_at t' p) =
      (if p \<in> seg_key ` set (big (segs @ [seg])) then Some (key_total (segs @ [seg]) p) else None)" for p
    unfolding leaf using new big at(2) [of p] by (auto simp: big_snoc key_total_snoc)
  moreover have "\<forall>p. seg_path p \<longrightarrow> node_at t' p \<noteq> None \<longrightarrow> leaf_at t' p \<noteq> None"
    using update_leaf_closed [OF _ tok path t'] holds by (simp add: trie_holds_def)
  moreover have "leaf_sum f [] t' = (\<Sum>s \<leftarrow> big (segs @ [seg]). real (unat (seg_count s)) * f (seg_key s))" for f
    using holds leaf_sum_update [OF tok _ t', of f] path big by (simp add: trie_holds_def big_snoc)
  ultimately have "trie_holds t' (segs @ [seg])"
    using trie_ok_update [OF tok _ t'] path by (simp add: trie_holds_def)
  with t' show thesis by (rule that)
qed

lemma UpdateTrie_holds:
  assumes holds: "trie_holds t segs" and at: "tries dr rid = Some t" and ok: "seg_ok seg"
    and total: "key_total (segs @ [seg]) (seg_key seg) < 2 ^ 64"
  shows "\<exists>dr' t'. UpdateTrie rid seg dr = Some dr' \<and> tries dr' = (tries dr)(rid \<mapsto> t') \<and>
    trie_holds t' (segs @ [seg]) \<and>
    leaves dr' = leaves dr @
      (if 1 < seg_size seg \<and> seg_key seg \<notin> seg_key ` set (big segs) then [(rid, seg_key seg)] else [])"
proof (cases "1 < seg_size seg")
  case False
  then have "trie_holds t (segs @ [seg])"
    using holds by (simp add: trie_holds_def big_snoc key_total_snoc)
  moreover have "(tries dr)(rid \<mapsto> t) = tries dr" using at by auto
  ultimately show ?thesis using False by (auto simp: UpdateTrie_def intro!: exI [of _ t])
next
  case True
  then have "seg_set seg \<noteq> []" by (auto simp: seg_size_def)
  with ok obtain h where h: "seg_head seg = Some h" by (auto simp: seg_ok_def)
  then have key: "seg_key seg = seg_set seg @ [h]" by (simp add: seg_key_def)
  have path: "seg_path (seg_key seg)" using seg_path_of_seg [OF ok True h] key by simp
  obtain t' where "trie_update (seg_key seg) (seg_count seg) t = Some t'" "trie_holds t' (segs @ [seg])"
    by (rule trie_holds_update [OF holds path True total])
  then show ?thesis
    using True at h key trie_holds_at(3) [OF holds path] by (auto simp: UpdateTrie_def Let_def)
qed

lemma key_total_mono: "key_total segs p \<le> key_total (segs @ segs') p"
  by (simp add: key_total_def big_def)

lemma trie_holds_new [simp]: "trie_holds (new_node None) []"
  by (auto simp: trie_holds_def big_def new_node_def key_total_def leaf_at_def
      simp flip: new_node_def split: option.split)
    (auto simp: new_node_def seg_path_def neq_Nil_conv elim: node_at.elims split: option.splits)

text \<open>
  After any sequence of well-formed segments the trie holds exactly the bag of the segments, and
  the leaf list names each of its entries once, in the order of first appearance.
\<close>

lemma insert_segs_holds:
  "segs_ok segs \<Longrightarrow> \<exists>dr t. insert_segs own_root segs new_DataReuse = Some dr \<and>
     tries dr = [own_root \<mapsto> t] \<and> trie_holds t segs \<and> distinct (leaves dr) \<and>
     set (leaves dr) = Pair own_root ` seg_key ` set (big segs)"
proof (induction segs rule: rev_induct)
  case Nil
  have "trie_holds (new_node None) []" by (rule trie_holds_new)
  then show ?case by (intro exI [of _ new_DataReuse] exI [of _ "new_node None"])
    (simp add: insert_segs_def new_DataReuse_def big_def)
next
  case (snoc seg segs)
  have "key_total segs p < 2 ^ 64" if "p \<in> seg_key ` set segs" for p
    using snoc.prems that key_total_mono [of segs p "[seg]"]
    by (auto simp: segs_ok_def simp del: One_nat_def intro: le_less_trans)
  then have "segs_ok segs" using snoc.prems by (auto simp: segs_ok_def)
  with snoc.IH obtain dr t where dr: "insert_segs own_root segs new_DataReuse = Some dr"
    "tries dr = [own_root \<mapsto> t]" "trie_holds t segs" "distinct (leaves dr)"
    "set (leaves dr) = Pair own_root ` seg_key ` set (big segs)" by blast
  have "seg_ok seg" "key_total (segs @ [seg]) (seg_key seg) < 2 ^ 64"
    using snoc.prems by (auto simp: segs_ok_def)
  have root: "tries dr own_root = Some t" "(tries dr)(own_root \<mapsto> u) = [own_root \<mapsto> u]" for u
    using dr(2) by simp_all
  obtain dr' t' where
    "UpdateTrie own_root seg dr = Some dr'" "tries dr' = [own_root \<mapsto> t']"
    "trie_holds t' (segs @ [seg])"
    "leaves dr' = leaves dr @
      (if 1 < seg_size seg \<and> seg_key seg \<notin> seg_key ` set (big segs) then [(own_root, seg_key seg)] else [])"
    using UpdateTrie_holds [OF dr(3) root(1) \<open>seg_ok seg\<close>
        \<open>key_total (segs @ [seg]) (seg_key seg) < 2 ^ 64\<close>] unfolding root(2) by blast
  with dr show ?case
    by (intro exI [of _ dr'] exI [of _ t']) (auto simp: insert_segs_def foldM_append big_snoc)
qed

text \<open>Every leaf gives back its segment with the summed count.\<close>

lemma insert_segs_exports:
  assumes "segs_ok segs"
  shows "\<exists>dr. insert_segs own_root segs new_DataReuse = Some dr \<and> distinct (leaves dr) \<and>
    set (leaves dr) = Pair own_root ` seg_key ` set (big segs) \<and>
    (\<forall>p \<in> seg_key ` set (big segs). ExportSegment dr new_segment (own_root, p) =
       Some \<lparr>seg_head = Some (last p), seg_set = butlast p, seg_count = of_nat (key_total segs p)\<rparr>)"
proof -
  obtain dr t where dr: "insert_segs own_root segs new_DataReuse = Some dr" "tries dr = [own_root \<mapsto> t]"
    "trie_holds t segs" "distinct (leaves dr)" "set (leaves dr) = Pair own_root ` seg_key ` set (big segs)"
    using insert_segs_holds [OF assms] by blast
  have "ExportSegment dr new_segment (own_root, p) =
       Some \<lparr>seg_head = Some (last p), seg_set = butlast p, seg_count = of_nat (key_total segs p)\<rparr>"
    if p: "p \<in> seg_key ` set (big segs)" for p
  proof -
    have "map_option unat (leaf_at t p) = Some (key_total segs p)"
      using dr(3) p unfolding trie_holds_def by simp
    then obtain c where c: "leaf_at t p = Some c" "unat c = key_total segs p" by auto
    then have "c = of_nat (key_total segs p)" by (metis of_nat_unat ucast_id)
    moreover have "tries dr own_root = Some t" "trie_ok [] t"
      using dr(2,3) by (simp_all add: trie_holds_def)
    ultimately show ?thesis using ExportSegment_leaf [OF _ _ c(1), of dr own_root] by force
  qed
  with dr show ?thesis by blast
qed

end
