(* ===== verification/Switch_Count.thy ===== *)
theory Switch_Count
  imports PIM_Common
begin

text \<open>
  The switch counters of \<open>PIMProfSolver/DataReuse.h\<close>: \<open>SwitchCountMatrix\<close> collects, while
  the program runs, how often control passes from one basic block to another;
  \<open>SwitchCountList\<close> is what the solver reads back, one row of (target, count) pairs per
  source block, with the cost of a row under an offloading decision.
\<close>

subsection \<open>SwitchCountMatrix\<close>

record 'a SwitchCountMatrix =
  elem2idx :: "'a \<rightharpoonup> nat"
  idx2elem :: "'a list"
  total_count :: "u64 list"
  count_rows :: "u64 list list"

definition empty_matrix :: "'a SwitchCountMatrix" where
  "empty_matrix = \<lparr>elem2idx = Map.empty, idx2elem = [], total_count = [], count_rows = []\<rparr>"

definition createElem :: "'a \<Rightarrow> 'a SwitchCountMatrix \<Rightarrow> 'a SwitchCountMatrix" where
  "createElem elem m =
     (case elem2idx m elem of
        None \<Rightarrow> m\<lparr>idx2elem := idx2elem m @ [elem],
                 elem2idx := (elem2idx m)(elem \<mapsto> length (idx2elem m))\<rparr>
      | Some _ \<Rightarrow> m)"

text \<open>\<open>None\<close> stands for a failed assertion.\<close>

definition getIdx :: "'a \<Rightarrow> 'a SwitchCountMatrix \<Rightarrow> nat option" where
  "getIdx elem m = elem2idx m elem"

definition getElem :: "nat \<Rightarrow> 'a SwitchCountMatrix \<Rightarrow> 'a option" where
  "getElem idx m = vec_at (idx2elem m) (int idx)"

definition matrix_insert :: "'a \<Rightarrow> 'a \<Rightarrow> u64 \<Rightarrow> 'a SwitchCountMatrix \<Rightarrow> 'a SwitchCountMatrix option" where
  "matrix_insert from to c m = do {
     let m = createElem to (createElem from m);
     fromidx \<leftarrow> getIdx from m;
     toidx \<leftarrow> getIdx to m;
     let m = (if length (count_rows m) \<le> fromidx
              then m\<lparr>count_rows := vec_grow (fromidx + 1) [] (count_rows m),
                     total_count := vec_grow (fromidx + 1) 0 (total_count m)\<rparr>
              else m);
     row \<leftarrow> vec_at (count_rows m) (int fromidx);
     let row = (if length row \<le> toidx then vec_grow (toidx + 1) 0 row else row);
     old \<leftarrow> vec_at row (int toidx);
     total \<leftarrow> vec_at (total_count m) (int fromidx);
     Some (m\<lparr>count_rows := (count_rows m)[fromidx := row[toidx := old + c]],
             total_count := (total_count m)[fromidx := total + c]\<rparr>) }"

text \<open>What the matrix stands for: the counter of each pair and of each source.\<close>

definition cell :: "u64 list list \<Rightarrow> nat \<Rightarrow> nat \<Rightarrow> u64" where
  "cell rows i j = (if i < length rows \<and> j < length (rows ! i) then rows ! i ! j else 0)"

definition matrix_count :: "'a SwitchCountMatrix \<Rightarrow> 'a \<Rightarrow> 'a \<Rightarrow> u64" where
  "matrix_count m from to =
     (case (elem2idx m from, elem2idx m to) of (Some i, Some j) \<Rightarrow> cell (count_rows m) i j | _ \<Rightarrow> 0)"

definition matrix_total :: "'a SwitchCountMatrix \<Rightarrow> 'a \<Rightarrow> u64" where
  "matrix_total m from = (case elem2idx m from of Some i \<Rightarrow> cell [total_count m] 0 i | None \<Rightarrow> 0)"

definition matrix_ok :: "'a SwitchCountMatrix \<Rightarrow> bool" where
  "matrix_ok m \<longleftrightarrow>
     (\<forall>e i. elem2idx m e = Some i \<longleftrightarrow> i < length (idx2elem m) \<and> idx2elem m ! i = e) \<and>
     length (count_rows m) = length (total_count m) \<and>
     length (count_rows m) \<le> length (idx2elem m) \<and>
     (\<forall>row \<in> set (count_rows m). length row \<le> length (idx2elem m))"

lemma matrix_ok_empty: "matrix_ok empty_matrix"
  by (simp add: matrix_ok_def empty_matrix_def)

lemma createElem_spec:
  assumes "matrix_ok m"
  shows "matrix_ok (createElem e m)"
    and "\<exists>i. elem2idx (createElem e m) e = Some i"
    and "elem2idx m x = Some i \<Longrightarrow> elem2idx (createElem e m) x = Some i"
    and "elem2idx m x = None \<Longrightarrow> elem2idx (createElem e m) x = Some i \<Longrightarrow>
      length (idx2elem m) \<le> i"
    and "count_rows (createElem e m) = count_rows m"
    and "total_count (createElem e m) = total_count m"
proof -
  have "matrix_ok (createElem e m) \<and> (\<exists>i. elem2idx (createElem e m) e = Some i) \<and>
    (elem2idx m x = Some i \<longrightarrow> elem2idx (createElem e m) x = Some i) \<and>
    (elem2idx m x = None \<longrightarrow> elem2idx (createElem e m) x = Some i \<longrightarrow> length (idx2elem m) \<le> i)"
  proof (cases "elem2idx m e")
    case (Some j)
    with assms show ?thesis by (auto simp: createElem_def)
  next
    case None
    have idx: "elem2idx m y = Some k \<longleftrightarrow> k < length (idx2elem m) \<and> idx2elem m ! k = y" for y k
      using assms by (simp add: matrix_ok_def)
    have new: "k < length (idx2elem m) \<Longrightarrow> idx2elem m ! k \<noteq> e" for k
      using None idx [of e k] by auto
    have "((elem2idx m)(e \<mapsto> length (idx2elem m))) y = Some k \<longleftrightarrow>
        k < Suc (length (idx2elem m)) \<and> (idx2elem m @ [e]) ! k = y" for y k
      using idx [of y k] new [of k] by (auto simp: nth_append less_Suc_eq)
    moreover have "\<forall>row \<in> set (count_rows m). length row \<le> Suc (length (idx2elem m))"
      using assms by (auto simp: matrix_ok_def intro: le_SucI)
    ultimately have "matrix_ok (createElem e m)"
      using assms None by (auto simp: createElem_def matrix_ok_def simp del: fun_upd_apply)
    with None show ?thesis by (auto simp: createElem_def)
  qed
  then show "matrix_ok (createElem e m)" and "\<exists>i. elem2idx (createElem e m) e = Some i"
    and "elem2idx m x = Some i \<Longrightarrow> elem2idx (createElem e m) x = Some i"
    and "elem2idx m x = None \<Longrightarrow> elem2idx (createElem e m) x = Some i \<Longrightarrow>
      length (idx2elem m) \<le> i"
    by blast+
qed (simp_all add: createElem_def split: option.split)

lemma cell_outside:
  "matrix_ok m \<Longrightarrow> length (idx2elem m) \<le> i \<or> length (idx2elem m) \<le> j \<Longrightarrow> cell (count_rows m) i j = 0"
  "matrix_ok m \<Longrightarrow> length (idx2elem m) \<le> i \<Longrightarrow> cell [total_count m] 0 i = 0"
proof -
  assume ok: "matrix_ok m"
  have "length (count_rows m ! k) \<le> length (idx2elem m)" if "k < length (count_rows m)" for k
    using ok that nth_mem [OF that] unfolding matrix_ok_def by blast
  then show "length (idx2elem m) \<le> i \<or> length (idx2elem m) \<le> j \<Longrightarrow> cell (count_rows m) i j = 0"
    using ok unfolding matrix_ok_def cell_def by fastforce
  show "length (idx2elem m) \<le> i \<Longrightarrow> cell [total_count m] 0 i = 0"
    using ok by (simp add: matrix_ok_def cell_def)
qed

lemma createElem_counts:
  assumes "matrix_ok m"
  shows "matrix_total (createElem e m) x = matrix_total m x"
    and "matrix_count (createElem e m) x y = matrix_count m x y"
proof -
  note spec = createElem_spec [OF assms, where e = e]
  show "matrix_total (createElem e m) x = matrix_total m x"
    unfolding matrix_total_def
    by (cases "elem2idx m x"; cases "elem2idx (createElem e m) x")
      (auto simp: spec(5,6) cell_outside(2) [OF assms] dest: spec(3) spec(4))
  show "matrix_count (createElem e m) x y = matrix_count m x y"
    unfolding matrix_count_def
    by (cases "elem2idx m x"; cases "elem2idx m y";
        cases "elem2idx (createElem e m) x"; cases "elem2idx (createElem e m) y")
      (use spec(3) [of x] spec(3) [of y] in
        \<open>auto simp: spec(5,6) cell_outside(1) [OF assms] dest: spec(4)\<close>)
qed

text \<open>Growing rows with zeroes does not change a cell.\<close>

lemma cell_grow_rows: "cell (vec_grow n [] rows) i j = cell rows i j"
  by (auto simp: cell_def nth_vec_grow split: if_splits)

lemma cell_grow_row: "cell [vec_grow n 0 row] 0 j = cell [row] 0 j"
  by (auto simp: cell_def nth_vec_grow)

lemma cell_update_row:
  "i < length rows \<Longrightarrow> cell (rows[i := row]) i' j = (if i' = i then cell [row] 0 j else cell rows i' j)"
  by (auto simp: cell_def)

lemma cell_update:
  "j < length row \<Longrightarrow> cell [row[j := row ! j + c]] 0 j' = cell [row] 0 j' + (if j' = j then c else 0)"
  by (auto simp: cell_def)

text \<open>The counting itself, once both elements have an index.\<close>

definition matrix_bump :: "nat \<Rightarrow> nat \<Rightarrow> u64 \<Rightarrow> 'a SwitchCountMatrix \<Rightarrow> 'a SwitchCountMatrix" where
  "matrix_bump i j c m =
     (let rows = (if length (count_rows m) \<le> i then vec_grow (i + 1) [] (count_rows m) else count_rows m);
          tot = (if length (count_rows m) \<le> i then vec_grow (i + 1) 0 (total_count m) else total_count m);
          row = (if length (rows ! i) \<le> j then vec_grow (j + 1) 0 (rows ! i) else rows ! i)
      in m\<lparr>count_rows := rows[i := row[j := row ! j + c]], total_count := tot[i := tot ! i + c]\<rparr>)"

lemma matrix_insert_bump:
  assumes "matrix_ok m" and "m2 = createElem to (createElem from m)" and "elem2idx m2 from = Some i" "elem2idx m2 to = Some j"
    and ok2: "matrix_ok m2"
  shows "matrix_insert from to c m = Some (matrix_bump i j c m2)"
proof -
  have len: "length (count_rows m2) = length (total_count m2)" using ok2 by (simp add: matrix_ok_def)
  have grown: "(if length (count_rows m2) \<le> i
      then m2\<lparr>count_rows := vec_grow (i + 1) [] (count_rows m2), total_count := vec_grow (i + 1) 0 (total_count m2)\<rparr> else m2)
    = m2\<lparr>count_rows := (if length (count_rows m2) \<le> i then vec_grow (i + 1) [] (count_rows m2) else count_rows m2),
         total_count := (if length (count_rows m2) \<le> i then vec_grow (i + 1) 0 (total_count m2) else total_count m2)\<rparr>"
    by simp
  show ?thesis
    using assms(3,4) len unfolding matrix_insert_def assms(2) [symmetric] Let_def
    by (simp add: getIdx_def grown vec_at_int matrix_bump_def Let_def)
qed

lemma matrix_bump_spec:
  assumes ok: "matrix_ok m" and ij: "i < length (idx2elem m)" "j < length (idx2elem m)"
  shows "matrix_ok (matrix_bump i j c m)" and "elem2idx (matrix_bump i j c m) = elem2idx m"
    and "cell (count_rows (matrix_bump i j c m)) x y = cell (count_rows m) x y + (if x = i \<and> y = j then c else 0)"
    and "cell [total_count (matrix_bump i j c m)] 0 x = cell [total_count m] 0 x + (if x = i then c else 0)"
proof -
  define rows where "rows = (if length (count_rows m) \<le> i then vec_grow (i + 1) [] (count_rows m) else count_rows m)"
  define tot where "tot = (if length (count_rows m) \<le> i then vec_grow (i + 1) 0 (total_count m) else total_count m)"
  define row where "row = (if length (rows ! i) \<le> j then vec_grow (j + 1) 0 (rows ! i) else rows ! i)"
  have len: "i < length rows" "i < length tot" "j < length row" "length rows = length tot" "length rows \<le> length (idx2elem m)"
    using ok ij by (auto simp: rows_def tot_def row_def matrix_ok_def)
  have bump: "matrix_bump i j c m = m\<lparr>count_rows := rows[i := row[j := row ! j + c]], total_count := tot[i := tot ! i + c]\<rparr>"
    by (simp add: matrix_bump_def rows_def [symmetric] tot_def [symmetric] row_def [symmetric] Let_def)
  have "\<forall>r \<in> set rows. length r \<le> length (idx2elem m)"
    using ok by (auto simp: rows_def matrix_ok_def vec_grow_def)
  moreover from this len(1) ij have "length row \<le> length (idx2elem m)" by (auto simp: row_def)
  ultimately have "\<forall>r \<in> set (rows[i := row[j := row ! j + c]]). length r \<le> length (idx2elem m)"
    using set_update_subset_insert [of rows i "row[j := row ! j + c]"] by auto
  then show "matrix_ok (matrix_bump i j c m)" using ok len by (simp add: matrix_ok_def bump)
  have "cell [row] 0 y = cell rows i y" for y
    using len(1) by (auto simp: row_def cell_grow_row) (auto simp: cell_def)
  moreover have "cell rows x y = cell (count_rows m) x y" for x y by (simp add: rows_def cell_grow_rows)
  ultimately show "cell (count_rows (matrix_bump i j c m)) x y = cell (count_rows m) x y + (if x = i \<and> y = j then c else 0)"
    using len by (auto simp: bump cell_update_row cell_update)
  show "cell [total_count (matrix_bump i j c m)] 0 x = cell [total_count m] 0 x + (if x = i then c else 0)"
    using len by (simp add: bump cell_update) (simp add: tot_def cell_grow_row)
qed (simp add: matrix_bump_def Let_def)

lemma matrix_insert_spec:
  assumes ok: "matrix_ok m"
  shows "\<exists>m'. matrix_insert from to c m = Some m' \<and> matrix_ok m' \<and>
    (\<forall>x y. matrix_count m' x y = matrix_count m x y + (if x = from \<and> y = to then c else 0)) \<and>
    (\<forall>x. matrix_total m' x = matrix_total m x + (if x = from then c else 0))"
proof -
  define m2 where "m2 = createElem to (createElem from m)"
  note s1 = createElem_spec [OF ok] and s2 = createElem_spec [OF createElem_spec(1) [OF ok]]
  have ok2: "matrix_ok m2" unfolding m2_def by (rule s2(1))
  obtain i j where i: "elem2idx m2 from = Some i" and j: "elem2idx m2 to = Some j"
    using s1(2) s2(2,3) unfolding m2_def by metis
  have inj: "elem2idx m2 x = Some k \<Longrightarrow> elem2idx m2 y = Some k \<Longrightarrow> x = y" for x y k
    using ok2 by (auto simp: matrix_ok_def)
  have ij: "i < length (idx2elem m2)" "j < length (idx2elem m2)"
    using ok2 i j by (auto simp: matrix_ok_def)
  note bump = matrix_bump_spec [OF ok2 ij, of c]
  let ?m = "matrix_bump i j c m2"
  have same: "matrix_count m2 x y = matrix_count m x y" "matrix_total m2 x = matrix_total m x" for x y
    unfolding m2_def createElem_counts [OF s1(1)] createElem_counts [OF ok] by simp_all
  have "matrix_count ?m x y = matrix_count m2 x y + (if x = from \<and> y = to then c else 0)" for x y
    using i j inj bump(2,3) unfolding matrix_count_def
    by (cases "elem2idx m2 x"; cases "elem2idx m2 y") auto
  moreover have "matrix_total ?m x = matrix_total m2 x + (if x = from then c else 0)" for x
    using i inj bump(2,4) unfolding matrix_total_def
    by (cases "elem2idx m2 x") auto
  ultimately show ?thesis
    using matrix_insert_bump [OF ok m2_def i j ok2] bump(1) same by (intro exI [of _ ?m] conjI allI) simp_all
qed

text \<open>A run of insertions: each counter is the sum of what was inserted for it.\<close>

definition matrix_inserts :: "('a \<times> 'a \<times> u64) list \<Rightarrow> 'a SwitchCountMatrix option" where
  "matrix_inserts es = foldM (\<lambda>(from, to, c) m. matrix_insert from to c m) es empty_matrix"

lemma matrix_inserts_spec:
  "\<exists>m. matrix_inserts es = Some m \<and> matrix_ok m \<and>
     (\<forall>x y. matrix_count m x y = (\<Sum>(f, t, c) \<leftarrow> es. if x = f \<and> y = t then c else 0)) \<and>
     (\<forall>x. matrix_total m x = (\<Sum>(f, t, c) \<leftarrow> es. if x = f then c else 0))"
proof (induction es rule: rev_induct)
  case Nil
  show ?case by (simp add: matrix_inserts_def matrix_ok_empty)
    (simp add: matrix_count_def matrix_total_def empty_matrix_def)
next
  case (snoc e es)
  obtain f t c where e: "e = (f, t, c)" by (cases e)
  from snoc.IH obtain m where m: "matrix_inserts es = Some m" "matrix_ok m"
    "\<And>x y. matrix_count m x y = (\<Sum>(f, t, c) \<leftarrow> es. if x = f \<and> y = t then c else 0)"
    "\<And>x. matrix_total m x = (\<Sum>(f, t, c) \<leftarrow> es. if x = f then c else 0)" by blast
  from matrix_insert_spec [OF m(2), of f t c] obtain m' where "matrix_insert f t c m = Some m'"
    "matrix_ok m'"
    "\<And>x y. matrix_count m' x y = matrix_count m x y + (if x = f \<and> y = t then c else 0)"
    "\<And>x. matrix_total m' x = matrix_total m x + (if x = f then c else 0)" by blast
  with m(1,3,4) e show ?case by (auto simp: matrix_inserts_def foldM_append)
qed

subsection \<open>SwitchCountList\<close>

record SwitchCountRow =
  row_fromidx :: BBLID
  toidxvec :: "(BBLID \<times> u64) list"

type_synonym SwitchCountList = "SwitchCountRow list"

text \<open>
  The cost of one row: each transition whose two ends are placed, on different sites, pays the
  switch cost of the site it leaves.
\<close>

definition Row_Cost :: "SwitchCountRow \<Rightarrow> DECISION \<Rightarrow> COST list \<Rightarrow> COST option" where
  "Row_Cost row decision switch_cost =
     (if toidxvec row = [] then Some 0
      else foldM (\<lambda>(toidx, count) result. do {
             f \<leftarrow> vec_at decision (row_fromidx row);
             if f = INVALID then Some result
             else do {
               t \<leftarrow> vec_at decision toidx;
               if t = INVALID \<or> f = t then Some result
               else do {
                 c \<leftarrow> site_at switch_cost f;
                 Some (result + c * real (unat count)) } } })
           (toidxvec row) 0)"

definition bbCountFunc :: "SwitchCountRow \<Rightarrow> u64 list \<Rightarrow> u64 list option" where
  "bbCountFunc row bbCount =
     (if toidxvec row = [] then Some bbCount
      else foldM (\<lambda>(toidx, count) bb. do {
             old \<leftarrow> vec_at bb toidx;
             vec_set bb toidx (old + count) }) (toidxvec row) bbCount)"

text \<open>Descending by count; \<open>std::sort\<close> leaves the order of equal counts open, the model keeps it.\<close>

definition Row_Sort :: "SwitchCountRow \<Rightarrow> SwitchCountRow" where
  "Row_Sort row = row\<lparr>toidxvec := sort_key (\<lambda>e. - int (unat (snd e))) (toidxvec row)\<rparr>"

definition getRow :: "SwitchCountList \<Rightarrow> BBLID \<Rightarrow> SwitchCountRow option" where
  "getRow rows fromidx = vec_at rows fromidx"

definition RowInsert :: "BBLID \<Rightarrow> (BBLID \<times> u64) list \<Rightarrow> SwitchCountList \<Rightarrow> SwitchCountList option" where
  "RowInsert fromidx vec rows = do {
     let rows = rows @ map (\<lambda>i. \<lparr>row_fromidx = int i, toidxvec = []\<rparr>) [length rows..<nat (fromidx + 1)];
     vec_set rows fromidx \<lparr>row_fromidx = fromidx, toidxvec = vec\<rparr> }"

definition List_Sort :: "SwitchCountList \<Rightarrow> SwitchCountList" where
  "List_Sort rows = map Row_Sort rows"

subsection \<open>The cost of a row\<close>

text \<open>Specification: the transition \<open>f \<rightarrow> t\<close> crosses sites.\<close>

definition crosses :: "CostSite \<Rightarrow> CostSite \<Rightarrow> bool" where
  "crosses f t \<longleftrightarrow> f \<noteq> INVALID \<and> t \<noteq> INVALID \<and> f \<noteq> t"

definition placed :: "CostSite \<Rightarrow> bool" where
  "placed s \<longleftrightarrow> s \<in> {CPU, PIM, INVALID}"

definition row_ok :: "nat \<Rightarrow> SwitchCountRow \<Rightarrow> bool" where
  "row_ok n row \<longleftrightarrow> (toidxvec row \<noteq> [] \<longrightarrow> 0 \<le> row_fromidx row \<and> row_fromidx row < int n) \<and>
     (\<forall>(t, c) \<in> set (toidxvec row). 0 \<le> t \<and> t < int n)"

definition row_cost_spec :: "DECISION \<Rightarrow> COST list \<Rightarrow> SwitchCountRow \<Rightarrow> COST" where
  "row_cost_spec decision sc row =
     (\<Sum>(t, c) \<leftarrow> toidxvec row.
        if crosses (decision ! nat (row_fromidx row)) (decision ! nat t)
        then sc ! nat (site_code (decision ! nat (row_fromidx row))) * real (unat c) else 0)"

lemma site_at_placed:
  "length sc = 2 \<Longrightarrow> s \<in> {CPU, PIM} \<Longrightarrow> site_at sc s = Some (sc ! nat (site_code s))"
  by (auto simp: site_at_def vec_at_def)

lemma Row_Cost_spec:
  assumes "row_ok (length decision) row" and "\<forall>s \<in> set decision. placed s" and "length sc = 2"
  shows "Row_Cost row decision sc = Some (row_cost_spec decision sc row)"
proof (cases "toidxvec row = []")
  case True
  then show ?thesis by (simp add: Row_Cost_def row_cost_spec_def)
next
  case False
  let ?f = "decision ! nat (row_fromidx row)"
  have f: "vec_at decision (row_fromidx row) = Some ?f" "?f \<in> {CPU, PIM, INVALID}"
    using assms False by (auto simp: row_ok_def placed_def vec_at_def nat_less_iff)
  have t: "vec_at decision t = Some (decision ! nat t)" if "(t, c) \<in> set (toidxvec row)" for t c
    using assms(1) that by (auto simp: row_ok_def vec_at_def nat_less_iff)
  show ?thesis
    using False f t site_at_placed [OF assms(3), of ?f]
    unfolding Row_Cost_def row_cost_spec_def
    by (auto simp: crosses_def intro!: foldM_sum [where s = "0::real", simplified])
qed

lemma row_ok_Sort: "row_ok n (Row_Sort row) = row_ok n row"
proof -
  have s: "set (toidxvec (Row_Sort row)) = set (toidxvec row)" "row_fromidx (Row_Sort row) = row_fromidx row"
    by (simp_all add: Row_Sort_def)
  then have "toidxvec (Row_Sort row) = [] \<longleftrightarrow> toidxvec row = []" by (metis set_empty)
  with s show ?thesis by (simp add: row_ok_def)
qed

lemma row_cost_spec_Sort: "row_cost_spec decision sc (Row_Sort row) = row_cost_spec decision sc row"
proof -
  have m: "mset (toidxvec (Row_Sort row)) = mset (toidxvec row)"
    and f: "row_fromidx (Row_Sort row) = row_fromidx row"
    by (simp_all add: Row_Sort_def)
  show ?thesis
    unfolding row_cost_spec_def f sum_mset_sum_list [symmetric] mset_map m ..
qed

lemma row_cost_spec_nonneg:
  "\<forall>c \<in> set sc. 0 \<le> c \<Longrightarrow> length sc = 2 \<Longrightarrow> \<forall>s \<in> set decision. placed s \<Longrightarrow>
   row_ok (length decision) row \<Longrightarrow> 0 \<le> row_cost_spec decision sc row"
proof -
  assume sc: "\<forall>c \<in> set sc. 0 \<le> c" "length sc = 2" and p: "\<forall>s \<in> set decision. placed s"
    and ok: "row_ok (length decision) row"
  let ?f = "decision ! nat (row_fromidx row)"
  have "0 \<le> sc ! nat (site_code ?f)" if "(t, c) \<in> set (toidxvec row)" "?f \<noteq> INVALID" for t c
  proof -
    have "nat (row_fromidx row) < length decision" using ok that(1) by (auto simp: row_ok_def)
    then have "?f \<in> {CPU, PIM}" using p that(2) by (auto simp: placed_def)
    with sc show ?thesis by (auto intro: nth_mem)
  qed
  then show ?thesis unfolding row_cost_spec_def
    by (intro sum_list_nonneg) (auto simp: crosses_def intro!: mult_nonneg_nonneg)
qed

text \<open>A decision that puts every block on one site pays for no switch.\<close>

lemma row_cost_spec_uniform:
  assumes "row_ok (length decision) row" and "\<forall>s \<in> set decision. s = t"
  shows "row_cost_spec decision sc row = 0"
proof -
  have "decision ! nat i = t" if "0 \<le> i" "i < int (length decision)" for i
    using assms(2) that by (simp add: nat_less_iff)
  then have "\<not> crosses (decision ! nat (row_fromidx row)) (decision ! nat u)"
    if "(u, c) \<in> set (toidxvec row)" for u c
    using assms(1) that by (auto simp: row_ok_def crosses_def)
  then have "row_cost_spec decision sc row = (\<Sum>x \<leftarrow> toidxvec row. 0)"
    unfolding row_cost_spec_def by (intro arg_cong [where f = sum_list] map_cong) auto
  then show ?thesis by simp
qed

subsection \<open>Reading rows back\<close>

lemma RowInsert_getRow:
  assumes "0 \<le> i"
  shows "\<exists>rows'. RowInsert i vec rows = Some rows' \<and>
    length rows' = max (length rows) (nat i + 1) \<and>
    getRow rows' i = Some \<lparr>row_fromidx = i, toidxvec = vec\<rparr> \<and>
    (\<forall>j. j \<noteq> i \<longrightarrow> 0 \<le> j \<longrightarrow> j < int (length rows') \<longrightarrow> getRow rows' j =
      (if j < int (length rows) then getRow rows j else Some \<lparr>row_fromidx = j, toidxvec = []\<rparr>))"
  using assms
  by (auto simp: RowInsert_def getRow_def vec_set_def vec_at_def nth_append nth_list_update Let_def
      max_def nat_less_iff eq_nat_nat_iff)

end
