(* ===== verification/Run_Stats.thy ===== *)
theory Run_Stats
  imports PIM_Common
begin

text \<open>
  Per-block statistics: \<open>RunStats\<close> and its \<open>SortStatsMap\<close> (\<open>PIMProfSolver/Stats.h\<close>), and
  \<open>ThreadRunStats\<close> (\<open>PIMProfSolver/CostSolver.h\<close>), which keeps one elapsed time per thread and
  caches their maximum. A hash map is an association list; the solver only iterates over it to
  sort the values, so the order of its entries is not observed.
\<close>

type_synonym 'v UUIDHashMap = "(UUID \<times> 'v) list"

record RunStats =
  bblid :: BBLID
  bblhash :: UUID
  elapsed_time :: COST
  instruction_count :: u64
  memory_access :: u64

definition new_RunStats :: "BBLID \<Rightarrow> UUID \<Rightarrow> RunStats" where
  "new_RunStats i h = \<lparr>bblid = i, bblhash = h, elapsed_time = 0, instruction_count = 0, memory_access = 0\<rparr>"

definition MergeStats :: "'a RunStats_scheme \<Rightarrow> 'b RunStats_scheme \<Rightarrow> 'a RunStats_scheme" where
  "MergeStats lhs rhs = lhs\<lparr>elapsed_time := elapsed_time lhs + elapsed_time rhs,
     instruction_count := instruction_count lhs + instruction_count rhs,
     memory_access := memory_access lhs + memory_access rhs\<rparr>"

definition SortStatsMap :: "'a RunStats_scheme UUIDHashMap \<Rightarrow> 'a RunStats_scheme list" where
  "SortStatsMap statsmap = sort_key bblhash (map snd statsmap)"

subsection \<open>ThreadRunStats\<close>

record ThreadRunStats = RunStats +
  thread_elapsed_time :: "COST list"
  sorted_elapsed_time :: "COST list"
  dirty :: bool

text \<open>
  The constructor and the per-thread merge share the growth of the two vectors and the write at
  \<open>tid\<close>; a negative \<open>tid\<close> writes outside them.
\<close>

definition set_thread_time :: "int \<Rightarrow> COST \<Rightarrow> ThreadRunStats \<Rightarrow> ThreadRunStats option" where
  "set_thread_time tid t s = do {
     let grow = (if tid \<ge> int (length (thread_elapsed_time s)) then vec_grow (nat (tid + 1)) 0 else (\<lambda>xs. xs));
     ts \<leftarrow> vec_set (grow (thread_elapsed_time s)) tid t;
     ss \<leftarrow> vec_set (grow (sorted_elapsed_time s)) tid t;
     Some (s\<lparr>thread_elapsed_time := ts, sorted_elapsed_time := ss\<rparr>) }"

definition new_ThreadRunStats :: "int \<Rightarrow> RunStats \<Rightarrow> ThreadRunStats option" where
  "new_ThreadRunStats tid b =
     set_thread_time tid (elapsed_time b)
       (RunStats.extend b \<lparr>thread_elapsed_time = [], sorted_elapsed_time = [], dirty = True\<rparr>)"

definition MergeStats_tid :: "int \<Rightarrow> RunStats \<Rightarrow> ThreadRunStats \<Rightarrow> ThreadRunStats option" where
  "MergeStats_tid tid rhs s = set_thread_time tid (elapsed_time rhs) (MergeStats s rhs)"

text \<open>Merging a whole \<open>ThreadRunStats\<close>: only \<open>thread_elapsed_time\<close> is added to.\<close>

definition MergeStats_threads :: "ThreadRunStats \<Rightarrow> ThreadRunStats \<Rightarrow> ThreadRunStats" where
  "MergeStats_threads s rhs =
     (let n = length (thread_elapsed_time rhs);
          grow = (if length (thread_elapsed_time s) < n then vec_grow n 0 else (\<lambda>xs. xs));
          ts = grow (thread_elapsed_time s)
      in (MergeStats s rhs)
         \<lparr>thread_elapsed_time := map (\<lambda>i. if i < n then ts ! i + thread_elapsed_time rhs ! i else ts ! i) [0..<length ts],
          sorted_elapsed_time := grow (sorted_elapsed_time s),
          dirty := (if 0 < n then True else dirty s)\<rparr>)"

definition parallelism :: "ThreadRunStats \<Rightarrow> int" where
  "parallelism s = int (length (filter (\<lambda>t. 0 < t) (thread_elapsed_time s)))"

definition SortElapsedTime :: "ThreadRunStats \<Rightarrow> ThreadRunStats" where
  "SortElapsedTime s = s\<lparr>sorted_elapsed_time := sort (sorted_elapsed_time s), dirty := False\<rparr>"

definition thread_ElapsedTime :: "int \<Rightarrow> ThreadRunStats \<Rightarrow> COST option" where
  "thread_ElapsedTime tid s = vec_at (thread_elapsed_time s) tid"

definition MaxElapsedTime :: "ThreadRunStats \<Rightarrow> (COST \<times> ThreadRunStats) option" where
  "MaxElapsedTime s =
     (if dirty s then do {
        let s = SortElapsedTime s;
        m \<leftarrow> vec_at (sorted_elapsed_time s) (int (length (thread_elapsed_time s)) - 1);
        Some (m, s\<lparr>elapsed_time := m\<rparr>) }
      else Some (elapsed_time s, s))"

subsection \<open>The invariant of objects filled thread by thread\<close>

definition fresh_threads :: "ThreadRunStats \<Rightarrow> bool" where
  "fresh_threads s \<longleftrightarrow> dirty s \<and> thread_elapsed_time s \<noteq> [] \<and>
     sorted_elapsed_time s = thread_elapsed_time s"

lemma set_thread_time_spec:
  assumes "0 \<le> tid" and "dirty s" and "sorted_elapsed_time s = thread_elapsed_time s"
  shows "\<exists>s'. set_thread_time tid t s = Some s' \<and> fresh_threads s' \<and>
    length (thread_elapsed_time s') = max (length (thread_elapsed_time s)) (nat tid + 1) \<and>
    (\<forall>i < length (thread_elapsed_time s'). thread_elapsed_time s' ! i =
       (if i = nat tid then t else if i < length (thread_elapsed_time s) then thread_elapsed_time s ! i else 0)) \<and>
    elapsed_time s' = elapsed_time s \<and> bblid s' = bblid s \<and> bblhash s' = bblhash s"
proof (cases "int (length (thread_elapsed_time s)) \<le> tid")
  case True
  then have n: "length (thread_elapsed_time s) \<le> nat tid" "nat (tid + 1) = nat tid + 1"
    using assms(1) by auto
  with assms True show ?thesis
    by (auto simp: set_thread_time_def vec_set_def fresh_threads_def nth_vec_grow nth_list_update
        max_def Let_def)
next
  case False
  then have "nat tid < length (thread_elapsed_time s)" using assms(1) by (simp add: nat_less_iff)
  with assms False show ?thesis
    by (auto simp: set_thread_time_def vec_set_def fresh_threads_def nth_list_update max_def Let_def)
qed

lemma new_ThreadRunStats_fresh:
  "0 \<le> tid \<Longrightarrow> \<exists>s. new_ThreadRunStats tid b = Some s \<and> fresh_threads s \<and>
     bblid s = bblid b \<and> bblhash s = bblhash b"
  using set_thread_time_spec [of tid "RunStats.extend b \<lparr>thread_elapsed_time = [], sorted_elapsed_time = [], dirty = True\<rparr>"]
  by (auto simp: new_ThreadRunStats_def RunStats.defs)

lemma MergeStats_tid_fresh:
  assumes "0 \<le> tid" and "fresh_threads s"
  shows "\<exists>s'. MergeStats_tid tid b s = Some s' \<and> fresh_threads s' \<and>
    bblid s' = bblid s \<and> bblhash s' = bblhash s"
  using assms set_thread_time_spec [of tid "MergeStats s b"]
  by (auto simp: MergeStats_tid_def MergeStats_def fresh_threads_def)

lemma last_sort_Max: "xs \<noteq> [] \<Longrightarrow> sort xs ! (length xs - 1) = Max (set xs)" for xs :: "real list"
proof -
  assume ne: "xs \<noteq> []"
  then have "length xs - 1 < length (sort xs)" by simp
  then have "sort xs ! (length xs - 1) \<in> set xs" using nth_mem set_sort by metis
  moreover have "x \<le> sort xs ! (length xs - 1)" if "x \<in> set xs" for x
  proof -
    from that obtain i where "i < length xs" "sort xs ! i = x"
      by (metis in_set_conv_nth length_sort set_sort)
    then show ?thesis using sorted_nth_mono [OF sorted_sort, of i "length xs - 1" xs] by simp
  qed
  ultimately show ?thesis by (intro Max_eqI [symmetric]) auto
qed

text \<open>The first call sorts and returns the maximum; later calls return the same value.\<close>

lemma MaxElapsedTime_fresh:
  assumes "fresh_threads s"
  shows "\<exists>s'. MaxElapsedTime s = Some (Max (set (thread_elapsed_time s)), s') \<and>
    \<not> dirty s' \<and> elapsed_time s' = Max (set (thread_elapsed_time s)) \<and>
    thread_elapsed_time s' = thread_elapsed_time s \<and> bblid s' = bblid s \<and> bblhash s' = bblhash s \<and>
    instruction_count s' = instruction_count s \<and> memory_access s' = memory_access s"
  using assms last_sort_Max [of "thread_elapsed_time s"]
  by (auto simp: MaxElapsedTime_def SortElapsedTime_def fresh_threads_def vec_at_def Let_def
      nat_diff_distrib')

lemma MaxElapsedTime_stable:
  "MaxElapsedTime s = Some (m, s') \<Longrightarrow> MaxElapsedTime s' = Some (m, s')"
  by (auto simp: MaxElapsedTime_def SortElapsedTime_def Let_def bind_eq_Some_conv split: if_splits)

text \<open>The value the solver reads: it does not depend on how often it was read before.\<close>

definition max_time :: "ThreadRunStats \<Rightarrow> COST option" where
  "max_time s = map_option fst (MaxElapsedTime s)"

lemma max_time_fresh: "fresh_threads s \<Longrightarrow> max_time s = Some (Max (set (thread_elapsed_time s)))"
  using MaxElapsedTime_fresh by (fastforce simp: max_time_def)

lemma max_time_stable: "MaxElapsedTime s = Some (m, s') \<Longrightarrow> max_time s' = max_time s"
  by (simp add: max_time_def MaxElapsedTime_stable)

text \<open>\<open>MergeStats(const ThreadRunStats &)\<close> leaves the sorted copy, hence the maximum, as it was.\<close>

lemma MergeStats_threads_stale:
  assumes "fresh_threads s" and "length (thread_elapsed_time r) = length (thread_elapsed_time s)"
  shows "thread_elapsed_time (MergeStats_threads s r) =
      map2 (+) (thread_elapsed_time s) (thread_elapsed_time r) \<and>
    max_time (MergeStats_threads s r) = max_time s"
proof
  show m: "thread_elapsed_time (MergeStats_threads s r) =
      map2 (+) (thread_elapsed_time s) (thread_elapsed_time r)"
    using assms(2) by (intro nth_equalityI) (simp_all add: MergeStats_threads_def Let_def)
  have "sorted_elapsed_time (MergeStats_threads s r) = sorted_elapsed_time s"
    "dirty (MergeStats_threads s r)" "dirty s"
    using assms by (auto simp: MergeStats_threads_def Let_def fresh_threads_def)
  moreover have "length (thread_elapsed_time (MergeStats_threads s r)) = length (thread_elapsed_time s)"
    unfolding m using assms(2) by simp
  ultimately show "max_time (MergeStats_threads s r) = max_time s"
    by (simp add: max_time_def MaxElapsedTime_def SortElapsedTime_def Let_def option.map_comp o_def split: bind_splits)
qed

subsection \<open>Sorting a map of statistics\<close>

lemma SortStatsMap_perm: "mset (SortStatsMap m) = mset (map snd m)"
  by (simp add: SortStatsMap_def)

lemma SortStatsMap_strict:
  "distinct (map fst m) \<Longrightarrow> (\<And>k s. (k, s) \<in> set m \<Longrightarrow> bblhash s = k) \<Longrightarrow>
   sorted_wrt (<) (map bblhash (SortStatsMap m))"
proof -
  assume d: "distinct (map fst m)" and k: "\<And>k s. (k, s) \<in> set m \<Longrightarrow> bblhash s = k"
  have "map bblhash (map snd m) = map fst m" using k by auto
  then have "distinct (map bblhash (SortStatsMap m))"
    using d by (metis SortStatsMap_perm mset_eq_imp_distinct_iff mset_map)
  then show ?thesis by (simp add: strict_sorted_iff SortStatsMap_def)
qed

end
