(* ===== verification/Solver_Cost.thy ===== *)
theory Solver_Cost
  imports Reuse_Trie Switch_Count Run_Stats "HOL-Library.AList"
begin

text \<open>
  The state of \<open>CostSolver\<close> and its cost functions (\<open>PIMProfSolver/CostSolver.h\<close> and
  \<open>CostSolver.cpp\<close>): the alignment of the CPU and PIM statistics, the elapsed time, the switch
  cost and the reuse cost of a decision, and their sum. The specifications say what each
  function adds up; the theorems say that the loops and the trie walk compute exactly that.
\<close>

record CostSolver =
  scaDecision :: DecisionFromFile
  ctsDecision :: DecisionFromFile
  interBB_CL_DM :: "((BBLID \<times> BBLID) \<times> COST) list"
  interBB_REG_DM :: "((BBLID \<times> BBLID) \<times> COST) list"
  hash2stats_CPU :: "ThreadRunStats UUIDHashMap"
  hash2stats_PIM :: "ThreadRunStats UUIDHashMap"
  sorted_CPU :: "ThreadRunStats list"
  sorted_PIM :: "ThreadRunStats list"
  stale :: bool
  bbl_data_reuse :: "BBLID DataReuse"
  bbl_switch_count :: SwitchCountList
  flush_cost :: "COST list"
  fetch_cost :: "COST list"
  switch_cost :: "COST list"
  batch_threshold :: COST
  dataMoveThreshold :: COST
  batch_size :: int
  mpki_threshold :: int
  parallelism_threshold :: int

text \<open>The constants that \<open>initialize\<close> sets after parsing.\<close>

definition set_costs :: "COST \<Rightarrow> CostSolver \<Rightarrow> CostSolver" where
  "set_costs threshold S =
     S\<lparr>flush_cost := [60, 30], fetch_cost := [60, 30], switch_cost := [800, 800],
       dataMoveThreshold := threshold, mpki_threshold := 5, parallelism_threshold := 15,
       batch_threshold := 1 / 1000, batch_size := 10\<rparr>"

definition empty_solver :: CostSolver where
  "empty_solver = \<lparr>scaDecision = [], ctsDecision = [], interBB_CL_DM = [], interBB_REG_DM = [],
     hash2stats_CPU = [], hash2stats_PIM = [], sorted_CPU = [], sorted_PIM = [], stale = True,
     bbl_data_reuse = new_DataReuse, bbl_switch_count = [], flush_cost = [], fetch_cost = [],
     switch_cost = [], batch_threshold = 0, dataMoveThreshold = 0, batch_size = 0,
     mpki_threshold = 0, parallelism_threshold = 0\<rparr>"

subsection \<open>Aligning the statistics of the two runs\<close>

definition align_step :: "ThreadRunStats \<Rightarrow> ThreadRunStats UUIDHashMap \<times> ThreadRunStats list \<Rightarrow>
    (ThreadRunStats UUIDHashMap \<times> ThreadRunStats list) option" where
  "align_step elem = (\<lambda>(m, out).
     case map_of m (bblhash elem) of
       Some p \<Rightarrow> let p = p\<lparr>bblid := bblid elem\<rparr> in Some (AList.update (bblhash elem) p m, out @ [p])
     | None \<Rightarrow> do {
         p \<leftarrow> new_ThreadRunStats 0 (new_RunStats (bblid elem) (bblhash elem));
         Some (m @ [(bblhash elem, p)], out @ [p]) })"

definition getBBLSortedStats :: "CostSolver \<Rightarrow> CostSolver option" where
  "getBBLSortedStats S =
     (if stale S then do {
        let cpu = SortStatsMap (hash2stats_CPU S);
        (m, pim) \<leftarrow> foldM align_step cpu (hash2stats_PIM S, sorted_PIM S);
        if length cpu = length pim \<and>
           list_all2 (\<lambda>c p. bblid c = bblid p \<and> bblhash c = bblhash p) cpu pim
        then Some (S\<lparr>sorted_CPU := cpu, hash2stats_PIM := m, sorted_PIM := pim, stale := False\<rparr>)
        else None }
      else Some S)"

definition aligned :: "ThreadRunStats list \<Rightarrow> ThreadRunStats list \<Rightarrow> bool" where
  "aligned cpu pim \<longleftrightarrow> list_all2 (\<lambda>c p. bblid c = bblid p \<and> bblhash c = bblhash p) cpu pim"

lemma getBBLSortedStats_done [simp]: "\<not> stale S \<Longrightarrow> getBBLSortedStats S = Some S"
  by (simp add: getBBLSortedStats_def)

lemma align_step_spec:
  assumes "distinct (map fst m)" and "\<And>k p. (k, p) \<in> set m \<Longrightarrow> bblhash p = k"
    and "\<And>k p. (k, p) \<in> set m \<Longrightarrow> fresh_threads p"
  shows "\<exists>m' p. align_step elem (m, out) = Some (m', out @ [p]) \<and>
    bblid p = bblid elem \<and> bblhash p = bblhash elem \<and> fresh_threads p \<and>
    distinct (map fst m') \<and> (\<forall>(k, p) \<in> set m'. bblhash p = k \<and> fresh_threads p) \<and>
    (case map_of m (bblhash elem) of
       Some q \<Rightarrow> thread_elapsed_time p = thread_elapsed_time q
     | None \<Rightarrow> max_time p = Some 0) \<and>
    (\<forall>h. h \<noteq> bblhash elem \<longrightarrow> map_of m' h = map_of m h)"
proof (cases "map_of m (bblhash elem)")
  case (Some q)
  then have q: "(bblhash elem, q) \<in> set m" by (rule map_of_SomeD)
  let ?p = "q\<lparr>bblid := bblid elem\<rparr>"
  have p: "bblhash ?p = bblhash elem" "fresh_threads ?p"
    using assms(2,3) [OF q] by (simp_all add: fresh_threads_def)
  have "set (AList.update (bblhash elem) ?p m) \<subseteq> insert (bblhash elem, ?p) (set m)"
    by (induction m) auto
  then have "\<forall>(k, u) \<in> set (AList.update (bblhash elem) ?p m). bblhash u = k \<and> fresh_threads u"
    using assms(2,3) p by fastforce
  moreover have "distinct (map fst (AList.update (bblhash elem) ?p m))"
    using assms(1) by (rule distinct_update)
  ultimately show ?thesis using Some p
    by (auto simp: align_step_def Let_def update_conv' fun_upd_apply)
next
  case None
  obtain p where p: "new_ThreadRunStats 0 (new_RunStats (bblid elem) (bblhash elem)) = Some p"
    "thread_elapsed_time p = [0]" "fresh_threads p" "bblid p = bblid elem" "bblhash p = bblhash elem"
    by (simp add: new_ThreadRunStats_def set_thread_time_def new_RunStats_def RunStats.defs
        vec_grow_def vec_set_def Let_def fresh_threads_def)
  have "bblhash elem \<notin> fst ` set m" using None by (simp add: map_of_eq_None_iff)
  then have "distinct (map fst (m @ [(bblhash elem, p)]))" using assms(1) by auto
  moreover have "\<forall>(k, u) \<in> set (m @ [(bblhash elem, p)]). bblhash u = k \<and> fresh_threads u"
    using assms(2,3) p by auto
  moreover have "max_time p = Some 0" using max_time_fresh [OF p(3)] p(2) by simp
  ultimately show ?thesis using None p
    by (auto simp: align_step_def map_add_def split: option.splits)
qed

text \<open>What \<open>ParseStats\<close> leaves in a map: every entry under its own hash, filled thread by thread.\<close>

definition stats_map_ok :: "ThreadRunStats UUIDHashMap \<Rightarrow> bool" where
  "stats_map_ok m \<longleftrightarrow> distinct (map fst m) \<and> (\<forall>(k, p) \<in> set m. bblhash p = k \<and> fresh_threads p)"

lemma align_fold_spec:
  "stats_map_ok m \<Longrightarrow> distinct (map bblhash cpu) \<Longrightarrow>
   \<exists>m' pim. foldM align_step cpu (m, out) = Some (m', out @ pim) \<and> aligned cpu pim \<and> stats_map_ok m' \<and>
     (\<forall>p \<in> set pim. fresh_threads p) \<and>
     list_all2 (\<lambda>c p. max_time p =
        (case map_of m (bblhash c) of Some q \<Rightarrow> max_time q | None \<Rightarrow> Some 0)) cpu pim"
proof (induction cpu arbitrary: m out)
  case Nil
  then show ?case by (simp add: aligned_def)
next
  case (Cons c cpu)
  obtain m1 p where step: "align_step c (m, out) = Some (m1, out @ [p])"
    "bblid p = bblid c" "bblhash p = bblhash c" "fresh_threads p" "distinct (map fst m1)"
    "\<forall>(k, p) \<in> set m1. bblhash p = k \<and> fresh_threads p"
    and t: "case map_of m (bblhash c) of
       Some q \<Rightarrow> thread_elapsed_time p = thread_elapsed_time q | None \<Rightarrow> max_time p = Some 0"
    and frame: "\<forall>h. h \<noteq> bblhash c \<longrightarrow> map_of m1 h = map_of m h"
    using align_step_spec [of m c out] Cons.prems(1) unfolding stats_map_ok_def by blast
  have ok1: "stats_map_ok m1" using step by (simp add: stats_map_ok_def)
  obtain m2 pim where IH: "foldM align_step cpu (m1, out @ [p]) = Some (m2, (out @ [p]) @ pim)"
    "aligned cpu pim" "stats_map_ok m2" "\<forall>p \<in> set pim. fresh_threads p"
    "list_all2 (\<lambda>c p. max_time p =
        (case map_of m1 (bblhash c) of Some q \<Rightarrow> max_time q | None \<Rightarrow> Some 0)) cpu pim"
    using Cons.IH [OF ok1, of "out @ [p]"] Cons.prems(2) by auto
  have "list_all2 (\<lambda>c p. max_time p =
        (case map_of m (bblhash c) of Some q \<Rightarrow> max_time q | None \<Rightarrow> Some 0)) cpu pim"
  proof (rule list.rel_mono_strong [OF IH(5)])
    fix d u
    assume "d \<in> set cpu"
    then have "bblhash d \<noteq> bblhash c"
      using Cons.prems(2) by (metis distinct.simps(2) image_eqI list.simps(9) set_map)
    with frame have "map_of m1 (bblhash d) = map_of m (bblhash d)" by blast
    then show "max_time u = (case map_of m1 (bblhash d) of Some q \<Rightarrow> max_time q | None \<Rightarrow> Some 0) \<Longrightarrow>
        max_time u = (case map_of m (bblhash d) of Some q \<Rightarrow> max_time q | None \<Rightarrow> Some 0)" by simp
  qed
  moreover have "max_time p = (case map_of m (bblhash c) of Some q \<Rightarrow> max_time q | None \<Rightarrow> Some 0)"
  proof (cases "map_of m (bblhash c)")
    case (Some q)
    then have "fresh_threads q" using Cons.prems(1) by (auto simp: stats_map_ok_def dest: map_of_SomeD)
    with Some t step(4) show ?thesis by (simp add: max_time_fresh)
  qed (use t in simp)
  ultimately show ?case
    using step IH by (auto simp: aligned_def)
qed

lemma getBBLSortedStats_spec:
  assumes "stale S" and "sorted_PIM S = []"
    and "stats_map_ok (hash2stats_CPU S)" and "stats_map_ok (hash2stats_PIM S)"
  shows "\<exists>S'. getBBLSortedStats S = Some S' \<and> \<not> stale S' \<and>
    sorted_CPU S' = SortStatsMap (hash2stats_CPU S) \<and>
    sorted_wrt (<) (map bblhash (sorted_CPU S')) \<and> aligned (sorted_CPU S') (sorted_PIM S') \<and>
    (\<forall>s \<in> set (sorted_CPU S') \<union> set (sorted_PIM S'). fresh_threads s) \<and>
    list_all2 (\<lambda>c p. max_time p =
        (case map_of (hash2stats_PIM S) (bblhash c) of Some q \<Rightarrow> max_time q | None \<Rightarrow> Some 0))
      (sorted_CPU S') (sorted_PIM S')"
proof -
  let ?cpu = "SortStatsMap (hash2stats_CPU S)"
  have strict: "sorted_wrt (<) (map bblhash ?cpu)"
    using assms(3) by (intro SortStatsMap_strict) (auto simp: stats_map_ok_def)
  have fresh: "\<forall>s \<in> set ?cpu. fresh_threads s"
    using assms(3) by (auto simp: stats_map_ok_def SortStatsMap_def)
  from align_fold_spec [OF assms(4), of ?cpu "[]"] strict obtain m' pim where
    "foldM align_step ?cpu (hash2stats_PIM S, []) = Some (m', pim)" "aligned ?cpu pim"
    "\<forall>p \<in> set pim. fresh_threads p"
    "list_all2 (\<lambda>c p. max_time p =
        (case map_of (hash2stats_PIM S) (bblhash c) of Some q \<Rightarrow> max_time q | None \<Rightarrow> Some 0)) ?cpu pim"
    by (auto simp: strict_sorted_iff)
  with assms(1,2) strict fresh show ?thesis
    by (auto simp: getBBLSortedStats_def aligned_def Let_def dest: list_all2_lengthD)
qed

subsection \<open>The cost functions\<close>

definition SingleSegMaxReuseCost :: "CostSolver \<Rightarrow> COST option" where
  "SingleSegMaxReuseCost S = do {
     flc \<leftarrow> site_at (flush_cost S) CPU; fep \<leftarrow> site_at (fetch_cost S) PIM;
     flp \<leftarrow> site_at (flush_cost S) PIM; fec \<leftarrow> site_at (fetch_cost S) CPU;
     Some (max (flc + fep) (flp + fec)) }"

definition ElapsedTime_site :: "CostSolver \<Rightarrow> CostSite \<Rightarrow> COST option" where
  "ElapsedTime_site S site = do {
     S \<leftarrow> getBBLSortedStats S;
     stats \<leftarrow> site_at [sorted_CPU S, sorted_PIM S] site;
     foldM (\<lambda>st acc. do { t \<leftarrow> max_time st; Some (acc + t) }) stats 0 }"

text \<open>The pair (time on the CPU, time on the PIM side); a block that is not placed is skipped.\<close>

definition ElapsedTime :: "CostSolver \<Rightarrow> DECISION \<Rightarrow> (COST \<times> COST) option" where
  "ElapsedTime S decision = do {
     S \<leftarrow> getBBLSortedStats S;
     foldM (\<lambda>i (c, p). do {
         cpustats \<leftarrow> vec_at (sorted_CPU S) (int i);
         pimstats \<leftarrow> vec_at (sorted_PIM S) (int i);
         d \<leftarrow> vec_at decision (int i);
         if d = CPU then do { t \<leftarrow> max_time cpustats; Some (c + t, p) }
         else if d = PIM then do { t \<leftarrow> max_time pimstats; Some (c, p + t) }
         else Some (c, p) })
       [0..<length (sorted_CPU S)] (0, 0) }"

definition SwitchCost :: "CostSolver \<Rightarrow> DECISION \<Rightarrow> SwitchCountList \<Rightarrow> COST option" where
  "SwitchCost S decision switchcnt =
     foldM (\<lambda>row acc. do { c \<leftarrow> Row_Cost row decision (switch_cost S); Some (acc + c) }) switchcnt 0"

definition bbTimesFromSwitchInfo :: "DECISION \<Rightarrow> SwitchCountList \<Rightarrow> u64 list option" where
  "bbTimesFromSwitchInfo decision switchcnt =
     foldM bbCountFunc switchcnt (replicate (length decision) 0)"

text \<open>
  The walk over the reuse trie: below a node where two neighbours on the way sit on different
  sites \<open>isDifferent\<close> stays set, and only then a leaf costs anything.
\<close>

fun TrieBFS :: "CostSolver \<Rightarrow> COST \<Rightarrow> DECISION \<Rightarrow> BBLID \<Rightarrow> BBLID TrieNode \<Rightarrow> bool \<Rightarrow> COST option" where
  "TrieBFS S cost decision b (TrieNode l k n ch) isDifferent =
     (if l then
        (if isDifferent then do {
           cur \<leftarrow> k;
           if b = cur then do {
             d \<leftarrow> vec_at decision cur;
             if d = CPU then do {
               fl \<leftarrow> site_at (flush_cost S) CPU; fe \<leftarrow> site_at (fetch_cost S) PIM;
               Some (cost + real (unat n) * (fl + fe)) }
             else do {
               fl \<leftarrow> site_at (flush_cost S) PIM; fe \<leftarrow> site_at (fetch_cost S) CPU;
               Some (cost + real (unat n) * (fl + fe)) } }
           else None }
         else Some cost)
      else foldM (\<lambda>(k', t) cost.
             if isDifferent then TrieBFS S cost decision k' t True
             else do {
               d \<leftarrow> vec_at decision b;
               d' \<leftarrow> vec_at decision k';
               if d \<noteq> d' then TrieBFS S cost decision k' t True
               else TrieBFS S cost decision k' t False }) ch cost)"

definition ReuseCost :: "CostSolver \<Rightarrow> DECISION \<Rightarrow> BBLID TrieNode \<Rightarrow> COST option" where
  "ReuseCost S decision reusetree =
     foldM (\<lambda>(k, t) cost. TrieBFS S cost decision k t False) (node_children reusetree) 0"

definition Cost :: "CostSolver \<Rightarrow> DECISION \<Rightarrow> BBLID TrieNode \<Rightarrow> SwitchCountList \<Rightarrow> COST option" where
  "Cost S decision reusetree switchcnt = do {
     (c, p) \<leftarrow> ElapsedTime S decision;
     r \<leftarrow> ReuseCost S decision reusetree;
     s \<leftarrow> SwitchCost S decision switchcnt;
     Some (r + s + c + p) }"

subsection \<open>Specifications\<close>

definition time_of :: "ThreadRunStats list \<Rightarrow> nat \<Rightarrow> COST" where
  "time_of stats i = the (max_time (stats ! i))"

definition elapsed_spec :: "CostSolver \<Rightarrow> DECISION \<Rightarrow> CostSite \<Rightarrow> COST" where
  "elapsed_spec S d site =
     (\<Sum>i<length (sorted_CPU S). if d ! i = site
        then time_of (if site = CPU then sorted_CPU S else sorted_PIM S) i else 0)"

definition uniform :: "DECISION \<Rightarrow> BBLID list \<Rightarrow> bool" where
  "uniform d p \<longleftrightarrow> (\<forall>x \<in> set p. \<forall>y \<in> set p. d ! nat x = d ! nat y)"

text \<open>
  One segment, given by its path (the members, then the head, the initial writer): free when all
  blocks are on one site, otherwise a flush on the writer's site and a fetch on the other.
\<close>

definition seg_cost :: "CostSolver \<Rightarrow> DECISION \<Rightarrow> BBLID list \<Rightarrow> COST" where
  "seg_cost S d p =
     (if uniform d p then 0
      else if d ! nat (last p) = CPU then flush_cost S ! 0 + fetch_cost S ! 1
      else flush_cost S ! 1 + fetch_cost S ! 0)"

definition switch_spec :: "CostSolver \<Rightarrow> DECISION \<Rightarrow> SwitchCountList \<Rightarrow> COST" where
  "switch_spec S d rows = (\<Sum>row \<leftarrow> rows. row_cost_spec d (switch_cost S) row)"

definition reuse_spec :: "CostSolver \<Rightarrow> DECISION \<Rightarrow> BBLID TrieNode \<Rightarrow> COST" where
  "reuse_spec S d t = leaf_sum (seg_cost S d) [] t"

definition cost_spec :: "CostSolver \<Rightarrow> DECISION \<Rightarrow> BBLID TrieNode \<Rightarrow> SwitchCountList \<Rightarrow> COST" where
  "cost_spec S d t rows = reuse_spec S d t + switch_spec S d rows + elapsed_spec S d CPU + elapsed_spec S d PIM"

text \<open>A solver state after parsing and aligning: sizes agree and every block has a time.\<close>

definition solver_ok :: "CostSolver \<Rightarrow> bool" where
  "solver_ok S \<longleftrightarrow> \<not> stale S \<and> aligned (sorted_CPU S) (sorted_PIM S) \<and>
     (\<forall>s \<in> set (sorted_CPU S) \<union> set (sorted_PIM S). max_time s \<noteq> None) \<and>
     length (flush_cost S) = 2 \<and> length (fetch_cost S) = 2 \<and> length (switch_cost S) = 2"

definition block_count :: "CostSolver \<Rightarrow> nat" where
  "block_count S = length (sorted_CPU S)"

definition decision_ok :: "CostSolver \<Rightarrow> DECISION \<Rightarrow> bool" where
  "decision_ok S d \<longleftrightarrow> length d = block_count S \<and> (\<forall>s \<in> set d. placed s)"

fun keys_in :: "nat \<Rightarrow> BBLID TrieNode \<Rightarrow> bool" where
  "keys_in n (TrieNode l k c ch) \<longleftrightarrow> (\<forall>(x, t) \<in> set ch. 0 \<le> x \<and> x < int n \<and> keys_in n t)"

lemma two_elems: "length xs = 2 \<Longrightarrow> xs = [xs ! 0, xs ! 1]"
  by (auto simp: numeral_2_eq_2 length_Suc_conv)

lemma site_at_len2:
  "length xs = 2 \<Longrightarrow> site_at xs CPU = Some (xs ! 0)" "length xs = 2 \<Longrightarrow> site_at xs PIM = Some (xs ! 1)"
  by (simp_all add: site_at_def vec_at_def)

lemma elapsed_loop:
  assumes "solver_ok S" and "length d = block_count S" and "n \<le> block_count S"
  shows "foldM (\<lambda>i (c, p). do {
         cpustats \<leftarrow> vec_at (sorted_CPU S) (int i);
         pimstats \<leftarrow> vec_at (sorted_PIM S) (int i);
         d \<leftarrow> vec_at d (int i);
         if d = CPU then do { t \<leftarrow> max_time cpustats; Some (c + t, p) }
         else if d = PIM then do { t \<leftarrow> max_time pimstats; Some (c, p + t) }
         else Some (c, p) }) [0..<n] (0, 0) =
     Some (\<Sum>i<n. if d ! i = CPU then time_of (sorted_CPU S) i else 0,
           \<Sum>i<n. if d ! i = PIM then time_of (sorted_PIM S) i else 0)"
  using assms(3)
proof (induction n)
  case (Suc n)
  have n: "n < length (sorted_CPU S)" "n < length (sorted_PIM S)" "n < length d"
    using Suc.prems assms by (auto simp: block_count_def solver_ok_def aligned_def dest: list_all2_lengthD)
  then have "sorted_CPU S ! n \<in> set (sorted_CPU S)" "sorted_PIM S ! n \<in> set (sorted_PIM S)"
    by (auto intro: nth_mem)
  then have "max_time (sorted_CPU S ! n) \<noteq> None" "max_time (sorted_PIM S ! n) \<noteq> None"
    using assms(1) unfolding solver_ok_def by blast+
  then obtain t u where "max_time (sorted_CPU S ! n) = Some t" "max_time (sorted_PIM S ! n) = Some u"
    by blast
  with n Suc show ?case by (simp add: foldM_append vec_at_int time_of_def)
qed simp

lemma ElapsedTime_spec:
  assumes "solver_ok S" and "length d = block_count S"
  shows "ElapsedTime S d = Some (elapsed_spec S d CPU, elapsed_spec S d PIM)"
  using elapsed_loop [OF assms, of "block_count S"] assms(1)
  by (simp add: ElapsedTime_def elapsed_spec_def block_count_def solver_ok_def)

lemma SwitchCost_spec:
  assumes "solver_ok S" and "decision_ok S d" and "\<forall>row \<in> set rows. row_ok (block_count S) row"
  shows "SwitchCost S d rows = Some (switch_spec S d rows)"
proof -
  have "Row_Cost row d (switch_cost S) = Some (row_cost_spec d (switch_cost S) row)" if "row \<in> set rows" for row
    using assms that by (intro Row_Cost_spec) (auto simp: decision_ok_def solver_ok_def)
  then show ?thesis
    unfolding SwitchCost_def switch_spec_def
    by (subst foldM_sum [where g = "row_cost_spec d (switch_cost S)"]) auto
qed

lemma uniform_snoc:
  assumes "pre \<noteq> []"
  shows "uniform d (pre @ [x]) \<longleftrightarrow> uniform d pre \<and> d ! nat (last pre) = d ! nat x"
proof -
  have at: "uniform d p \<longleftrightarrow> (\<forall>y \<in> set p. d ! nat y = d ! nat z)" if "z \<in> set p" for p z
    using that unfolding uniform_def by metis
  have z: "last pre \<in> set pre" using assms by simp
  then have "last pre \<in> set (pre @ [x])" by simp
  from at [OF this] at [OF z] show ?thesis by auto
qed

lemma TrieBFS_spec:
  assumes S: "solver_ok S"
  shows "trie_ok pre t \<Longrightarrow> keys_in (length d) t \<Longrightarrow> pre \<noteq> [] \<Longrightarrow>
    0 \<le> last pre \<Longrightarrow> last pre < int (length d) \<Longrightarrow> node_cur t = Some (last pre) \<Longrightarrow>
    TrieBFS S cost d (last pre) t (\<not> uniform d pre) = Some (cost + leaf_sum (seg_cost S d) pre t)"
proof (induction t arbitrary: pre cost)
  case (TrieNode l k n ch)
  have at: "vec_at d (last pre) = Some (d ! nat (last pre))"
    using TrieNode.prems by (simp add: vec_at_in_range)
  have costs: "length (flush_cost S) = 2" "length (fetch_cost S) = 2"
    using S by (simp_all add: solver_ok_def)
  show ?case
  proof (cases l)
    case True
    with TrieNode.prems at costs show ?thesis
      by (cases "d ! nat (last pre) = CPU") (auto simp: seg_cost_def site_at_len2)
  next
    case False
    have "foldM (\<lambda>(k', t) cost.
             if \<not> uniform d pre then TrieBFS S cost d k' t True
             else do {
               u \<leftarrow> vec_at d (last pre);
               u' \<leftarrow> vec_at d k';
               if u \<noteq> u' then TrieBFS S cost d k' t True
               else TrieBFS S cost d k' t False }) ch cost =
        Some (cost + (\<Sum>kt \<leftarrow> ch. case kt of (x, t) \<Rightarrow> leaf_sum (seg_cost S d) (pre @ [x]) t))"
    proof (rule foldM_sum)
      fix kt c
      assume kt: "kt \<in> set ch"
      obtain x t where x: "kt = (x, t)" by (cases kt)
      have "TrieBFS S c d x t (\<not> uniform d (pre @ [x])) =
          Some (c + leaf_sum (seg_cost S d) (pre @ [x]) t)"
        using TrieNode.IH [of kt t "pre @ [x]" c] TrieNode.prems kt x by auto
      moreover have "vec_at d x = Some (d ! nat x)"
        using TrieNode.prems kt x by (auto simp: vec_at_in_range)
      ultimately show "(case kt of (k', t) \<Rightarrow> \<lambda>cost.
             if \<not> uniform d pre then TrieBFS S cost d k' t True
             else do {
               u \<leftarrow> vec_at d (last pre);
               u' \<leftarrow> vec_at d k';
               if u \<noteq> u' then TrieBFS S cost d k' t True
               else TrieBFS S cost d k' t False }) c =
          Some (c + (case kt of (x, t) \<Rightarrow> leaf_sum (seg_cost S d) (pre @ [x]) t))"
        using at TrieNode.prems(3) x by (auto simp: uniform_snoc split: if_splits)
    qed
    with False show ?thesis by simp
  qed
qed

lemma ReuseCost_spec:
  assumes S: "solver_ok S" and t: "trie_ok [] t" "\<not> isLeaf t" "keys_in (length d) t"
  shows "ReuseCost S d t = Some (reuse_spec S d t)"
proof -
  obtain k n ch where tn: "t = TrieNode False k n ch" using t(2) by (cases t) auto
  have "foldM (\<lambda>(k, t) cost. TrieBFS S cost d k t False) ch 0 =
      Some (0 + (\<Sum>kt \<leftarrow> ch. case kt of (x, t) \<Rightarrow> leaf_sum (seg_cost S d) ([] @ [x]) t))"
  proof (rule foldM_sum)
    fix kt c
    assume kt: "kt \<in> set ch"
    obtain x u where x: "kt = (x, u)" by (cases kt)
    show "(case kt of (k, t) \<Rightarrow> \<lambda>cost. TrieBFS S cost d k t False) c =
        Some (c + (case kt of (x, t) \<Rightarrow> leaf_sum (seg_cost S d) ([] @ [x]) t))"
      using TrieBFS_spec [OF S, of "[x]" u d c] t kt x by (auto simp: tn uniform_def)
  qed
  then show ?thesis by (simp add: ReuseCost_def reuse_spec_def tn)
qed

text \<open>A problem instance: a parsed solver with a trie and a switch table over its blocks.\<close>

definition instance_ok :: "CostSolver \<Rightarrow> BBLID TrieNode \<Rightarrow> SwitchCountList \<Rightarrow> bool" where
  "instance_ok S t rows \<longleftrightarrow> solver_ok S \<and> trie_ok [] t \<and> \<not> isLeaf t \<and> keys_in (block_count S) t \<and>
     (\<forall>row \<in> set rows. row_ok (block_count S) row)"

lemma Cost_spec:
  assumes "instance_ok S t rows" and "decision_ok S d"
  shows "Cost S d t rows = Some (cost_spec S d t rows)"
  using assms
  by (simp add: instance_ok_def decision_ok_def Cost_def cost_spec_def ElapsedTime_spec ReuseCost_spec
      SwitchCost_spec)

end
