(* ===== verification/Solver_Search.thy ===== *)
theory Solver_Search
  imports Solver_Cost
begin

text \<open>
  The search of \<open>CostSolver.cpp\<close> for a placement of the blocks: the exhaustive search over a
  batch (\<open>PermuteDecision\<close>), the greedy assignment of the blocks that no batch touched, the two
  rounds of single swaps, and the three drivers built from them (\<open>PrintReuseStats\<close>,
  \<open>Debug_HierarchicalDecision\<close>, \<open>Debug_StartFromUnimportantSegment\<close>). The interface to the cost
  function is the locale \<open>decision_cost\<close>.
\<close>

subsection \<open>The search loops over an arbitrary cost function\<close>

text \<open>One value of the counter \<open>permute\<close>: bit \<open>j\<close> places the block \<open>cur_batch[j]\<close>.\<close>

definition permute_bits :: "BBLID list \<Rightarrow> nat \<Rightarrow> DECISION \<Rightarrow> DECISION option" where
  "permute_bits cur_batch permute decision =
     foldM (\<lambda>(j, b) d. vec_set d b (if bit permute j then PIM else CPU)) (enumerate 0 cur_batch) decision"

definition permute_step :: "(DECISION \<Rightarrow> COST option) \<Rightarrow> BBLID list \<Rightarrow> nat \<Rightarrow>
    COST \<times> DECISION \<times> DECISION \<Rightarrow> (COST \<times> DECISION \<times> DECISION) option" where
  "permute_step cost cur_batch permute = (\<lambda>(cur_total, temp_decision, decision). do {
     temp_decision \<leftarrow> permute_bits cur_batch permute temp_decision;
     temp_total \<leftarrow> cost temp_decision;
     if temp_total < cur_total then Some (temp_total, temp_decision, temp_decision)
     else Some (cur_total, temp_decision, decision) })"

text \<open>
  The counter runs from \<open>(1 << n) - 1\<close> down to 0. The shift is on \<open>int\<close>: for 31 and more
  blocks it has no defined value, although the assertion admits up to 63.
\<close>

definition permute_all :: "(DECISION \<Rightarrow> COST option) \<Rightarrow> DECISION \<Rightarrow> BBLID list \<Rightarrow> (COST \<times> DECISION) option" where
  "permute_all cost decision cur_batch =
     (if length cur_batch < 31 then do {
        (cur_total, temp, decision) \<leftarrow>
          foldM (permute_step cost cur_batch) (rev [0..<2 ^ length cur_batch]) (FLT_MAX, decision, decision);
        Some (cur_total, decision) }
      else None)"

definition swap_site :: "CostSite \<Rightarrow> CostSite" where
  "swap_site s = (if s = CPU then PIM else CPU)"

text \<open>Swap one block; swap it back when that costs more.\<close>

definition swap_step :: "(DECISION \<Rightarrow> COST option) \<Rightarrow> nat \<Rightarrow> DECISION \<times> COST \<Rightarrow> (DECISION \<times> COST) option" where
  "swap_step cost i = (\<lambda>(decision, cur_total). do {
     s \<leftarrow> vec_at decision (int i);
     d \<leftarrow> vec_set decision (int i) (swap_site s);
     temp_total \<leftarrow> cost d;
     if temp_total > cur_total then do {
       s' \<leftarrow> vec_at d (int i);
       d' \<leftarrow> vec_set d (int i) (swap_site s');
       Some (d', cur_total) }
     else Some (d, temp_total) })"

definition swap_rounds :: "(DECISION \<Rightarrow> COST option) \<Rightarrow> nat \<Rightarrow> DECISION \<times> COST \<Rightarrow> (DECISION \<times> COST) option" where
  "swap_rounds cost n = foldM (\<lambda>j. foldM (swap_step cost) [0..<n]) [0..<2::nat]"

definition complete :: "DECISION \<Rightarrow> bool" where
  "complete d \<longleftrightarrow> set d \<subseteq> {CPU, PIM}"

text \<open>The placements that a batch ranges over: both sites for its blocks, the rest as it was.\<close>

definition variant :: "BBLID list \<Rightarrow> DECISION \<Rightarrow> DECISION \<Rightarrow> bool" where
  "variant batch d e \<longleftrightarrow> length e = length d \<and>
     (\<forall>i < length d. if int i \<in> set batch then e ! i \<in> {CPU, PIM} else e ! i = d ! i)"

definition batch_ok :: "nat \<Rightarrow> BBLID list \<Rightarrow> bool" where
  "batch_ok n batch \<longleftrightarrow> distinct batch \<and> length batch < 31 \<and> (\<forall>b \<in> set batch. 0 \<le> b \<and> b < int n)"

lemma variantI:
  assumes "length e = length d" and "\<And>i. i < length d \<Longrightarrow> int i \<in> set batch \<Longrightarrow> e ! i \<in> {CPU, PIM}"
    and "\<And>i. i < length d \<Longrightarrow> int i \<notin> set batch \<Longrightarrow> e ! i = d ! i"
  shows "variant batch d e"
  using assms unfolding variant_def by simp

lemma variant_length: "variant batch d e \<Longrightarrow> length e = length d"
  by (simp add: variant_def)

lemma variant_in: "variant batch d e \<Longrightarrow> i < length d \<Longrightarrow> int i \<in> set batch \<Longrightarrow> e ! i \<in> {CPU, PIM}"
  unfolding variant_def by metis

lemma variant_out: "variant batch d e \<Longrightarrow> i < length d \<Longrightarrow> int i \<notin> set batch \<Longrightarrow> e ! i = d ! i"
  by (simp add: variant_def)

lemma variant_trans: "variant batch d e \<Longrightarrow> variant batch e e' \<Longrightarrow> variant batch d e'"
  by (rule variantI) (metis variant_length variant_in variant_out)+

lemma placed_variant:
  "variant batch d e \<Longrightarrow> \<forall>s \<in> set d. placed s \<Longrightarrow> \<forall>s \<in> set e. placed s"
proof
  fix s assume v: "variant batch d e" "\<forall>s \<in> set d. placed s" and "s \<in> set e"
  then obtain i where i: "i < length d" "s = e ! i" by (auto simp: in_set_conv_nth variant_length)
  show "placed s"
    using v i variant_in [OF v(1) i(1)] variant_out [OF v(1) i(1)]
    by (cases "int i \<in> set batch") (auto simp: placed_def)
qed

lemma complete_placed: "complete d \<Longrightarrow> \<forall>s \<in> set d. placed s"
  by (auto simp: complete_def placed_def)

fun put_bits :: "nat \<Rightarrow> BBLID list \<Rightarrow> nat \<Rightarrow> DECISION \<Rightarrow> DECISION" where
  "put_bits m [] k d = d"
| "put_bits m (b # bs) k d = put_bits (Suc m) bs k (d[nat b := (if bit k m then PIM else CPU)])"

lemma length_put_bits [simp]: "length (put_bits m bs k d) = length d"
  by (induction m bs k d rule: put_bits.induct) auto

lemma permute_bits_loop:
  "\<forall>b \<in> set bs. 0 \<le> b \<and> b < int (length d) \<Longrightarrow>
   foldM (\<lambda>(j, b) d. vec_set d b (if bit k j then PIM else CPU)) (enumerate m bs) d = Some (put_bits m bs k d)"
  by (induction m bs k d rule: put_bits.induct) (auto simp: vec_set_in_range)

lemma put_bits_outside:
  "\<forall>b \<in> set bs. 0 \<le> b \<Longrightarrow> int i \<notin> set bs \<Longrightarrow> put_bits m bs k d ! i = d ! i"
  by (induction m bs k d rule: put_bits.induct) (auto simp: nth_list_update)

lemma put_bits_at:
  "distinct bs \<Longrightarrow> \<forall>b \<in> set bs. 0 \<le> b \<and> b < int (length d) \<Longrightarrow> j < length bs \<Longrightarrow>
   put_bits m bs k d ! nat (bs ! j) = (if bit k (m + j) then PIM else CPU)"
proof (induction m bs k d arbitrary: j rule: put_bits.induct)
  case (2 m b bs k d)
  show ?case
  proof (cases j)
    case 0
    have "put_bits (Suc m) bs k (d[nat b := (if bit k m then PIM else CPU)]) ! nat b =
        d[nat b := (if bit k m then PIM else CPU)] ! nat b"
      using "2.prems" by (intro put_bits_outside) auto
    with 0 "2.prems" show ?thesis by (simp add: nat_less_iff)
  qed (use 2 in auto)
qed simp

lemma put_bits_variant:
  assumes "batch_ok (length d) batch"
  shows "variant batch d (put_bits 0 batch k d)"
proof (rule variantI)
  fix i assume "int i \<in> set batch"
  then obtain j where "j < length batch" "batch ! j = int i" by (auto simp: in_set_conv_nth)
  with assms put_bits_at [of batch d j 0 k]
  show "put_bits 0 batch k d ! i \<in> {CPU, PIM}" by (simp add: batch_ok_def)
qed (use assms in \<open>simp_all add: put_bits_outside batch_ok_def\<close>)

text \<open>Every variant is the one of some counter value.\<close>

lemma variant_put_bits:
  assumes ok: "batch_ok (length d) batch" and e: "variant batch d e"
  shows "\<exists>k < 2 ^ length batch. put_bits 0 batch k d = e"
proof -
  let ?bs = "map (\<lambda>b. e ! nat b = PIM) batch"
  let ?k = "horner_sum of_bool 2 ?bs :: nat"
  have nth: "put_bits 0 batch ?k d ! i = e ! i" if i: "i < length d" for i
  proof (cases "int i \<in> set batch")
    case True
    then obtain j where j: "j < length batch" "batch ! j = int i" by (auto simp: in_set_conv_nth)
    with ok have "put_bits 0 batch ?k d ! nat (batch ! j) = (if bit ?k j then PIM else CPU)"
      using put_bits_at [of batch d j 0 ?k] by (simp add: batch_ok_def)
    moreover have "bit ?k j \<longleftrightarrow> e ! i = PIM" using j by (simp add: bit_horner_sum_bit_iff)
    moreover have "e ! i \<in> {CPU, PIM}" using variant_in [OF e i True] .
    ultimately show ?thesis using j by auto
  next
    case False
    with ok e i show ?thesis by (simp add: put_bits_outside batch_ok_def variant_out)
  qed
  have "put_bits 0 batch ?k d = e"
    using variant_length [OF e] nth by (intro nth_equalityI) simp_all
  moreover have "?k < 2 ^ length batch"
    using horner_sum_of_bool_2_less [of ?bs] by (simp flip: of_nat_less_iff)
  ultimately show ?thesis by blast
qed

definition agree :: "BBLID list \<Rightarrow> DECISION \<Rightarrow> DECISION \<Rightarrow> bool" where
  "agree batch d e \<longleftrightarrow> length e = length d \<and> (\<forall>i < length d. int i \<notin> set batch \<longrightarrow> e ! i = d ! i)"

lemma agree_refl [simp]: "agree batch d d"
  by (simp add: agree_def)

lemma variant_agree: "variant batch d e \<Longrightarrow> agree batch d e"
  by (simp add: agree_def variant_length variant_out)

lemma put_bits_same:
  assumes "batch_ok (length d) batch" and "agree batch d e"
  shows "put_bits 0 batch k e = put_bits 0 batch k d"
proof (rule nth_equalityI)
  have len: "length e = length d" using assms(2) by (simp add: agree_def)
  then show "length (put_bits 0 batch k e) = length (put_bits 0 batch k d)" by simp
  fix i assume "i < length (put_bits 0 batch k e)"
  then have i: "i < length d" using len by simp
  show "put_bits 0 batch k e ! i = put_bits 0 batch k d ! i"
  proof (cases "int i \<in> set batch")
    case True
    then obtain j where "j < length batch" "batch ! j = int i" by (auto simp: in_set_conv_nth)
    with assms(1) len show ?thesis
      using put_bits_at [of batch d j 0 k] put_bits_at [of batch e j 0 k] by (simp add: batch_ok_def)
  next
    case False
    with assms i show ?thesis by (simp add: put_bits_outside batch_ok_def agree_def)
  qed
qed

subsection \<open>The interface to the cost function\<close>

text \<open>All the search needs: every placement of the right size, complete or not, has a cost.\<close>

locale decision_cost =
  fixes valid :: "'i \<Rightarrow> bool" and size_of :: "'i \<Rightarrow> nat" and cost :: "'i \<Rightarrow> DECISION \<Rightarrow> COST option"
  assumes cost_defined: "valid i \<Longrightarrow> length d = size_of i \<Longrightarrow> \<forall>s \<in> set d. placed s \<Longrightarrow> cost i d \<noteq> None"
begin

lemma permute_loop:
  assumes i: "valid i" "length d = size_of i" "\<forall>s \<in> set d. placed s" and ok: "batch_ok (length d) batch"
  shows "agree batch d temp \<Longrightarrow>
    \<exists>tot' temp' dec'. foldM (permute_step (cost i) batch) ps (tot, temp, dec) = Some (tot', temp', dec') \<and>
      tot' \<le> tot \<and> (\<forall>k \<in> set ps. tot' \<le> the (cost i (put_bits 0 batch k d))) \<and>
      (dec' = dec \<and> tot' = tot \<or>
       (\<exists>k \<in> set ps. dec' = put_bits 0 batch k d \<and> tot' = the (cost i (put_bits 0 batch k d))))"
proof (induction ps arbitrary: tot temp dec)
  case (Cons k ps)
  let ?e = "put_bits 0 batch k d"
  have v: "variant batch d ?e" by (rule put_bits_variant [OF ok])
  have "cost i ?e \<noteq> None"
    using i placed_variant [OF v] by (intro cost_defined) auto
  then obtain c where c: "cost i ?e = Some c" by blast
  have "length temp = length d" using Cons.prems by (simp add: agree_def)
  then have "permute_bits batch k temp = Some ?e"
    using ok put_bits_same [OF ok Cons.prems]
    by (simp add: permute_bits_def permute_bits_loop batch_ok_def)
  with c have step: "permute_step (cost i) batch k (tot, temp, dec) =
      Some (if c < tot then (c, ?e, ?e) else (tot, ?e, dec))"
    by (simp add: permute_step_def)
  show ?case
  proof (cases "c < tot")
    case True
    from Cons.IH [OF variant_agree [OF v], of c ?e] obtain tot' temp' dec' where
      "foldM (permute_step (cost i) batch) ps (c, ?e, ?e) = Some (tot', temp', dec')" "tot' \<le> c"
      "\<forall>k \<in> set ps. tot' \<le> the (cost i (put_bits 0 batch k d))"
      "dec' = ?e \<and> tot' = c \<or>
       (\<exists>k \<in> set ps. dec' = put_bits 0 batch k d \<and> tot' = the (cost i (put_bits 0 batch k d)))" by blast
    with True step c show ?thesis by auto
  next
    case False
    from Cons.IH [OF variant_agree [OF v], of tot dec] obtain tot' temp' dec' where
      "foldM (permute_step (cost i) batch) ps (tot, ?e, dec) = Some (tot', temp', dec')" "tot' \<le> tot"
      "\<forall>k \<in> set ps. tot' \<le> the (cost i (put_bits 0 batch k d))"
      "dec' = dec \<and> tot' = tot \<or>
       (\<exists>k \<in> set ps. dec' = put_bits 0 batch k d \<and> tot' = the (cost i (put_bits 0 batch k d)))" by blast
    with False step c show ?thesis by auto
  qed
qed simp

text \<open>The batch search finds a cheapest variant.\<close>

lemma permute_all_optimal:
  assumes i: "valid i" "length d = size_of i" "\<forall>s \<in> set d. placed s" and ok: "batch_ok (length d) batch"
    and small: "\<And>e. variant batch d e \<Longrightarrow> the (cost i e) < FLT_MAX"
  obtains c d' where "permute_all (cost i) d batch = Some (c, d')" "variant batch d d'" "cost i d' = Some c"
    "\<And>e. variant batch d e \<Longrightarrow> c \<le> the (cost i e)"
proof -
  let ?ps = "rev [0..<2 ^ length batch] :: nat list"
  obtain c temp d' where loop: "foldM (permute_step (cost i) batch) ?ps (FLT_MAX, d, d) = Some (c, temp, d')"
    "\<forall>k \<in> set ?ps. c \<le> the (cost i (put_bits 0 batch k d))"
    "d' = d \<and> c = FLT_MAX \<or>
       (\<exists>k \<in> set ?ps. d' = put_bits 0 batch k d \<and> c = the (cost i (put_bits 0 batch k d)))"
    using permute_loop [OF i ok agree_refl, of ?ps FLT_MAX d] by blast
  have "0 \<in> set ?ps" by simp
  then have "c < FLT_MAX"
    using loop(2) small [OF put_bits_variant [OF ok, of 0]] by fastforce
  then obtain k where d': "d' = put_bits 0 batch k d" "c = the (cost i d')" using loop(3) by auto
  then have v: "variant batch d d'" using put_bits_variant [OF ok] by simp
  have "cost i d' \<noteq> None"
    using i placed_variant [OF v] variant_length [OF v] by (intro cost_defined) auto
  then have "cost i d' = Some c" using d'(2) by auto
  moreover have "c \<le> the (cost i e)" if "variant batch d e" for e
    using variant_put_bits [OF ok that] loop(2) by auto
  moreover have "permute_all (cost i) d batch = Some (c, d')"
    using ok loop(1) by (simp add: permute_all_def batch_ok_def)
  ultimately show thesis using that v by blast
qed

lemma swap_step_spec:
  assumes i: "valid i" "length d = size_of i" "complete d" "k < length d" and c: "cost i d = Some c"
  shows "\<exists>d' c'. swap_step (cost i) k (d, c) = Some (d', c') \<and> length d' = length d \<and> complete d' \<and>
    cost i d' = Some c' \<and> c' \<le> c \<and> (d' = d \<or> d' = d[k := swap_site (d ! k)]) \<and>
    c' \<le> the (cost i (d[k := swap_site (d ! k)]))"
proof -
  let ?e = "d[k := swap_site (d ! k)]"
  have site: "d ! k \<in> {CPU, PIM}" using i nth_mem [of k d] unfolding complete_def by blast
  have e: "complete ?e" "length ?e = length d"
    using i(3) set_update_subset_insert [of d k "swap_site (d ! k)"]
    by (auto simp: complete_def swap_site_def)
  then have "cost i ?e \<noteq> None" using i by (intro cost_defined) (auto dest: complete_placed)
  then obtain t where t: "cost i ?e = Some t" by blast
  have undo: "?e[k := swap_site (?e ! k)] = d"
    using site i(4) by (auto simp: swap_site_def list_update_same_conv)
  show ?thesis
  proof (cases "t > c")
    case True
    then have "swap_step (cost i) k (d, c) = Some (d, c)"
      using t i(4) undo by (simp add: swap_step_def vec_at_int vec_set_def)
    with True t c i(3) show ?thesis by auto
  next
    case False
    then have "swap_step (cost i) k (d, c) = Some (?e, t)"
      using t i(4) by (simp add: swap_step_def vec_at_int vec_set_def)
    with False t e show ?thesis by auto
  qed
qed

text \<open>The two rounds of swaps keep the placement complete and never make it dearer.\<close>

lemma swap_rounds_spec:
  assumes i: "valid i" "length d = size_of i" "complete d" and c: "cost i d = Some c"
  obtains d' c' where "swap_rounds (cost i) (size_of i) (d, c) = Some (d', c')" "length d' = size_of i"
    "complete d'" "cost i d' = Some c'" "c' \<le> c"
proof -
  let ?P = "\<lambda>(d', c'). length d' = size_of i \<and> complete d' \<and> cost i d' = Some c' \<and> c' \<le> c"
  have pass: "\<exists>st'. foldM (swap_step (cost i)) [0..<size_of i] st = Some st' \<and> ?P st'" if "?P st" for st
  proof (rule foldM_defined [where P = ?P, OF that])
    fix k st
    assume k: "k \<in> set [0..<size_of i]" and P: "?P st"
    obtain e u where st: "st = (e, u)" by (cases st)
    with P k have "valid i" "length e = size_of i" "complete e" "k < length e" "cost i e = Some u" "u \<le> c"
      using i(1) by auto
    from swap_step_spec [OF this(1-5)] this(2,6)
    show "\<exists>st'. swap_step (cost i) k st = Some st' \<and> ?P st'"
      unfolding st by fastforce
  qed
  have "\<exists>st'. swap_rounds (cost i) (size_of i) (d, c) = Some st' \<and> ?P st'"
    unfolding swap_rounds_def
    by (rule foldM_defined [where P = ?P]) (use i c pass in simp_all)
  then show thesis using that by auto
qed

end

text \<open>The interface is met by the cost function of the solver.\<close>

interpretation solver: decision_cost "\<lambda>(S, t, rows). instance_ok S t rows" "\<lambda>(S, t, rows). block_count S"
    "\<lambda>(S, t, rows) d. Cost S d t rows"
  by unfold_locales (auto simp: Cost_spec decision_ok_def)

subsection \<open>The operations of the solver\<close>

definition PermuteDecision :: "CostSolver \<Rightarrow> DECISION \<Rightarrow> BBLID list \<Rightarrow> BBLID TrieNode \<Rightarrow> (COST \<times> DECISION) option" where
  "PermuteDecision S decision cur_batch partial_root =
     permute_all (\<lambda>d. Cost S d partial_root (bbl_switch_count S)) decision cur_batch"

definition elapsed_min :: "CostSolver \<Rightarrow> COST option" where
  "elapsed_min S = do {
     c \<leftarrow> ElapsedTime_site S CPU; p \<leftarrow> ElapsedTime_site S PIM;
     Some (if c < p then c else p) }"

text \<open>The segment is below the importance threshold.\<close>

definition unimportant :: "CostSolver \<Rightarrow> COST \<Rightarrow> COST \<Rightarrow> u64 \<Rightarrow> bool" where
  "unimportant S reuse_max elapsed_time_min cnt \<longleftrightarrow>
     real (unat cnt) * reuse_max < batch_threshold S * elapsed_time_min"

text \<open>The first loop: the number of leaves passed before one is below the threshold.\<close>

fun find_start :: "CostSolver \<Rightarrow> COST \<Rightarrow> COST \<Rightarrow> BBLID DataReuse \<Rightarrow> BBLID node_ptr list \<Rightarrow> nat option" where
  "find_start S rm em dr [] = Some 0"
| "find_start S rm em dr (l # ls) = do {
     seg \<leftarrow> ExportSegment dr new_segment l;
     if unimportant S rm em (seg_count seg) then Some 0
     else do { k \<leftarrow> find_start S rm em dr ls; Some (Suc k) } }"

text \<open>How often control leaves the blocks of a segment, per target.\<close>

definition add_switch :: "BBLID \<times> u64 \<Rightarrow> (BBLID \<times> u64) list \<Rightarrow> (BBLID \<times> u64) list" where
  "add_switch = (\<lambda>(toidx, count) m.
     AList.update toidx (case map_of m toidx of Some n \<Rightarrow> n + count | None \<Rightarrow> count) m)"

definition total_switch_cnt :: "SwitchCountList \<Rightarrow> BBLID list \<Rightarrow> (BBLID \<times> u64) list option" where
  "total_switch_cnt rows seg =
     foldM (\<lambda>fromidx m. do { row \<leftarrow> getRow rows fromidx; Some (fold add_switch (toidxvec row) m) }) seg []"

text \<open>
  The segment is filled up with the most frequent targets. \<open>ord\<close> stands for the iteration order
  of the hash map, which the library leaves open; with it the order of equal counts is open too.
\<close>

definition switch_order :: "((BBLID \<times> u64) list \<Rightarrow> (BBLID \<times> u64) list) \<Rightarrow> (BBLID \<times> u64) list \<Rightarrow> (BBLID \<times> u64) list" where
  "switch_order ord m = sort_key (\<lambda>e. - int (unat (snd e))) (ord m)"

fun pad_segment :: "int \<Rightarrow> (BBLID \<times> u64) list \<Rightarrow> BBLID DataReuseSegment \<Rightarrow> BBLID DataReuseSegment" where
  "pad_segment bs [] seg = seg"
| "pad_segment bs (e # es) seg =
     (if int (seg_size seg) \<ge> bs then seg else pad_segment bs es (seg_insert (fst e) seg))"

type_synonym search_state = "DECISION \<times> BBLID DataReuse \<times> COST"

definition batch_step :: "((BBLID \<times> u64) list \<Rightarrow> (BBLID \<times> u64) list) \<Rightarrow> CostSolver \<Rightarrow> nat \<Rightarrow> nat \<Rightarrow>
    search_state \<Rightarrow> search_state option" where
  "batch_step ord S rid cur_node = (\<lambda>(decision, dr, cur_total). do {
     l \<leftarrow> vec_at (leaves dr) (int cur_node);
     seg \<leftarrow> ExportSegment dr new_segment l;
     dr \<leftarrow> UpdateTrie rid seg dr;
     if int (seg_size seg) \<ge> batch_size S then Some (decision, dr, cur_total)
     else do {
       m \<leftarrow> total_switch_cnt (bbl_switch_count S) (seg_set seg);
       let seg = pad_segment (batch_size S) (switch_order ord m) seg;
       partial_root \<leftarrow> tries dr rid;
       (cur_total, decision) \<leftarrow> PermuteDecision S decision (seg_set seg) partial_root;
       Some (decision, dr, cur_total) } })"

text \<open>The same without filling up, as in \<open>Debug_StartFromUnimportantSegment\<close>.\<close>

definition batch_step_plain :: "CostSolver \<Rightarrow> nat \<Rightarrow> nat \<Rightarrow> search_state \<Rightarrow> search_state option" where
  "batch_step_plain S rid cur_node = (\<lambda>(decision, dr, cur_total). do {
     l \<leftarrow> vec_at (leaves dr) (int cur_node);
     seg \<leftarrow> ExportSegment dr new_segment l;
     dr \<leftarrow> UpdateTrie rid seg dr;
     if int (seg_size seg) \<ge> batch_size S then Some (decision, dr, cur_total)
     else do {
       partial_root \<leftarrow> tries dr rid;
       (cur_total, decision) \<leftarrow> PermuteDecision S decision (seg_set seg) partial_root;
       Some (decision, dr, cur_total) } })"

text \<open>
  One descent over the leaves, from the first one below the threshold back to the most important
  one, with a partial trie \<open>rid\<close> that grows with every segment.
\<close>

definition batch_phase :: "(nat \<Rightarrow> nat \<Rightarrow> search_state \<Rightarrow> search_state option) \<Rightarrow> CostSolver \<Rightarrow> nat \<Rightarrow>
    COST \<Rightarrow> COST \<Rightarrow> DECISION \<Rightarrow> BBLID DataReuse \<Rightarrow> (DECISION \<times> BBLID DataReuse) option" where
  "batch_phase step S rid rm em decision dr = do {
     cur_node \<leftarrow> find_start S rm em dr (leaves dr);
     (decision, dr, cur_total) \<leftarrow>
       foldM (step rid) (rev [0..<Suc cur_node]) (decision, new_trie rid dr, FLT_MAX);
     Some (decision, DeleteTrie rid dr) }"

definition fill_step :: "CostSolver \<Rightarrow> nat \<Rightarrow> DECISION \<Rightarrow> DECISION option" where
  "fill_step S i decision = do {
     cpustats \<leftarrow> vec_at (sorted_CPU S) (int i);
     pimstats \<leftarrow> vec_at (sorted_PIM S) (int i);
     d \<leftarrow> vec_at decision (int i);
     if d = INVALID then do {
       c \<leftarrow> max_time cpustats; p \<leftarrow> max_time pimstats;
       vec_set decision (int i) (if c \<le> p then CPU else PIM) }
     else Some decision }"

definition fill_invalid :: "CostSolver \<Rightarrow> DECISION \<Rightarrow> DECISION option" where
  "fill_invalid S decision = foldM (fill_step S) [0..<length (sorted_CPU S)] decision"

text \<open>The blocks no batch touched go where they run faster, then the swaps.\<close>

definition improve :: "CostSolver \<Rightarrow> BBLID DataReuse \<Rightarrow> DECISION \<Rightarrow> (DECISION \<times> COST) option" where
  "improve S dr decision = do {
     root \<leftarrow> tries dr own_root;
     decision \<leftarrow> fill_invalid S decision;
     cur_total \<leftarrow> Cost S decision root (bbl_switch_count S);
     swap_rounds (\<lambda>d. Cost S d root (bbl_switch_count S)) (length (sorted_CPU S)) (decision, cur_total) }"

definition reuse_round :: "((BBLID \<times> u64) list \<Rightarrow> (BBLID \<times> u64) list) \<Rightarrow> CostSolver \<Rightarrow> COST \<Rightarrow> COST \<Rightarrow>
    nat \<Rightarrow> CostSite \<Rightarrow> BBLID DataReuse \<Rightarrow> (DECISION \<times> COST \<times> BBLID DataReuse) option" where
  "reuse_round ord S rm em rid init_decision dr = do {
     (decision, dr) \<leftarrow> batch_phase (batch_step ord S) S rid rm em
        (replicate (length (hash2stats_CPU S)) init_decision) dr;
     (decision, cur_total) \<leftarrow> improve S dr decision;
     Some (decision, cur_total, dr) }"

definition keep_min :: "DECISION \<times> COST \<Rightarrow> DECISION \<times> COST \<Rightarrow> DECISION \<times> COST" where
  "keep_min = (\<lambda>(decision, cur_total) (min_decision, min_total).
     if min_total > cur_total then (decision, cur_total) else (min_decision, min_total))"

text \<open>The costs that the drivers print at the end; each read must be in range.\<close>

definition report :: "CostSolver \<Rightarrow> BBLID DataReuse \<Rightarrow> DECISION \<Rightarrow> COST option" where
  "report S dr decision = do {
     root \<leftarrow> tries dr own_root;
     reuse_cost \<leftarrow> ReuseCost S decision root;
     switch_cost \<leftarrow> SwitchCost S decision (bbl_switch_count S);
     (c, p) \<leftarrow> ElapsedTime S decision;
     Some (reuse_cost + switch_cost + c + p) }"

text \<open>
  Each partial trie is a fresh allocation; its leaves stay in the leaf list after \<open>DeleteTrie\<close>.
\<close>

definition PrintReuseStats :: "((BBLID \<times> u64) list \<Rightarrow> (BBLID \<times> u64) list) \<Rightarrow> CostSolver \<Rightarrow>
    (DECISION \<times> COST \<times> CostSolver) option" where
  "PrintReuseStats ord S = do {
     dr \<leftarrow> SortLeaves (bbl_data_reuse S);
     S \<leftarrow> getBBLSortedStats S;
     em \<leftarrow> elapsed_min S;
     rm \<leftarrow> SingleSegMaxReuseCost S;
     (min_decision, min_total, dr) \<leftarrow> foldM (\<lambda>(rid, init_decision) (min_decision, min_total, dr). do {
         (decision, cur_total, dr) \<leftarrow> reuse_round ord S rm em rid init_decision dr;
         let (d, t) = keep_min (decision, cur_total) (min_decision, min_total);
         Some (d, t, dr) })
       [(1, CPU), (2, PIM), (3, INVALID)] ([], FLT_MAX, dr);
     total_time \<leftarrow> report S dr min_decision;
     Some (min_decision, total_time, S\<lparr>bbl_data_reuse := dr\<rparr>) }"

definition Debug_driver :: "(nat \<Rightarrow> nat \<Rightarrow> search_state \<Rightarrow> search_state option) \<Rightarrow> CostSolver \<Rightarrow>
    BBLID DataReuse \<Rightarrow> (DECISION \<times> COST \<times> CostSolver) option" where
  "Debug_driver step S dr = do {
     em \<leftarrow> elapsed_min S;
     rm \<leftarrow> SingleSegMaxReuseCost S;
     (decision, dr) \<leftarrow> batch_phase step S 1 rm em (replicate (length (hash2stats_CPU S)) INVALID) dr;
     (decision, cur_total) \<leftarrow> improve S dr decision;
     total_time \<leftarrow> report S dr decision;
     Some (decision, total_time, S\<lparr>bbl_data_reuse := dr\<rparr>) }"

definition Debug_HierarchicalDecision :: "((BBLID \<times> u64) list \<Rightarrow> (BBLID \<times> u64) list) \<Rightarrow> CostSolver \<Rightarrow>
    (DECISION \<times> COST \<times> CostSolver) option" where
  "Debug_HierarchicalDecision ord S = do {
     dr \<leftarrow> SortLeaves (bbl_data_reuse S);
     S \<leftarrow> getBBLSortedStats S;
     Debug_driver (batch_step ord S) S dr }"

definition Debug_StartFromUnimportantSegment :: "CostSolver \<Rightarrow> (DECISION \<times> COST \<times> CostSolver) option" where
  "Debug_StartFromUnimportantSegment S = do {
     dr \<leftarrow> SortLeaves (bbl_data_reuse S);
     S \<leftarrow> getBBLSortedStats S;
     Debug_driver (batch_step_plain S) S dr }"

subsection \<open>The search is defined and improves\<close>

lemma ElapsedTime_site_defined:
  assumes "solver_ok S" and "site \<in> {CPU, PIM}"
  shows "\<exists>t. ElapsedTime_site S site = Some t"
proof -
  have "\<exists>t. foldM (\<lambda>st acc. do { t \<leftarrow> max_time st; Some (acc + t) }) stats (0::real) = Some t \<and> True"
    if "\<forall>s \<in> set stats. max_time s \<noteq> None" for stats
    by (rule foldM_defined [where P = "\<lambda>_. True"]) (use that in auto)
  then show ?thesis
    using assms by (auto simp: ElapsedTime_site_def solver_ok_def site_at_def vec_at_def)
qed

lemma thresholds_defined:
  assumes "solver_ok S"
  obtains em rm where "elapsed_min S = Some em" "SingleSegMaxReuseCost S = Some rm"
proof -
  obtain c p where "ElapsedTime_site S CPU = Some c" "ElapsedTime_site S PIM = Some p"
    using ElapsedTime_site_defined [OF assms] by blast
  then have "\<exists>em. elapsed_min S = Some em" by (simp add: elapsed_min_def)
  moreover have "\<exists>rm. SingleSegMaxReuseCost S = Some rm"
    using assms by (simp add: SingleSegMaxReuseCost_def site_at_len2 solver_ok_def)
  ultimately show thesis using that by blast
qed

end
