(* ===== verification/Search_Correct.thy ===== *)
theory Search_Correct
  imports Solver_Search
begin

text \<open>
  Correctness of the search drivers of \<open>Solver_Search\<close>: on a parsed and aligned instance in which
  some leaf is below the importance threshold every read is in range, every batch trie stays
  well formed, and the resulting placement is complete and no dearer than what each round
  started its swaps from. Without such a leaf the first read is already past the leaf list.
\<close>

subsection \<open>Tries over the blocks of the instance\<close>

lemma keys_in_update:
  "keys_in n t \<Longrightarrow> omap_ok (node_children t) \<Longrightarrow> trie_ok pre t \<Longrightarrow> \<forall>x \<in> set xs. 0 \<le> x \<and> x < int n \<Longrightarrow>
   trie_update xs c t = Some t' \<Longrightarrow> keys_in n t'"
proof (induction xs c t arbitrary: pre t' rule: trie_update.induct)
  case (1 c l k m ch)
  then show ?case by (auto split: if_splits)
next
  case (2 x xs c l k m ch)
  let ?s = "case map_of ch x of None \<Rightarrow> new_node (Some x) | Some t \<Rightarrow> t"
  from "2.prems" obtain u where u: "trie_update xs c ?s = Some u"
    and t': "t' = TrieNode l k m (omap_update x u ch)" by (auto simp: bind_eq_Some_conv)
  have ok: "omap_ok ch" using "2.prems" by simp
  have s: "trie_ok (pre @ [x]) ?s" "keys_in n ?s"
    using "2.prems"(1,3) ok by (auto simp: new_node_def map_of_in split: option.splits)
  have "omap_ok (node_children ?s)" using s(1) by (cases ?s) auto
  with s u "2.prems"(4) "2.IH" have "keys_in n u" by auto
  with "2.prems"(1,4) ok show ?case by (auto simp: t' set_omap_update)
qed

lemma keys_in_leaf:
  "trie_ok pre t \<Longrightarrow> keys_in n t \<Longrightarrow> leaf_at t p = Some c \<Longrightarrow> \<forall>x \<in> set p. 0 \<le> x \<and> x < int n"
proof (induction p arbitrary: pre t)
  case (Cons y p)
  obtain l k m ch where t: "t = TrieNode l k m ch" by (cases t)
  with Cons.prems obtain u where u: "(y, u) \<in> set ch" "leaf_at u p = Some c"
    by (auto simp: map_of_in split: option.splits)
  with Cons.prems(1) t have "trie_ok (pre @ [y]) u" by auto
  from Cons.IH [OF this _ u(2)] u(1) Cons.prems(2) t show ?case by auto
qed simp

lemma UpdateTrie_keys_in:
  assumes "UpdateTrie rid seg dr = Some dr'" and "tries dr rid = Some t" and "trie_ok [] t" and "keys_in n t"
    and "seg_ok seg" and "\<forall>x \<in> set (seg_set seg). 0 \<le> x \<and> x < int n" and "tries dr' rid = Some t'"
  shows "keys_in n t'"
proof (cases "1 < seg_size seg")
  case False
  with assms show ?thesis by (simp add: UpdateTrie_def)
next
  case True
  then have ne: "seg_set seg \<noteq> []" by (auto simp: seg_size_def)
  with assms(5) obtain h where h: "seg_head seg = Some h" "h \<in> set (seg_set seg)" by (auto simp: seg_ok_def)
  have up: "trie_update (seg_set seg @ [h]) (seg_count seg) t = Some t'"
    using assms(1,2,7) True h by (auto simp: UpdateTrie_def Let_def bind_eq_Some_conv)
  have "omap_ok (node_children t)" using assms(3) by (cases t) auto
  moreover have "\<forall>x \<in> set (seg_set seg @ [h]). 0 \<le> x \<and> x < int n" using assms(6) h(2) by auto
  ultimately show ?thesis using keys_in_update [OF assms(4) _ assms(3) _ up] by blast
qed

lemma trie_ok_root_inner: "trie_ok [] t \<Longrightarrow> \<not> isLeaf t"
  by (cases t) (auto simp: seg_path_def)

text \<open>The trie of a sequence of segments over the blocks of an instance.\<close>

definition segs_in :: "nat \<Rightarrow> BBLID DataReuseSegment list \<Rightarrow> bool" where
  "segs_in n segs \<longleftrightarrow> (\<forall>seg \<in> set segs. \<forall>x \<in> set (seg_set seg). 0 \<le> x \<and> x < int n)"

lemma insert_segs_instance:
  "segs_ok segs \<Longrightarrow> segs_in n segs \<Longrightarrow>
   \<exists>dr t. insert_segs own_root segs new_DataReuse = Some dr \<and> tries dr = [own_root \<mapsto> t] \<and>
     trie_holds t segs \<and> keys_in n t"
proof (induction segs rule: rev_induct)
  case Nil
  have "trie_holds (new_node None) []" by (rule trie_holds_new)
  then show ?case
    by (intro exI [of _ new_DataReuse] exI [of _ "new_node None"])
      (simp add: insert_segs_def new_DataReuse_def, simp add: new_node_def)
next
  case (snoc seg segs)
  have "key_total segs p < 2 ^ 64" if "p \<in> seg_key ` set segs" for p
    using snoc.prems(1) that key_total_mono [of segs p "[seg]"]
    by (auto simp: segs_ok_def simp del: One_nat_def intro: le_less_trans)
  then have "segs_ok segs" "segs_in n segs" using snoc.prems by (auto simp: segs_ok_def segs_in_def)
  with snoc.IH obtain dr t where dr: "insert_segs own_root segs new_DataReuse = Some dr"
    "tries dr = [own_root \<mapsto> t]" "trie_holds t segs" "keys_in n t" by blast
  have seg: "seg_ok seg" "key_total (segs @ [seg]) (seg_key seg) < 2 ^ 64"
    "\<forall>x \<in> set (seg_set seg). 0 \<le> x \<and> x < int n"
    using snoc.prems by (auto simp: segs_ok_def segs_in_def)
  have root: "tries dr own_root = Some t" "(tries dr)(own_root \<mapsto> u) = [own_root \<mapsto> u]" for u
    using dr(2) by simp_all
  obtain dr' t' where up: "UpdateTrie own_root seg dr = Some dr'" "tries dr' = [own_root \<mapsto> t']"
    "trie_holds t' (segs @ [seg])"
    using UpdateTrie_holds [OF dr(3) root(1) seg(1,2)] unfolding root(2) by blast
  have "trie_ok [] t" using dr(3) by (simp add: trie_holds_def)
  moreover have "tries dr' own_root = Some t'" using up(2) by simp
  ultimately have "keys_in n t'" using UpdateTrie_keys_in [OF up(1) root(1) _ dr(4) seg(1,3)] by blast
  moreover have "insert_segs own_root (segs @ [seg]) new_DataReuse = Some dr'"
    using dr(1) up(1) by (simp add: insert_segs_def foldM_append)
  ultimately show ?case using up(2,3) by blast
qed

lemma ReuseCost_segments:
  assumes "solver_ok S" and "trie_holds t segs" and "keys_in (length d) t"
  shows "ReuseCost S d t =
    Some (\<Sum>seg \<leftarrow> big segs. real (unat (seg_count seg)) * seg_cost S d (seg_key seg))"
proof -
  have "trie_ok [] t" using assms(2) by (simp add: trie_holds_def)
  then have "ReuseCost S d t = Some (reuse_spec S d t)"
    using ReuseCost_spec [OF assms(1)] trie_ok_root_inner assms(3) by blast
  then show ?thesis using assms(2) by (simp add: reuse_spec_def trie_holds_def)
qed

subsection \<open>The leaves of an instance\<close>

definition search_ok :: "CostSolver \<Rightarrow> bool" where
  "search_ok S \<longleftrightarrow> solver_ok S \<and> length (hash2stats_CPU S) = block_count S \<and>
     block_count S \<le> length (bbl_switch_count S) \<and>
     (\<forall>row \<in> set (bbl_switch_count S). row_ok (block_count S) row) \<and>
     0 \<le> batch_size S \<and> batch_size S < 31"

definition own_ok :: "CostSolver \<Rightarrow> BBLID TrieNode \<Rightarrow> BBLID list list \<Rightarrow> bool" where
  "own_ok S t ls \<longleftrightarrow> trie_ok [] t \<and> keys_in (block_count S) t \<and> distinct ls \<and>
     (\<forall>p \<in> set ls. leaf_at t p \<noteq> None)"

definition reuse_view :: "BBLID DataReuse \<Rightarrow> BBLID TrieNode \<Rightarrow> BBLID list list \<Rightarrow> bool" where
  "reuse_view dr t ls \<longleftrightarrow> tries dr own_root = Some t \<and>
     take (length ls) (leaves dr) = map (Pair own_root) ls"

lemma own_instance:
  "search_ok S \<Longrightarrow> own_ok S t ls \<Longrightarrow> instance_ok S t (bbl_switch_count S)"
  by (simp add: search_ok_def own_ok_def instance_ok_def trie_ok_root_inner)

definition leaf_seg :: "BBLID TrieNode \<Rightarrow> BBLID list \<Rightarrow> BBLID DataReuseSegment" where
  "leaf_seg t p = \<lparr>seg_head = Some (last p), seg_set = butlast p, seg_count = the (leaf_at t p)\<rparr>"

lemma own_leaf:
  assumes "own_ok S t ls" and "p \<in> set ls" and "tries dr own_root = Some t"
  shows "ExportSegment dr new_segment (own_root, p) = Some (leaf_seg t p)" and "seg_ok (leaf_seg t p)"
    and "seg_key (leaf_seg t p) = p" and "1 < seg_size (leaf_seg t p)"
    and "\<forall>x \<in> set (seg_set (leaf_seg t p)). 0 \<le> x \<and> x < int (block_count S)"
proof -
  have ok: "trie_ok [] t" "keys_in (block_count S) t" using assms(1) by (simp_all add: own_ok_def)
  from assms(1,2) obtain c where c: "leaf_at t p = Some c" by (auto simp: own_ok_def)
  obtain s h where p: "p = s @ [h]" "oset_ok s" "h \<in> set s" "2 \<le> length s"
    and ex: "ExportSegment dr new_segment (own_root, p) = Some \<lparr>seg_head = Some h, seg_set = s, seg_count = c\<rparr>"
    using ExportSegment_leaf [OF assms(3) ok(1) c] by blast
  have seg: "leaf_seg t p = \<lparr>seg_head = Some h, seg_set = s, seg_count = c\<rparr>"
    using p(1) c by (simp add: leaf_seg_def)
  show "ExportSegment dr new_segment (own_root, p) = Some (leaf_seg t p)" using ex seg by simp
  show "seg_ok (leaf_seg t p)" "seg_key (leaf_seg t p) = p" "1 < seg_size (leaf_seg t p)"
    unfolding seg using p by (simp_all add: seg_ok_def seg_key_def seg_size_def)
  show "\<forall>x \<in> set (seg_set (leaf_seg t p)). 0 \<le> x \<and> x < int (block_count S)"
    unfolding seg using keys_in_leaf [OF ok c] p(1) by simp
qed

lemma find_start_spec:
  assumes "own_ok S t ls" and "tries dr own_root = Some t"
    and "\<exists>p \<in> set qs. unimportant S rm em (the (leaf_at t p))" and "set qs \<subseteq> set ls"
  shows "\<exists>k < length qs. find_start S rm em dr (map (Pair own_root) qs @ junk) = Some k \<and>
    unimportant S rm em (the (leaf_at t (qs ! k))) \<and>
    (\<forall>j < k. \<not> unimportant S rm em (the (leaf_at t (qs ! j))))"
  using assms(3,4)
proof (induction qs)
  case (Cons q qs)
  have ex: "ExportSegment dr new_segment (own_root, q) = Some (leaf_seg t q)"
    using own_leaf(1) [OF assms(1) _ assms(2)] Cons.prems(2) by auto
  show ?case
  proof (cases "unimportant S rm em (the (leaf_at t q))")
    case True
    with ex show ?thesis by (auto simp: leaf_seg_def intro!: exI [of _ 0])
  next
    case False
    with Cons obtain k where k: "k < length qs"
      "find_start S rm em dr (map (Pair own_root) qs @ junk) = Some k"
      "unimportant S rm em (the (leaf_at t (qs ! k)))"
      "\<forall>j < k. \<not> unimportant S rm em (the (leaf_at t (qs ! j)))" by auto
    with False ex show ?thesis
      by (auto simp: leaf_seg_def nth_Cons split: nat.splits intro!: exI [of _ "Suc k"])
  qed
qed simp

text \<open>When every leaf is important, the search starts behind the last one and has no result.\<close>

lemma find_start_end:
  assumes "own_ok S t ls" and "tries dr own_root = Some t" and "set qs \<subseteq> set ls"
    and "\<forall>p \<in> set qs. \<not> unimportant S rm em (the (leaf_at t p))"
  shows "find_start S rm em dr (map (Pair own_root) qs) = Some (length qs)"
  using assms(3,4)
proof (induction qs)
  case (Cons q qs)
  have "ExportSegment dr new_segment (own_root, q) = Some (leaf_seg t q)"
    using own_leaf(1) [OF assms(1) _ assms(2)] Cons.prems(1) by auto
  with Cons show ?case by (simp add: leaf_seg_def)
qed simp

subsection \<open>Filling up a segment\<close>

lemma total_switch_cnt_defined:
  assumes "\<forall>row \<in> set rows. row_ok n row" and "\<forall>x \<in> set seg. 0 \<le> x \<and> x < int (length rows)"
  shows "\<exists>m. total_switch_cnt rows seg = Some m \<and> (\<forall>(x, c) \<in> set m. 0 \<le> x \<and> x < int n)"
  unfolding total_switch_cnt_def
proof (rule foldM_defined)
  fix x and m :: "(BBLID \<times> u64) list"
  assume x: "x \<in> set seg" and m: "\<forall>(x, c) \<in> set m. 0 \<le> x \<and> x < int n"
  then have row: "getRow rows x = Some (rows ! nat x)" "rows ! nat x \<in> set rows"
    using assms(2) by (auto simp: getRow_def vec_at_in_range nat_less_iff)
  then have "\<forall>(t, c) \<in> set (toidxvec (rows ! nat x)). 0 \<le> t \<and> t < int n"
    using assms(1) unfolding row_ok_def by blast
  moreover have "\<forall>(x, c) \<in> set (fold add_switch es m). 0 \<le> x \<and> x < int n"
    if "\<forall>(t, c) \<in> set es. 0 \<le> t \<and> t < int n" for es
    using that m
  proof (induction es arbitrary: m)
    case (Cons e es)
    have "fst ` set (add_switch e m) \<subseteq> insert (fst e) (fst ` set m)"
      by (cases e) (simp add: add_switch_def dom_update)
    then have "\<forall>(x, c) \<in> set (add_switch e m). 0 \<le> x \<and> x < int n"
      using Cons.prems by fastforce
    with Cons show ?case by simp
  qed simp
  ultimately show "\<exists>m'. (do { row \<leftarrow> getRow rows x; Some (fold add_switch (toidxvec row) m) }) = Some m' \<and>
      (\<forall>(x, c) \<in> set m'. 0 \<le> x \<and> x < int n)"
    using row(1) by simp
qed simp

lemma length_oset_insert: "length (oset_insert x xs) \<le> Suc (length xs)"
  by (induction x xs rule: oset_insert.induct) auto

lemma pad_segment_spec:
  "seg_ok seg \<Longrightarrow> int (seg_size seg) \<le> bs \<Longrightarrow>
   seg_ok (pad_segment bs es seg) \<and> int (seg_size (pad_segment bs es seg)) \<le> bs \<and>
   set (seg_set seg) \<subseteq> set (seg_set (pad_segment bs es seg)) \<and>
   set (seg_set (pad_segment bs es seg)) \<subseteq> set (seg_set seg) \<union> fst ` set es"
proof (induction bs es seg rule: pad_segment.induct)
  case (2 bs e es seg)
  show ?case
  proof (cases "int (seg_size seg) \<ge> bs")
    case False
    have "int (seg_size (seg_insert (fst e) seg)) \<le> bs"
      using False length_oset_insert [of "fst e" "seg_set seg"] by (simp add: seg_size_def seg_insert_def)
    moreover have "set (seg_set (seg_insert (fst e) seg)) = insert (fst e) (set (seg_set seg))"
      by (simp add: seg_insert_def)
    moreover have "pad_segment bs (e # es) seg = pad_segment bs es (seg_insert (fst e) seg)"
      using False by simp
    ultimately show ?thesis using 2 False by (auto simp del: pad_segment.simps)
  qed (use 2 in auto)
qed simp

subsection \<open>One batch\<close>

lemma PermuteDecision_defined:
  assumes inst: "instance_ok S pt (bbl_switch_count S)" and d: "decision_ok S d"
    and batch: "batch_ok (block_count S) batch"
  shows "\<exists>c d'. PermuteDecision S d batch pt = Some (c, d') \<and> decision_ok S d'"
proof -
  let ?i = "(S, pt, bbl_switch_count S)"
  have len: "length d = block_count S" using d by (simp add: decision_ok_def)
  obtain c temp d' where "foldM (permute_step (\<lambda>d. Cost S d pt (bbl_switch_count S)) batch)
      (rev [0..<2 ^ length batch]) (FLT_MAX, d, d) = Some (c, temp, d')"
    and d': "d' = d \<or> (\<exists>k. d' = put_bits 0 batch k d)"
    using solver.permute_loop [of ?i d batch d "rev [0..<2 ^ length batch]" FLT_MAX d] assms
    by (auto simp: decision_ok_def len)
  then have "PermuteDecision S d batch pt = Some (c, d')"
    using batch by (simp add: PermuteDecision_def permute_all_def batch_ok_def)
  moreover have "decision_ok S d'"
    using d' d put_bits_variant [of d batch] batch len
    by (auto simp: decision_ok_def dest: placed_variant)
  ultimately show ?thesis by blast
qed

definition batch_inv :: "CostSolver \<Rightarrow> nat \<Rightarrow> BBLID TrieNode \<Rightarrow> BBLID list list \<Rightarrow> nat \<Rightarrow> search_state \<Rightarrow> bool" where
  "batch_inv S rid t ls k = (\<lambda>(decision, dr, total).
     decision_ok S decision \<and> reuse_view dr t ls \<and>
     (\<exists>pt segs. tries dr rid = Some pt \<and> trie_holds pt segs \<and> keys_in (block_count S) pt \<and>
        seg_key ` set segs \<subseteq> set (drop k ls)))"

lemma batch_prefix:
  assumes S: "search_ok S" and own: "own_ok S t ls" and k: "k < length ls" and rid: "rid \<noteq> own_root"
    and view: "reuse_view dr t ls"
    and pt: "tries dr rid = Some pt" "trie_holds pt segs" "keys_in (block_count S) pt"
      "seg_key ` set segs \<subseteq> set (drop (Suc k) ls)"
  obtains dr' pt' where "vec_at (leaves dr) (int k) = Some (own_root, ls ! k)"
    "ExportSegment dr new_segment (own_root, ls ! k) = Some (leaf_seg t (ls ! k))"
    "UpdateTrie rid (leaf_seg t (ls ! k)) dr = Some dr'" "reuse_view dr' t ls" "tries dr' rid = Some pt'"
    "trie_holds pt' (segs @ [leaf_seg t (ls ! k)])" "keys_in (block_count S) pt'"
    "seg_key ` set (segs @ [leaf_seg t (ls ! k)]) \<subseteq> set (drop k ls)"
proof -
  let ?p = "ls ! k" and ?seg = "leaf_seg t (ls ! k)"
  have p: "?p \<in> set ls" using k by simp
  have root: "tries dr own_root = Some t" and pre: "take (length ls) (leaves dr) = map (Pair own_root) ls"
    using view by (simp_all add: reuse_view_def)
  note leaf = own_leaf [OF own p root]
  have len: "length ls \<le> length (leaves dr)"
    using arg_cong [OF pre, of length] by simp
  have "leaves dr ! k = take (length ls) (leaves dr) ! k" using k by simp
  then have "leaves dr ! k = (own_root, ?p)" using k by (simp only: pre nth_map)
  then have at: "vec_at (leaves dr) (int k) = Some (own_root, ?p)"
    using k len by (simp add: vec_at_int)
  have "distinct ls" using own by (simp add: own_ok_def)
  then have "?p \<notin> set (drop (Suc k) ls)"
    using k by (metis Cons_nth_drop_Suc distinct.simps(2) distinct_drop)
  then have "seg_key ?seg \<notin> seg_key ` set (big segs)"
    using pt(4) leaf(3) by (auto simp: big_def)
  moreover have "unat (seg_count ?seg) < 2 ^ LENGTH(64)" by (rule unsigned_less)
  ultimately have "key_total (segs @ [?seg]) (seg_key ?seg) < 2 ^ 64"
    using key_total_absent [of "seg_key ?seg" segs]
    by (simp add: key_total_snoc)
  from UpdateTrie_holds [OF pt(2,1) leaf(2) this] obtain dr' pt' where
    up: "UpdateTrie rid ?seg dr = Some dr'" "tries dr' = (tries dr)(rid \<mapsto> pt')"
      "trie_holds pt' (segs @ [?seg])"
    and lv: "leaves dr' = leaves dr @
      (if 1 < seg_size ?seg \<and> seg_key ?seg \<notin> seg_key ` set (big segs) then [(rid, seg_key ?seg)] else [])"
    by blast
  have view': "reuse_view dr' t ls"
    using view len rid lv unfolding reuse_view_def by (simp add: up(2))
  have pt': "tries dr' rid = Some pt'" by (simp add: up(2))
  have "trie_ok [] pt" using pt(2) by (simp add: trie_holds_def)
  then have "keys_in (block_count S) pt'"
    using UpdateTrie_keys_in [OF up(1) pt(1) _ pt(3) leaf(2) leaf(5) pt'] by blast
  moreover have "seg_key ` set (segs @ [?seg]) \<subseteq> set (drop k ls)"
    using pt(4) leaf(3) k by (auto simp: Cons_nth_drop_Suc [symmetric])
  ultimately show thesis using that at leaf(1) up(1,3) view' pt' by blast
qed

lemma trie_holds_instance:
  "search_ok S \<Longrightarrow> trie_holds pt segs \<Longrightarrow> keys_in (block_count S) pt \<Longrightarrow> instance_ok S pt (bbl_switch_count S)"
  by (simp add: search_ok_def trie_holds_def instance_ok_def trie_ok_root_inner)

lemma seg_batch_ok:
  assumes "search_ok S" and "seg_ok seg" and "int (seg_size seg) \<le> batch_size S"
    and "\<forall>x \<in> set (seg_set seg). 0 \<le> x \<and> x < int (block_count S)"
  shows "batch_ok (block_count S) (seg_set seg)"
  using assms by (auto simp: batch_ok_def search_ok_def seg_size_def seg_ok_def strict_sorted_iff)

lemma batch_step_inv:
  assumes S: "search_ok S" and own: "own_ok S t ls" and k: "k < length ls" and rid: "rid \<noteq> own_root"
    and ord: "\<And>m. set (ord m) = set m" and inv: "batch_inv S rid t ls (Suc k) st"
  shows "\<exists>st'. batch_step ord S rid k st = Some st' \<and> batch_inv S rid t ls k st'"
proof -
  let ?seg = "leaf_seg t (ls ! k)"
  obtain d dr tot where st: "st = (d, dr, tot)" by (cases st)
  from inv obtain pt segs where d: "decision_ok S d" and view: "reuse_view dr t ls"
    and pt: "tries dr rid = Some pt" "trie_holds pt segs" "keys_in (block_count S) pt"
      "seg_key ` set segs \<subseteq> set (drop (Suc k) ls)" by (auto simp: batch_inv_def st)
  obtain dr' pt' where pre: "vec_at (leaves dr) (int k) = Some (own_root, ls ! k)"
    "ExportSegment dr new_segment (own_root, ls ! k) = Some ?seg" "UpdateTrie rid ?seg dr = Some dr'"
    and post: "reuse_view dr' t ls" "tries dr' rid = Some pt'" "trie_holds pt' (segs @ [?seg])"
      "keys_in (block_count S) pt'" "seg_key ` set (segs @ [?seg]) \<subseteq> set (drop k ls)"
    by (rule batch_prefix [OF S own k rid view pt])
  have root: "tries dr own_root = Some t" using view by (simp add: reuse_view_def)
  have "ls ! k \<in> set ls" using k by simp
  note leaf = own_leaf [OF own this root]
  have inv': "batch_inv S rid t ls k (d', dr', tot')" if "decision_ok S d'" for d' tot'
    using that post unfolding batch_inv_def by blast
  show ?thesis
  proof (cases "int (seg_size ?seg) \<ge> batch_size S")
    case True
    with pre inv' [OF d] show ?thesis by (simp add: st batch_step_def)
  next
    case False
    have "\<forall>x \<in> set (seg_set ?seg). 0 \<le> x \<and> x < int (length (bbl_switch_count S))"
      using leaf(5) S by (auto simp: search_ok_def)
    then obtain m where m: "total_switch_cnt (bbl_switch_count S) (seg_set ?seg) = Some m"
      "\<forall>(x, c) \<in> set m. 0 \<le> x \<and> x < int (block_count S)"
      using total_switch_cnt_defined S unfolding search_ok_def by blast
    let ?pad = "pad_segment (batch_size S) (switch_order ord m) ?seg"
    have pad: "seg_ok ?pad" "int (seg_size ?pad) \<le> batch_size S"
      "set (seg_set ?pad) \<subseteq> set (seg_set ?seg) \<union> fst ` set (switch_order ord m)"
      using pad_segment_spec [OF leaf(2), of "batch_size S"] False by auto
    have "set (switch_order ord m) = set m" by (simp add: switch_order_def ord)
    then have "\<forall>x \<in> set (seg_set ?pad). 0 \<le> x \<and> x < int (block_count S)"
      using pad(3) m(2) leaf(5) by fastforce
    then obtain c d' where "PermuteDecision S d (seg_set ?pad) pt' = Some (c, d')" "decision_ok S d'"
      using PermuteDecision_defined [OF trie_holds_instance [OF S post(3,4)] d] seg_batch_ok [OF S pad(1,2)]
      by blast
    with False pre m(1) post(2) inv' show ?thesis
      by (simp add: st batch_step_def Let_def)
  qed
qed

lemma batch_step_plain_inv:
  assumes S: "search_ok S" and own: "own_ok S t ls" and k: "k < length ls" and rid: "rid \<noteq> own_root"
    and inv: "batch_inv S rid t ls (Suc k) st"
  shows "\<exists>st'. batch_step_plain S rid k st = Some st' \<and> batch_inv S rid t ls k st'"
proof -
  let ?seg = "leaf_seg t (ls ! k)"
  obtain d dr tot where st: "st = (d, dr, tot)" by (cases st)
  from inv obtain pt segs where d: "decision_ok S d" and view: "reuse_view dr t ls"
    and pt: "tries dr rid = Some pt" "trie_holds pt segs" "keys_in (block_count S) pt"
      "seg_key ` set segs \<subseteq> set (drop (Suc k) ls)" by (auto simp: batch_inv_def st)
  obtain dr' pt' where pre: "vec_at (leaves dr) (int k) = Some (own_root, ls ! k)"
    "ExportSegment dr new_segment (own_root, ls ! k) = Some ?seg" "UpdateTrie rid ?seg dr = Some dr'"
    and post: "reuse_view dr' t ls" "tries dr' rid = Some pt'" "trie_holds pt' (segs @ [?seg])"
      "keys_in (block_count S) pt'" "seg_key ` set (segs @ [?seg]) \<subseteq> set (drop k ls)"
    by (rule batch_prefix [OF S own k rid view pt])
  have root: "tries dr own_root = Some t" using view by (simp add: reuse_view_def)
  have "ls ! k \<in> set ls" using k by simp
  note leaf = own_leaf [OF own this root]
  have inv': "batch_inv S rid t ls k (d', dr', tot')" if "decision_ok S d'" for d' tot'
    using that post unfolding batch_inv_def by blast
  show ?thesis
  proof (cases "int (seg_size ?seg) \<ge> batch_size S")
    case True
    with pre inv' [OF d] show ?thesis by (simp add: st batch_step_plain_def)
  next
    case False
    then have "batch_ok (block_count S) (seg_set ?seg)"
      using seg_batch_ok [OF S leaf(2) _ leaf(5)] by simp
    then obtain c d' where "PermuteDecision S d (seg_set ?seg) pt' = Some (c, d')" "decision_ok S d'"
      using PermuteDecision_defined [OF trie_holds_instance [OF S post(3,4)] d] by blast
    with False pre post(2) inv' show ?thesis
      by (simp add: st batch_step_plain_def)
  qed
qed

subsection \<open>The phases of a round\<close>

definition step_ok :: "(nat \<Rightarrow> nat \<Rightarrow> search_state \<Rightarrow> search_state option) \<Rightarrow> CostSolver \<Rightarrow> BBLID TrieNode \<Rightarrow>
    BBLID list list \<Rightarrow> bool" where
  "step_ok step S t ls \<longleftrightarrow> (\<forall>rid k st. rid \<noteq> own_root \<longrightarrow> k < length ls \<longrightarrow> batch_inv S rid t ls (Suc k) st \<longrightarrow>
     (\<exists>st'. step rid k st = Some st' \<and> batch_inv S rid t ls k st'))"

lemma step_ok_batch: "search_ok S \<Longrightarrow> own_ok S t ls \<Longrightarrow> (\<And>m. set (ord m) = set m) \<Longrightarrow> step_ok (batch_step ord S) S t ls"
  unfolding step_ok_def using batch_step_inv by blast

lemma step_ok_plain: "search_ok S \<Longrightarrow> own_ok S t ls \<Longrightarrow> step_ok (batch_step_plain S) S t ls"
  unfolding step_ok_def using batch_step_plain_inv by blast

lemma batch_loop:
  assumes "step_ok step S t ls" and "rid \<noteq> own_root"
  shows "k \<le> length ls \<Longrightarrow> batch_inv S rid t ls k st \<Longrightarrow>
    \<exists>st'. foldM (step rid) (rev [0..<k]) st = Some st' \<and> batch_inv S rid t ls 0 st'"
proof (induction k arbitrary: st)
  case (Suc k)
  then obtain st1 where "step rid k st = Some st1" "batch_inv S rid t ls k st1"
    using assms unfolding step_ok_def by (metis Suc_le_eq)
  with Suc show ?case by auto
qed auto

lemma batch_phase_spec:
  assumes S: "search_ok S" and own: "own_ok S t ls" and step: "step_ok step S t ls" and rid: "rid \<noteq> own_root"
    and view: "reuse_view dr t ls" and d: "decision_ok S d"
    and ex: "\<exists>p \<in> set ls. unimportant S rm em (the (leaf_at t p))"
  shows "\<exists>d' dr'. batch_phase step S rid rm em d dr = Some (d', dr') \<and> decision_ok S d' \<and> reuse_view dr' t ls"
proof -
  have root: "tries dr own_root = Some t" using view by (simp add: reuse_view_def)
  have "leaves dr = map (Pair own_root) ls @ drop (length ls) (leaves dr)"
    using view append_take_drop_id [of "length ls" "leaves dr"] by (simp add: reuse_view_def)
  with find_start_spec [OF own root ex] obtain k where
    k: "k < length ls" "find_start S rm em dr (leaves dr) = Some k" by (metis order_refl)
  have "batch_inv S rid t ls (Suc k) (d, new_trie rid dr, FLT_MAX)"
    using d view rid trie_holds_new
    by (auto simp: batch_inv_def reuse_view_def new_trie_def new_node_def intro!: exI [of _ "[]"])
  then obtain st' where st': "foldM (step rid) (rev [0..<Suc k]) (d, new_trie rid dr, FLT_MAX) = Some st'"
    "batch_inv S rid t ls 0 st'"
    using batch_loop [OF step rid, of "Suc k"] k(1) by fastforce
  obtain d' dr' tot where st3: "st' = (d', dr', tot)" by (cases st')
  have "batch_phase step S rid rm em d dr = Some (d', DeleteTrie rid dr')"
    unfolding batch_phase_def k(2) bind.bind_lunit st'(1) st3 by simp
  moreover have "decision_ok S d'" "reuse_view (DeleteTrie rid dr') t ls"
    using st'(2) rid by (auto simp: st3 batch_inv_def reuse_view_def DeleteTrie_def)
  ultimately show ?thesis by blast
qed

text \<open>The placement of a block by its own running times.\<close>

definition faster :: "CostSolver \<Rightarrow> nat \<Rightarrow> CostSite" where
  "faster S i = (if time_of (sorted_CPU S) i \<le> time_of (sorted_PIM S) i then CPU else PIM)"

lemma fill_loop:
  assumes S: "solver_ok S" and len: "length d = block_count S"
  shows "n \<le> block_count S \<Longrightarrow> \<exists>e. foldM (fill_step S) [0..<n] d = Some e \<and> length e = length d \<and>
    (\<forall>i < length d. e ! i = (if i < n \<and> d ! i = INVALID then faster S i else d ! i))"
proof (induction n)
  case (Suc n)
  then obtain e where e: "foldM (fill_step S) [0..<n] d = Some e" "length e = length d"
    "\<And>i. i < length d \<Longrightarrow> e ! i = (if i < n \<and> d ! i = INVALID then faster S i else d ! i)" by auto
  have n: "n < length (sorted_CPU S)" "n < length (sorted_PIM S)" "n < length d"
    using Suc.prems S len by (auto simp: block_count_def solver_ok_def aligned_def dest: list_all2_lengthD)
  then have "sorted_CPU S ! n \<in> set (sorted_CPU S)" "sorted_PIM S ! n \<in> set (sorted_PIM S)" by auto
  then have "max_time (sorted_CPU S ! n) \<noteq> None" "max_time (sorted_PIM S ! n) \<noteq> None"
    using S unfolding solver_ok_def by blast+
  then have step: "fill_step S n e = Some (if d ! n = INVALID then e[n := faster S n] else e)"
    using n e(2,3) by (auto simp: fill_step_def vec_at_int vec_set_def faster_def time_of_def)
  have "\<forall>i < length d. (if d ! n = INVALID then e[n := faster S n] else e) ! i =
      (if i < Suc n \<and> d ! i = INVALID then faster S i else d ! i)"
    using e(2,3) n(3) by (auto simp: nth_list_update less_Suc_eq)
  with e step show ?case by (auto simp: foldM_append)
qed simp

lemma fill_invalid_spec:
  assumes "solver_ok S" and "decision_ok S d"
  obtains e where "fill_invalid S d = Some e" "length e = block_count S" "complete e"
    "\<And>i. i < block_count S \<Longrightarrow> e ! i = (if d ! i = INVALID then faster S i else d ! i)"
proof -
  have len: "length d = block_count S" using assms(2) by (simp add: decision_ok_def)
  from fill_loop [OF assms(1) len order_refl] obtain e where e: "fill_invalid S d = Some e" "length e = length d"
    "\<And>i. i < length d \<Longrightarrow> e ! i = (if d ! i = INVALID then faster S i else d ! i)"
    using len by (auto simp: fill_invalid_def block_count_def)
  have "e ! i \<in> {CPU, PIM}" if "i < length d" for i
  proof -
    have "placed (d ! i)" using assms(2) that by (simp add: decision_ok_def)
    then show ?thesis using e(3) [OF that] by (auto simp: placed_def faster_def)
  qed
  then have "complete e" unfolding complete_def using e(2) by (metis in_set_conv_nth subsetI)
  with e len that show thesis by simp
qed

lemma improve_spec:
  assumes S: "search_ok S" and own: "own_ok S t ls" and root: "tries dr own_root = Some t" and d: "decision_ok S d"
  obtains e d' where "fill_invalid S d = Some e" "complete e" "length e = block_count S"
    "improve S dr d = Some (d', cost_spec S d' t (bbl_switch_count S))"
    "complete d'" "length d' = block_count S"
    "cost_spec S d' t (bbl_switch_count S) \<le> cost_spec S e t (bbl_switch_count S)"
proof -
  have inst: "instance_ok S t (bbl_switch_count S)" by (rule own_instance [OF S own])
  have sok: "solver_ok S" using S by (simp add: search_ok_def)
  obtain e where e: "fill_invalid S d = Some e" "length e = block_count S" "complete e"
    using fill_invalid_spec [OF sok d] by metis
  have cost: "Cost S f t (bbl_switch_count S) = Some (cost_spec S f t (bbl_switch_count S))"
    if "complete f" "length f = block_count S" for f
    using Cost_spec [OF inst] complete_placed [OF that(1)] that(2) by (simp add: decision_ok_def)
  obtain d' c' where sw: "swap_rounds (\<lambda>d. Cost S d t (bbl_switch_count S)) (block_count S)
        (e, cost_spec S e t (bbl_switch_count S)) = Some (d', c')"
      "length d' = block_count S" "complete d'" "Cost S d' t (bbl_switch_count S) = Some c'"
      "c' \<le> cost_spec S e t (bbl_switch_count S)"
    using solver.swap_rounds_spec [of "(S, t, bbl_switch_count S)" e] e inst cost by auto
  from cost [OF sw(3,2)] sw(4) have c': "c' = cost_spec S d' t (bbl_switch_count S)" by simp
  have "improve S dr d = Some (d', c')"
    using root e cost [OF e(3,2)] sw(1) by (simp add: improve_def block_count_def)
  with that e sw c' show thesis by blast
qed

subsection \<open>The drivers\<close>

lemma sort_leaves_own:
  assumes own: "own_ok S t ls" and dr: "tries dr own_root = Some t" "leaves dr = map (Pair own_root) ls"
  obtains dr' ls' where "SortLeaves dr = Some dr'" "reuse_view dr' t ls'" "leaves dr' = map (Pair own_root) ls'"
    "own_ok S t ls'" "set ls' = set ls" "sorted_wrt (\<lambda>p q. the (leaf_at t q) \<le> the (leaf_at t p)) ls'"
proof -
  let ?key = "\<lambda>p. - int (unat (the (leaf_at t p)))"
  have deref: "\<exists>n. deref dr (own_root, p) = Some n \<and> node_count n = the (leaf_at t p)" if "p \<in> set ls" for p
  proof -
    have "leaf_at t p \<noteq> None" using own that by (simp add: own_ok_def)
    then show ?thesis using dr(1) by (auto simp: deref_def leaf_at_def split: option.splits if_splits)
  qed
  have "sort_key (\<lambda>p. - int (unat (node_count (the (deref dr p))))) (map (Pair own_root) ls) =
      map (Pair own_root) (sort_key ?key ls)"
    unfolding sort_key_map using deref by (intro arg_cong [where f = "map _"] sort_key_eq) fastforce
  then have "SortLeaves dr = Some (dr\<lparr>leaves := map (Pair own_root) (sort_key ?key ls)\<rparr>)"
    using deref dr(2) by (auto simp: SortLeaves_def)
  moreover have "own_ok S t (sort_key ?key ls)" using own by (simp add: own_ok_def)
  moreover have "sorted_wrt (\<lambda>p q. the (leaf_at t q) \<le> the (leaf_at t p)) (sort_key ?key ls)"
    using sorted_sort_key [of ?key ls]
    by (auto simp: sorted_map word_le_nat_alt elim: sorted_wrt_mono_rel [rotated])
  ultimately show thesis using dr(1) that by (auto simp: reuse_view_def)
qed

lemma report_spec:
  assumes "search_ok S" and "own_ok S t ls" and "tries dr own_root = Some t" and "decision_ok S d"
  shows "report S dr d = Some (cost_spec S d t (bbl_switch_count S))"
  using assms own_instance [OF assms(1,2)]
  by (simp add: report_def instance_ok_def decision_ok_def ElapsedTime_spec ReuseCost_spec SwitchCost_spec
      cost_spec_def)

lemma reuse_round_spec:
  assumes S: "search_ok S" and own: "own_ok S t ls" and ord: "\<And>m. set (ord m) = set m" and rid: "rid \<noteq> own_root"
    and view: "reuse_view dr t ls" and site: "placed site"
    and ex: "\<exists>p \<in> set ls. unimportant S rm em (the (leaf_at t p))"
  obtains d dr' where "reuse_round ord S rm em rid site dr = Some (d, cost_spec S d t (bbl_switch_count S), dr')"
    "complete d" "length d = block_count S" "reuse_view dr' t ls"
proof -
  have "decision_ok S (replicate (length (hash2stats_CPU S)) site)"
    using S site by (simp add: decision_ok_def search_ok_def)
  from batch_phase_spec [OF S own step_ok_batch [OF S own ord] rid view this ex]
  obtain d0 dr' where b: "batch_phase (batch_step ord S) S rid rm em
      (replicate (length (hash2stats_CPU S)) site) dr = Some (d0, dr')" "decision_ok S d0" "reuse_view dr' t ls" by blast
  have "tries dr' own_root = Some t" using b(3) by (simp add: reuse_view_def)
  then obtain d' where d': "improve S dr' d0 = Some (d', cost_spec S d' t (bbl_switch_count S))"
    "complete d'" "length d' = block_count S" by (rule improve_spec [OF S own _ b(2)]) blast
  then have "reuse_round ord S rm em rid site dr = Some (d', cost_spec S d' t (bbl_switch_count S), dr')"
    using b(1) by (simp add: reuse_round_def)
  with that d' b(3) show thesis by blast
qed

text \<open>The cheapest of the three rounds.\<close>

lemma keep_min_cases:
  "keep_min (d, c) (d', c') = (if c < c' then (d, c) else (d', c'))"
  by (simp add: keep_min_def)

lemma PrintReuseStats_spec:
  assumes S: "search_ok S" and own: "own_ok S t ls"
    and dr: "tries (bbl_data_reuse S) own_root = Some t" "leaves (bbl_data_reuse S) = map (Pair own_root) ls"
    and ord: "\<And>m. set (ord m) = set m"
    and th: "elapsed_min S = Some em" "SingleSegMaxReuseCost S = Some rm"
    and ex: "\<exists>p \<in> set ls. unimportant S rm em (the (leaf_at t p))"
    and small: "\<And>d. complete d \<Longrightarrow> length d = block_count S \<Longrightarrow> cost_spec S d t (bbl_switch_count S) < FLT_MAX"
  obtains d S' dr0 d1 dr1 d2 dr2 d3 dr3 where
    "PrintReuseStats ord S = Some (d, cost_spec S d t (bbl_switch_count S), S')"
    "complete d" "length d = block_count S" "SortLeaves (bbl_data_reuse S) = Some dr0"
    "reuse_round ord S rm em 1 CPU dr0 = Some (d1, cost_spec S d1 t (bbl_switch_count S), dr1)"
    "reuse_round ord S rm em 2 PIM dr1 = Some (d2, cost_spec S d2 t (bbl_switch_count S), dr2)"
    "reuse_round ord S rm em 3 INVALID dr2 = Some (d3, cost_spec S d3 t (bbl_switch_count S), dr3)"
    "d \<in> {d1, d2, d3}"
    "\<forall>e \<in> {d1, d2, d3}. cost_spec S d t (bbl_switch_count S) \<le> cost_spec S e t (bbl_switch_count S)"
    "S' = S\<lparr>bbl_data_reuse := dr3\<rparr>" "tries dr3 own_root = Some t"
proof -
  let ?c = "\<lambda>d. cost_spec S d t (bbl_switch_count S)"
  have fresh: "\<not> stale S" using S by (simp add: search_ok_def solver_ok_def)
  obtain dr0 ls' where s: "SortLeaves (bbl_data_reuse S) = Some dr0" "reuse_view dr0 t ls'"
    "own_ok S t ls'" "set ls' = set ls"
    using sort_leaves_own [OF own dr] by metis
  have ex': "\<exists>p \<in> set ls'. unimportant S rm em (the (leaf_at t p))" using ex s(4) by simp
  have ne: "Suc n \<noteq> own_root" for n by (simp add: own_root_def)
  note round = reuse_round_spec [OF S s(3) ord _ _ _ ex']
  obtain d1 dr1 where r1: "reuse_round ord S rm em 1 CPU dr0 = Some (d1, ?c d1, dr1)"
    "complete d1" "length d1 = block_count S" "reuse_view dr1 t ls'"
    using round [of 1 dr0 CPU] s(2) by (auto simp: own_root_def placed_def)
  obtain d2 dr2 where r2: "reuse_round ord S rm em 2 PIM dr1 = Some (d2, ?c d2, dr2)"
    "complete d2" "length d2 = block_count S" "reuse_view dr2 t ls'"
    using round [of 2 dr1 PIM] r1(4) by (auto simp: own_root_def placed_def)
  obtain d3 dr3 where r3: "reuse_round ord S rm em 3 INVALID dr2 = Some (d3, ?c d3, dr3)"
    "complete d3" "length d3 = block_count S" "reuse_view dr3 t ls'"
    using round [of 3 dr2 INVALID] r2(4) by (auto simp: own_root_def placed_def)
  define k where "k = keep_min (d3, ?c d3) (keep_min (d2, ?c d2) (keep_min (d1, ?c d1) ([], FLT_MAX)))"
  have k: "snd k = ?c (fst k)" "fst k \<in> {d1, d2, d3}" "\<forall>e \<in> {d1, d2, d3}. ?c (fst k) \<le> ?c e"
    using small [OF r1(2,3)] by (auto simp: k_def keep_min_cases)
  have "decision_ok S (fst k)"
    using k(2) r1(2,3) r2(2,3) r3(2,3) by (auto simp: decision_ok_def dest: complete_placed)
  moreover have "tries dr3 own_root = Some t" using r3(4) by (simp add: reuse_view_def)
  ultimately have rep: "report S dr3 (fst k) = Some (?c (fst k))" by (rule report_spec [OF S s(3), rotated])
  have "PrintReuseStats ord S = Some (fst k, ?c (fst k), S\<lparr>bbl_data_reuse := dr3\<rparr>)"
    unfolding PrintReuseStats_def
    using s(1) fresh th r1(1) r2(1) r3(1) rep
    by (simp add: Let_def split_beta flip: k_def)
  with that k r1 r2 r3 s(1) show thesis unfolding reuse_view_def by blast
qed

text \<open>The single-round drivers.\<close>

lemma Debug_driver_spec:
  assumes S: "search_ok S" and own: "own_ok S t ls" and view: "reuse_view dr t ls" and step: "step_ok step S t ls"
    and th: "elapsed_min S = Some em" "SingleSegMaxReuseCost S = Some rm"
    and ex: "\<exists>p \<in> set ls. unimportant S rm em (the (leaf_at t p))"
  obtains d0 dr' e d S' where
    "batch_phase step S 1 rm em (replicate (block_count S) INVALID) dr = Some (d0, dr')"
    "fill_invalid S d0 = Some e"
    "Debug_driver step S dr = Some (d, cost_spec S d t (bbl_switch_count S), S')"
    "complete d" "length d = block_count S"
    "cost_spec S d t (bbl_switch_count S) \<le> cost_spec S e t (bbl_switch_count S)"
proof -
  have len: "length (hash2stats_CPU S) = block_count S" using S by (simp add: search_ok_def)
  have "decision_ok S (replicate (block_count S) INVALID)" by (simp add: decision_ok_def placed_def)
  moreover have "1 \<noteq> own_root" by (simp add: own_root_def)
  ultimately obtain d0 dr' where b: "batch_phase step S 1 rm em (replicate (block_count S) INVALID) dr = Some (d0, dr')"
    "decision_ok S d0" "reuse_view dr' t ls"
    using batch_phase_spec [OF S own step _ view _ ex] by blast
  then have root: "tries dr' own_root = Some t" by (simp add: reuse_view_def)
  obtain e d' where e: "fill_invalid S d0 = Some e"
    and d': "improve S dr' d0 = Some (d', cost_spec S d' t (bbl_switch_count S))"
      "complete d'" "length d' = block_count S"
      "cost_spec S d' t (bbl_switch_count S) \<le> cost_spec S e t (bbl_switch_count S)"
    by (rule improve_spec [OF S own root b(2)]) blast
  have "decision_ok S d'" using d' by (auto simp: decision_ok_def dest: complete_placed)
  from report_spec [OF S own root this]
  have "Debug_driver step S dr =
      Some (d', cost_spec S d' t (bbl_switch_count S), S\<lparr>bbl_data_reuse := dr'\<rparr>)"
    using th b(1) d'(1) len by (simp add: Debug_driver_def)
  with that b(1) e d' show thesis by blast
qed

lemma Debug_HierarchicalDecision_spec:
  assumes S: "search_ok S" and own: "own_ok S t ls"
    and dr: "tries (bbl_data_reuse S) own_root = Some t" "leaves (bbl_data_reuse S) = map (Pair own_root) ls"
    and ord: "\<And>m. set (ord m) = set m"
    and th: "elapsed_min S = Some em" "SingleSegMaxReuseCost S = Some rm"
    and ex: "\<exists>p \<in> set ls. unimportant S rm em (the (leaf_at t p))"
  obtains d S' where "Debug_HierarchicalDecision ord S = Some (d, cost_spec S d t (bbl_switch_count S), S')"
    "complete d" "length d = block_count S"
proof -
  have fresh: "\<not> stale S" using S by (simp add: search_ok_def solver_ok_def)
  obtain dr0 ls' where s: "SortLeaves (bbl_data_reuse S) = Some dr0" "reuse_view dr0 t ls'"
    "own_ok S t ls'" "set ls' = set ls"
    using sort_leaves_own [OF own dr] by metis
  have ex': "\<exists>p \<in> set ls'. unimportant S rm em (the (leaf_at t p))" using ex s(4) by simp
  from Debug_driver_spec [OF S s(3,2) step_ok_batch [OF S s(3) ord] th ex'] s(1) fresh that show thesis
    by (simp add: Debug_HierarchicalDecision_def) metis
qed

lemma Debug_StartFromUnimportantSegment_spec:
  assumes S: "search_ok S" and own: "own_ok S t ls"
    and dr: "tries (bbl_data_reuse S) own_root = Some t" "leaves (bbl_data_reuse S) = map (Pair own_root) ls"
    and th: "elapsed_min S = Some em" "SingleSegMaxReuseCost S = Some rm"
    and ex: "\<exists>p \<in> set ls. unimportant S rm em (the (leaf_at t p))"
  obtains d S' where "Debug_StartFromUnimportantSegment S = Some (d, cost_spec S d t (bbl_switch_count S), S')"
    "complete d" "length d = block_count S"
proof -
  have fresh: "\<not> stale S" using S by (simp add: search_ok_def solver_ok_def)
  obtain dr0 ls' where s: "SortLeaves (bbl_data_reuse S) = Some dr0" "reuse_view dr0 t ls'"
    "own_ok S t ls'" "set ls' = set ls"
    using sort_leaves_own [OF own dr] by metis
  have ex': "\<exists>p \<in> set ls'. unimportant S rm em (the (leaf_at t p))" using ex s(4) by simp
  from Debug_driver_spec [OF S s(3,2) step_ok_plain [OF S s(3)] th ex'] s(1) fresh that show thesis
    by (simp add: Debug_StartFromUnimportantSegment_def) metis
qed

text \<open>
  Without a leaf below the threshold the descent starts at index \<open>leaves_size\<close>, one past the last
  leaf, and the driver has no defined result.
\<close>

lemma reuse_search_overrun:
  assumes S: "search_ok S" and own: "own_ok S t ls"
    and dr: "tries (bbl_data_reuse S) own_root = Some t" "leaves (bbl_data_reuse S) = map (Pair own_root) ls"
    and th: "elapsed_min S = Some em" "SingleSegMaxReuseCost S = Some rm"
    and all: "\<forall>p \<in> set ls. \<not> unimportant S rm em (the (leaf_at t p))"
  shows "PrintReuseStats ord S = None"
proof -
  have fresh: "\<not> stale S" using S by (simp add: search_ok_def solver_ok_def)
  obtain dr0 ls' where s: "SortLeaves (bbl_data_reuse S) = Some dr0" "reuse_view dr0 t ls'"
    "leaves dr0 = map (Pair own_root) ls'" "own_ok S t ls'" "set ls' = set ls"
    using sort_leaves_own [OF own dr] by metis
  have "tries dr0 own_root = Some t" using s(2) by (simp add: reuse_view_def)
  then have start: "find_start S rm em dr0 (leaves dr0) = Some (length ls')"
    using find_start_end [OF s(4), of dr0 ls' rm em] all s(3,5) by simp
  have "batch_phase (batch_step ord S) S 1 rm em d dr0 = None" for d
  proof -
    have "batch_step ord S 1 (length ls') (d, new_trie 1 dr0, FLT_MAX) = None"
      using s(3) by (simp add: batch_step_def new_trie_def vec_at_int)
    then show ?thesis unfolding batch_phase_def start bind.bind_lunit by simp
  qed
  then have "reuse_round ord S rm em 1 CPU dr0 = None" by (simp add: reuse_round_def)
  then show ?thesis using s(1) fresh th by (simp add: PrintReuseStats_def)
qed

end
