(* ===== verification/Union_Sets.thy ===== *)
theory Union_Sets
  imports PIM_Common
begin

text \<open>
  \<open>DisjointSet\<close> of \<open>PIMProfSolver/Util.h\<close>: a union-find forest kept in a hash map, with path
  halving in \<open>Find\<close> and no ranks. The loop of \<open>Find\<close> need not stop on an arbitrary map, so it
  is a partial function; on every map the class can build it returns, and \<open>Union\<close> computes
  the least equivalence that contains the united pairs.
\<close>

type_synonym DisjointSet = "BBLID \<rightharpoonup> BBLID"

text \<open>\<open>parent[l]\<close> of an \<open>unordered_map\<close>: a missing key is first inserted with the value 0.\<close>

definition subscript :: "DisjointSet \<Rightarrow> BBLID \<Rightarrow> BBLID \<times> DisjointSet" where
  "subscript p l = (case p l of None \<Rightarrow> (0, p(l \<mapsto> 0)) | Some a \<Rightarrow> (a, p))"

partial_function (option) Find_loop :: "DisjointSet \<Rightarrow> BBLID \<Rightarrow> (DisjointSet \<times> BBLID) option" where
  "Find_loop p l =
     (case subscript p l of (a, p1) \<Rightarrow>
        if a = l then Some (p1, l)
        else (case subscript p1 a of (b, p2) \<Rightarrow> Find_loop (p2(l \<mapsto> b)) b))"

definition Find :: "DisjointSet \<Rightarrow> BBLID \<Rightarrow> (DisjointSet \<times> BBLID) option" where
  "Find p l = (case p l of None \<Rightarrow> Some (p(l \<mapsto> l), l) | Some _ \<Rightarrow> Find_loop p l)"

definition Union :: "DisjointSet \<Rightarrow> BBLID \<Rightarrow> BBLID \<Rightarrow> DisjointSet option" where
  "Union p m n = do {
     (p, x) \<leftarrow> Find p m;
     (p, y) \<leftarrow> Find p n;
     Some (p(x \<mapsto> y)) }"

subsection \<open>Roots and well-formed forests\<close>

text \<open>\<open>root_in p l n r\<close>: following \<open>n\<close> parent links from \<open>l\<close> leads to the root \<open>r\<close>.\<close>

inductive root_in :: "DisjointSet \<Rightarrow> BBLID \<Rightarrow> nat \<Rightarrow> BBLID \<Rightarrow> bool" where
  root: "p l = Some l \<Longrightarrow> root_in p l 0 l"
| up: "p l = Some a \<Longrightarrow> a \<noteq> l \<Longrightarrow> root_in p a n r \<Longrightarrow> root_in p l (Suc n) r"

inductive_cases root_inE: "root_in p l n r"
inductive_simps root_in_0 [simp]: "root_in p l 0 r"
inductive_simps root_in_Suc: "root_in p l (Suc n) r"

definition uf_ok :: "DisjointSet \<Rightarrow> bool" where
  "uf_ok p \<longleftrightarrow> (\<forall>l \<in> dom p. \<exists>n r. root_in p l n r)"

definition root_of :: "DisjointSet \<Rightarrow> BBLID \<Rightarrow> BBLID \<Rightarrow> bool" where
  "root_of p l r \<longleftrightarrow> (\<exists>n. root_in p l n r)"

definition same_set :: "DisjointSet \<Rightarrow> BBLID \<Rightarrow> BBLID \<Rightarrow> bool" where
  "same_set p x y \<longleftrightarrow> (\<exists>r. root_of p x r \<and> root_of p y r)"

lemma root_in_unique: "root_in p l n r \<Longrightarrow> root_in p l m s \<Longrightarrow> n = m \<and> r = s"
proof (induction arbitrary: m s rule: root_in.induct)
  case (root p l)
  from root.prems root.hyps show ?case by (auto elim: root_inE)
next
  case (up p l a n r)
  from up.prems up.hyps obtain m' where "m = Suc m'" "root_in p a m' s"
    by (auto elim: root_inE)
  with up.IH show ?case by auto
qed

lemma root_of_unique: "root_of p l r \<Longrightarrow> root_of p l s \<Longrightarrow> r = s"
  by (auto simp: root_of_def dest: root_in_unique)

lemma root_in_dom: "root_in p l n r \<Longrightarrow> l \<in> dom p"
  by (auto elim: root_inE)

lemma root_in_root: "root_in p l n r \<Longrightarrow> p r = Some r"
  by (induction rule: root_in.induct) auto

lemma root_of_dom: "root_of p l r \<Longrightarrow> l \<in> dom p"
  by (auto simp: root_of_def dest: root_in_dom)

lemma root_of_root: "root_of p l r \<Longrightarrow> p r = Some r"
  by (auto simp: root_of_def dest: root_in_root)

lemma root_of_self: "p r = Some r \<Longrightarrow> root_of p r r"
  by (auto simp: root_of_def intro: root_in.root)

lemma root_of_step: "p l = Some a \<Longrightarrow> a \<noteq> l \<Longrightarrow> root_of p a r \<Longrightarrow> root_of p l r"
  unfolding root_of_def by (blast intro: root_in.up)

lemma root_of_step_upd:
  "x \<noteq> l \<Longrightarrow> p x = Some a \<Longrightarrow> a \<noteq> x \<Longrightarrow> root_of (p(l \<mapsto> b)) a r \<Longrightarrow> root_of (p(l \<mapsto> b)) x r"
  by (rule root_of_step [of _ x a]) (simp_all del: fun_upd_apply add: fun_upd_other)

lemma uf_ok_iff: "uf_ok p \<longleftrightarrow> (\<forall>l \<in> dom p. \<exists>r. root_of p l r)"
  unfolding uf_ok_def root_of_def by blast

lemma uf_ok_root: "uf_ok p \<Longrightarrow> l \<in> dom p \<Longrightarrow> \<exists>r. root_of p l r"
  unfolding uf_ok_iff by blast

lemma uf_ok_empty [simp]: "uf_ok Map.empty"
  by (simp add: uf_ok_def)

text \<open>A link above which \<open>l\<close> does not occur can be followed after \<open>l\<close> is rewritten.\<close>

lemma root_in_below:
  "root_in p x k r \<Longrightarrow> root_in p l n r' \<Longrightarrow> k < n \<Longrightarrow> root_in (p(l \<mapsto> c)) x k r"
proof (induction rule: root_in.induct)
  case (root p x)
  then show ?case by (auto dest: root_in_unique [OF root_in.root] intro: root_in.root)
next
  case (up p x a k r)
  have "x \<noteq> l"
    using root_in_unique [OF root_in.up [OF up.hyps]] up.prems by auto
  moreover have "root_in (p(l \<mapsto> c)) a k r" using up by (simp del: fun_upd_apply)
  ultimately show ?case using up.hyps(1,2) by (intro root_in.up [where a = a]) (simp_all del: fun_upd_apply add: fun_upd_other)
qed

text \<open>Path halving: pointing \<open>l\<close> at its grandparent keeps every root.\<close>

lemma root_in_halve:
  assumes "root_in p x k r" and "p l = Some a" "a \<noteq> l" "p a = Some b"
  shows "root_of (p(l \<mapsto> b)) x r"
  using assms
proof (induction rule: root_in.induct)
  case (root p x)
  then show ?case by (auto intro!: root_of_self)
next
  case (up p x a' k r)
  show ?case
  proof (cases "x = l")
    case False
    moreover have "root_of (p(l \<mapsto> b)) a' r" using up.prems by (rule up.IH)
    ultimately show ?thesis using up.hyps(1,2) by (blast intro: root_of_step_upd)
  next
    case True
    with up.hyps up.prems have a: "a' = a" "root_in p a k r" by auto
    have "root_of (p(l \<mapsto> b)) a' r" using up.prems by (rule up.IH)
    with a have m: "root_of (p(l \<mapsto> b)) a r" by simp
    show ?thesis
    proof (cases "b = a")
      case True
      then show ?thesis using m \<open>x = l\<close> up.prems(2)
        by (intro root_of_step [of _ x a]) (simp_all del: fun_upd_apply add: fun_upd_same)
    next
      case False
      then have m': "root_of (p(l \<mapsto> b)) b r"
        using m up.prems unfolding root_of_def
        by (auto elim!: root_inE [of _ a])
      from False a(2) up.prems obtain k' where "k = Suc k'" "root_in p b k' r"
        by (auto elim: root_inE)
      moreover have "root_in p l (Suc k) r" using up.hyps True by (auto intro: root_in.up)
      ultimately have "b \<noteq> l" by (auto dest: root_in_unique)
      with m' True show ?thesis by (intro root_of_step [of _ x b]) (simp_all del: fun_upd_apply add: fun_upd_same)
    qed
  qed
qed

definition same_roots :: "DisjointSet \<Rightarrow> DisjointSet \<Rightarrow> bool" where
  "same_roots p q \<longleftrightarrow> dom q = dom p \<and> (\<forall>x r. root_of p x r \<longrightarrow> root_of q x r)"

lemma same_roots_refl [simp]: "same_roots p p"
  by (simp add: same_roots_def)

lemma same_roots_trans: "same_roots p q \<Longrightarrow> same_roots q s \<Longrightarrow> same_roots p s"
  by (simp add: same_roots_def)

lemma same_roots_ok: "same_roots p q \<Longrightarrow> uf_ok p \<Longrightarrow> uf_ok q"
  unfolding same_roots_def uf_ok_iff by blast

lemma same_roots_iff:
  "same_roots p q \<Longrightarrow> uf_ok p \<Longrightarrow> root_of q x r \<longleftrightarrow> root_of p x r"
  by (metis same_roots_def root_of_dom root_of_unique uf_ok_root)

lemma same_roots_same_set:
  "same_roots p q \<Longrightarrow> uf_ok p \<Longrightarrow> same_set q x y \<longleftrightarrow> same_set p x y"
  by (simp add: same_set_def same_roots_iff)

lemma same_roots_halve:
  "p l = Some a \<Longrightarrow> a \<noteq> l \<Longrightarrow> p a = Some b \<Longrightarrow> same_roots p (p(l \<mapsto> b))"
  unfolding same_roots_def
  by (auto simp: root_of_def [of p] intro: root_in_halve)

subsection \<open>The loop of Find\<close>

lemma Find_loop_root:
  "root_in p l n r \<Longrightarrow> \<exists>q. Find_loop p l = Some (q, r) \<and> same_roots p q"
proof (induction n arbitrary: p l rule: less_induct)
  case (less n)
  show ?case
  proof (cases n)
    case 0
    with less.prems show ?thesis
      by (auto simp: Find_loop.simps [of p l] subscript_def)
  next
    case (Suc m)
    with less.prems obtain a where a: "p l = Some a" "a \<noteq> l" "root_in p a m r"
      by (auto simp: root_in_Suc)
    then obtain b where b: "p a = Some b" by (auto dest: root_in_dom)
    have unfold: "Find_loop p l = Find_loop (p(l \<mapsto> b)) b"
      using a b by (simp add: Find_loop.simps [of p l] subscript_def)
    obtain k where k: "k < n" "root_in p b k r"
    proof (cases "b = a")
      case True
      with a Suc that [of m] show ?thesis by simp
    next
      case False
      with a b obtain k where "m = Suc k" "root_in p b k r" by (auto elim: root_inE)
      with Suc that [of k] show ?thesis by simp
    qed
    have "root_in (p(l \<mapsto> b)) b k r"
      by (rule root_in_below [OF k(2) less.prems k(1)])
    from less.IH [OF k(1) this] obtain q
      where "Find_loop (p(l \<mapsto> b)) b = Some (q, r)" "same_roots (p(l \<mapsto> b)) q" by blast
    with unfold same_roots_halve [OF a(1,2) b] show ?thesis
      by (auto intro: same_roots_trans)
  qed
qed

text \<open>The map \<open>Find l\<close> works on: \<open>l\<close> becomes a singleton when it is new.\<close>

definition with_elem :: "DisjointSet \<Rightarrow> BBLID \<Rightarrow> DisjointSet" where
  "with_elem p l = (if l \<in> dom p then p else p(l \<mapsto> l))"

lemma root_of_fresh:
  assumes "l \<notin> dom p" and "root_of p x r" shows "root_of (p(l \<mapsto> l)) x r"
proof -
  from assms(2) obtain n where "root_in p x n r" by (auto simp: root_of_def)
  then have "root_in (p(l \<mapsto> l)) x n r"
    using assms(1)
  proof (induction rule: root_in.induct)
    case (up p x a n r)
    then have "x \<noteq> l" by auto
    with up show ?case by (intro root_in.up [where a = a]) (simp_all del: fun_upd_apply add: fun_upd_other)
  qed (auto intro: root_in.root)
  then show ?thesis by (auto simp: root_of_def)
qed

lemma uf_ok_with_elem [simp]: "uf_ok p \<Longrightarrow> uf_ok (with_elem p l)"
proof -
  assume ok: "uf_ok p"
  have "\<exists>r. root_of (p(l \<mapsto> l)) x r" if "l \<notin> dom p" "x \<in> insert l (dom p)" for x
  proof (cases "x = l")
    case True
    then show ?thesis by (auto intro!: exI [of _ l] root_of_self)
  next
    case False
    with ok that show ?thesis by (auto dest!: uf_ok_root intro: root_of_fresh)
  qed
  with ok show ?thesis by (simp add: with_elem_def uf_ok_iff del: fun_upd_apply)
qed

lemma dom_with_elem [simp]: "dom (with_elem p l) = insert l (dom p)"
  by (auto simp: with_elem_def)

lemma Find_spec:
  assumes "uf_ok p"
  obtains q r where "Find p l = Some (q, r)" "same_roots (with_elem p l) q"
    "root_of (with_elem p l) l r"
proof (cases "p l")
  case None
  then have "Find p l = Some (p(l \<mapsto> l), l)" "with_elem p l = p(l \<mapsto> l)"
    by (auto simp: Find_def with_elem_def)
  then show ?thesis by (intro that) (auto intro: root_of_self)
next
  case (Some a)
  then have w: "with_elem p l = p" by (auto simp: with_elem_def)
  from assms Some obtain n r where n: "root_in p l n r" by (force simp: uf_ok_def)
  then obtain q where "Find_loop p l = Some (q, r)" "same_roots p q"
    by (blast dest: Find_loop_root)
  with n w Some that [of q r] show ?thesis by (auto simp: Find_def root_of_def)
qed

subsection \<open>Union\<close>

lemma root_in_link:
  assumes "root_in p z n s" and "p x = Some x" "p y = Some y"
  shows "root_of (p(x \<mapsto> y)) z (if s = x then y else s)"
  using assms
proof (induction rule: root_in.induct)
  case (root p z)
  show ?case
  proof (cases "z = x")
    case True
    have "root_of (p(x \<mapsto> y)) y y" using root by (intro root_of_self) auto
    then show ?thesis
      using root True by (cases "x = y") (auto simp del: fun_upd_apply simp: fun_upd_same intro: root_of_step [of _ _ y])
  next
    case False
    with root show ?thesis by (auto intro!: root_of_self)
  qed
next
  case (up p z a n r)
  then have "z \<noteq> x" by auto
  have "root_of (p(x \<mapsto> y)) a (if r = x then y else r)" using up.prems by (rule up.IH)
  then show ?case using up.hyps(1,2) \<open>z \<noteq> x\<close> by (blast intro: root_of_step_upd)
qed

lemma root_of_link:
  "root_of p z s \<Longrightarrow> p x = Some x \<Longrightarrow> p y = Some y \<Longrightarrow>
   root_of (p(x \<mapsto> y)) z (if s = x then y else s)"
  unfolding root_of_def [of p] by (blast intro: root_in_link)

lemma uf_ok_link: "uf_ok p \<Longrightarrow> p x = Some x \<Longrightarrow> p y = Some y \<Longrightarrow> uf_ok (p(x \<mapsto> y))"
proof -
  assume p: "uf_ok p" "p x = Some x" "p y = Some y"
  have "\<exists>r. root_of (p(x \<mapsto> y)) z r" if "z \<in> dom p" for z
    using uf_ok_root [OF p(1) that] p(2,3) by (blast intro: root_of_link)
  with p show ?thesis by (auto simp: uf_ok_iff domD simp del: fun_upd_apply)
qed

lemma same_set_link:
  assumes ok: "uf_ok p" and r: "root_of p m x" "root_of p n y"
  shows "same_set (p(x \<mapsto> y)) u v \<longleftrightarrow>
    same_set p u v \<or> (same_set p u m \<and> same_set p n v) \<or> (same_set p u n \<and> same_set p m v)"
    (is "?L \<longleftrightarrow> ?R")
proof -
  let ?q = "p(x \<mapsto> y)"
  have xy: "p x = Some x" "p y = Some y" using r by (auto dest: root_of_root)
  have d: "dom ?q = dom p" using xy by auto
  have root: "root_of ?q z t \<longleftrightarrow> (\<exists>s. root_of p z s \<and> t = (if s = x then y else s))" for z t
  proof
    assume t: "root_of ?q z t"
    then have "z \<in> dom p" using d root_of_dom by metis
    then obtain s where s: "root_of p z s" using uf_ok_root [OF ok] by blast
    with root_of_link [OF s xy] t show "\<exists>s. root_of p z s \<and> t = (if s = x then y else s)"
      by (blast dest: root_of_unique)
  qed (auto intro: root_of_link [OF _ xy] simp del: fun_upd_apply)
  show ?thesis
  proof -
    have m: "root_of p m s \<longleftrightarrow> s = x" and n: "root_of p n s \<longleftrightarrow> s = y" for s
      using r by (auto dest: root_of_unique)
    have "?L \<longleftrightarrow> (\<exists>s t. root_of p u s \<and> root_of p v t \<and> (s = t \<or> s = x \<and> t = y \<or> s = y \<and> t = x))"
      (is "_ \<longleftrightarrow> ?M")
    proof -
      have "?L \<longleftrightarrow> (\<exists>s t. root_of p u s \<and> root_of p v t \<and> (if s = x then y else s) = (if t = x then y else t))"
        unfolding same_set_def root by blast
      moreover have "(if s = x then y else s) = (if t = x then y else t)
          \<longleftrightarrow> s = t \<or> s = x \<and> t = y \<or> s = y \<and> t = x" for s t
        by auto
      ultimately show ?thesis by simp
    qed
    then show ?thesis unfolding same_set_def m n by blast
  qed
qed

lemma root_of_with_elem: "root_of p x r \<Longrightarrow> root_of (with_elem p l) x r"
  by (cases "l \<in> dom p") (auto simp: with_elem_def intro: root_of_fresh)

lemma same_roots_with_elem:
  assumes same: "same_roots p q" and ok: "uf_ok p"
  shows "same_roots (with_elem p l) (with_elem q l)"
proof (cases "l \<in> dom p")
  case True
  then show ?thesis using same by (simp add: with_elem_def same_roots_def)
next
  case False
  have "root_of (with_elem q l) z r" if zr: "root_of (with_elem p l) z r" for z r
  proof (cases "z = l")
    case True
    have new: "with_elem p l l = Some l" "with_elem q l l = Some l"
      using False same by (auto simp: with_elem_def same_roots_def)
    have "r = l" using root_of_unique [OF zr] root_of_self [of "with_elem p l" l] new(1) True by blast
    then show ?thesis using root_of_self [of "with_elem q l" l] new(2) True by simp
  next
    case z: False
    have "z \<in> dom p" using root_of_dom [OF zr] z by simp
    then obtain s where s: "root_of p z s" using uf_ok_root [OF ok] by blast
    then have "r = s" using root_of_unique [OF zr] root_of_with_elem by blast
    moreover have "root_of q z s" using s same by (simp add: same_roots_def)
    ultimately show ?thesis using root_of_with_elem by blast
  qed
  then show ?thesis using same by (simp add: same_roots_def)
qed

lemma Union_spec:
  assumes ok: "uf_ok p"
  obtains q where "Union p m n = Some q" "uf_ok q" "dom q = {m, n} \<union> dom p"
    "\<And>u v. same_set q u v \<longleftrightarrow>
       (let w = with_elem (with_elem p m) n in
        same_set w u v \<or> (same_set w u m \<and> same_set w n v) \<or> (same_set w u n \<and> same_set w m v))"
proof -
  obtain p1 x where 1: "Find p m = Some (p1, x)" "same_roots (with_elem p m) p1"
      "root_of (with_elem p m) m x"
    using Find_spec [OF ok] by blast
  have ok1: "uf_ok p1" using 1(2) ok by (auto intro: same_roots_ok)
  obtain p2 y where 2: "Find p1 n = Some (p2, y)" "same_roots (with_elem p1 n) p2"
      "root_of (with_elem p1 n) n y"
    using Find_spec [OF ok1] by blast
  let ?w = "with_elem (with_elem p m) n"
  have w2: "same_roots ?w p2"
    by (rule same_roots_trans [OF same_roots_with_elem [OF 1(2) uf_ok_with_elem [OF ok]] 2(2)])
  have okw: "uf_ok ?w" using ok by simp
  have ok2: "uf_ok p2" by (rule same_roots_ok [OF w2 okw])
  have "root_of p1 m x" using 1(2,3) by (simp add: same_roots_def)
  then have x2: "root_of p2 m x" using root_of_with_elem 2(2) by (simp add: same_roots_def)
  have y2: "root_of p2 n y" using 2(2,3) by (simp add: same_roots_def)
  have "Union p m n = Some (p2(x \<mapsto> y))" using 1(1) 2(1) by (simp add: Union_def)
  moreover have "uf_ok (p2(x \<mapsto> y))"
    using ok2 x2 y2 by (intro uf_ok_link) (auto dest: root_of_root)
  moreover have "dom (p2(x \<mapsto> y)) = {m, n} \<union> dom p"
    using w2 root_of_root [OF x2] by (auto simp: same_roots_def)
  moreover have "same_set (p2(x \<mapsto> y)) u v \<longleftrightarrow> (let w = ?w in
        same_set w u v \<or> (same_set w u m \<and> same_set w n v) \<or> (same_set w u n \<and> same_set w m v))" for u v
    unfolding same_set_link [OF ok2 x2 y2] Let_def same_roots_same_set [OF w2 okw] ..
  ultimately show ?thesis by (rule that)
qed

lemma same_set_with_elem:
  assumes "uf_ok p"
  shows "same_set (with_elem p l) u v \<longleftrightarrow> same_set p u v \<or> u = l \<and> v = l"
proof (cases "l \<in> dom p")
  case True
  with assms have "same_set p l l" by (auto simp: same_set_def dest: uf_ok_root)
  with True show ?thesis by (auto simp: with_elem_def)
next
  case False
  have root: "root_of (p(l \<mapsto> l)) z r \<longleftrightarrow> root_of p z r \<or> z = l \<and> r = l" for z r
  proof
    assume a: "root_of (p(l \<mapsto> l)) z r"
    show "root_of p z r \<or> z = l \<and> r = l"
    proof (cases "z = l")
      case True
      with a show ?thesis by (metis fun_upd_same root_of_self root_of_unique)
    next
      case z: False
      with root_of_dom [OF a] have "z \<in> dom p" by simp
      with uf_ok_root [OF assms] obtain s where "root_of p z s" by blast
      with a root_of_fresh [OF False] show ?thesis by (metis root_of_unique)
    qed
  next
    assume "root_of p z r \<or> z = l \<and> r = l"
    then show "root_of (p(l \<mapsto> l)) z r"
      using root_of_fresh [OF False] by (metis fun_upd_same root_of_self)
  qed
  have "root_of p z l \<longleftrightarrow> False" for z
    using False by (auto dest: root_of_root)
  with False show ?thesis
    by (auto simp: with_elem_def same_set_def root root_of_dom simp del: fun_upd_apply
        dest: root_of_dom)
qed

subsection \<open>A sequence of unions\<close>

definition Union_all :: "DisjointSet \<Rightarrow> (BBLID \<times> BBLID) list \<Rightarrow> DisjointSet option" where
  "Union_all p ps = foldM (\<lambda>(m, n) p. Union p m n) ps p"

text \<open>The abstract specification: the least equivalence that relates the given pairs.\<close>

definition linked :: "(BBLID \<times> BBLID) list \<Rightarrow> (BBLID \<times> BBLID) set" where
  "linked ps = (set ps \<union> (set ps)\<inverse>)\<^sup>*"

definition ends :: "(BBLID \<times> BBLID) list \<Rightarrow> BBLID set" where
  "ends ps = fst ` set ps \<union> snd ` set ps"

lemma linked_sym: "(x, y) \<in> linked ps \<Longrightarrow> (y, x) \<in> linked ps"
  unfolding linked_def by (metis converse_Un converse_converse rtrancl_converseI sup_commute)

lemma linked_refl [simp]: "(x, x) \<in> linked ps"
  by (simp add: linked_def)

lemma linked_trans: "(x, y) \<in> linked ps \<Longrightarrow> (y, z) \<in> linked ps \<Longrightarrow> (x, z) \<in> linked ps"
  unfolding linked_def by (rule rtrancl_trans)

lemma linked_outside: "(x, y) \<in> linked ps \<Longrightarrow> x \<notin> ends ps \<Longrightarrow> y = x"
  unfolding linked_def
  by (induction rule: rtrancl_induct) (auto simp: ends_def image_iff)

lemma linked_snoc:
  "(x, y) \<in> linked (ps @ [(m, n)]) \<longleftrightarrow>
   (x, y) \<in> linked ps \<or> ((x, m) \<in> linked ps \<and> (n, y) \<in> linked ps)
     \<or> ((x, n) \<in> linked ps \<and> (m, y) \<in> linked ps)"
proof -
  let ?r = "set ps \<union> (set ps)\<inverse>"
  have "set (ps @ [(m, n)]) \<union> (set (ps @ [(m, n)]))\<inverse> = insert (m, n) (insert (n, m) ?r)"
    by auto
  then have "linked (ps @ [(m, n)]) = (insert (m, n) (insert (n, m) ?r))\<^sup>*"
    unfolding linked_def by simp
  moreover have one: "(u, v) \<in> (insert (n, m) ?r)\<^sup>* \<longleftrightarrow>
      (u, v) \<in> linked ps \<or> (u, n) \<in> linked ps \<and> (m, v) \<in> linked ps" for u v
    unfolding rtrancl_insert [of n m] linked_def [symmetric] by blast
  have "(x, y) \<in> (insert (m, n) (insert (n, m) ?r))\<^sup>* \<longleftrightarrow>
      (x, y) \<in> (insert (n, m) ?r)\<^sup>* \<or> (x, m) \<in> (insert (n, m) ?r)\<^sup>* \<and> (n, y) \<in> (insert (n, m) ?r)\<^sup>*"
    unfolding rtrancl_insert [of m n] by blast
  ultimately show ?thesis
    unfolding one using linked_trans [of x m ps y] linked_trans [of x n ps y] by auto
qed

lemma Union_all_spec:
  "\<exists>p. Union_all Map.empty ps = Some p \<and> uf_ok p \<and> dom p = ends ps \<and>
     (\<forall>x y. same_set p x y \<longleftrightarrow> x \<in> ends ps \<and> y \<in> ends ps \<and> (x, y) \<in> linked ps)"
proof (induction ps rule: rev_induct)
  case Nil
  have "\<not> root_of Map.empty x r" for x r by (auto dest: root_of_dom)
  then show ?case by (auto simp: Union_all_def ends_def same_set_def)
next
  case (snoc mn ps)
  obtain m n where mn: "mn = (m, n)" by force
  from snoc.IH obtain p where p: "Union_all Map.empty ps = Some p" "uf_ok p" "dom p = ends ps"
    and same: "\<And>x y. same_set p x y \<longleftrightarrow> x \<in> ends ps \<and> y \<in> ends ps \<and> (x, y) \<in> linked ps"
    by blast
  obtain q where q: "Union p m n = Some q" "uf_ok q" "dom q = {m, n} \<union> dom p"
    and same_q: "\<And>u v. same_set q u v \<longleftrightarrow>
       (let w = with_elem (with_elem p m) n in
        same_set w u v \<or> (same_set w u m \<and> same_set w n v) \<or> (same_set w u n \<and> same_set w m v))"
    by (rule Union_spec [OF p(2), of m n]) blast
  note rw = same_set_with_elem [OF uf_ok_with_elem [OF p(2)]] same_set_with_elem [OF p(2)] same
  have w: "same_set (with_elem (with_elem p m) n) u v \<longleftrightarrow>
      u \<in> {m, n} \<union> ends ps \<and> v \<in> {m, n} \<union> ends ps \<and> (u, v) \<in> linked ps" for u v
  proof (cases "u \<in> ends ps \<and> v \<in> ends ps")
    case False
    then have "(u, v) \<in> linked ps \<longleftrightarrow> u = v"
      by (metis linked_outside linked_refl linked_sym)
    with False show ?thesis unfolding rw by blast
  next
    case True
    then show ?thesis unfolding rw using linked_refl by blast
  qed
  have e: "ends (ps @ [mn]) = {m, n} \<union> ends ps" unfolding ends_def mn by auto
  have "Union_all Map.empty (ps @ [mn]) = Some q"
    using p(1) q(1) mn by (simp add: Union_all_def foldM_append)
  moreover have "same_set q x y \<longleftrightarrow> x \<in> ends (ps @ [mn]) \<and> y \<in> ends (ps @ [mn])
      \<and> (x, y) \<in> linked (ps @ [mn])" for x y
    unfolding same_q Let_def w e linked_snoc [of x y ps m n, folded mn] using linked_refl by blast
  ultimately show ?case using q p(3) e by auto
qed

text \<open>On a forest the class built, \<open>Find\<close> returns the same root for two members exactly
  when they are in one set.\<close>

lemma Find_same_set:
  assumes "uf_ok p" and "x \<in> dom p" "y \<in> dom p"
    and "Find p x = Some (q, r)" and "Find q y = Some (q', s)"
  shows "r = s \<longleftrightarrow> same_set p x y"
proof -
  have w: "with_elem p x = p" using assms(2) by (simp add: with_elem_def)
  have q: "same_roots p q" "root_of p x r"
    using Find_spec [OF assms(1), of x] assms(4) w by (metis option.inject prod.inject)+
  have okq: "uf_ok q" by (rule same_roots_ok [OF q(1) assms(1)])
  have "with_elem q y = q" using assms(3) q(1) by (simp add: with_elem_def same_roots_def)
  then have "root_of q y s"
    using Find_spec [OF okq, of y] assms(5) by (metis option.inject prod.inject)
  then have "root_of p y s" by (simp add: same_roots_iff [OF q(1) assms(1)])
  with q(2) show ?thesis by (auto simp: same_set_def dest: root_of_unique)
qed

end
