(* ===== verification/Solver_Cluster.thy ===== *)
theory Solver_Cluster
  imports Solver_Cost Union_Sets
begin

text \<open>
  \<open>CostSolver::TopReuseBBPairs\<close>: the pairs of blocks with the largest data movement are merged
  into clusters with the disjoint sets of \<open>Union_Sets\<close>, and every cluster is placed on one site
  by a vote. The interface to the disjoint sets is the locale \<open>partition\<close>. The final loop of
  the function only prints and is not modelled.
\<close>

subsection \<open>Votes over clusters\<close>

type_synonym PairInt = "int \<times> int"

definition pair_plus :: "PairInt \<Rightarrow> PairInt \<Rightarrow> PairInt" where
  "pair_plus = (\<lambda>(a, b) (c, d). (a + c, b + d))"

definition count_of :: "(BBLID \<times> PairInt) list \<Rightarrow> BBLID \<Rightarrow> PairInt" where
  "count_of cnt r = (case map_of cnt r of Some n \<Rightarrow> n | None \<Rightarrow> (0, 0))"

text \<open>\<open>dsCount[ds.Find(bbl)] += ...\<close> for one block.\<close>

definition vote_step :: "('d \<Rightarrow> BBLID \<Rightarrow> ('d \<times> BBLID) option) \<Rightarrow> (BBLID \<Rightarrow> bool option) \<Rightarrow> BBLID \<Rightarrow>
    'd \<times> (BBLID \<times> PairInt) list \<Rightarrow> ('d \<times> (BBLID \<times> PairInt) list) option" where
  "vote_step fnd is_pim bbl = (\<lambda>(ds, cnt). do {
     (ds, r) \<leftarrow> fnd ds bbl;
     p \<leftarrow> is_pim bbl;
     Some (ds, omap_update r (pair_plus (count_of cnt r) (if p then (1, 0) else (0, 1))) cnt) })"

definition vote_site :: "PairInt \<Rightarrow> CostSite" where
  "vote_site = (\<lambda>(a, b). if a \<ge> b div 2 then PIM else CPU)"

definition assign_step :: "('d \<Rightarrow> BBLID \<Rightarrow> ('d \<times> BBLID) option) \<Rightarrow> (BBLID \<times> PairInt) list \<Rightarrow> BBLID \<Rightarrow>
    'd \<times> DECISION \<Rightarrow> ('d \<times> DECISION) option" where
  "assign_step fnd cnt bbl = (\<lambda>(ds, decision). do {
     (ds, r) \<leftarrow> fnd ds bbl;
     decision \<leftarrow> vec_set decision bbl (vote_site (count_of cnt r));
     Some (ds, decision) })"

text \<open>The tally of a list of voters.\<close>

definition tally :: "(BBLID \<Rightarrow> bool) \<Rightarrow> BBLID list \<Rightarrow> PairInt" where
  "tally P xs = (int (length (filter P xs)), int (length (filter (\<lambda>x. \<not> P x) xs)))"

lemma tally_snoc: "tally P (xs @ [x]) = pair_plus (tally P xs) (if P x then (1, 0) else (0, 1))"
  by (simp add: tally_def pair_plus_def)

text \<open>What the votes need of the disjoint sets: \<open>find\<close> names a fixed representative.\<close>

locale partition =
  fixes dinv :: "'d \<Rightarrow> bool" and members :: "'d \<Rightarrow> BBLID set" and fnd :: "'d \<Rightarrow> BBLID \<Rightarrow> ('d \<times> BBLID) option"
    and rep :: "'d \<Rightarrow> BBLID \<Rightarrow> BBLID"
  assumes find_rep: "dinv d \<Longrightarrow> x \<in> members d \<Longrightarrow> \<exists>d'. fnd d x = Some (d', rep d x) \<and> dinv d' \<and>
    members d' = members d \<and> (\<forall>y \<in> members d. rep d' y = rep d y)"
begin

lemma vote_loop:
  assumes d: "dinv d" and xs: "set xs \<subseteq> members d" and P: "\<And>x. x \<in> set xs \<Longrightarrow> is_pim x = Some (P x)"
  shows "\<exists>d' cnt. foldM (vote_step fnd is_pim) xs (d, []) = Some (d', cnt) \<and> dinv d' \<and>
    members d' = members d \<and> (\<forall>y \<in> members d. rep d' y = rep d y) \<and> omap_ok cnt \<and>
    (\<forall>r. count_of cnt r = tally P (filter (\<lambda>x. rep d x = r) xs))"
  using xs P
proof (induction xs rule: rev_induct)
  case Nil
  with d show ?case by (simp add: count_of_def tally_def)
next
  case (snoc x xs)
  have sub: "set xs \<subseteq> members d" "x \<in> members d" using snoc.prems(1) by auto
  from snoc.IH [OF sub(1)] snoc.prems(2) obtain d1 cnt where
    1: "foldM (vote_step fnd is_pim) xs (d, []) = Some (d1, cnt)" "dinv d1" "members d1 = members d"
      "\<forall>y \<in> members d. rep d1 y = rep d y" "omap_ok cnt"
      "\<forall>r. count_of cnt r = tally P (filter (\<lambda>x. rep d x = r) xs)" by auto
  from find_rep [OF 1(2), of x] 1(3,4) sub obtain d2 where
    2: "fnd d1 x = Some (d2, rep d x)" "dinv d2" "members d2 = members d" "\<forall>y \<in> members d. rep d2 y = rep d y"
    by auto
  let ?cnt = "omap_update (rep d x) (pair_plus (count_of cnt (rep d x)) (if P x then (1, 0) else (0, 1))) cnt"
  have "is_pim x = Some (P x)" using snoc.prems(2) by simp
  then have "foldM (vote_step fnd is_pim) (xs @ [x]) (d, []) = Some (d2, ?cnt)"
    using 1(1) 2(1) by (simp add: foldM_append vote_step_def)
  moreover have "count_of ?cnt r = tally P (filter (\<lambda>y. rep d y = r) (xs @ [x]))" for r
  proof (cases "r = rep d x")
    case True
    then have "count_of ?cnt r = pair_plus (count_of cnt r) (if P x then (1, 0) else (0, 1))"
      using 1(5) by (simp add: count_of_def map_of_omap_update)
    with True show ?thesis using 1(6) by (simp add: tally_snoc)
  next
    case False
    then have "count_of ?cnt r = count_of cnt r" using 1(5) by (simp add: count_of_def map_of_omap_update)
    with False show ?thesis using 1(6) by auto
  qed
  ultimately show ?case using 1(5) 2 by auto
qed

lemma assign_loop:
  assumes d: "dinv d" and xs: "set xs \<subseteq> members d" and range: "\<forall>x \<in> set xs. 0 \<le> x \<and> x < int (length dec)"
  shows "\<exists>d' dec'. foldM (assign_step fnd cnt) xs (d, dec) = Some (d', dec') \<and> dinv d' \<and>
    members d' = members d \<and> (\<forall>y \<in> members d. rep d' y = rep d y) \<and> length dec' = length dec \<and>
    (\<forall>i < length dec. dec' ! i =
       (if int i \<in> set xs then vote_site (count_of cnt (rep d (int i))) else dec ! i))"
  using xs range
proof (induction xs rule: rev_induct)
  case Nil
  with d show ?case by simp
next
  case (snoc x xs)
  have sub: "set xs \<subseteq> members d" "x \<in> members d" using snoc.prems(1) by auto
  from snoc.IH [OF sub(1)] snoc.prems(2) obtain d1 dec1 where
    1: "foldM (assign_step fnd cnt) xs (d, dec) = Some (d1, dec1)" "dinv d1" "members d1 = members d"
      "\<forall>y \<in> members d. rep d1 y = rep d y" "length dec1 = length dec"
      "\<forall>i < length dec. dec1 ! i =
         (if int i \<in> set xs then vote_site (count_of cnt (rep d (int i))) else dec ! i)" by auto
  from find_rep [OF 1(2), of x] 1(3,4) sub obtain d2 where
    2: "fnd d1 x = Some (d2, rep d x)" "dinv d2" "members d2 = members d" "\<forall>y \<in> members d. rep d2 y = rep d y"
    by auto
  have x: "0 \<le> x" "x < int (length dec)" using snoc.prems(2) by auto
  then have "foldM (assign_step fnd cnt) (xs @ [x]) (d, dec) =
      Some (d2, dec1[nat x := vote_site (count_of cnt (rep d x))])"
    using 1(1,5) 2(1) by (simp add: foldM_append assign_step_def vec_set_in_range)
  moreover have "dec1[nat x := vote_site (count_of cnt (rep d x))] ! i =
      (if int i \<in> set (xs @ [x]) then vote_site (count_of cnt (rep d (int i))) else dec ! i)"
    if "i < length dec" for i
    using 1(5,6) x that by (auto simp: nth_list_update)
  ultimately show ?case using 1(5) 2 by auto
qed

end

text \<open>The disjoint sets of the code provide it.\<close>

definition root_name :: "DisjointSet \<Rightarrow> BBLID \<Rightarrow> BBLID" where
  "root_name p x = (case Find p x of Some (q, r) \<Rightarrow> r | None \<Rightarrow> x)"

lemma root_name_root: "uf_ok p \<Longrightarrow> x \<in> dom p \<Longrightarrow> root_of p x (root_name p x)"
  by (rule Find_spec [of p x]) (auto simp: root_name_def with_elem_def)

lemma root_name_eq: "uf_ok p \<Longrightarrow> root_of p x r \<Longrightarrow> root_name p x = r"
  using root_name_root root_of_dom root_of_unique by blast

interpretation ds: partition uf_ok dom Find root_name
proof
  fix p x
  assume p: "uf_ok p" "x \<in> dom p"
  then have w: "with_elem p x = p" by (simp add: with_elem_def)
  obtain q r where q: "Find p x = Some (q, r)" "same_roots p q" "root_of p x r"
    using Find_spec [OF p(1), of x] unfolding w by blast
  have ok: "uf_ok q" using same_roots_ok [OF q(2) p(1)] .
  have "root_name q y = root_name p y" if "y \<in> dom p" for y
    using root_name_root [OF p(1) that] same_roots_iff [OF q(2) p(1)] root_name_eq [OF ok] by simp
  moreover have "dom q = dom p" using q(2) by (simp add: same_roots_def)
  moreover have "r = root_name p x" using root_name_eq [OF p(1) q(3)] by simp
  ultimately show "\<exists>q. Find p x = Some (q, root_name p x) \<and> uf_ok q \<and> dom q = dom p \<and>
      (\<forall>y \<in> dom p. root_name q y = root_name p y)"
    using q(1) ok by blast
qed

lemma root_name_same_set:
  "uf_ok p \<Longrightarrow> x \<in> dom p \<Longrightarrow> y \<in> dom p \<Longrightarrow> root_name p x = root_name p y \<longleftrightarrow> same_set p x y"
  by (metis root_name_eq root_name_root same_set_def)

subsection \<open>TopReuseBBPairs\<close>

text \<open>The total cost per pair: data movement through the cache and through registers.\<close>

definition interBBTotalCost :: "CostSolver \<Rightarrow> ((BBLID \<times> BBLID) \<times> COST) list option" where
  "interBBTotalCost S = do {
     fl \<leftarrow> site_at (flush_cost S) CPU; fe \<leftarrow> site_at (fetch_cost S) PIM; sw \<leftarrow> site_at (switch_cost S) CPU;
     let m = fold (\<lambda>(k, v) m. omap_add k (v * (fl + fe)) m) (interBB_CL_DM S) [];
     Some (fold (\<lambda>(k, v) m. omap_add k (v * sw) m) (interBB_REG_DM S) m) }"

definition merge_step :: "COST \<Rightarrow> (BBLID \<times> BBLID) \<times> COST \<Rightarrow> BBLID list \<times> DisjointSet \<Rightarrow>
    (BBLID list \<times> DisjointSet) option" where
  "merge_step bound = (\<lambda>((m, n), totalCost) (toRedecideBBL, ds).
     if totalCost < bound then Some (toRedecideBBL, ds)
     else do {
       ds \<leftarrow> Union ds m n;
       Some (oset_insert n (oset_insert m toRedecideBBL), ds) })"

definition sca_is_pim :: "CostSolver \<Rightarrow> BBLID \<Rightarrow> bool option" where
  "sca_is_pim S bbl = do {
     c \<leftarrow> vec_at (sorted_CPU S) bbl;
     Some (map_of (scaDecision S) (bblhash c) = Some PIM) }"

definition TopReuseBBPairs :: "CostSolver \<Rightarrow> DECISION \<Rightarrow> DECISION option" where
  "TopReuseBBPairs S decision = do {
     total \<leftarrow> interBBTotalCost S;
     let vec = sort_key (\<lambda>e. - snd e) total;
     top1 \<leftarrow> vec_at vec 0;
     (toRedecideBBL, ds) \<leftarrow> foldM (merge_step (dataMoveThreshold S * snd top1)) (rev vec) ([], Map.empty);
     (ds, dsCount) \<leftarrow> foldM (vote_step Find (sca_is_pim S)) toRedecideBBL (ds, []);
     (ds, decision) \<leftarrow> foldM (assign_step Find dsCount) toRedecideBBL (ds, decision);
     Some decision }"

text \<open>The pairs that reach the threshold, in the order the loop visits them.\<close>

definition hot_pairs :: "COST \<Rightarrow> ((BBLID \<times> BBLID) \<times> COST) list \<Rightarrow> (BBLID \<times> BBLID) list" where
  "hot_pairs bound vec = map fst (filter (\<lambda>e. \<not> snd e < bound) (rev vec))"

lemma merge_step_eq:
  "merge_step bound e (xs, p) =
     (if snd e < bound then Some (xs, p)
      else do { q \<leftarrow> Union p (fst (fst e)) (snd (fst e));
                Some (oset_insert (snd (fst e)) (oset_insert (fst (fst e)) xs), q) })"
  by (simp add: merge_step_def split_beta)

lemma merge_loop:
  "foldM (merge_step bound) es (xs, p) =
   (case Union_all p (map fst (filter (\<lambda>e. \<not> snd e < bound) es)) of
      None \<Rightarrow> None
    | Some q \<Rightarrow> Some (fold (\<lambda>e xs. oset_insert (snd e) (oset_insert (fst e) xs))
                        (map fst (filter (\<lambda>e. \<not> snd e < bound) es)) xs, q))"
proof (induction es arbitrary: xs p)
  case (Cons e es)
  show ?case
    by (cases "snd e < bound"; cases "Union p (fst (fst e)) (snd (fst e))")
      (simp_all add: merge_step_eq Cons.IH, simp_all add: Union_all_def split_beta split: option.split)
qed (simp add: Union_all_def)

lemma fold_pairs_insert:
  "oset_ok xs \<Longrightarrow> oset_ok (fold (\<lambda>e xs. oset_insert (snd e) (oset_insert (fst e) xs)) es xs) \<and>
   set (fold (\<lambda>e xs. oset_insert (snd e) (oset_insert (fst e) xs)) es xs) = ends es \<union> set xs"
  by (induction es arbitrary: xs) (auto simp: ends_def)

text \<open>The blocks that are decided again, in ascending order, and the cluster of one of them.\<close>

definition hot_blocks :: "(BBLID \<times> BBLID) list \<Rightarrow> BBLID list" where
  "hot_blocks ps = sorted_list_of_set (ends ps)"

lemma TopReuseBBPairs_spec:
  assumes tot: "interBBTotalCost S = Some tot" "tot \<noteq> []"
    and range: "\<forall>((m, n), c) \<in> set tot. 0 \<le> m \<and> m < int (length d) \<and> 0 \<le> n \<and> n < int (length d)"
    and len: "length d = block_count S"
    and ps: "ps = hot_pairs (dataMoveThreshold S * snd (hd (sort_key (\<lambda>e. - snd e) tot))) (sort_key (\<lambda>e. - snd e) tot)"
  shows "\<exists>d'. TopReuseBBPairs S d = Some d' \<and> length d' = length d \<and>
    (\<forall>i < length d. d' ! i =
       (if int i \<in> ends ps
        then vote_site (tally (\<lambda>x. sca_is_pim S x = Some True)
               (filter (\<lambda>x. (x, int i) \<in> linked ps) (hot_blocks ps)))
        else d ! i))"
proof -
  let ?vec = "sort_key (\<lambda>e. - snd e) tot"
  let ?P = "\<lambda>x. sca_is_pim S x = Some True"
  have vec: "set ?vec = set tot" by simp
  have "?vec \<noteq> []" using tot(2) by (metis length_0_conv length_sort)
  then have top: "vec_at ?vec 0 = Some (hd ?vec)" using tot(2) by (simp add: vec_at_def hd_conv_nth)
  obtain p where p: "Union_all Map.empty ps = Some p" "uf_ok p" "dom p = ends ps"
    "\<forall>x y. same_set p x y \<longleftrightarrow> x \<in> ends ps \<and> y \<in> ends ps \<and> (x, y) \<in> linked ps"
    using Union_all_spec [of ps] by blast
  define xs where "xs = fold (\<lambda>e xs. oset_insert (snd e) (oset_insert (fst e) xs)) ps []"
  have xs: "oset_ok xs" "set xs = ends ps" using fold_pairs_insert [of "[]" ps] by (simp_all add: xs_def)
  have hot: "hot_blocks ps = xs"
    unfolding hot_blocks_def xs(2) [symmetric] using xs(1) by (simp add: sorted_list_of_set_sort_remdups strict_sorted_iff sort_key_id_if_sorted distinct_remdups_id)
  have merge: "foldM (merge_step (dataMoveThreshold S * snd (hd ?vec))) (rev ?vec) ([], Map.empty) = Some (xs, p)"
    using p(1) by (simp add: merge_loop xs_def ps hot_pairs_def)
  have in_range: "\<forall>x \<in> set xs. 0 \<le> x \<and> x < int (length d)"
    using range vec unfolding xs(2) ps ends_def hot_pairs_def by fastforce
  have pim: "sca_is_pim S x = Some (?P x)" if "x \<in> set xs" for x
    using in_range that len by (auto simp: sca_is_pim_def vec_at_in_range block_count_def)
  obtain p1 cnt where 1: "foldM (vote_step Find (sca_is_pim S)) xs (p, []) = Some (p1, cnt)" "uf_ok p1"
    "dom p1 = dom p" "\<forall>y \<in> dom p. root_name p1 y = root_name p y"
    "\<forall>r. count_of cnt r = tally ?P (filter (\<lambda>x. root_name p x = r) xs)"
    using ds.vote_loop [OF p(2), of xs "sca_is_pim S" ?P] pim xs(2) p(3) by auto
  obtain p2 d' where 2: "foldM (assign_step Find cnt) xs (p1, d) = Some (p2, d')" "length d' = length d"
    "\<forall>i < length d. d' ! i = (if int i \<in> set xs then vote_site (count_of cnt (root_name p1 (int i))) else d ! i)"
    using ds.assign_loop [OF 1(2), of xs d cnt] in_range xs(2) p(3) 1(3) by auto
  have "filter (\<lambda>x. root_name p x = root_name p1 (int i)) xs = filter (\<lambda>x. (x, int i) \<in> linked ps) xs"
    if "int i \<in> ends ps" for i
    using that p(3,4) 1(4) root_name_same_set [OF p(2)] xs(2) by (auto intro!: filter_cong)
  moreover have "TopReuseBBPairs S d = Some d'"
    unfolding TopReuseBBPairs_def tot(1) bind.bind_lunit Let_def top merge by (simp add: 1(1) 2(1))
  ultimately show ?thesis using 1(5) 2(2,3) xs(2) hot by auto
qed

end
