(* ===== verification/Solver_Heuristics.thy ===== *)
theory Solver_Heuristics
  imports Search_Correct Solver_Cluster
begin

text \<open>
  The placements of \<open>CostSolver.cpp\<close> that look at one block at a time: MPKI thresholds, greedy
  by running time, the decisions read from the CTS and SCA files, and the parameter sweep of
  \<open>PrintSolution\<close>. A \<open>double\<close> division by zero is written out: the quotient is infinite for
  a positive and not a number for a zero numerator.
\<close>

subsection \<open>Placing block after block\<close>

text \<open>The loop over \<open>sorted[CPU]\<close> and \<open>sorted[PIM]\<close> that pushes one site per block.\<close>

definition place_blocks :: "CostSolver \<Rightarrow> (ThreadRunStats \<Rightarrow> ThreadRunStats \<Rightarrow> DECISION \<Rightarrow> CostSite option) \<Rightarrow>
    DECISION option" where
  "place_blocks S f =
     foldM (\<lambda>i decision. do {
         cpustats \<leftarrow> vec_at (sorted_CPU S) (int i);
         pimstats \<leftarrow> vec_at (sorted_PIM S) (int i);
         site \<leftarrow> f cpustats pimstats decision;
         Some (decision @ [site]) })
       [0..<length (sorted_CPU S)] []"

definition by_time :: "ThreadRunStats \<Rightarrow> ThreadRunStats \<Rightarrow> CostSite option" where
  "by_time cpustats pimstats = do {
     c \<leftarrow> max_time cpustats; p \<leftarrow> max_time pimstats;
     Some (if c \<le> p then CPU else PIM) }"

definition with_report :: "CostSolver \<Rightarrow> DECISION \<Rightarrow> (DECISION \<times> COST \<times> CostSolver) option" where
  "with_report S decision = do {
     total_time \<leftarrow> report S (bbl_data_reuse S) decision;
     Some (decision, total_time, S) }"

subsection \<open>MPKI\<close>

definition pim_total_instr :: "CostSolver \<Rightarrow> u64" where
  "pim_total_instr S = sum_list (map instruction_count (sorted_PIM S))"

definition instr_threshold :: "u64 \<Rightarrow> real \<Rightarrow> u64" where
  "instr_threshold n percentage = word_of_int \<lfloor>real (unat n) * percentage\<rfloor>"

text \<open>\<open>mem / instr * 1000.0\<close> compared with a threshold, strictly or not.\<close>

definition mpki_above :: "bool \<Rightarrow> int \<Rightarrow> u64 \<Rightarrow> u64 \<Rightarrow> bool" where
  "mpki_above strict thr mem instr =
     (if instr = 0 then mem \<noteq> 0
      else let mpki = real (unat mem) / real (unat instr) * 1000
           in if strict then mpki > of_int thr else mpki \<ge> of_int thr)"

definition mpki_site :: "CostSolver \<Rightarrow> ThreadRunStats \<Rightarrow> ThreadRunStats \<Rightarrow> CostSite" where
  "mpki_site S cpustats pimstats =
     (if bblhash cpustats = GLOBAL_BBLHASH then CPU
      else if mpki_above True (mpki_threshold S) (memory_access pimstats) (instruction_count pimstats)
         \<and> parallelism pimstats > parallelism_threshold S
         \<and> unat (instruction_count pimstats) > unat (instr_threshold (pim_total_instr S) (1 / 100))
      then PIM else CPU)"

definition PrintMPKIStats :: "CostSolver \<Rightarrow> (DECISION \<times> COST \<times> CostSolver) option" where
  "PrintMPKIStats S = do {
     S \<leftarrow> getBBLSortedStats S;
     decision \<leftarrow> place_blocks S (\<lambda>c p _. Some (mpki_site S c p));
     with_report S decision }"

record bestSCAResult =
  sca_total_time :: COST
  sca_elapsed_time :: "COST \<times> COST"
  sca_reuse_cost :: COST
  sca_switch_cost :: COST
  sca_mpki_threshold :: int
  sca_parallelism_threshold :: int
  instr_threshold_percentage :: real

text \<open>\<open>std::min(a, b)\<close> with the comparison of total times: \<open>b\<close> only when it is strictly smaller.\<close>

definition min_result :: "bestSCAResult \<Rightarrow> bestSCAResult \<Rightarrow> bestSCAResult" where
  "min_result a b = (if sca_total_time b < sca_total_time a then b else a)"

definition sca_site :: "CostSolver \<Rightarrow> int \<Rightarrow> int \<Rightarrow> real \<Rightarrow> ThreadRunStats \<Rightarrow> ThreadRunStats \<Rightarrow> CostSite" where
  "sca_site S mpki_thr para_thr percentage cpustats pimstats =
     (if bblhash cpustats = GLOBAL_BBLHASH then CPU
      else if mpki_above False mpki_thr (memory_access pimstats) (instruction_count pimstats)
         \<and> parallelism pimstats > para_thr
         \<and> unat (instruction_count pimstats) \<ge> unat (instr_threshold (pim_total_instr S) percentage)
      then PIM else CPU)"

definition PrintSCAStats :: "CostSolver \<Rightarrow> int \<Rightarrow> int \<Rightarrow> real \<Rightarrow> bestSCAResult option" where
  "PrintSCAStats S mpki_thr para_thr percentage = do {
     S \<leftarrow> getBBLSortedStats S;
     decision \<leftarrow> place_blocks S (\<lambda>c p _. Some (sca_site S mpki_thr para_thr percentage c p));
     root \<leftarrow> tries (bbl_data_reuse S) own_root;
     reuse_cost \<leftarrow> ReuseCost S decision root;
     switch_cost \<leftarrow> SwitchCost S decision (bbl_switch_count S);
     (c, p) \<leftarrow> ElapsedTime S decision;
     Some \<lparr>sca_total_time = reuse_cost + switch_cost + c + p, sca_elapsed_time = (c, p),
           sca_reuse_cost = reuse_cost, sca_switch_cost = switch_cost, sca_mpki_threshold = mpki_thr,
           sca_parallelism_threshold = para_thr, instr_threshold_percentage = percentage\<rparr> }"

text \<open>
  The sweep of \<open>PrintSolution\<close>. The innermost counter is a \<open>float\<close>; the values it takes are the
  parameter \<open>grid\<close>. The start value carries \<open>INT_MAX\<close> and uninitialised settings.
\<close>

definition INT_MAX :: int where "INT_MAX = 2147483647"

definition sweep_params :: "real list \<Rightarrow> (int \<times> int \<times> real) list" where
  "sweep_params grid =
     concat (map (\<lambda>i. concat (map (\<lambda>k. map (\<lambda>j. (10 * int i, int k, j)) grid) [0..<10])) [0..<10])"

definition sca_sweep :: "CostSolver \<Rightarrow> real list \<Rightarrow> bestSCAResult \<Rightarrow> bestSCAResult option" where
  "sca_sweep S grid start =
     foldM (\<lambda>(i, k, j) best. do { r \<leftarrow> PrintSCAStats S i k j; Some (min_result best r) })
       (sweep_params grid) start"

subsection \<open>Greedy and decisions from files\<close>

definition PrintGreedyStats :: "CostSolver \<Rightarrow> (DECISION \<times> COST \<times> CostSolver) option" where
  "PrintGreedyStats S = do {
     S \<leftarrow> getBBLSortedStats S;
     decision \<leftarrow> place_blocks S (\<lambda>c p _. by_time c p);
     with_report S decision }"

definition PrintCTSStatsFromfile :: "CostSolver \<Rightarrow> DecisionFromFile \<Rightarrow> (DECISION \<times> COST \<times> CostSolver) option" where
  "PrintCTSStatsFromfile S file = do {
     S \<leftarrow> getBBLSortedStats S;
     decision \<leftarrow> place_blocks S (\<lambda>c p _.
        if bblhash c = MAIN_BBLHASH then by_time c p
        else case map_of file (bblhash c) of Some s \<Rightarrow> Some s | None \<Rightarrow> Some CPU);
     with_report S decision }"

text \<open>\<open>Follower\<close> takes the site of the block before; the first block follows \<open>PIM\<close>.\<close>

definition sca_file_site :: "DecisionFromFile \<Rightarrow> ThreadRunStats \<Rightarrow> ThreadRunStats \<Rightarrow> DECISION \<Rightarrow> CostSite option" where
  "sca_file_site file c p decision =
     (if bblhash c = MAIN_BBLHASH then by_time c p
      else case map_of file (bblhash c) of
        Some s \<Rightarrow> Some (if s = Follower then (if decision = [] then PIM else last decision) else s)
      | None \<Rightarrow> Some CPU)"

definition PrintSCAStatsFromfile :: "CostSolver \<Rightarrow> DecisionFromFile \<Rightarrow> (DECISION \<times> COST \<times> CostSolver) option" where
  "PrintSCAStatsFromfile S file = do {
     S \<leftarrow> getBBLSortedStats S;
     decision \<leftarrow> place_blocks S (sca_file_site file);
     decision \<leftarrow> TopReuseBBPairs S decision;
     with_report S decision }"

subsection \<open>The loop over the blocks\<close>

definition placed_by :: "CostSolver \<Rightarrow> (ThreadRunStats \<Rightarrow> ThreadRunStats \<Rightarrow> CostSite) \<Rightarrow> DECISION" where
  "placed_by S g = map (\<lambda>i. g (sorted_CPU S ! i) (sorted_PIM S ! i)) [0..<block_count S]"

lemma solver_blocks:
  assumes "solver_ok S" and "i < block_count S"
  shows "vec_at (sorted_CPU S) (int i) = Some (sorted_CPU S ! i)"
    and "vec_at (sorted_PIM S) (int i) = Some (sorted_PIM S ! i)"
    and "max_time (sorted_CPU S ! i) = Some (time_of (sorted_CPU S) i)"
    and "max_time (sorted_PIM S ! i) = Some (time_of (sorted_PIM S) i)"
proof -
  have n: "i < length (sorted_CPU S)" "i < length (sorted_PIM S)"
    using assms by (auto simp: block_count_def solver_ok_def aligned_def dest: list_all2_lengthD)
  then have "sorted_CPU S ! i \<in> set (sorted_CPU S)" "sorted_PIM S ! i \<in> set (sorted_PIM S)" by auto
  then have "max_time (sorted_CPU S ! i) \<noteq> None" "max_time (sorted_PIM S ! i) \<noteq> None"
    using assms(1) unfolding solver_ok_def by blast+
  with n show "vec_at (sorted_CPU S) (int i) = Some (sorted_CPU S ! i)"
    "vec_at (sorted_PIM S) (int i) = Some (sorted_PIM S ! i)"
    "max_time (sorted_CPU S ! i) = Some (time_of (sorted_CPU S) i)"
    "max_time (sorted_PIM S ! i) = Some (time_of (sorted_PIM S) i)"
    by (auto simp: vec_at_int time_of_def)
qed

lemma place_blocks_spec:
  assumes S: "solver_ok S"
    and f: "\<And>i d. i < block_count S \<Longrightarrow>
      f (sorted_CPU S ! i) (sorted_PIM S ! i) d = Some (g (sorted_CPU S ! i) (sorted_PIM S ! i))"
  shows "place_blocks S f = Some (placed_by S g)"
proof -
  have "foldM (\<lambda>i decision. do {
         cpustats \<leftarrow> vec_at (sorted_CPU S) (int i);
         pimstats \<leftarrow> vec_at (sorted_PIM S) (int i);
         site \<leftarrow> f cpustats pimstats decision;
         Some (decision @ [site]) }) [0..<n] [] =
      Some (map (\<lambda>i. g (sorted_CPU S ! i) (sorted_PIM S ! i)) [0..<n])" if "n \<le> block_count S" for n
    using that
  proof (induction n)
    case (Suc n)
    then show ?case using f [of n] solver_blocks(1,2) [OF S, of n] by (simp add: foldM_append)
  qed simp
  from this [OF order_refl] show ?thesis by (simp add: place_blocks_def placed_by_def block_count_def)
qed

lemma placed_by_length [simp]: "length (placed_by S g) = block_count S"
  by (simp add: placed_by_def)

lemma placed_by_nth: "i < block_count S \<Longrightarrow> placed_by S g ! i = g (sorted_CPU S ! i) (sorted_PIM S ! i)"
  by (simp add: placed_by_def)

lemma decision_ok_placed_by:
  "(\<And>c p. placed (g c p)) \<Longrightarrow> decision_ok S (placed_by S g)"
  by (auto simp: decision_ok_def placed_by_def)

text \<open>What the reports need: a parsed instance with the trie of its segments.\<close>

definition report_ok :: "CostSolver \<Rightarrow> BBLID TrieNode \<Rightarrow> bool" where
  "report_ok S t \<longleftrightarrow> instance_ok S t (bbl_switch_count S) \<and> tries (bbl_data_reuse S) own_root = Some t"

lemma report_ok_spec:
  assumes "report_ok S t" and "decision_ok S d"
  shows "ReuseCost S d t = Some (reuse_spec S d t)"
    and "SwitchCost S d (bbl_switch_count S) = Some (switch_spec S d (bbl_switch_count S))"
    and "ElapsedTime S d = Some (elapsed_spec S d CPU, elapsed_spec S d PIM)"
    and "report S (bbl_data_reuse S) d = Some (cost_spec S d t (bbl_switch_count S))"
  using assms
  by (simp_all add: report_ok_def report_def instance_ok_def decision_ok_def ElapsedTime_spec ReuseCost_spec
      SwitchCost_spec cost_spec_def)

lemma with_report_spec:
  "report_ok S t \<Longrightarrow> decision_ok S d \<Longrightarrow>
   with_report S d = Some (d, cost_spec S d t (bbl_switch_count S), S)"
  by (simp add: with_report_def report_ok_spec)

lemma report_ok_fresh: "report_ok S t \<Longrightarrow> solver_ok S \<and> \<not> stale S"
  by (simp add: report_ok_def instance_ok_def solver_ok_def)

lemma PrintMPKIStats_spec:
  assumes "report_ok S t"
  shows "PrintMPKIStats S = Some (placed_by S (mpki_site S),
    cost_spec S (placed_by S (mpki_site S)) t (bbl_switch_count S), S)"
proof -
  have "decision_ok S (placed_by S (mpki_site S))"
    by (rule decision_ok_placed_by) (simp add: mpki_site_def placed_def)
  then show ?thesis
    using assms report_ok_fresh [OF assms]
    by (simp add: PrintMPKIStats_def place_blocks_spec [where g = "mpki_site S"] with_report_spec)
qed

subsection \<open>Greedy is the fastest placement when switching and moving data are free\<close>

definition greedy :: "CostSolver \<Rightarrow> DECISION" where
  "greedy S = map (faster S) [0..<block_count S]"

lemma place_by_time:
  assumes "solver_ok S"
  shows "place_blocks S (\<lambda>c p _. by_time c p) = Some (greedy S)"
proof -
  let ?g = "\<lambda>c p. the (by_time c p)"
  have f: "by_time (sorted_CPU S ! i) (sorted_PIM S ! i) = Some (faster S i)" if "i < block_count S" for i
    using solver_blocks(3,4) [OF assms that] by (simp add: by_time_def faster_def)
  then have "place_blocks S (\<lambda>c p _. by_time c p) = Some (placed_by S ?g)"
    by (intro place_blocks_spec [OF assms]) simp
  moreover have "placed_by S ?g = greedy S" using f by (simp add: placed_by_def greedy_def)
  ultimately show ?thesis by simp
qed

lemma elapsed_total:
  "complete d \<Longrightarrow> length d = block_count S \<Longrightarrow>
   elapsed_spec S d CPU + elapsed_spec S d PIM =
     (\<Sum>i<block_count S. if d ! i = CPU then time_of (sorted_CPU S) i else time_of (sorted_PIM S) i)"
proof -
  assume d: "complete d" "length d = block_count S"
  have site: "d ! i = CPU \<or> d ! i = PIM" if "i < block_count S" for i
  proof -
    have "d ! i \<in> set d" using that d(2) by simp
    then show ?thesis using d(1) unfolding complete_def by blast
  qed
  show ?thesis
    unfolding elapsed_spec_def block_count_def [symmetric] sum.distrib [symmetric]
    by (rule sum.cong) (use site in auto)
qed

lemma greedy_minimal:
  assumes "complete d" and "length d = block_count S"
  shows "elapsed_spec S (greedy S) CPU + elapsed_spec S (greedy S) PIM \<le> elapsed_spec S d CPU + elapsed_spec S d PIM"
proof -
  have g: "complete (greedy S)" "length (greedy S) = block_count S"
    by (auto simp: complete_def greedy_def faster_def)
  show ?thesis
    unfolding elapsed_total [OF g] elapsed_total [OF assms]
    by (rule sum_mono) (simp add: greedy_def faster_def)
qed

lemma PrintGreedyStats_spec:
  assumes "report_ok S t"
  shows "PrintGreedyStats S = Some (greedy S, cost_spec S (greedy S) t (bbl_switch_count S), S)"
proof -
  have "decision_ok S (greedy S)" by (auto simp: decision_ok_def greedy_def placed_def faster_def)
  then show ?thesis
    using assms report_ok_fresh [OF assms] by (simp add: PrintGreedyStats_def place_by_time with_report_spec)
qed

subsection \<open>Decisions read from files\<close>

lemma place_blocks_history:
  assumes S: "solver_ok S"
    and f: "\<And>i d. i < block_count S \<Longrightarrow> length d = i \<Longrightarrow> set d \<subseteq> A \<Longrightarrow>
      \<exists>s \<in> A. f (sorted_CPU S ! i) (sorted_PIM S ! i) d = Some s"
  shows "\<exists>d. place_blocks S f = Some d \<and> length d = block_count S \<and> set d \<subseteq> A \<and>
    (\<forall>i < block_count S. f (sorted_CPU S ! i) (sorted_PIM S ! i) (take i d) = Some (d ! i))"
proof -
  have "\<exists>d. foldM (\<lambda>i decision. do {
         cpustats \<leftarrow> vec_at (sorted_CPU S) (int i);
         pimstats \<leftarrow> vec_at (sorted_PIM S) (int i);
         site \<leftarrow> f cpustats pimstats decision;
         Some (decision @ [site]) }) [0..<n] [] = Some d \<and> length d = n \<and> set d \<subseteq> A \<and>
      (\<forall>i < n. f (sorted_CPU S ! i) (sorted_PIM S ! i) (take i d) = Some (d ! i))" if "n \<le> block_count S" for n
    using that
  proof (induction n)
    case (Suc n)
    then obtain d where d: "foldM (\<lambda>i decision. do {
         cpustats \<leftarrow> vec_at (sorted_CPU S) (int i);
         pimstats \<leftarrow> vec_at (sorted_PIM S) (int i);
         site \<leftarrow> f cpustats pimstats decision;
         Some (decision @ [site]) }) [0..<n] [] = Some d" "length d = n" "set d \<subseteq> A"
      "\<forall>i < n. f (sorted_CPU S ! i) (sorted_PIM S ! i) (take i d) = Some (d ! i)" by auto
    from f [of n d] d(2,3) Suc.prems obtain s where
      s: "s \<in> A" "f (sorted_CPU S ! n) (sorted_PIM S ! n) d = Some s" by auto
    have "f (sorted_CPU S ! i) (sorted_PIM S ! i) (take i (d @ [s])) = Some ((d @ [s]) ! i)" if "i < Suc n" for i
      using that d(2,4) s(2) by (cases "i = n") (auto simp: nth_append)
    with d s Suc.prems solver_blocks(1,2) [OF S, of n] show ?case
      by (intro exI [of _ "d @ [s]"]) (simp add: foldM_append)
  qed simp
  from this [OF order_refl] show ?thesis by (simp add: place_blocks_def block_count_def)
qed

lemma by_time_faster:
  "solver_ok S \<Longrightarrow> i < block_count S \<Longrightarrow> by_time (sorted_CPU S ! i) (sorted_PIM S ! i) = Some (faster S i)"
  using solver_blocks(3,4) [of S i] by (simp add: by_time_def faster_def)

lemma faster_site: "faster S i \<in> {CPU, PIM}"
  by (simp add: faster_def)

lemma complete_ok: "complete d \<Longrightarrow> length d = block_count S \<Longrightarrow> decision_ok S d"
  by (auto simp: decision_ok_def dest: complete_placed)

lemma PrintCTSStatsFromfile_spec:
  assumes "report_ok S t" and src: "\<forall>(h, s) \<in> set file. s \<in> {CPU, PIM}"
  shows "\<exists>d. PrintCTSStatsFromfile S file = Some (d, cost_spec S d t (bbl_switch_count S), S) \<and>
    complete d \<and> length d = block_count S \<and>
    (\<forall>i < block_count S. d ! i =
       (if bblhash (sorted_CPU S ! i) = MAIN_BBLHASH then faster S i
        else case map_of file (bblhash (sorted_CPU S ! i)) of Some s \<Rightarrow> s | None \<Rightarrow> CPU))"
proof -
  have S: "solver_ok S" "\<not> stale S" using report_ok_fresh [OF assms(1)] by simp_all
  let ?f = "\<lambda>c p (d :: DECISION). if bblhash c = MAIN_BBLHASH then by_time c p
        else case map_of file (bblhash c) of Some s \<Rightarrow> Some s | None \<Rightarrow> Some CPU"
  have "\<exists>s \<in> {CPU, PIM}. ?f (sorted_CPU S ! i) (sorted_PIM S ! i) d = Some s"
    if "i < block_count S" for i d
    using by_time_faster [OF S(1) that] faster_site [of S i] src
    by (auto split: option.splits dest: map_of_SomeD)
  from place_blocks_history [OF S(1), of "{CPU, PIM}" ?f, OF this]
  obtain d where d: "place_blocks S ?f = Some d" "length d = block_count S" "complete d"
    "\<forall>i < block_count S. ?f (sorted_CPU S ! i) (sorted_PIM S ! i) (take i d) = Some (d ! i)"
    unfolding complete_def by blast
  have "d ! i = (if bblhash (sorted_CPU S ! i) = MAIN_BBLHASH then faster S i
        else case map_of file (bblhash (sorted_CPU S ! i)) of Some s \<Rightarrow> s | None \<Rightarrow> CPU)"
    if "i < block_count S" for i
    using d(4) that by_time_faster [OF S(1) that] by (fastforce split: if_splits option.splits)
  then show ?thesis
    using S(2) d with_report_spec [OF assms(1) complete_ok [OF d(3,2)]]
    by (intro exI [of _ d]) (simp add: PrintCTSStatsFromfile_def)
qed

text \<open>The site of a block before the clusters are decided again.\<close>

definition follow_site :: "CostSolver \<Rightarrow> DecisionFromFile \<Rightarrow> nat \<Rightarrow> CostSite \<Rightarrow> CostSite" where
  "follow_site S file i previous =
     (if bblhash (sorted_CPU S ! i) = MAIN_BBLHASH then faster S i
      else case map_of file (bblhash (sorted_CPU S ! i)) of
        None \<Rightarrow> CPU | Some Follower \<Rightarrow> previous | Some s \<Rightarrow> s)"

lemma sca_file_placed:
  assumes S: "solver_ok S" and src: "\<forall>(h, s) \<in> set file. s \<in> {CPU, PIM, Follower}"
  shows "\<exists>d. place_blocks S (sca_file_site file) = Some d \<and> length d = block_count S \<and> complete d \<and>
    (\<forall>i < block_count S. d ! i = follow_site S file i (if i = 0 then PIM else d ! (i - 1)))"
proof -
  have f: "sca_file_site file (sorted_CPU S ! i) (sorted_PIM S ! i) d =
      Some (follow_site S file i (if d = [] then PIM else last d))" if "i < block_count S" for i d
    using by_time_faster [OF S that] by (auto simp: sca_file_site_def follow_site_def split: option.splits CostSite.splits)
  have "follow_site S file i s \<in> {CPU, PIM}" if "s \<in> {CPU, PIM}" for i s
    using that src faster_site [of S i]
    by (auto simp: follow_site_def split: option.splits CostSite.splits dest!: map_of_SomeD)
  then have "\<exists>s \<in> {CPU, PIM}. sca_file_site file (sorted_CPU S ! i) (sorted_PIM S ! i) d = Some s"
    if "i < block_count S" "set d \<subseteq> {CPU, PIM}" for i d
    using f [OF that(1), of d] that(2) last_in_set [of d] by fastforce
  from place_blocks_history [OF S, of "{CPU, PIM}" "sca_file_site file", OF this]
  obtain d where d: "place_blocks S (sca_file_site file) = Some d" "length d = block_count S" "complete d"
    "\<forall>i < block_count S. sca_file_site file (sorted_CPU S ! i) (sorted_PIM S ! i) (take i d) = Some (d ! i)"
    unfolding complete_def by blast
  have "d ! i = follow_site S file i (if i = 0 then PIM else d ! (i - 1))" if "i < block_count S" for i
  proof (cases i)
    case 0
    with d(4) f [OF that] that show ?thesis by auto
  next
    case (Suc j)
    then have "take i d = take j d @ [d ! j]" using that d(2) by (simp add: take_Suc_conv_app_nth)
    then have "take i d \<noteq> []" "last (take i d) = d ! j" by simp_all
    with d(4) f [OF that, of "take i d"] that Suc show ?thesis by auto
  qed
  with d show ?thesis by blast
qed

definition moves_ok :: "CostSolver \<Rightarrow> bool" where
  "moves_ok S \<longleftrightarrow> (\<exists>tot. interBBTotalCost S = Some tot \<and> tot \<noteq> [] \<and>
     (\<forall>((m, n), c) \<in> set tot. 0 \<le> m \<and> m < int (block_count S) \<and> 0 \<le> n \<and> n < int (block_count S)))"

lemma vote_site_site: "vote_site v \<in> {CPU, PIM}"
  by (cases v) (simp add: vote_site_def)

lemma TopReuseBBPairs_complete:
  assumes "moves_ok S" and "complete d" and "length d = block_count S"
  shows "\<exists>d'. TopReuseBBPairs S d = Some d' \<and> complete d' \<and> length d' = block_count S"
proof -
  obtain tot where tot: "interBBTotalCost S = Some tot" "tot \<noteq> []"
    "\<forall>((m, n), c) \<in> set tot. 0 \<le> m \<and> m < int (length d) \<and> 0 \<le> n \<and> n < int (length d)"
    using assms(1,3) unfolding moves_ok_def by auto
  let ?ps = "hot_pairs (dataMoveThreshold S * snd (hd (sort_key (\<lambda>e. - snd e) tot))) (sort_key (\<lambda>e. - snd e) tot)"
  obtain d' where d': "TopReuseBBPairs S d = Some d'" "length d' = length d"
    "\<forall>i < length d. d' ! i = (if int i \<in> ends ?ps
        then vote_site (tally (\<lambda>x. sca_is_pim S x = Some True)
               (filter (\<lambda>x. (x, int i) \<in> linked ?ps) (hot_blocks ?ps)))
        else d ! i)"
    using TopReuseBBPairs_spec [OF tot assms(3) refl] by blast
  have "d' ! i \<in> {CPU, PIM}" if "i < length d" for i
  proof -
    have "d ! i \<in> set d" using that by simp
    then have "d ! i \<in> {CPU, PIM}" using assms(2) unfolding complete_def by blast
    with d'(3) that show ?thesis using vote_site_site by simp
  qed
  then have "complete d'" using d'(2) unfolding complete_def by (metis in_set_conv_nth subsetI)
  with d' assms(3) show ?thesis by auto
qed

lemma PrintSCAStatsFromfile_spec:
  assumes "report_ok S t" and "moves_ok S" and src: "\<forall>(h, s) \<in> set file. s \<in> {CPU, PIM, Follower}"
  shows "\<exists>d0 d. length d0 = block_count S \<and>
    (\<forall>i < block_count S. d0 ! i = follow_site S file i (if i = 0 then PIM else d0 ! (i - 1))) \<and>
    TopReuseBBPairs S d0 = Some d \<and> complete d \<and> length d = block_count S \<and>
    PrintSCAStatsFromfile S file = Some (d, cost_spec S d t (bbl_switch_count S), S)"
proof -
  have S: "solver_ok S" "\<not> stale S" using report_ok_fresh [OF assms(1)] by simp_all
  obtain d0 where d0: "place_blocks S (sca_file_site file) = Some d0" "length d0 = block_count S" "complete d0"
    "\<forall>i < block_count S. d0 ! i = follow_site S file i (if i = 0 then PIM else d0 ! (i - 1))"
    using sca_file_placed [OF S(1) src] by blast
  obtain d where d: "TopReuseBBPairs S d0 = Some d" "complete d" "length d = block_count S"
    using TopReuseBBPairs_complete [OF assms(2) d0(3,2)] by blast
  with d0 S(2) with_report_spec [OF assms(1) complete_ok [OF d(2,3)]] show ?thesis
    by (intro exI [of _ d0] exI [of _ d]) (simp add: PrintSCAStatsFromfile_def)
qed

text \<open>Without any data movement between blocks \<open>vec[0]\<close> is read from an empty vector.\<close>

lemma TopReuseBBPairs_no_moves: "interBBTotalCost S = Some [] \<Longrightarrow> TopReuseBBPairs S d = None"
  by (simp add: TopReuseBBPairs_def)

subsection \<open>The parameter sweep\<close>

definition sca_result :: "CostSolver \<Rightarrow> BBLID TrieNode \<Rightarrow> int \<times> int \<times> real \<Rightarrow> bestSCAResult" where
  "sca_result S t = (\<lambda>(i, k, j).
     let d = placed_by S (sca_site S i k j)
     in \<lparr>sca_total_time = cost_spec S d t (bbl_switch_count S),
         sca_elapsed_time = (elapsed_spec S d CPU, elapsed_spec S d PIM),
         sca_reuse_cost = reuse_spec S d t, sca_switch_cost = switch_spec S d (bbl_switch_count S),
         sca_mpki_threshold = i, sca_parallelism_threshold = k, instr_threshold_percentage = j\<rparr>)"

lemma PrintSCAStats_spec:
  assumes "report_ok S t"
  shows "PrintSCAStats S i k j = Some (sca_result S t (i, k, j))"
proof -
  have S: "solver_ok S" "\<not> stale S" using report_ok_fresh [OF assms] by simp_all
  have ok: "decision_ok S (placed_by S (sca_site S i k j))"
    by (rule decision_ok_placed_by) (simp add: sca_site_def placed_def)
  show ?thesis
    using S assms report_ok_spec(1-3) [OF assms ok]
    by (simp add: PrintSCAStats_def place_blocks_spec [where g = "sca_site S i k j"] report_ok_def
        sca_result_def cost_spec_def Let_def)
qed

lemma sca_sweep_spec:
  assumes "report_ok S t"
  shows "\<exists>best. sca_sweep S grid start = Some best \<and>
    (best = start \<or> best \<in> sca_result S t ` set (sweep_params grid)) \<and>
    sca_total_time best \<le> sca_total_time start \<and>
    (\<forall>p \<in> set (sweep_params grid). sca_total_time best \<le> sca_total_time (sca_result S t p))"
proof -
  have "\<exists>best. foldM (\<lambda>(i, k, j) best. do { r \<leftarrow> PrintSCAStats S i k j; Some (min_result best r) }) ps start = Some best \<and>
    (best = start \<or> best \<in> sca_result S t ` set ps) \<and> sca_total_time best \<le> sca_total_time start \<and>
    (\<forall>p \<in> set ps. sca_total_time best \<le> sca_total_time (sca_result S t p))" for ps
  proof (induction ps rule: rev_induct)
    case (snoc p ps)
    then obtain best where b: "foldM (\<lambda>(i, k, j) best. do { r \<leftarrow> PrintSCAStats S i k j; Some (min_result best r) }) ps start = Some best"
      "best = start \<or> best \<in> sca_result S t ` set ps" "sca_total_time best \<le> sca_total_time start"
      "\<forall>p \<in> set ps. sca_total_time best \<le> sca_total_time (sca_result S t p)" by blast
    have "foldM (\<lambda>(i, k, j) best. do { r \<leftarrow> PrintSCAStats S i k j; Some (min_result best r) }) (ps @ [p]) start =
        Some (min_result best (sca_result S t p))"
      using b(1) by (cases p) (simp add: foldM_append PrintSCAStats_spec [OF assms])
    moreover have "min_result best (sca_result S t p) = start \<or>
        min_result best (sca_result S t p) \<in> sca_result S t ` set (ps @ [p])"
      using b(2) by (auto simp: min_result_def)
    moreover have "sca_total_time (min_result best (sca_result S t p)) \<le> sca_total_time best"
      "sca_total_time (min_result best (sca_result S t p)) \<le> sca_total_time (sca_result S t p)"
      by (auto simp: min_result_def)
    ultimately show ?case using b(3,4) by fastforce
  qed simp
  then show ?thesis by (simp add: sca_sweep_def)
qed

end
