(* ===== verification/Solver_Report.thy ===== *)
theory Solver_Report
  imports Solver_Heuristics
begin

text \<open>
  The reports of \<open>CostSolver.cpp\<close>: the trie walk that also logs the expensive segments
  (\<open>ReuseCostPrint\<close>), the decision tables of \<open>PrintDecision\<close>, and \<open>PrintSolution\<close>, which runs the
  placements of one mode and prints the tables. A table is the list of its rows, each row with
  the values that are written, before they are padded to the width of their columns. A quotient
  of two \<open>double\<close>s with a zero divisor is infinite or not a number, here \<open>None\<close>.
\<close>

definition quotient :: "real \<Rightarrow> real \<Rightarrow> real option" where
  "quotient a b = (if b = 0 then None else Some (a / b))"

subsection \<open>The reuse cost with a log\<close>

text \<open>One line of the log: the cost of the segment and the first two neighbours on different sites.\<close>

type_synonym ReuseLog = "(COST \<times> BBLID \<times> BBLID) list"

fun TrieBFS_print :: "CostSolver \<Rightarrow> DECISION \<Rightarrow> BBLID \<Rightarrow> BBLID TrieNode \<Rightarrow> bool \<Rightarrow> BBLID \<times> BBLID \<Rightarrow>
    COST \<times> ReuseLog \<Rightarrow> (COST \<times> ReuseLog) option" where
  "TrieBFS_print S decision b (TrieNode l k n ch) isDifferent diffBBLIDs (cost, ofs) =
     (if l then
        (if isDifferent then do {
           cur \<leftarrow> k;
           if b = cur then do {
             d \<leftarrow> vec_at decision cur;
             delta \<leftarrow> (if d = CPU then do {
                 fl \<leftarrow> site_at (flush_cost S) CPU; fe \<leftarrow> site_at (fetch_cost S) PIM;
                 Some (real (unat n) * (fl + fe)) }
               else do {
                 fl \<leftarrow> site_at (flush_cost S) PIM; fe \<leftarrow> site_at (fetch_cost S) CPU;
                 Some (real (unat n) * (fl + fe)) });
             Some (cost + delta, if delta > 1000000 then ofs @ [(delta, diffBBLIDs)] else ofs) }
           else None }
         else Some (cost, ofs))
      else foldM (\<lambda>(k', t) s.
             if isDifferent then TrieBFS_print S decision k' t True diffBBLIDs s
             else do {
               d \<leftarrow> vec_at decision b;
               d' \<leftarrow> vec_at decision k';
               if d \<noteq> d' then TrieBFS_print S decision k' t True (b, k') s
               else TrieBFS_print S decision k' t False diffBBLIDs s }) ch (cost, ofs))"

definition ReuseCostPrint :: "CostSolver \<Rightarrow> DECISION \<Rightarrow> BBLID TrieNode \<Rightarrow> (COST \<times> ReuseLog) option" where
  "ReuseCostPrint S decision reusetree =
     foldM (\<lambda>(k, t) s. TrieBFS_print S decision k t False (0, 0) s) (node_children reusetree) (0, [])"

text \<open>The walk that prints charges what \<open>TrieBFS\<close> charges, on every trie and every decision.\<close>

lemma TrieBFS_print_cost:
  "map_option fst (TrieBFS_print S d b t isDifferent pr s) = TrieBFS S (fst s) d b t isDifferent"
proof (induction t arbitrary: b isDifferent pr s)
  case (TrieNode l k n ch)
  obtain cost ofs where s: "s = (cost, ofs)" by (cases s)
  show ?case
  proof (cases l)
    case True
    then show ?thesis
      by (cases k; cases "vec_at d b"; simp add: s split: bind_splits)
  next
    case False
    have "map_option fst (foldM (\<lambda>(k', t) s.
             if isDifferent then TrieBFS_print S d k' t True pr s
             else do {
               u \<leftarrow> vec_at d b;
               u' \<leftarrow> vec_at d k';
               if u \<noteq> u' then TrieBFS_print S d k' t True (b, k') s
               else TrieBFS_print S d k' t False pr s }) ch s) =
        foldM (\<lambda>(k', t) cost.
             if isDifferent then TrieBFS S cost d k' t True
             else do {
               u \<leftarrow> vec_at d b;
               u' \<leftarrow> vec_at d k';
               if u \<noteq> u' then TrieBFS S cost d k' t True
               else TrieBFS S cost d k' t False }) ch (fst s)"
    proof (rule foldM_abs)
      fix kt and s :: "COST \<times> ReuseLog"
      assume kt: "kt \<in> set ch"
      obtain x u where x: "kt = (x, u)" by (cases kt)
      have IH: "map_option fst (TrieBFS_print S d y u e q r) = TrieBFS S (fst r) d y u e" for y e q r
        using TrieNode.IH [of kt u] kt by (auto simp: x)
      show "map_option fst ((case kt of (k', t) \<Rightarrow> \<lambda>s.
             if isDifferent then TrieBFS_print S d k' t True pr s
             else do {
               u \<leftarrow> vec_at d b;
               u' \<leftarrow> vec_at d k';
               if u \<noteq> u' then TrieBFS_print S d k' t True (b, k') s
               else TrieBFS_print S d k' t False pr s }) s) =
          (case kt of (k', t) \<Rightarrow> \<lambda>cost.
             if isDifferent then TrieBFS S cost d k' t True
             else do {
               u \<leftarrow> vec_at d b;
               u' \<leftarrow> vec_at d k';
               if u \<noteq> u' then TrieBFS S cost d k' t True
               else TrieBFS S cost d k' t False }) (fst s)"
        by (cases "vec_at d b"; cases "vec_at d x") (simp_all add: x IH)
    qed
    with False show ?thesis by (simp add: s)
  qed
qed

lemma ReuseCostPrint_cost: "map_option fst (ReuseCostPrint S d t) = ReuseCost S d t"
  unfolding ReuseCostPrint_def ReuseCost_def
  by (subst foldM_abs [where h = fst and g = "\<lambda>(k, t) cost. TrieBFS S cost d k t False"])
    (auto simp: TrieBFS_print_cost)

text \<open>Specification of the log: the first two neighbours of a path on different sites.\<close>

fun first_split :: "DECISION \<Rightarrow> BBLID list \<Rightarrow> (BBLID \<times> BBLID) option" where
  "first_split d (x # y # p) = (if d ! nat x \<noteq> d ! nat y then Some (x, y) else first_split d (y # p))"
| "first_split d p = None"

definition split_of :: "DECISION \<Rightarrow> BBLID list \<Rightarrow> BBLID \<times> BBLID" where
  "split_of d p = (case first_split d p of None \<Rightarrow> (0, 0) | Some q \<Rightarrow> q)"

definition log_entry :: "CostSolver \<Rightarrow> DECISION \<Rightarrow> BBLID list \<times> u64 \<Rightarrow> ReuseLog" where
  "log_entry S d = (\<lambda>(p, n).
     if real (unat n) * seg_cost S d p > 1000000 then [(real (unat n) * seg_cost S d p, split_of d p)] else [])"

definition log_spec :: "CostSolver \<Rightarrow> DECISION \<Rightarrow> BBLID list \<Rightarrow> BBLID TrieNode \<Rightarrow> ReuseLog" where
  "log_spec S d pre t = concat (map (log_entry S d) (leaf_entries pre t))"

lemma first_split_None: "first_split d p = None \<longleftrightarrow> uniform d p"
  by (induction d p rule: first_split.induct) (auto simp: uniform_def)

lemma first_split_snoc:
  "p \<noteq> [] \<Longrightarrow> first_split d (p @ [z]) =
     (case first_split d p of Some q \<Rightarrow> Some q
      | None \<Rightarrow> if d ! nat (last p) \<noteq> d ! nat z then Some (last p, z) else None)"
proof (induction d p rule: first_split.induct)
  case (1 d x y p)
  then show ?case by (cases "d ! nat x = d ! nat y") (auto split: option.splits)
qed auto

lemma split_of_snoc:
  "p \<noteq> [] \<Longrightarrow> split_of d (p @ [x]) =
     (if \<not> uniform d p then split_of d p else if d ! nat (last p) \<noteq> d ! nat x then (last p, x) else (0, 0))"
  by (auto simp: split_of_def first_split_snoc simp flip: first_split_None split: option.splits)

lemma split_of_uniform: "uniform d p \<Longrightarrow> split_of d p = (0, 0)"
  by (simp add: split_of_def flip: first_split_None)

text \<open>A loop that adds to the cost and appends to the log.\<close>

lemma foldM_cost_log:
  fixes c :: COST
  assumes "\<And>x c l. x \<in> set xs \<Longrightarrow> f x (c, l) = Some (c + g x, l @ h x)"
  shows "foldM f xs (c, l) = Some (c + (\<Sum>x \<leftarrow> xs. g x), l @ concat (map h xs))"
  using assms by (induction xs arbitrary: c l) (auto simp: add.assoc)

lemma log_spec_node [simp]:
  "log_spec S d pre (TrieNode True k n ch) = log_entry S d (pre, n)"
  "log_spec S d pre (TrieNode False k n ch) = concat (map (\<lambda>(x, t). log_spec S d (pre @ [x]) t) ch)"
proof -
  show "log_spec S d pre (TrieNode False k n ch) = concat (map (\<lambda>(x, t). log_spec S d (pre @ [x]) t) ch)"
    by (induction ch) (auto simp: log_spec_def)
qed (simp add: log_spec_def)

lemma TrieBFS_print_spec:
  assumes S: "solver_ok S"
  shows "trie_ok pre t \<Longrightarrow> keys_in (length d) t \<Longrightarrow> pre \<noteq> [] \<Longrightarrow>
    0 \<le> last pre \<Longrightarrow> last pre < int (length d) \<Longrightarrow> node_cur t = Some (last pre) \<Longrightarrow>
    TrieBFS_print S d (last pre) t (\<not> uniform d pre) (split_of d pre) (cost, ofs) =
      Some (cost + leaf_sum (seg_cost S d) pre t, ofs @ log_spec S d pre t)"
proof (induction t arbitrary: pre cost ofs)
  case (TrieNode l k n ch)
  have at: "vec_at d (last pre) = Some (d ! nat (last pre))"
    using TrieNode.prems by (simp add: vec_at_in_range)
  have costs: "length (flush_cost S) = 2" "length (fetch_cost S) = 2"
    using S by (simp_all add: solver_ok_def)
  show ?case
  proof (cases l)
    case True
    with TrieNode.prems at costs show ?thesis
      by (cases "d ! nat (last pre) = CPU") (auto simp: seg_cost_def site_at_len2 log_entry_def)
  next
    case False
    let ?f = "\<lambda>(k', t) s.
             if \<not> uniform d pre then TrieBFS_print S d k' t True (split_of d pre) s
             else do {
               u \<leftarrow> vec_at d (last pre);
               u' \<leftarrow> vec_at d k';
               if u \<noteq> u' then TrieBFS_print S d k' t True (last pre, k') s
               else TrieBFS_print S d k' t False (split_of d pre) s }"
    have "?f kt (c, lg) = Some (c + (case kt of (x, t) \<Rightarrow> leaf_sum (seg_cost S d) (pre @ [x]) t),
          lg @ (case kt of (x, t) \<Rightarrow> log_spec S d (pre @ [x]) t))" if kt: "kt \<in> set ch" for kt c lg
    proof -
      obtain x t where x: "kt = (x, t)" by (cases kt)
      have "TrieBFS_print S d x t (\<not> uniform d (pre @ [x])) (split_of d (pre @ [x])) (c, lg) =
          Some (c + leaf_sum (seg_cost S d) (pre @ [x]) t, lg @ log_spec S d (pre @ [x]) t)"
        using TrieNode.IH [of kt t "pre @ [x]" c lg] TrieNode.prems kt x by auto
      moreover have "vec_at d x = Some (d ! nat x)"
        using TrieNode.prems kt x by (auto simp: vec_at_in_range)
      ultimately show ?thesis
        using at TrieNode.prems(3) x by (auto simp: uniform_snoc split_of_snoc split_of_uniform split: if_splits)
    qed
    from foldM_cost_log [of ch ?f, OF this] show ?thesis using False by simp
  qed
qed

lemma ReuseCostPrint_spec:
  assumes S: "solver_ok S" and t: "trie_ok [] t" "\<not> isLeaf t" "keys_in (length d) t"
  shows "ReuseCostPrint S d t = Some (reuse_spec S d t, log_spec S d [] t)"
proof -
  obtain k n ch where tn: "t = TrieNode False k n ch" using t(2) by (cases t) auto
  have "(case kt of (k, t) \<Rightarrow> \<lambda>s. TrieBFS_print S d k t False (0, 0) s) (c, lg) =
      Some (c + (case kt of (x, t) \<Rightarrow> leaf_sum (seg_cost S d) ([] @ [x]) t),
        lg @ (case kt of (x, t) \<Rightarrow> log_spec S d ([] @ [x]) t))" if kt: "kt \<in> set ch" for kt c lg
  proof -
    obtain x u where x: "kt = (x, u)" by (cases kt)
    show ?thesis
      using TrieBFS_print_spec [OF S, of "[x]" u d c lg] t kt x by (auto simp: tn uniform_def split_of_def)
  qed
  from foldM_cost_log [of ch, OF this] show ?thesis by (simp add: ReuseCostPrint_def reuse_spec_def tn)
qed

subsection \<open>The rows of the tables\<close>

text \<open>
  A row of the decision table. The column headed \<open>ctsDecision\<close> shows the second placement, the one
  headed \<open>scaDecision\<close> the site read from the SCA file.
\<close>

record ReportRow =
  row_bblid :: nat
  row_decision :: string
  row_cts :: string
  row_sca :: string
  row_parallelism :: int
  row_bbCount :: u64
  row_CPU :: COST
  row_PIM :: COST
  row_Difference :: COST
  row_hash :: UUID

text \<open>A row of the two lists of expensive blocks.\<close>

record ShowRow =
  show_bblid :: nat
  show_decision :: string
  show_cts :: string
  show_parallelism :: int
  show_bbCount :: u64
  show_CPU :: COST
  show_PIM :: COST
  show_percentage :: "real option"
  show_Difference :: COST
  show_hash :: UUID

text \<open>\<open>m[h]\<close> for a map of sites: an unknown hash is entered with the enumerator 0.\<close>

definition site_entry :: "UUID \<Rightarrow> DecisionFromFile \<Rightarrow> CostSite \<times> DecisionFromFile" where
  "site_entry h m = (case map_of m h of Some s \<Rightarrow> (s, m) | None \<Rightarrow> (CPU, m @ [(h, CPU)]))"

definition report_row :: "CostSolver \<Rightarrow> DECISION \<Rightarrow> DECISION \<Rightarrow> u64 list \<Rightarrow> nat \<Rightarrow> DecisionFromFile \<Rightarrow>
    (ReportRow \<times> DecisionFromFile) option" where
  "report_row S decision scaPrintDecision bbcount i sca = do {
     cpustats \<leftarrow> vec_at (sorted_CPU S) (int i);
     pimstats \<leftarrow> vec_at (sorted_PIM S) (int i);
     c \<leftarrow> max_time cpustats; p \<leftarrow> max_time pimstats;
     d \<leftarrow> vec_at decision (int i); ds \<leftarrow> getCostSiteString d;
     s \<leftarrow> vec_at scaPrintDecision (int i); ss \<leftarrow> getCostSiteString s;
     let (f, sca) = site_entry (bblhash cpustats) sca;
     fs \<leftarrow> getCostSiteString f;
     n \<leftarrow> vec_at bbcount (int i);
     Some (\<lparr>row_bblid = i, row_decision = ds, row_cts = ss, row_sca = fs,
        row_parallelism = parallelism pimstats, row_bbCount = n, row_CPU = c, row_PIM = p,
        row_Difference = c - p, row_hash = bblhash cpustats\<rparr>, sca) }"

text \<open>What the loops over the blocks build.\<close>

record ReportState =
  table :: "ReportRow list"
  topPIMProf :: "(COST \<times> nat) list"
  topSCA :: "(COST \<times> nat) list"
  IncorrectCPU :: "ReportRow list"
  IncorrectPIM :: "ReportRow list"
  potential :: COST
  sca_map :: DecisionFromFile

definition empty_report :: "DecisionFromFile \<Rightarrow> ReportState" where
  "empty_report sca = \<lparr>table = [], topPIMProf = [], topSCA = [], IncorrectCPU = [], IncorrectPIM = [],
     potential = 0, sca_map = sca\<rparr>"

text \<open>The two tests for a block that sits on its slower side, by more than the threshold.\<close>

definition incorrect_step :: "CostSolver \<Rightarrow> DECISION \<Rightarrow> DECISION \<Rightarrow> u64 list \<Rightarrow> COST \<Rightarrow> nat \<Rightarrow>
    ReportState \<Rightarrow> ReportState option" where
  "incorrect_step S decision scaPrintDecision bbcount threshold i st = do {
     cpustats \<leftarrow> vec_at (sorted_CPU S) (int i);
     pimstats \<leftarrow> vec_at (sorted_PIM S) (int i);
     c \<leftarrow> max_time cpustats; p \<leftarrow> max_time pimstats;
     let diff = c - p;
     st \<leftarrow> (if diff > threshold then do {
         s \<leftarrow> vec_at scaPrintDecision (int i); ss \<leftarrow> getCostSiteString s;
         if ss = ''C'' then do {
           (row, sca) \<leftarrow> report_row S decision scaPrintDecision bbcount i (sca_map st);
           Some (st\<lparr>IncorrectCPU := IncorrectCPU st @ [row], potential := potential st + \<bar>diff\<bar>, sca_map := sca\<rparr>) }
         else Some st }
       else Some st);
     if diff < - threshold then do {
         s \<leftarrow> vec_at scaPrintDecision (int i); ss \<leftarrow> getCostSiteString s;
         if ss = ''P'' then do {
           (row, sca) \<leftarrow> report_row S decision scaPrintDecision bbcount i (sca_map st);
           Some (st\<lparr>IncorrectPIM := IncorrectPIM st @ [row], potential := potential st + \<bar>diff\<bar>, sca_map := sca\<rparr>) }
         else Some st }
     else Some st }"

text \<open>The constant is a \<open>float\<close>: the nearest one to 0.005.\<close>

definition showThrehold :: real where
  "showThrehold = 5368709 / 2 ^ 30"

definition table_step :: "CostSolver \<Rightarrow> DECISION \<Rightarrow> DECISION \<Rightarrow> u64 list \<Rightarrow> COST \<Rightarrow> COST \<Rightarrow> COST \<Rightarrow> nat \<Rightarrow>
    ReportState \<Rightarrow> ReportState option" where
  "table_step S decision scaPrintDecision bbcount PIMProfCost scaCost threshold i st = do {
     (row, sca) \<leftarrow> report_row S decision scaPrintDecision bbcount i (sca_map st);
     d \<leftarrow> vec_at decision (int i);
     stats \<leftarrow> site_at [sorted_CPU S, sorted_PIM S] d; b \<leftarrow> vec_at stats (int i);
     PIMProfBBCost \<leftarrow> max_time b;
     s \<leftarrow> vec_at scaPrintDecision (int i);
     stats \<leftarrow> site_at [sorted_CPU S, sorted_PIM S] s; b \<leftarrow> vec_at stats (int i);
     scaBBCost \<leftarrow> max_time b;
     let st = st\<lparr>table := table st @ [row], sca_map := sca,
       topPIMProf := (if PIMProfBBCost > showThrehold * PIMProfCost
          then omap_update PIMProfBBCost i (topPIMProf st) else topPIMProf st),
       topSCA := (if scaBBCost > showThrehold * scaCost
          then omap_update scaBBCost i (topSCA st) else topSCA st)\<rparr>;
     incorrect_step S decision scaPrintDecision bbcount threshold i st }"

text \<open>
  \<open>while (potential == 0)\<close>: nothing was reported, so the threshold goes down by a factor of ten
  and the blocks are tested again. The loop need not end.
\<close>

partial_function (option) lower_threshold :: "CostSolver \<Rightarrow> DECISION \<Rightarrow> DECISION \<Rightarrow> u64 list \<Rightarrow> COST \<Rightarrow>
    ReportState \<Rightarrow> ReportState option" where
  "lower_threshold S decision scaPrintDecision bbcount threshold st =
     (if potential st = 0 then do {
        st \<leftarrow> foldM (incorrect_step S decision scaPrintDecision bbcount (threshold / 10))
          [0..<length (sorted_CPU S)] st;
        lower_threshold S decision scaPrintDecision bbcount (threshold / 10) st }
      else Some st)"

text \<open>The expensive blocks in ascending order of their cost, and their share of the total cost.\<close>

definition show_step :: "CostSolver \<Rightarrow> DECISION \<Rightarrow> DECISION \<Rightarrow> u64 list \<Rightarrow> COST \<Rightarrow> COST \<times> nat \<Rightarrow>
    ShowRow list \<times> COST \<Rightarrow> (ShowRow list \<times> COST) option" where
  "show_step S decision scaPrintDecision bbcount totalCost = (\<lambda>(key, i) (rows, sumofShowBBTime). do {
     cpustats \<leftarrow> vec_at (sorted_CPU S) (int i);
     pimstats \<leftarrow> vec_at (sorted_PIM S) (int i);
     c \<leftarrow> max_time cpustats; p \<leftarrow> max_time pimstats;
     d \<leftarrow> vec_at decision (int i); ds \<leftarrow> getCostSiteString d;
     s \<leftarrow> vec_at scaPrintDecision (int i); ss \<leftarrow> getCostSiteString s;
     n \<leftarrow> vec_at bbcount (int i);
     Some (rows @ [\<lparr>show_bblid = i, show_decision = ds, show_cts = ss, show_parallelism = parallelism pimstats,
         show_bbCount = n, show_CPU = c, show_PIM = p, show_percentage = quotient (key * 100) totalCost,
         show_Difference = c - p, show_hash = bblhash cpustats\<rparr>], sumofShowBBTime + key) })"

definition show_top :: "CostSolver \<Rightarrow> DECISION \<Rightarrow> DECISION \<Rightarrow> u64 list \<Rightarrow> COST \<Rightarrow> (COST \<times> nat) list \<Rightarrow>
    (ShowRow list \<times> real option) option" where
  "show_top S decision scaPrintDecision bbcount totalCost tops = do {
     (rows, sumofShowBBTime) \<leftarrow> foldM (show_step S decision scaPrintDecision bbcount totalCost) tops ([], 0);
     Some (rows, quotient (sumofShowBBTime * 100) totalCost) }"

subsection \<open>The decision report\<close>

record DecisionReport =
  decision_table :: "ReportRow list"
  top10PIMProfBB :: "ShowRow list"
  ShowPIMProfTime :: "real option"
  top10SCABB :: "ShowRow list"
  ShowSCATime :: "real option"
  IncorrectCPUDecision :: "ReportRow list"
  IncorrectPIMDecision :: "ReportRow list"
  OptimizePotential :: "real option"
  ReuseCostLog :: ReuseLog

text \<open>Everything before the top lists: the tables at the last threshold.\<close>

definition decision_scan :: "CostSolver \<Rightarrow> DECISION \<Rightarrow> DECISION \<Rightarrow> u64 list \<Rightarrow> COST \<Rightarrow> COST \<Rightarrow> ReportState option" where
  "decision_scan S decision scaPrintDecision bbcount PIMProfCost scaCost = do {
     st \<leftarrow> foldM (table_step S decision scaPrintDecision bbcount PIMProfCost scaCost 10000000)
       [0..<length (sorted_CPU S)] (empty_report (scaDecision S));
     lower_threshold S decision scaPrintDecision bbcount 10000000 st }"

definition PrintDecision_tables :: "CostSolver \<Rightarrow> DECISION \<Rightarrow> DECISION \<Rightarrow> (DecisionReport \<times> CostSolver) option" where
  "PrintDecision_tables S decision scaPrintDecision = do {
     root \<leftarrow> tries (bbl_data_reuse S) own_root;
     PIMProfCost \<leftarrow> Cost S decision root (bbl_switch_count S);
     scaCost \<leftarrow> Cost S scaPrintDecision root (bbl_switch_count S);
     bbcount \<leftarrow> bbTimesFromSwitchInfo decision (bbl_switch_count S);
     st \<leftarrow> decision_scan S decision scaPrintDecision bbcount PIMProfCost scaCost;
     (top1, show1) \<leftarrow> show_top S decision scaPrintDecision bbcount PIMProfCost (topPIMProf st);
     (top2, show2) \<leftarrow> show_top S decision scaPrintDecision bbcount scaCost (topSCA st);
     (c, p) \<leftarrow> ElapsedTime S decision;
     (r, ofs) \<leftarrow> ReuseCostPrint S scaPrintDecision root;
     Some (\<lparr>decision_table = table st, top10PIMProfBB = top1, ShowPIMProfTime = show1,
         top10SCABB = top2, ShowSCATime = show2, IncorrectCPUDecision = IncorrectCPU st,
         IncorrectPIMDecision = IncorrectPIM st, OptimizePotential = quotient (potential st) (c + p),
         ReuseCostLog = ofs\<rparr>, S\<lparr>scaDecision := sca_map st\<rparr>) }"

text \<open>On the screen the decision is one line of blocks and sites; in a file it is the tables.\<close>

definition PrintDecision :: "CostSolver \<Rightarrow> DECISION \<Rightarrow> DECISION \<Rightarrow> bool \<Rightarrow>
    (((nat \<times> string) list + DecisionReport) \<times> CostSolver) option" where
  "PrintDecision S decision scaPrintDecision toscreen = do {
     S \<leftarrow> getBBLSortedStats S;
     if toscreen then do {
       out \<leftarrow> foldM (\<lambda>i out. do {
           d \<leftarrow> vec_at decision (int i); ds \<leftarrow> getCostSiteString d; Some (out @ [(i, ds)]) })
         [0..<length decision] [];
       Some (Inl out, S) }
     else do {
       (r, S) \<leftarrow> PrintDecision_tables S decision scaPrintDecision;
       Some (Inr r, S) } }"

text \<open>
  \<open>CommandLineParser::Mode\<close>, and the whole run. \<open>ord\<close> and \<open>grid\<close> as in the searches; \<open>start\<close> holds
  the uninitialised settings of the first sweep result, whose total is \<open>INT_MAX\<close>. Outside the mode
  \<open>REUSE\<close> the second placement of the tables is the empty vector.
\<close>

datatype Mode = MPKI | PARA | REUSE | DEBUG

definition PrintSolution :: "((BBLID \<times> u64) list \<Rightarrow> (BBLID \<times> u64) list) \<Rightarrow> real list \<Rightarrow> bestSCAResult \<Rightarrow>
    Mode \<Rightarrow> CostSolver \<Rightarrow> (DECISION \<times> ((nat \<times> string) list + DecisionReport)) option" where
  "PrintSolution ord grid start mode S = do {
     (decision, ctsPrintDecision, S) \<leftarrow> (case mode of
         MPKI \<Rightarrow> do {
           c \<leftarrow> ElapsedTime_site S CPU; p \<leftarrow> ElapsedTime_site S PIM;
           (decision, _, S) \<leftarrow> PrintMPKIStats S;
           Some (decision, [], S) }
       | PARA \<Rightarrow> Some ([], [], S)
       | REUSE \<Rightarrow> do {
           c \<leftarrow> ElapsedTime_site S CPU; p \<leftarrow> ElapsedTime_site S PIM;
           (_, _, S) \<leftarrow> PrintMPKIStats S;
           (_, _, S) \<leftarrow> PrintGreedyStats S;
           (decision, _, S) \<leftarrow> PrintReuseStats ord S;
           (ctsPrintDecision, _, S) \<leftarrow> PrintCTSStatsFromfile S (ctsDecision S);
           (_, _, S) \<leftarrow> PrintSCAStatsFromfile S (scaDecision S);
           minSCAResult \<leftarrow> sca_sweep S grid (start\<lparr>sca_total_time := of_int INT_MAX\<rparr>);
           Some (decision, ctsPrintDecision, S) }
       | DEBUG \<Rightarrow> do {
           c \<leftarrow> ElapsedTime_site S CPU; p \<leftarrow> ElapsedTime_site S PIM;
           (decision, _, S) \<leftarrow> Debug_HierarchicalDecision ord S;
           Some (decision, [], S) });
     (r, S) \<leftarrow> PrintDecision S decision ctsPrintDecision False;
     Some (decision, r) }"

subsection \<open>What the loops over the blocks report\<close>

definition gap :: "CostSolver \<Rightarrow> nat \<Rightarrow> COST" where
  "gap S i = time_of (sorted_CPU S) i - time_of (sorted_PIM S) i"

text \<open>Block \<open>i\<close> sits on the CPU (on PIM) although it runs faster on the other side by more than \<open>thr\<close>.\<close>

definition cpu_wrong :: "CostSolver \<Rightarrow> DECISION \<Rightarrow> COST \<Rightarrow> nat \<Rightarrow> bool" where
  "cpu_wrong S s thr i \<longleftrightarrow> s ! i = CPU \<and> gap S i > thr"

definition pim_wrong :: "CostSolver \<Rightarrow> DECISION \<Rightarrow> COST \<Rightarrow> nat \<Rightarrow> bool" where
  "pim_wrong S s thr i \<longleftrightarrow> s ! i = PIM \<and> gap S i < - thr"

definition wrong :: "CostSolver \<Rightarrow> DECISION \<Rightarrow> COST \<Rightarrow> nat \<Rightarrow> bool" where
  "wrong S s thr i \<longleftrightarrow> cpu_wrong S s thr i \<or> pim_wrong S s thr i"

definition sites_ok :: "DecisionFromFile \<Rightarrow> bool" where
  "sites_ok m \<longleftrightarrow> (\<forall>(h, s) \<in> set m. getCostSiteString s \<noteq> None)"

definition tables_ok :: "CostSolver \<Rightarrow> DECISION \<Rightarrow> DECISION \<Rightarrow> u64 list \<Rightarrow> bool" where
  "tables_ok S d s bb \<longleftrightarrow> solver_ok S \<and> complete d \<and> complete s \<and> length d = block_count S \<and>
     length s = block_count S \<and> length bb = block_count S"

lemma site_string [simp]: "getCostSiteString CPU = Some ''C''" "getCostSiteString PIM = Some ''P''"
  by (simp_all add: getCostSiteString_def CostSiteString_def vec_at_def)

lemma complete_nth: "complete d \<Longrightarrow> i < length d \<Longrightarrow> d ! i = CPU \<or> d ! i = PIM"
  using nth_mem [of i d] unfolding complete_def by blast

lemma site_entry_ok:
  assumes "sites_ok m"
  obtains f m' fs where "site_entry h m = (f, m')" "getCostSiteString f = Some fs" "sites_ok m'"
proof (cases "map_of m h")
  case None
  show ?thesis
    by (rule that [of CPU "m @ [(h, CPU)]" "''C''"]) (use assms None in \<open>auto simp: site_entry_def sites_ok_def\<close>)
next
  case (Some s)
  then have "getCostSiteString s \<noteq> None" using assms by (auto simp: sites_ok_def dest: map_of_SomeD)
  with Some assms that show ?thesis by (auto simp: site_entry_def)
qed

lemma report_row_spec:
  assumes ok: "tables_ok S d s bb" and i: "i < block_count S" and m: "sites_ok m"
  obtains row m' where "report_row S d s bb i m = Some (row, m')" "row_bblid row = i"
    "row_Difference row = gap S i" "sites_ok m'"
proof -
  have S: "solver_ok S" and len: "i < length d" "i < length s" "i < length bb"
    using ok i by (auto simp: tables_ok_def)
  then have at: "vec_at d (int i) = Some (d ! i)" "vec_at s (int i) = Some (s ! i)" "vec_at bb (int i) = Some (bb ! i)"
    by (simp_all add: vec_at_int)
  obtain ds ss where str: "getCostSiteString (d ! i) = Some ds" "getCostSiteString (s ! i) = Some ss"
    using complete_nth [of d i] complete_nth [of s i] ok len by (auto simp: tables_ok_def)
  obtain f m' fs where e: "site_entry (bblhash (sorted_CPU S ! i)) m = (f, m')"
    "getCostSiteString f = Some fs" "sites_ok m'"
    using site_entry_ok [OF m] by metis
  show ?thesis
    by (rule that) (use e(3) in \<open>auto simp: report_row_def solver_blocks [OF S i] at str e gap_def\<close>)
qed

definition added :: "bool \<Rightarrow> nat \<Rightarrow> nat list" where
  "added b i = (if b then [i] else [])"

lemma incorrect_step_spec:
  assumes ok: "tables_ok S d s bb" and i: "i < block_count S" and m: "sites_ok (sca_map st)" and thr: "0 \<le> thr"
  shows "\<exists>st'. incorrect_step S d s bb thr i st = Some st' \<and> sites_ok (sca_map st') \<and>
    table st' = table st \<and> topPIMProf st' = topPIMProf st \<and> topSCA st' = topSCA st \<and>
    map row_bblid (IncorrectCPU st') = map row_bblid (IncorrectCPU st) @ added (cpu_wrong S s thr i) i \<and>
    map row_bblid (IncorrectPIM st') = map row_bblid (IncorrectPIM st) @ added (pim_wrong S s thr i) i \<and>
    potential st' = potential st + (if wrong S s thr i then \<bar>gap S i\<bar> else 0)"
proof -
  have S: "solver_ok S" and at: "vec_at s (int i) = Some (s ! i)" and site: "s ! i = CPU \<or> s ! i = PIM"
    using ok i complete_nth [of s i] by (auto simp: tables_ok_def vec_at_int)
  obtain row m' where row: "report_row S d s bb i (sca_map st) = Some (row, m')" "row_bblid row = i" "sites_ok m'"
    using report_row_spec [OF ok i m] by metis
  have g: "time_of (sorted_CPU S) i - time_of (sorted_PIM S) i = gap S i" by (simp add: gap_def)
  consider "gap S i > thr" | "gap S i < - thr" | "\<not> gap S i > thr" "\<not> gap S i < - thr" by blast
  then show ?thesis
  proof cases
    case 1
    then have "\<not> gap S i < - thr" using thr by simp
    with 1 site row m show ?thesis
      by (auto simp: incorrect_step_def solver_blocks [OF S i] at g cpu_wrong_def pim_wrong_def wrong_def
          added_def)
  next
    case 2
    then have "\<not> gap S i > thr" using thr by simp
    with 2 site row m show ?thesis
      by (auto simp: incorrect_step_def solver_blocks [OF S i] at g cpu_wrong_def pim_wrong_def wrong_def
          added_def)
  next
    case 3
    with site m show ?thesis
      by (auto simp: incorrect_step_def solver_blocks [OF S i] at g cpu_wrong_def pim_wrong_def wrong_def
          added_def)
  qed
qed

text \<open>The lists after the first \<open>k\<close> blocks were tested with threshold \<open>thr\<close>.\<close>

definition reports :: "CostSolver \<Rightarrow> DECISION \<Rightarrow> COST \<Rightarrow> nat \<Rightarrow> ReportState \<Rightarrow> bool" where
  "reports S s thr k st \<longleftrightarrow> sites_ok (sca_map st) \<and>
     map row_bblid (IncorrectCPU st) = filter (cpu_wrong S s thr) [0..<k] \<and>
     map row_bblid (IncorrectPIM st) = filter (pim_wrong S s thr) [0..<k] \<and>
     potential st = (\<Sum>i<k. if wrong S s thr i then \<bar>gap S i\<bar> else 0)"

lemma incorrect_step_reports:
  assumes "tables_ok S d s bb" and "k < block_count S" and "0 \<le> thr" and "reports S s thr k st"
  shows "\<exists>st'. incorrect_step S d s bb thr k st = Some st' \<and> reports S s thr (Suc k) st' \<and>
    table st' = table st \<and> topPIMProf st' = topPIMProf st \<and> topSCA st' = topSCA st"
proof -
  have "sites_ok (sca_map st)" using assms(4) by (simp add: reports_def)
  from incorrect_step_spec [OF assms(1,2) this assms(3)] assms(4) show ?thesis
    by (auto simp: reports_def added_def)
qed

lemma incorrect_loop:
  assumes ok: "tables_ok S d s bb" and thr: "0 \<le> thr" and st: "reports S s thr 0 st" and k: "k \<le> block_count S"
  shows "\<exists>st'. foldM (incorrect_step S d s bb thr) [0..<k] st = Some st' \<and> reports S s thr k st' \<and>
    table st' = table st \<and> topPIMProf st' = topPIMProf st \<and> topSCA st' = topSCA st"
  using k
proof (induction k)
  case 0
  then show ?case using st by simp
next
  case (Suc k)
  then obtain st1 where 1: "foldM (incorrect_step S d s bb thr) [0..<k] st = Some st1" "reports S s thr k st1"
    "table st1 = table st" "topPIMProf st1 = topPIMProf st" "topSCA st1 = topSCA st" by auto
  from incorrect_step_reports [OF ok _ thr 1(2)] Suc.prems 1 show ?case by (auto simp: foldM_append)
qed

lemma wrong_gap: "0 \<le> thr \<Longrightarrow> wrong S s thr i \<Longrightarrow> \<bar>gap S i\<bar> > thr"
  by (auto simp: wrong_def cpu_wrong_def pim_wrong_def)

text \<open>Nothing is reported exactly when no block is on the wrong side by more than the threshold.\<close>

lemma reports_zero:
  assumes "reports S s thr k st" and "0 \<le> thr"
  shows "potential st = 0 \<longleftrightarrow> (\<forall>i<k. \<not> wrong S s thr i)"
proof -
  have p: "potential st = (\<Sum>i<k. if wrong S s thr i then \<bar>gap S i\<bar> else 0)"
    using assms(1) unfolding reports_def by blast
  have "potential st = 0 \<longleftrightarrow> (\<forall>i \<in> {..<k}. (if wrong S s thr i then \<bar>gap S i\<bar> else 0) = 0)"
    unfolding p by (rule sum_nonneg_eq_0_iff) auto
  also have "\<dots> \<longleftrightarrow> (\<forall>i<k. \<not> wrong S s thr i)" proof (intro iffI allI impI ballI)
    fix i assume z: "\<forall>i \<in> {..<k}. (if wrong S s thr i then \<bar>gap S i\<bar> else 0) = 0" and i: "i < k"
    show "\<not> wrong S s thr i"
    proof
      assume w: "wrong S s thr i"
      from z i have "(if wrong S s thr i then \<bar>gap S i\<bar> else 0) = 0" by blast
      with w have "\<bar>gap S i\<bar> = 0" by simp
      with wrong_gap [OF assms(2) w] assms(2) show False by simp
    qed
  qed auto
  finally show ?thesis .
qed

lemma reports_none:
  assumes "reports S s thr k st" and "0 \<le> thr" and "potential st = 0"
  shows "reports S s thr' 0 st"
proof -
  have "\<forall>i<k. \<not> wrong S s thr i" using reports_zero [OF assms(1,2)] assms(3) by simp
  then show ?thesis using assms by (auto simp: reports_def wrong_def)
qed

text \<open>
  The threshold goes down until a block is on the wrong side; the tables then list exactly the
  blocks that are, at the largest of the thresholds at which there is one.
\<close>

lemma lower_threshold_reports:
  assumes ok: "tables_ok S d s bb"
  shows "reports S s thr (block_count S) st \<Longrightarrow> 0 \<le> thr \<Longrightarrow> \<exists>i < block_count S. wrong S s (thr / 10 ^ K) i \<Longrightarrow>
    \<exists>k st'. lower_threshold S d s bb thr st = Some st' \<and> reports S s (thr / 10 ^ k) (block_count S) st' \<and>
      (\<exists>i < block_count S. wrong S s (thr / 10 ^ k) i) \<and>
      (\<forall>j < k. \<forall>i < block_count S. \<not> wrong S s (thr / 10 ^ j) i) \<and>
      table st' = table st \<and> topPIMProf st' = topPIMProf st \<and> topSCA st' = topSCA st"
proof (induction K arbitrary: thr st)
  case 0
  then have "potential st \<noteq> 0" using reports_zero by fastforce
  with 0 show ?case by (intro exI [of _ 0] exI [of _ st]) (simp add: lower_threshold.simps [of S d s bb thr])
next
  case (Suc K)
  show ?case
  proof (cases "potential st = 0")
    case False
    then have "\<exists>i < block_count S. wrong S s thr i" using reports_zero [OF Suc.prems(1,2)] by auto
    with False Suc.prems show ?thesis
      by (intro exI [of _ 0] exI [of _ st]) (simp add: lower_threshold.simps [of S d s bb thr])
  next
    case True
    then have no: "\<forall>i < block_count S. \<not> wrong S s thr i" using reports_zero [OF Suc.prems(1,2)] by auto
    have thr: "0 \<le> thr / 10" using Suc.prems(2) by simp
    obtain st1 where 1: "foldM (incorrect_step S d s bb (thr / 10)) [0..<block_count S] st = Some st1"
      "reports S s (thr / 10) (block_count S) st1"
      "table st1 = table st" "topPIMProf st1 = topPIMProf st" "topSCA st1 = topSCA st"
      using incorrect_loop [OF ok thr reports_none [OF Suc.prems(1,2) True], of "block_count S"] by auto
    have "\<exists>i < block_count S. wrong S s (thr / 10 / 10 ^ K) i" using Suc.prems(3) by simp
    from Suc.IH [OF 1(2) thr this] obtain k st' where
      "lower_threshold S d s bb (thr / 10) st1 = Some st'" "reports S s (thr / 10 ^ Suc k) (block_count S) st'"
      "\<exists>i < block_count S. wrong S s (thr / 10 ^ Suc k) i"
      "\<forall>j < k. \<forall>i < block_count S. \<not> wrong S s (thr / 10 ^ Suc j) i"
      "table st' = table st1" "topPIMProf st' = topPIMProf st1" "topSCA st' = topSCA st1"
      by auto
    moreover from this(4) no have "\<forall>j < Suc k. \<forall>i < block_count S. \<not> wrong S s (thr / 10 ^ j) i"
      by (auto simp: less_Suc_eq_0_disj)
    moreover have "lower_threshold S d s bb thr st = lower_threshold S d s bb (thr / 10) st1"
      using True 1(1) by (simp add: lower_threshold.simps [of S d s bb thr] block_count_def)
    ultimately show ?thesis using 1(3-5) by (intro exI [of _ "Suc k"] exI [of _ st']) simp
  qed
qed

text \<open>If every block already sits where it runs faster, the loop never ends.\<close>

lemma lower_threshold_hangs:
  assumes "tables_ok S d s bb" and "reports S s thr (block_count S) st" and "0 \<le> thr"
    and ret: "lower_threshold S d s bb thr st = Some st'"
  shows "\<exists>i < block_count S. wrong S s 0 i"
proof -
  have "tables_ok S d s bb \<longrightarrow> reports S s thr (block_count S) st \<longrightarrow> 0 \<le> thr \<longrightarrow> (\<exists>i < block_count S. wrong S s 0 i)"
  proof (rule lower_threshold.raw_induct [where P = "\<lambda>S d s bb thr st st'.
      tables_ok S d s bb \<longrightarrow> reports S s thr (block_count S) st \<longrightarrow> 0 \<le> thr \<longrightarrow> (\<exists>i < block_count S. wrong S s 0 i)",
      OF _ ret], intro impI, rule ccontr)
    fix f S d s bb thr st st'
    assume IH: "\<And>S d s bb thr st st'. f S d s bb thr st = Some st' \<Longrightarrow>
        tables_ok S d s bb \<longrightarrow> reports S s thr (block_count S) st \<longrightarrow> 0 \<le> thr \<longrightarrow> (\<exists>i < block_count S. wrong S s 0 i)"
      and body: "(if potential st = 0 then do {
          st \<leftarrow> foldM (incorrect_step S d s bb (thr / 10)) [0..<length (sorted_CPU S)] st;
          f S d s bb (thr / 10) st } else Some st) = Some st'"
      and ok: "tables_ok S d s bb" and st: "reports S s thr (block_count S) st" and thr: "0 \<le> thr"
      and none: "\<not> (\<exists>i < block_count S. wrong S s 0 i)"
    have weaker: "wrong S s t i \<Longrightarrow> 0 \<le> t \<Longrightarrow> wrong S s 0 i" for t i
      by (auto simp: wrong_def cpu_wrong_def pim_wrong_def)
    have p: "potential st = 0" using none weaker thr unfolding reports_zero [OF st thr] by blast
    have thr': "0 \<le> thr / 10" using thr by simp
    obtain st1 where st1: "foldM (incorrect_step S d s bb (thr / 10)) [0..<block_count S] st = Some st1"
      "reports S s (thr / 10) (block_count S) st1"
      using incorrect_loop [OF ok thr' reports_none [OF st thr p], of "block_count S"] by auto
    have "f S d s bb (thr / 10) st1 = Some st'" using body p st1(1) by (simp add: block_count_def)
    from IH [OF this] ok st1(2) thr' none show False by blast
  qed
  with assms show ?thesis by blast
qed

subsection \<open>The first pass and the lists of expensive blocks\<close>

definition site_time :: "CostSolver \<Rightarrow> DECISION \<Rightarrow> nat \<Rightarrow> COST" where
  "site_time S d i = time_of (if d ! i = CPU then sorted_CPU S else sorted_PIM S) i"

text \<open>
  The list of the expensive blocks after \<open>k\<close> blocks: the keys are the times above the bound, each
  with a block that has this time. Blocks with the same time share one entry.
\<close>

definition tops_ok :: "CostSolver \<Rightarrow> DECISION \<Rightarrow> COST \<Rightarrow> nat \<Rightarrow> (COST \<times> nat) list \<Rightarrow> bool" where
  "tops_ok S d bound k tops \<longleftrightarrow> omap_ok tops \<and>
     (\<forall>c i. map_of tops c = Some i \<longrightarrow> i < k \<and> site_time S d i = c) \<and>
     dom (map_of tops) = {c. bound < c \<and> (\<exists>i<k. site_time S d i = c)}"

lemma tops_ok_step:
  assumes "tops_ok S d bound k tops"
  shows "tops_ok S d bound (Suc k)
    (if site_time S d k > bound then omap_update (site_time S d k) k tops else tops)"
proof (cases "site_time S d k > bound")
  case True
  with assms show ?thesis
    by (auto simp: tops_ok_def map_of_omap_update less_Suc_eq split: if_splits)
next
  case False
  with assms show ?thesis by (auto simp: tops_ok_def less_Suc_eq)
qed

lemma block_stats:
  assumes ok: "tables_ok S d s bb" and i: "i < block_count S" and e: "e = d \<or> e = s"
  obtains stats b where "vec_at e (int i) = Some (e ! i)" "site_at [sorted_CPU S, sorted_PIM S] (e ! i) = Some stats"
    "vec_at stats (int i) = Some b" "max_time b = Some (site_time S e i)"
proof -
  have S: "solver_ok S" and len: "i < length e" and site: "e ! i = CPU \<or> e ! i = PIM"
    using ok i e complete_nth [of e i] by (auto simp: tables_ok_def)
  then show ?thesis
    using that solver_blocks [OF S i] by (auto simp: site_time_def vec_at_int)
qed

lemma table_loop:
  assumes ok: "tables_ok S d s bb" and m: "sites_ok (scaDecision S)" and thr: "0 \<le> thr" and k: "k \<le> block_count S"
  shows "\<exists>st. foldM (table_step S d s bb C1 C2 thr) [0..<k] (empty_report (scaDecision S)) = Some st \<and>
    reports S s thr k st \<and> map row_bblid (table st) = [0..<k] \<and>
    (\<forall>row \<in> set (table st). row_Difference row = gap S (row_bblid row)) \<and>
    tops_ok S d (showThrehold * C1) k (topPIMProf st) \<and> tops_ok S s (showThrehold * C2) k (topSCA st)"
  using k
proof (induction k)
  case 0
  show ?case using m by (simp add: empty_report_def reports_def tops_ok_def)
next
  case (Suc k)
  then have k: "k < block_count S" by simp
  from Suc obtain st where st: "foldM (table_step S d s bb C1 C2 thr) [0..<k] (empty_report (scaDecision S)) = Some st"
    "reports S s thr k st" "map row_bblid (table st) = [0..<k]"
    "\<forall>row \<in> set (table st). row_Difference row = gap S (row_bblid row)"
    "tops_ok S d (showThrehold * C1) k (topPIMProf st)" "tops_ok S s (showThrehold * C2) k (topSCA st)" by auto
  have "sites_ok (sca_map st)" using st(2) by (simp add: reports_def)
  from report_row_spec [OF ok k this] obtain row m' where row: "report_row S d s bb k (sca_map st) = Some (row, m')"
    "row_bblid row = k" "row_Difference row = gap S k" "sites_ok m'" by metis
  let ?st = "st\<lparr>table := table st @ [row], sca_map := m',
       topPIMProf := (if site_time S d k > showThrehold * C1
          then omap_update (site_time S d k) k (topPIMProf st) else topPIMProf st),
       topSCA := (if site_time S s k > showThrehold * C2
          then omap_update (site_time S s k) k (topSCA st) else topSCA st)\<rparr>"
  obtain stats1 b1 where 1: "vec_at d (int k) = Some (d ! k)" "site_at [sorted_CPU S, sorted_PIM S] (d ! k) = Some stats1"
    "vec_at stats1 (int k) = Some b1" "max_time b1 = Some (site_time S d k)"
    using block_stats [OF ok k, of d] by auto
  obtain stats2 b2 where 2: "vec_at s (int k) = Some (s ! k)" "site_at [sorted_CPU S, sorted_PIM S] (s ! k) = Some stats2"
    "vec_at stats2 (int k) = Some b2" "max_time b2 = Some (site_time S s k)"
    using block_stats [OF ok k, of s] by auto
  have "table_step S d s bb C1 C2 thr k st = incorrect_step S d s bb thr k ?st"
    by (simp add: table_step_def Let_def row(1) 1 2)
  moreover have "reports S s thr k ?st" using st(2) row(4) by (simp add: reports_def)
  note incorrect_step_reports [OF ok k thr this]
  ultimately show ?case
    using st row tops_ok_step [OF st(5)] tops_ok_step [OF st(6)] by (auto simp: foldM_append)
qed

lemma show_top_spec:
  assumes ok: "tables_ok S d s bb" and tops: "tops_ok S e bound (block_count S) tops"
  shows "\<exists>rows. show_top S d s bb t tops = Some (rows, quotient ((\<Sum>c \<leftarrow> map fst tops. c) * 100) t) \<and>
    map show_bblid rows = map snd tops"
proof -
  have range: "i < block_count S" if "(c, i) \<in> set tops" for c i
    using tops that unfolding tops_ok_def by (metis map_of_is_SomeI omap_ok_distinct)
  have "\<exists>rows. foldM (show_step S d s bb t) es (out, a) = Some (out @ rows, a + (\<Sum>c \<leftarrow> map fst es. c)) \<and>
      map show_bblid rows = map snd es" if "set es \<subseteq> set tops" for es out a
    using that
  proof (induction es arbitrary: out a)
    case (Cons e es)
    obtain c i where e: "e = (c, i)" by (cases e)
    with Cons.prems range have i: "i < block_count S" by auto
    have S: "solver_ok S" using ok by (simp add: tables_ok_def)
    have at: "vec_at d (int i) = Some (d ! i)" "vec_at s (int i) = Some (s ! i)" "vec_at bb (int i) = Some (bb ! i)"
      using ok i by (simp_all add: tables_ok_def vec_at_int)
    obtain ds ss where str: "getCostSiteString (d ! i) = Some ds" "getCostSiteString (s ! i) = Some ss"
      using complete_nth [of d i] complete_nth [of s i] ok i by (auto simp: tables_ok_def)
    obtain row where "show_step S d s bb t e (out, a) = Some (out @ [row], a + c)" "show_bblid row = i"
      by (simp add: show_step_def e solver_blocks [OF S i] at str)
    moreover obtain rows where "foldM (show_step S d s bb t) es (out @ [row], a + c) =
        Some ((out @ [row]) @ rows, a + c + (\<Sum>c \<leftarrow> map fst es. c))" "map show_bblid rows = map snd es"
      using Cons.IH [of "out @ [row]" "a + c"] Cons.prems by auto
    ultimately show ?case by (intro exI [of _ "row # rows"]) (simp add: e add.assoc)
  qed simp
  from this [of tops "[]" 0] show ?thesis by (auto simp: show_top_def)
qed

lemma bbTimes_defined:
  assumes "\<forall>row \<in> set rows. row_ok (length d) row"
  shows "\<exists>bb. bbTimesFromSwitchInfo d rows = Some bb \<and> length bb = length d"
proof -
  have "\<exists>bb'. bbCountFunc row bb = Some bb' \<and> length bb' = length d" if "row \<in> set rows" "length bb = length d" for row bb
  proof -
    have "\<exists>bb'. foldM (\<lambda>(toidx, count) bb. do {
             old \<leftarrow> vec_at bb toidx;
             vec_set bb toidx (old + count) }) (toidxvec row) bb = Some bb' \<and> length bb' = length d"
    proof (rule foldM_defined [where P = "\<lambda>bb. length bb = length d"], goal_cases)
      case (2 e t)
      obtain x c where e: "e = (x, c)" by (cases e)
      have "0 \<le> x" "x < int (length t)" using assms that(1) 2 e by (fastforce simp: row_ok_def)+
      with 2 e show ?case by (simp add: vec_at_in_range vec_set_in_range)
    qed (use that in simp)
    with that show ?thesis by (auto simp: bbCountFunc_def)
  qed
  then show ?thesis unfolding bbTimesFromSwitchInfo_def by (intro foldM_defined) auto
qed

subsection \<open>PrintDecision\<close>

text \<open>What the tables need: a solved instance, two complete placements, printable sites.\<close>

definition decisions_ok :: "CostSolver \<Rightarrow> BBLID TrieNode \<Rightarrow> DECISION \<Rightarrow> DECISION \<Rightarrow> bool" where
  "decisions_ok S t d s \<longleftrightarrow> report_ok S t \<and> complete d \<and> complete s \<and> length d = block_count S \<and>
     length s = block_count S \<and> sites_ok (scaDecision S)"

lemma decisions_ok_D:
  assumes "decisions_ok S t d s"
  shows "decision_ok S d" "decision_ok S s" "solver_ok S" "\<not> stale S" "instance_ok S t (bbl_switch_count S)"
    "tries (bbl_data_reuse S) own_root = Some t" "sites_ok (scaDecision S)"
    "\<exists>bb. bbTimesFromSwitchInfo d (bbl_switch_count S) = Some bb \<and> tables_ok S d s bb"
proof -
  note a = assms [unfolded decisions_ok_def]
  show inst: "instance_ok S t (bbl_switch_count S)" and "solver_ok S" "\<not> stale S"
    "tries (bbl_data_reuse S) own_root = Some t" "sites_ok (scaDecision S)"
    using a by (auto simp: report_ok_def instance_ok_def solver_ok_def)
  show "decision_ok S d" "decision_ok S s" using a by (auto simp: decision_ok_def complete_def placed_def)
  have "\<forall>row \<in> set (bbl_switch_count S). row_ok (length d) row" using inst a by (simp add: instance_ok_def)
  from bbTimes_defined [OF this] show "\<exists>bb. bbTimesFromSwitchInfo d (bbl_switch_count S) = Some bb \<and> tables_ok S d s bb"
    using a \<open>solver_ok S\<close> by (auto simp: tables_ok_def)
qed

text \<open>The tables depend on the loop over the thresholds only.\<close>

lemma PrintDecision_scan:
  assumes ok: "decisions_ok S t d s" and bb: "bbTimesFromSwitchInfo d (bbl_switch_count S) = Some bb"
  shows "PrintDecision S d s False = do {
    st \<leftarrow> decision_scan S d s bb (cost_spec S d t (bbl_switch_count S)) (cost_spec S s t (bbl_switch_count S));
    (top1, show1) \<leftarrow> show_top S d s bb (cost_spec S d t (bbl_switch_count S)) (topPIMProf st);
    (top2, show2) \<leftarrow> show_top S d s bb (cost_spec S s t (bbl_switch_count S)) (topSCA st);
    Some (Inr \<lparr>decision_table = table st, top10PIMProfBB = top1, ShowPIMProfTime = show1,
         top10SCABB = top2, ShowSCATime = show2, IncorrectCPUDecision = IncorrectCPU st,
         IncorrectPIMDecision = IncorrectPIM st,
         OptimizePotential = quotient (potential st) (elapsed_spec S d CPU + elapsed_spec S d PIM),
         ReuseCostLog = log_spec S s [] t\<rparr>, S\<lparr>scaDecision := sca_map st\<rparr>) }"
proof -
  note D = decisions_ok_D [OF ok]
  have len: "length d = block_count S" "length s = block_count S" using ok by (simp_all add: decisions_ok_def)
  have t: "trie_ok [] t" "\<not> isLeaf t" "keys_in (length s) t" using D(5) len by (simp_all add: instance_ok_def)
  show ?thesis
    using D(4,6) by (simp add: PrintDecision_def PrintDecision_tables_def Cost_spec [OF D(5)] D(1,2) bb
        ElapsedTime_spec [OF D(3) len(1)] ReuseCostPrint_spec [OF D(3) t] split_def)
qed

lemma decision_scan_reports:
  assumes ok: "tables_ok S d s bb" and m: "sites_ok (scaDecision S)" and i: "i < block_count S" "wrong S s 0 i"
  shows "\<exists>st k. decision_scan S d s bb C1 C2 = Some st \<and> reports S s (10000000 / 10 ^ k) (block_count S) st \<and>
    (\<exists>i < block_count S. wrong S s (10000000 / 10 ^ k) i) \<and>
    (\<forall>j < k. \<forall>i < block_count S. \<not> wrong S s (10000000 / 10 ^ j) i) \<and>
    map row_bblid (table st) = [0..<block_count S] \<and>
    tops_ok S d (showThrehold * C1) (block_count S) (topPIMProf st) \<and>
    tops_ok S s (showThrehold * C2) (block_count S) (topSCA st)"
proof -
  obtain st where st: "foldM (table_step S d s bb C1 C2 10000000) [0..<block_count S] (empty_report (scaDecision S)) = Some st"
    "reports S s 10000000 (block_count S) st" "map row_bblid (table st) = [0..<block_count S]"
    "tops_ok S d (showThrehold * C1) (block_count S) (topPIMProf st)" "tops_ok S s (showThrehold * C2) (block_count S) (topSCA st)"
    using table_loop [OF ok m, of 10000000 "block_count S" C1 C2] by auto
  have pos: "0 < \<bar>gap S i\<bar>" using wrong_gap [OF _ i(2)] by simp
  obtain K where K: "10000000 / \<bar>gap S i\<bar> < 10 ^ K" using real_arch_pow [of 10 "10000000 / \<bar>gap S i\<bar>"] by auto
  then have "10000000 / 10 ^ K < \<bar>gap S i\<bar>" using pos by (simp add: field_simps)
  moreover have "0 \<le> (10000000 :: real) / 10 ^ K" by simp
  ultimately have "wrong S s (10000000 / 10 ^ K) i" using i(2) by (auto simp: wrong_def cpu_wrong_def pim_wrong_def)
  with i(1) have "\<exists>i < block_count S. wrong S s (10000000 / 10 ^ K) i" by blast
  from lower_threshold_reports [OF ok st(2) _ this] obtain k st' where
    "lower_threshold S d s bb 10000000 st = Some st'" "reports S s (10000000 / 10 ^ k) (block_count S) st'"
    "\<exists>i < block_count S. wrong S s (10000000 / 10 ^ k) i"
    "\<forall>j < k. \<forall>i < block_count S. \<not> wrong S s (10000000 / 10 ^ j) i"
    "table st' = table st" "topPIMProf st' = topPIMProf st" "topSCA st' = topSCA st" by auto
  with st show ?thesis
    by (intro exI [of _ st'] exI [of _ k]) (simp add: decision_scan_def flip: block_count_def)
qed

lemma PrintDecision_reports_spec:
  assumes ok: "decisions_ok S t d s" and i: "i < block_count S" "wrong S s 0 i"
  shows "\<exists>r S' k. PrintDecision S d s False = Some (Inr r, S') \<and>
    map row_bblid (decision_table r) = [0..<block_count S] \<and>
    map row_bblid (IncorrectCPUDecision r) = filter (cpu_wrong S s (10000000 / 10 ^ k)) [0..<block_count S] \<and>
    map row_bblid (IncorrectPIMDecision r) = filter (pim_wrong S s (10000000 / 10 ^ k)) [0..<block_count S] \<and>
    (\<exists>i < block_count S. wrong S s (10000000 / 10 ^ k) i) \<and>
    (\<forall>j < k. \<forall>i < block_count S. \<not> wrong S s (10000000 / 10 ^ j) i) \<and>
    (\<forall>i < block_count S. site_time S d i > showThrehold * cost_spec S d t (bbl_switch_count S) \<longrightarrow>
       (\<exists>j \<in> set (map show_bblid (top10PIMProfBB r)). site_time S d j = site_time S d i)) \<and>
    OptimizePotential r = quotient (\<Sum>i<block_count S. if wrong S s (10000000 / 10 ^ k) i then \<bar>gap S i\<bar> else 0)
      (elapsed_spec S d CPU + elapsed_spec S d PIM) \<and>
    ReuseCostLog r = log_spec S s [] t"
proof -
  let ?C1 = "cost_spec S d t (bbl_switch_count S)" and ?C2 = "cost_spec S s t (bbl_switch_count S)"
  note D = decisions_ok_D [OF ok]
  obtain bb where bb: "bbTimesFromSwitchInfo d (bbl_switch_count S) = Some bb" "tables_ok S d s bb" using D(8) by blast
  obtain st k where st: "decision_scan S d s bb ?C1 ?C2 = Some st" "reports S s (10000000 / 10 ^ k) (block_count S) st"
    "\<exists>i < block_count S. wrong S s (10000000 / 10 ^ k) i"
    "\<forall>j < k. \<forall>i < block_count S. \<not> wrong S s (10000000 / 10 ^ j) i"
    "map row_bblid (table st) = [0..<block_count S]"
    "tops_ok S d (showThrehold * ?C1) (block_count S) (topPIMProf st)"
    "tops_ok S s (showThrehold * ?C2) (block_count S) (topSCA st)"
    using decision_scan_reports [OF bb(2) D(7) i] by metis
  from show_top_spec [OF bb(2) st(6), of ?C1] obtain rows1 where rows1:
    "show_top S d s bb ?C1 (topPIMProf st) = Some (rows1, quotient ((\<Sum>c \<leftarrow> map fst (topPIMProf st). c) * 100) ?C1)"
    "map show_bblid rows1 = map snd (topPIMProf st)" by blast
  from show_top_spec [OF bb(2) st(7), of ?C2] obtain rows2 where rows2:
    "show_top S d s bb ?C2 (topSCA st) = Some (rows2, quotient ((\<Sum>c \<leftarrow> map fst (topSCA st). c) * 100) ?C2)" by blast
  have "\<exists>j \<in> set (map snd (topPIMProf st)). site_time S d j = site_time S d i"
    if "i < block_count S" "site_time S d i > showThrehold * ?C1" for i
  proof -
    have "site_time S d i \<in> dom (map_of (topPIMProf st))" using that st(6) by (auto simp: tops_ok_def)
    then obtain j where j: "map_of (topPIMProf st) (site_time S d i) = Some j" by blast
    then have "site_time S d j = site_time S d i" using st(6) by (auto simp: tops_ok_def)
    with map_of_SomeD [OF j] show ?thesis by force
  qed
  then have tops: "\<forall>i < block_count S. site_time S d i > showThrehold * ?C1 \<longrightarrow>
      (\<exists>j \<in> set (map show_bblid rows1). site_time S d j = site_time S d i)" unfolding rows1(2) by blast
  let ?r = "\<lparr>decision_table = table st, top10PIMProfBB = rows1,
      ShowPIMProfTime = quotient ((\<Sum>c \<leftarrow> map fst (topPIMProf st). c) * 100) ?C1, top10SCABB = rows2,
      ShowSCATime = quotient ((\<Sum>c \<leftarrow> map fst (topSCA st). c) * 100) ?C2,
      IncorrectCPUDecision = IncorrectCPU st, IncorrectPIMDecision = IncorrectPIM st,
      OptimizePotential = quotient (potential st) (elapsed_spec S d CPU + elapsed_spec S d PIM),
      ReuseCostLog = log_spec S s [] t\<rparr>"
  have "PrintDecision S d s False = Some (Inr ?r, S\<lparr>scaDecision := sca_map st\<rparr>)"
    by (simp add: PrintDecision_scan [OF ok bb(1)] st(1) rows1(1) rows2)
  with st(2-5) tops show ?thesis
    unfolding reports_def by (intro exI [of _ ?r] exI [of _ "S\<lparr>scaDecision := sca_map st\<rparr>"] exI [of _ k]) simp
qed

lemma PrintDecision_hangs:
  assumes ok: "decisions_ok S t d s" and none: "\<forall>i < block_count S. \<not> wrong S s 0 i"
  shows "PrintDecision S d s False = None"
proof -
  note D = decisions_ok_D [OF ok]
  obtain bb where bb: "bbTimesFromSwitchInfo d (bbl_switch_count S) = Some bb" "tables_ok S d s bb" using D(8) by blast
  have "decision_scan S d s bb C1 C2 = None" for C1 C2
  proof -
    obtain st where st: "foldM (table_step S d s bb C1 C2 10000000) [0..<block_count S] (empty_report (scaDecision S)) = Some st"
      "reports S s 10000000 (block_count S) st"
      using table_loop [OF bb(2) D(7), of 10000000 "block_count S" C1 C2] by auto
    have "lower_threshold S d s bb 10000000 st = None"
      using lower_threshold_hangs [OF bb(2) st(2)] none by (cases "lower_threshold S d s bb 10000000 st") auto
    with st(1) show ?thesis by (simp add: decision_scan_def flip: block_count_def)
  qed
  then show ?thesis by (simp add: PrintDecision_scan [OF ok bb(1)])
qed

text \<open>Outside the mode \<open>REUSE\<close> the second placement is empty: its cost reads past its end.\<close>

lemma ElapsedTime_short: "solver_ok S \<Longrightarrow> 0 < block_count S \<Longrightarrow> ElapsedTime S [] = None"
  by (cases "sorted_CPU S") (simp_all add: solver_ok_def ElapsedTime_def block_count_def upt_conv_Cons del: upt_Suc)

lemma PrintDecision_empty:
  assumes "report_ok S t" and "0 < block_count S"
  shows "PrintDecision S d [] False = None"
proof -
  have S: "solver_ok S" "\<not> stale S" using report_ok_fresh [OF assms(1)] by simp_all
  then have "Cost S [] r rows = None" for r rows using ElapsedTime_short [OF S(1) assms(2)] by (simp add: Cost_def)
  then show ?thesis using S by (simp add: PrintDecision_def PrintDecision_tables_def split: bind_splits)
qed

end
