(* ===== verification/Murmur.thy ===== *)
theory Murmur
  imports PIM_Common
begin

text \<open>
  The hash the injection passes name a block by (\<open>LLVMAnalysis/MurmurHash3.cpp\<close>). The functions
  read their key through a pointer; a read outside the key is \<open>None\<close>. Words are read in little
  endian order. The length is a non-negative \<open>int\<close> of the code. The lemmas show that every step
  is injective, from which texts of one length that differ in a single group of bytes never get
  the same hash.
\<close>

type_synonym u8 = "8 word"

subsection \<open>The code\<close>

definition rotl32 :: "u32 \<Rightarrow> nat \<Rightarrow> u32" where
  "rotl32 x r = push_bit r x OR drop_bit (32 - r) x"

definition rotl64 :: "u64 \<Rightarrow> nat \<Rightarrow> u64" where
  "rotl64 x r = push_bit r x OR drop_bit (64 - r) x"

text \<open>\<open>n\<close> bytes from address \<open>a\<close> on, as one word.\<close>

fun load_le :: "u8 list \<Rightarrow> int \<Rightarrow> nat \<Rightarrow> 'w::len word option" where
  "load_le data a 0 = Some 0"
| "load_le data a (Suc n) = do {
     b \<leftarrow> vec_at data a;
     w \<leftarrow> load_le data (a + 1) n;
     Some (ucast b XOR push_bit 8 w) }"

definition getblock32 :: "u8 list \<Rightarrow> int \<Rightarrow> int \<Rightarrow> u32 option" where
  "getblock32 data blocks i = load_le data (blocks + 4 * i) 4"

definition getblock64 :: "u8 list \<Rightarrow> int \<Rightarrow> int \<Rightarrow> u64 option" where
  "getblock64 data blocks i = load_le data (blocks + 8 * i) 8"

definition fmix32 :: "u32 \<Rightarrow> u32" where
  "fmix32 h =
     (let h = h XOR drop_bit 16 h; h = h * 0x85ebca6b; h = h XOR drop_bit 13 h;
          h = h * 0xc2b2ae35; h = h XOR drop_bit 16 h in h)"

definition fmix64 :: "u64 \<Rightarrow> u64" where
  "fmix64 k =
     (let k = k XOR drop_bit 33 k; k = k * 0xff51afd7ed558ccd; k = k XOR drop_bit 33 k;
          k = k * 0xc4ceb9fe1a85ec53; k = k XOR drop_bit 33 k in k)"

text \<open>
  A run of the cases of a \<open>switch\<close> that fall through: \<open>n\<close> bytes from \<open>tail\<close> on, the last one
  first, each shifted to its place.
\<close>

definition tail_xor :: "u8 list \<Rightarrow> int \<Rightarrow> nat \<Rightarrow> 'w::len word \<Rightarrow> 'w word option" where
  "tail_xor data tail n k =
     foldM (\<lambda>i k. do { b \<leftarrow> vec_at data (tail + int i); Some (k XOR push_bit (8 * i) (ucast b)) }) (rev [0..<n]) k"

definition x86_32_k :: "u32 \<Rightarrow> u32" where
  "x86_32_k k1 = rotl32 (k1 * 0xcc9e2d51) 15 * 0x1b873593"

definition x86_32_mix :: "u32 \<Rightarrow> u32 \<Rightarrow> u32" where
  "x86_32_mix k1 h1 = rotl32 (h1 XOR x86_32_k k1) 13 * 5 + 0xe6546b64"

definition MurmurHash3_x86_32 :: "u8 list \<Rightarrow> nat \<Rightarrow> u32 \<Rightarrow> u32 option" where
  "MurmurHash3_x86_32 data len seed = do {
     let nblocks = len div 4;
     h1 \<leftarrow> foldM (\<lambda>i h1. do { k1 \<leftarrow> getblock32 data (4 * int nblocks) i; Some (x86_32_mix k1 h1) })
         [- int nblocks..- 1] seed;
     let tail = 4 * int nblocks;
     h1 \<leftarrow> (if len mod 4 \<ge> 1
            then do { k1 \<leftarrow> tail_xor data tail (len mod 4) 0; Some (h1 XOR x86_32_k k1) }
            else Some h1);
     Some (fmix32 (h1 XOR of_nat len)) }"

definition x86_128_k1 :: "u32 \<Rightarrow> u32" where "x86_128_k1 k1 = rotl32 (k1 * 0x239b961b) 15 * 0xab0e9789"
definition x86_128_k2 :: "u32 \<Rightarrow> u32" where "x86_128_k2 k2 = rotl32 (k2 * 0xab0e9789) 16 * 0x38b34ae5"
definition x86_128_k3 :: "u32 \<Rightarrow> u32" where "x86_128_k3 k3 = rotl32 (k3 * 0x38b34ae5) 17 * 0xa1e38b93"
definition x86_128_k4 :: "u32 \<Rightarrow> u32" where "x86_128_k4 k4 = rotl32 (k4 * 0xa1e38b93) 18 * 0x239b961b"

definition x86_128_mix :: "u32 \<times> u32 \<times> u32 \<times> u32 \<Rightarrow> u32 \<times> u32 \<times> u32 \<times> u32 \<Rightarrow> u32 \<times> u32 \<times> u32 \<times> u32" where
  "x86_128_mix = (\<lambda>(k1, k2, k3, k4) (h1, h2, h3, h4).
     let h1 = h1 XOR x86_128_k1 k1; h1 = rotl32 h1 19; h1 = h1 + h2; h1 = h1 * 5 + 0x561ccd1b;
         h2 = h2 XOR x86_128_k2 k2; h2 = rotl32 h2 17; h2 = h2 + h3; h2 = h2 * 5 + 0x0bcaa747;
         h3 = h3 XOR x86_128_k3 k3; h3 = rotl32 h3 15; h3 = h3 + h4; h3 = h3 * 5 + 0x96cd1c35;
         h4 = h4 XOR x86_128_k4 k4; h4 = rotl32 h4 13; h4 = h4 + h1; h4 = h4 * 5 + 0x32ac3b17
     in (h1, h2, h3, h4))"

definition x86_128_final :: "nat \<Rightarrow> u32 \<times> u32 \<times> u32 \<times> u32 \<Rightarrow> u32 \<times> u32 \<times> u32 \<times> u32" where
  "x86_128_final len = (\<lambda>(h1, h2, h3, h4).
     let h1 = h1 XOR of_nat len; h2 = h2 XOR of_nat len; h3 = h3 XOR of_nat len; h4 = h4 XOR of_nat len;
         h1 = h1 + h2; h1 = h1 + h3; h1 = h1 + h4;
         h2 = h2 + h1; h3 = h3 + h1; h4 = h4 + h1;
         h1 = fmix32 h1; h2 = fmix32 h2; h3 = fmix32 h3; h4 = fmix32 h4;
         h1 = h1 + h2; h1 = h1 + h3; h1 = h1 + h4;
         h2 = h2 + h1; h3 = h3 + h1; h4 = h4 + h1
     in (h1, h2, h3, h4))"

text \<open>One part of the tail: \<open>n\<close> bytes from \<open>a\<close> on, if there are any.\<close>

definition tail_part :: "u8 list \<Rightarrow> int \<Rightarrow> nat \<Rightarrow> ('w::len word \<Rightarrow> 'w word) \<Rightarrow> 'w word \<Rightarrow> 'w word option" where
  "tail_part data a n f h =
     (if n = 0 then Some h else do { k \<leftarrow> tail_xor data a n 0; Some (h XOR f k) })"

definition MurmurHash3_x86_128 :: "u8 list \<Rightarrow> nat \<Rightarrow> u32 \<Rightarrow> (u32 \<times> u32 \<times> u32 \<times> u32) option" where
  "MurmurHash3_x86_128 data len seed = do {
     let nblocks = len div 16; let blocks = 16 * int nblocks;
     (h1, h2, h3, h4) \<leftarrow> foldM (\<lambda>i h. do {
         k1 \<leftarrow> getblock32 data blocks (i * 4 + 0);
         k2 \<leftarrow> getblock32 data blocks (i * 4 + 1);
         k3 \<leftarrow> getblock32 data blocks (i * 4 + 2);
         k4 \<leftarrow> getblock32 data blocks (i * 4 + 3);
         Some (x86_128_mix (k1, k2, k3, k4) h) }) [- int nblocks..- 1] (seed, seed, seed, seed);
     let tail = 16 * int nblocks; let r = len mod 16;
     h4 \<leftarrow> tail_part data (tail + 12) (r - 12) x86_128_k4 h4;
     h3 \<leftarrow> tail_part data (tail + 8) (min r 12 - 8) x86_128_k3 h3;
     h2 \<leftarrow> tail_part data (tail + 4) (min r 8 - 4) x86_128_k2 h2;
     h1 \<leftarrow> tail_part data tail (min r 4) x86_128_k1 h1;
     Some (x86_128_final len (h1, h2, h3, h4)) }"

definition x64_k1 :: "u64 \<Rightarrow> u64" where "x64_k1 k1 = rotl64 (k1 * 0x87c37b91114253d5) 31 * 0x4cf5ad432745937f"
definition x64_k2 :: "u64 \<Rightarrow> u64" where "x64_k2 k2 = rotl64 (k2 * 0x4cf5ad432745937f) 33 * 0x87c37b91114253d5"

definition x64_mix :: "u64 \<times> u64 \<Rightarrow> u64 \<times> u64 \<Rightarrow> u64 \<times> u64" where
  "x64_mix = (\<lambda>(k1, k2) (h1, h2).
     let h1 = h1 XOR x64_k1 k1; h1 = rotl64 h1 27; h1 = h1 + h2; h1 = h1 * 5 + 0x52dce729;
         h2 = h2 XOR x64_k2 k2; h2 = rotl64 h2 31; h2 = h2 + h1; h2 = h2 * 5 + 0x38495ab5
     in (h1, h2))"

definition x64_final :: "nat \<Rightarrow> u64 \<times> u64 \<Rightarrow> u64 \<times> u64" where
  "x64_final len = (\<lambda>(h1, h2).
     let h1 = h1 XOR of_nat len; h2 = h2 XOR of_nat len;
         h1 = h1 + h2; h2 = h2 + h1;
         h1 = fmix64 h1; h2 = fmix64 h2;
         h1 = h1 + h2; h2 = h2 + h1
     in (h1, h2))"

definition MurmurHash3_x64_128 :: "u8 list \<Rightarrow> nat \<Rightarrow> u32 \<Rightarrow> (u64 \<times> u64) option" where
  "MurmurHash3_x64_128 data len seed = do {
     let nblocks = len div 16;
     (h1, h2) \<leftarrow> foldM (\<lambda>i h. do {
         k1 \<leftarrow> getblock64 data 0 (int i * 2 + 0);
         k2 \<leftarrow> getblock64 data 0 (int i * 2 + 1);
         Some (x64_mix (k1, k2) h) }) [0..<nblocks] (ucast seed, ucast seed);
     let tail = 16 * int nblocks; let r = len mod 16;
     h2 \<leftarrow> tail_part data (tail + 8) (r - 8) x64_k2 h2;
     h1 \<leftarrow> tail_part data tail (min r 8) x64_k1 h1;
     Some (x64_final len (h1, h2)) }"

subsection \<open>Every step is injective\<close>

named_theorems hash_inj

lemma mult_odd_cancel:
  fixes x y c :: "'a::len word"
  assumes "odd c"
  shows "x * c = y * c \<longleftrightarrow> x = y"
proof
  assume "x * c = y * c"
  then have "(x - y) * c = 0" by (simp add: left_diff_distrib)
  then have "uint ((x - y) * c) = 0" by simp
  then have "(uint (x - y) * uint c) mod 2 ^ LENGTH('a) = 0" by (simp add: uint_word_ariths)
  then have "2 ^ LENGTH('a) dvd uint (x - y) * uint c" by (simp add: dvd_eq_mod_eq_0)
  moreover have "coprime (2 ^ LENGTH('a)) (uint c)"
  proof -
    have "bit (uint c) 0" by (subst bit_uint_iff) (simp add: bit_0 assms)
    then show ?thesis by (simp add: bit_0 coprime_left_2_iff_odd)
  qed
  ultimately have "2 ^ LENGTH('a) dvd uint (x - y)" by (simp add: coprime_dvd_mult_left_iff)
  then have "uint (x - y) = 0" using zdvd_not_zless [of "uint (x - y)" "2 ^ LENGTH('a)"] unsigned_less [of "x - y"]
    by (metis order_le_less uint_ge_0)
  then show "x = y" by (metis unsigned_eq_0_iff right_minus_eq)
qed simp

lemma xorshift_cancel:
  fixes x y :: "'a::len word"
  assumes "0 < n"
  shows "x XOR drop_bit n x = y XOR drop_bit n y \<longleftrightarrow> x = y"
proof
  assume eq: "x XOR drop_bit n x = y XOR drop_bit n y"
  have "bit x i = bit y i" for i
  proof (induction "LENGTH('a) - i" arbitrary: i rule: less_induct)
    case less
    show ?case
    proof (cases "i < LENGTH('a)")
      case True
      then have "bit x (i + n) = bit y (i + n)" using less [of "i + n"] assms by simp
      moreover have "bit (x XOR drop_bit n x) i = bit (y XOR drop_bit n y) i" using eq by simp
      ultimately show ?thesis by (auto simp: bit_simps add.commute)
    next
      case False
      then show ?thesis using bit_imp_le_length by blast
    qed
  qed
  then show "x = y" by (rule bit_word_eqI)
qed simp

lemma xor_cancel: fixes x y k :: "'a::len word" shows "x XOR k = y XOR k \<longleftrightarrow> x = y"
  by (metis xor.assoc xor_self_eq xor.right_neutral)

lemma xor_cancel_left: fixes x y k :: "'a::len word" shows "k XOR x = k XOR y \<longleftrightarrow> x = y"
  by (metis xor.assoc xor_self_eq xor.left_neutral)

lemma rot_cancel:
  fixes x y :: "'a::len word"
  assumes "r \<le> LENGTH('a)" and "push_bit r x OR drop_bit (LENGTH('a) - r) x = push_bit r y OR drop_bit (LENGTH('a) - r) y"
  shows "x = y"
proof (rule bit_word_eqI)
  fix i assume i: "i < LENGTH('a)"
  let ?j = "if i < LENGTH('a) - r then i + r else i - (LENGTH('a) - r)"
  have z: "bit (push_bit r z OR drop_bit (LENGTH('a) - r) z) ?j = bit z i" for z :: "'a word"
    using i assms(1) by (auto simp: bit_simps dest: bit_imp_le_length)
  show "bit x i = bit y i" using z[of x] z[of y] assms(2) by simp
qed

lemma times5_cancel [hash_inj]: "x * 5 = y * 5 \<longleftrightarrow> x = y" for x y :: "'a::len word"
  by (rule mult_odd_cancel) simp

lemma rotl32_eq [hash_inj]: "r \<le> 32 \<Longrightarrow> rotl32 x r = rotl32 y r \<longleftrightarrow> x = y"
  using rot_cancel [of r x y] by (auto simp: rotl32_def)

lemma rotl64_eq [hash_inj]: "r \<le> 64 \<Longrightarrow> rotl64 x r = rotl64 y r \<longleftrightarrow> x = y"
  using rot_cancel [of r x y] by (auto simp: rotl64_def)

lemmas cancel_rules [hash_inj] = mult_odd_cancel xorshift_cancel xor_cancel xor_cancel_left

lemma fmix_eq [hash_inj]: "fmix32 h = fmix32 h' \<longleftrightarrow> h = h'" "fmix64 k = fmix64 k' \<longleftrightarrow> k = k'"
  by (simp_all add: fmix32_def fmix64_def Let_def hash_inj)

lemma key_eq [hash_inj]:
  "x86_32_k k = x86_32_k k' \<longleftrightarrow> k = k'" "x86_128_k1 k = x86_128_k1 k' \<longleftrightarrow> k = k'"
  "x86_128_k2 k = x86_128_k2 k' \<longleftrightarrow> k = k'" "x86_128_k3 k = x86_128_k3 k' \<longleftrightarrow> k = k'"
  "x86_128_k4 k = x86_128_k4 k' \<longleftrightarrow> k = k'" "x64_k1 l = x64_k1 l' \<longleftrightarrow> l = l'" "x64_k2 l = x64_k2 l' \<longleftrightarrow> l = l'"
  by (simp_all add: x86_32_k_def x86_128_k1_def x86_128_k2_def x86_128_k3_def x86_128_k4_def x64_k1_def
      x64_k2_def hash_inj)

text \<open>The shape shared by the block steps of the two 128-bit versions.\<close>

definition mix32 :: "nat \<Rightarrow> u32 \<Rightarrow> u32 \<Rightarrow> u32 \<Rightarrow> u32 \<Rightarrow> u32" where
  "mix32 r c k g h = (rotl32 (h XOR k) r + g) * 5 + c"

definition mix64 :: "nat \<Rightarrow> u64 \<Rightarrow> u64 \<Rightarrow> u64 \<Rightarrow> u64 \<Rightarrow> u64" where
  "mix64 r c k g h = (rotl64 (h XOR k) r + g) * 5 + c"

lemma mix_eq:
  "r \<le> 32 \<Longrightarrow> mix32 r c k g h = mix32 r c k g h' \<longleftrightarrow> h = h'" "r \<le> 32 \<Longrightarrow> mix32 r c k g h = mix32 r c k' g h \<longleftrightarrow> k = k'"
  "n \<le> 64 \<Longrightarrow> mix64 n d l f i = mix64 n d l f i' \<longleftrightarrow> i = i'" "n \<le> 64 \<Longrightarrow> mix64 n d l f i = mix64 n d l' f i \<longleftrightarrow> l = l'"
  unfolding mix32_def mix64_def by (simp_all only: add_right_cancel times5_cancel rotl32_eq rotl64_eq
      xor_cancel xor_cancel_left)

lemma x64_mix_eq:
  "x64_mix (k1, k2) (h1, h2) =
     (let a = mix64 27 0x52dce729 (x64_k1 k1) h2 h1 in (a, mix64 31 0x38495ab5 (x64_k2 k2) a h2))"
  by (simp only: x64_mix_def mix64_def Let_def prod.case)

lemma x86_128_mix_eq:
  "x86_128_mix (k1, k2, k3, k4) (h1, h2, h3, h4) =
     (let a = mix32 19 0x561ccd1b (x86_128_k1 k1) h2 h1
      in (a, mix32 17 0x0bcaa747 (x86_128_k2 k2) h3 h2, mix32 15 0x96cd1c35 (x86_128_k3 k3) h4 h3,
          mix32 13 0x32ac3b17 (x86_128_k4 k4) a h4))"
  by (simp only: x86_128_mix_def mix32_def Let_def prod.case)

lemma x86_32_mix_inj [hash_inj]:
  "x86_32_mix k h = x86_32_mix k h' \<longleftrightarrow> h = h'" "x86_32_mix k h = x86_32_mix k' h \<longleftrightarrow> k = k'"
  unfolding x86_32_mix_def by (simp_all only: add_right_cancel times5_cancel rotl32_eq
      xor_cancel xor_cancel_left key_eq)

lemma x64_mix_inj [hash_inj]:
  "x64_mix k s = x64_mix k s' \<longleftrightarrow> s = s'" "x64_mix k s = x64_mix k' s \<longleftrightarrow> k = k'"
proof -
  show "x64_mix k s = x64_mix k s' \<longleftrightarrow> s = s'"
  proof
    assume eq: "x64_mix k s = x64_mix k s'"
    obtain k1 k2 h1 h2 g1 g2 where e: "k = (k1, k2)" "s = (h1, h2)" "s' = (g1, g2)" by (cases k; cases s; cases s')
    have "h2 = g2" using eq unfolding e x64_mix_eq Let_def prod.inject by (elim conjE) (simp add: mix_eq)
    then show "s = s'" using eq unfolding e x64_mix_eq Let_def prod.inject by (elim conjE) (simp add: mix_eq)
  qed simp
  show "x64_mix k s = x64_mix k' s \<longleftrightarrow> k = k'"
  proof
    assume eq: "x64_mix k s = x64_mix k' s"
    obtain k1 k2 h1 h2 l1 l2 where e: "k = (k1, k2)" "s = (h1, h2)" "k' = (l1, l2)" by (cases k; cases s; cases k')
    show "k = k'" using eq unfolding e x64_mix_eq Let_def by (auto simp: mix_eq key_eq)
  qed simp
qed

lemma x86_128_mix_inj [hash_inj]:
  "x86_128_mix k s = x86_128_mix k s' \<longleftrightarrow> s = s'" "x86_128_mix k s = x86_128_mix k' s \<longleftrightarrow> k = k'"
proof -
  show "x86_128_mix k s = x86_128_mix k s' \<longleftrightarrow> s = s'"
  proof
    assume eq: "x86_128_mix k s = x86_128_mix k s'"
    obtain k1 k2 k3 k4 h1 h2 h3 h4 g1 g2 g3 g4 where e: "k = (k1, k2, k3, k4)" "s = (h1, h2, h3, h4)"
      "s' = (g1, g2, g3, g4)" by (cases k; cases s; cases s')
    have 4: "h4 = g4" using eq unfolding e x86_128_mix_eq Let_def prod.inject by (elim conjE) (simp add: mix_eq)
    have 3: "h3 = g3" using eq unfolding e x86_128_mix_eq Let_def prod.inject 4 by (elim conjE) (simp add: mix_eq)
    have 2: "h2 = g2" using eq unfolding e x86_128_mix_eq Let_def prod.inject 3 by (elim conjE) (simp add: mix_eq)
    have 1: "h1 = g1" using eq unfolding e x86_128_mix_eq Let_def prod.inject 2 by (elim conjE) (simp add: mix_eq)
    show "s = s'" unfolding e 1 2 3 4 ..
  qed simp
  show "x86_128_mix k s = x86_128_mix k' s \<longleftrightarrow> k = k'"
  proof
    assume eq: "x86_128_mix k s = x86_128_mix k' s"
    obtain k1 k2 k3 k4 h1 h2 h3 h4 l1 l2 l3 l4 where e: "k = (k1, k2, k3, k4)" "s = (h1, h2, h3, h4)"
      "k' = (l1, l2, l3, l4)" by (cases k; cases s; cases k')
    show "k = k'" using eq unfolding e x86_128_mix_eq Let_def by (auto simp: mix_eq key_eq)
  qed simp
qed

lemma x64_final_inj [hash_inj]: "x64_final n t = x64_final n t' \<longleftrightarrow> t = t'"
proof
  assume eq: "x64_final n t = x64_final n t'"
  obtain a b c d where e: "t = (a, b)" "t' = (c, d)" by (cases t; cases t')
  show "t = t'" using eq unfolding e x64_final_def Let_def prod.case prod.inject
    by (metis add_left_cancel add_right_cancel fmix_eq(2) xor_cancel)
qed simp

lemma x86_128_final_inj [hash_inj]: "x86_128_final n s = x86_128_final n s' \<longleftrightarrow> s = s'"
proof
  assume eq: "x86_128_final n s = x86_128_final n s'"
  have add: "a + b + c + d = a' + b' + c' + d' \<and> b + (a + b + c + d) = b' + (a' + b' + c' + d') \<and>
      c + (a + b + c + d) = c' + (a' + b' + c' + d') \<and> d + (a + b + c + d) = d' + (a' + b' + c' + d') \<longleftrightarrow>
      a = a' \<and> b = b' \<and> c = c' \<and> d = d'" for a b c d a' b' c' d' :: u32
    by (metis add_right_cancel)
  obtain a b c d a' b' c' d' where e: "s = (a, b, c, d)" "s' = (a', b', c', d')" by (cases s; cases s')
  show "s = s'" using eq unfolding e x86_128_final_def Let_def prod.case prod.inject
    by (simp only: add fmix_eq xor_cancel)
qed simp

subsection \<open>Bytes and words\<close>

fun le :: "u8 list \<Rightarrow> 'w::len word" where
  "le [] = 0"
| "le (b # bs) = ucast b XOR push_bit 8 (le bs)"

lemma bit_le:
  "bit (le bs :: 'w::len word) i \<longleftrightarrow> i < LENGTH('w) \<and> i div 8 < length bs \<and> bit (bs ! (i div 8)) (i mod 8)"
proof (induction bs arbitrary: i)
  case Nil
  then show ?case by simp
next
  case (Cons b bs)
  show ?case
  proof (cases "i < 8")
    case True
    then show ?thesis by (auto simp: bit_simps)
  next
    case False
    then obtain j where j: "i = j + 8" by (metis add.commute le_Suc_ex not_less)
    have "\<not> bit b i" using False bit_imp_le_length [of b i] by auto
    then show ?thesis using Cons.IH [of j] unfolding j by (auto simp: bit_simps)
  qed
qed

lemma le_inj:
  assumes len: "length bs = length cs" "8 * length bs \<le> LENGTH('w::len)" and eq: "(le bs :: 'w word) = le cs"
  shows "bs = cs"
proof (rule nth_equalityI)
  fix k assume k: "k < length bs"
  show "bs ! k = cs ! k"
  proof (rule bit_word_eqI)
    fix m assume m: "m < LENGTH(8)"
    then have "8 * k + m < LENGTH('w)" using k len(2) by simp
    moreover have "bit (le bs :: 'w word) (8 * k + m) = bit (le cs :: 'w word) (8 * k + m)" using eq by simp
    ultimately show "bit (bs ! k) m = bit (cs ! k) m" using k m len(1) by (simp add: bit_le)
  qed
qed (rule len(1))

lemma load_le_spec:
  "a + n \<le> length data \<Longrightarrow> load_le data (int a) n = Some (le (take n (drop a data)) :: 'w::len word)"
proof (induction n arbitrary: a)
  case (Suc n)
  have "load_le data (int (Suc a)) n = Some (le (take n (drop (Suc a) data)) :: 'w word)"
    using Suc.IH [of "Suc a"] Suc.prems by simp
  moreover have "drop a data = data ! a # drop (Suc a) data" using Suc.prems by (simp add: Cons_nth_drop_Suc)
  ultimately show ?case using Suc.prems by (simp add: vec_at_int add.commute)
qed simp

lemmas le_inj32 = le_inj [where 'w = 32]
lemmas le_inj64 = le_inj [where 'w = 64]

lemma le_snoc: "le (bs @ [b]) = (le bs :: 'w::len word) XOR push_bit (8 * length bs) (ucast b)"
  by (induction bs) (simp_all add: push_bit_xor xor.assoc add.commute)

lemma tail_xor_spec:
  "a + n \<le> length data \<Longrightarrow> tail_xor data (int a) n k = Some (k XOR le (take n (drop a data)))"
proof (induction n arbitrary: k)
  case (Suc n)
  have at: "vec_at data (int a + int n) = Some (drop a data ! n)"
    using Suc.prems by (simp add: vec_at_int flip: of_nat_add)
  have "take (Suc n) (drop a data) = take n (drop a data) @ [drop a data ! n]"
    using Suc.prems by (simp add: take_Suc_conv_app_nth)
  moreover have "length (take n (drop a data)) = n" using Suc.prems by simp
  ultimately have "le (take (Suc n) (drop a data)) = le (take n (drop a data)) XOR push_bit (8 * n) (ucast (drop a data ! n) :: 'a word)"
    using le_snoc [of "take n (drop a data)"] by simp
  moreover have "tail_xor data (int a) (Suc n) k =
      tail_xor data (int a) n (k XOR push_bit (8 * n) (ucast (drop a data ! n)))"
    by (simp add: tail_xor_def at)
  ultimately show ?case using Suc by (simp add: xor.assoc xor.commute xor.left_commute)
qed (simp add: tail_xor_def)

lemma tail_part_spec:
  "a + n \<le> length data \<Longrightarrow>
   tail_part data (int a) n f h = Some (if n = 0 then h else h XOR f (le (take n (drop a data))))"
  by (simp add: tail_part_def tail_xor_spec)

subsection \<open>Hashing by groups of bytes\<close>

definition hash_group :: "nat \<Rightarrow> 'a list \<Rightarrow> nat \<Rightarrow> 'a list" where
  "hash_group g bs i = take g (drop (g * i) bs)"

definition hash_body :: "nat \<Rightarrow> ('a list \<Rightarrow> 's \<Rightarrow> 's) \<Rightarrow> 's \<Rightarrow> 'a list \<Rightarrow> nat \<Rightarrow> 's" where
  "hash_body g mix s bs n = fold (\<lambda>i. mix (hash_group g bs i)) [0..<n] s"

definition hash_all :: "nat \<Rightarrow> ('a list \<Rightarrow> 's \<Rightarrow> 's) \<Rightarrow> ('a list \<Rightarrow> 's \<Rightarrow> 's) \<Rightarrow> (nat \<Rightarrow> 's \<Rightarrow> 'o) \<Rightarrow> 's \<Rightarrow> 'a list \<Rightarrow> 'o" where
  "hash_all g mix tl_mix final s bs =
     final (length bs) (tl_mix (drop (g * (length bs div g)) bs) (hash_body g mix s bs (length bs div g)))"

locale group_hash =
  fixes g :: nat and mix :: "'a list \<Rightarrow> 's \<Rightarrow> 's" and tl_mix :: "'a list \<Rightarrow> 's \<Rightarrow> 's" and final :: "nat \<Rightarrow> 's \<Rightarrow> 'o"
  assumes g_pos: "0 < g"
    and mix_state: "mix b s = mix b s' \<Longrightarrow> s = s'"
    and mix_group: "length b = g \<Longrightarrow> length c = g \<Longrightarrow> mix b s = mix c s \<Longrightarrow> b = c"
    and tail_state: "tl_mix b s = tl_mix b s' \<Longrightarrow> s = s'"
    and tail_bytes: "length b < g \<Longrightarrow> length c = length b \<Longrightarrow> tl_mix b s = tl_mix c s \<Longrightarrow> b = c"
    and final_state: "final n s = final n s' \<Longrightarrow> s = s'"
begin

lemma body_groups:
  assumes "length bs = length cs" and "\<forall>i < n. i \<noteq> j \<longrightarrow> hash_group g bs i = hash_group g cs i" and "g * n \<le> length bs"
    and "hash_body g mix s bs n = hash_body g mix s cs n"
  shows "\<forall>i < n. hash_group g bs i = hash_group g cs i"
  using assms(2-4)
proof (induction n)
  case (Suc n)
  have len: "length (hash_group g bs n) = g" "length (hash_group g cs n) = g"
    using Suc.prems(2) assms(1) by (simp_all add: hash_group_def add.commute)
  have step: "mix (hash_group g bs n) (hash_body g mix s bs n) = mix (hash_group g cs n) (hash_body g mix s cs n)"
    using Suc.prems(3) by (simp add: hash_body_def)
  have rest: "\<forall>i < n. i \<noteq> j \<longrightarrow> hash_group g bs i = hash_group g cs i" "g * n \<le> length bs"
    using Suc.prems(1,2) by auto
  show ?case
  proof (cases "n = j")
    case True
    then have groups: "\<forall>i < n. hash_group g bs i = hash_group g cs i" using rest(1) by auto
    then have "hash_body g mix s bs n = hash_body g mix s cs n"
      unfolding hash_body_def by (intro fold_cong) auto
    then have "hash_group g bs n = hash_group g cs n" using mix_group len step by metis
    with groups show ?thesis by (auto simp: less_Suc_eq)
  next
    case False
    then have eq: "hash_group g bs n = hash_group g cs n" using Suc.prems(1) by auto
    then have "hash_body g mix s bs n = hash_body g mix s cs n" using step mix_state by metis
    then show ?thesis using Suc.IH rest eq by (auto simp: less_Suc_eq)
  qed
qed simp

lemma one_group_differs:
  assumes len: "length bs = length cs" and ne: "bs \<noteq> cs"
    and same: "\<forall>i < length bs. i div g \<noteq> j \<longrightarrow> bs ! i = cs ! i"
  shows "hash_all g mix tl_mix final s bs \<noteq> hash_all g mix tl_mix final s cs"
proof
  let ?n = "length bs div g"
  assume eq: "hash_all g mix tl_mix final s bs = hash_all g mix tl_mix final s cs"
  have gn: "g * ?n \<le> length bs" by simp
  have groups: "hash_group g bs i = hash_group g cs i" if "i \<noteq> j" for i
  proof (rule nth_equalityI)
    fix k assume k: "k < length (hash_group g bs i)"
    then have "k < g" "g * i + k < length bs" by (auto simp: hash_group_def)
    moreover have "(g * i + k) div g = i" using \<open>k < g\<close> by simp
    ultimately show "hash_group g bs i ! k = hash_group g cs i ! k"
      using same that len by (simp add: hash_group_def)
  qed (simp add: hash_group_def len)
  have tails: "drop (g * ?n) bs = drop (g * ?n) cs" if "?n \<noteq> j"
  proof (rule nth_equalityI)
    fix k assume k: "k < length (drop (g * ?n) bs)"
    then have "g * ?n + k < length bs" by simp
    moreover have "(g * ?n + k) div g = ?n"
    proof -
      have "k < length bs mod g" using k by (simp add: minus_mult_div_eq_mod)
      then have "k < g" using g_pos by (meson mod_less_divisor order_less_trans)
      then show ?thesis by simp
    qed
    ultimately show "drop (g * ?n) bs ! k = drop (g * ?n) cs ! k" using same that len by simp
  qed (simp add: len)
  have tl_eq: "tl_mix (drop (g * ?n) bs) (hash_body g mix s bs ?n) = tl_mix (drop (g * ?n) cs) (hash_body g mix s cs ?n)"
    using final_state eq len by (metis hash_all_def)
  have all: "(\<forall>i < ?n. hash_group g bs i = hash_group g cs i) \<and> drop (g * ?n) bs = drop (g * ?n) cs"
  proof (cases "?n = j")
    case True
    then have gr: "\<forall>i < ?n. hash_group g bs i = hash_group g cs i" using groups by auto
    then have "hash_body g mix s bs ?n = hash_body g mix s cs ?n"
      unfolding hash_body_def by (intro fold_cong) auto
    moreover have "length (drop (g * ?n) bs) < g" using g_pos by (simp add: minus_mult_div_eq_mod)
    ultimately have "drop (g * ?n) bs = drop (g * ?n) cs" using tail_bytes tl_eq len by (metis length_drop)
    with gr show ?thesis by blast
  next
    case False
    then have "hash_body g mix s bs ?n = hash_body g mix s cs ?n" using tl_eq tails tail_state by metis
    with body_groups [OF len _ gn] groups tails [OF False] show ?thesis by blast
  qed
  have "bs = cs"
  proof (rule nth_equalityI)
    fix i assume i: "i < length bs"
    show "bs ! i = cs ! i"
    proof (cases "i div g = j")
      case True
      show ?thesis
      proof (cases "i < g * ?n")
        case lt: True
        then have "i div g < ?n" using g_pos by (metis less_mult_imp_div_less mult.commute)
        then have "hash_group g bs (i div g) ! (i mod g) = hash_group g cs (i div g) ! (i mod g)" using all by simp
        moreover have "i mod g < g" "g * (i div g) \<le> length bs" "g * (i div g) + i mod g = i" using g_pos i
          by (simp, metis le_trans less_imp_le mult_div_mod_eq le_add1, simp)
        ultimately show ?thesis using i len by (simp add: hash_group_def)
      next
        case False
        then have "drop (g * ?n) bs ! (i - g * ?n) = drop (g * ?n) cs ! (i - g * ?n)" using all by simp
        then show ?thesis using False i len by simp
      qed
    qed (use same i in blast)
  qed (rule len)
  with ne show False ..
qed

end

subsection \<open>The three hashes of the file\<close>

lemma foldM_total: "(\<And>x s. x \<in> set xs \<Longrightarrow> f x s = Some (h x s)) \<Longrightarrow> foldM f xs s = Some (fold h xs s)"
  by (induction xs arbitrary: s) auto

lemma foldM_map: "foldM f (map h xs) s = foldM (\<lambda>x. f (h x)) xs s"
proof (induction xs arbitrary: s)
  case (Cons x xs)
  then show ?case by (cases "f (h x) s") simp_all
qed simp

lemma down_upto: "[- int n..- 1] = map (\<lambda>i. int i - int n) [0..<n]"
  by (rule nth_equalityI) auto

definition key32 :: "u8 list \<Rightarrow> u32" where "key32 b = le b"
definition keys128 :: "u8 list \<Rightarrow> u32 \<times> u32 \<times> u32 \<times> u32" where
  "keys128 b = (le (take 4 b), le (take 4 (drop 4 b)), le (take 4 (drop 8 b)), le (drop 12 b))"
definition keys64 :: "u8 list \<Rightarrow> u64 \<times> u64" where
  "keys64 b = (le (take 8 b), le (drop 8 b))"

definition opt_xor :: "('w::len word \<Rightarrow> 'w word) \<Rightarrow> u8 list \<Rightarrow> 'w word \<Rightarrow> 'w word" where
  "opt_xor f b h = (if b = [] then h else h XOR f (le b))"

definition tail32 :: "u8 list \<Rightarrow> u32 \<Rightarrow> u32" where "tail32 b h = opt_xor x86_32_k b h"
definition tail128 :: "u8 list \<Rightarrow> u32 \<times> u32 \<times> u32 \<times> u32 \<Rightarrow> u32 \<times> u32 \<times> u32 \<times> u32" where
  "tail128 b = (\<lambda>(h1, h2, h3, h4). (opt_xor x86_128_k1 (take 4 b) h1, opt_xor x86_128_k2 (take 4 (drop 4 b)) h2,
     opt_xor x86_128_k3 (take 4 (drop 8 b)) h3, opt_xor x86_128_k4 (drop 12 b) h4))"
definition tail64 :: "u8 list \<Rightarrow> u64 \<times> u64 \<Rightarrow> u64 \<times> u64" where
  "tail64 b = (\<lambda>(h1, h2). (opt_xor x64_k1 (take 8 b) h1, opt_xor x64_k2 (drop 8 b) h2))"

lemma opt_xor_state: "opt_xor f b h = opt_xor f b h' \<longleftrightarrow> h = h'"
  by (simp add: opt_xor_def xor_cancel)

lemma opt_xor_bytes:
  assumes len: "length b = length c" "8 * length b \<le> LENGTH('w::len)" and inj: "\<And>k k'. f k = f k' \<longleftrightarrow> k = (k' :: 'w word)"
    and eq: "opt_xor f b h = opt_xor f c h"
  shows "b = c"
proof (cases "b = []")
  case False
  then have "c \<noteq> []" using len(1) by auto
  then have "f (le b) = f (le c)" using eq False by (simp add: opt_xor_def xor_cancel_left)
  then have "(le b :: 'w word) = le c" using inj by blast
  then show ?thesis using le_inj [OF len] by blast
qed (use len(1) in simp)

lemma take_drop_parts:
  assumes "take m b = take m c" and "drop m b = drop m c"
  shows "b = c"
  using assms by (metis append_take_drop_id)

interpretation h32: group_hash 4 "\<lambda>b. x86_32_mix (key32 b)" tail32 "\<lambda>n h. fmix32 (h XOR of_nat n)"
proof
  show "b = c" if "length b = 4" "length c = 4" "x86_32_mix (key32 b) s = x86_32_mix (key32 c) s" for b c s
  proof (rule le_inj32)
    show "le b = (le c :: u32)" using that(3) by (simp only: x86_32_mix_inj key32_def)
  qed (use that in simp_all)
  show "b = c" if "length b < 4" "length c = length b" "tail32 b s = tail32 c s" for b c s
  proof (rule opt_xor_bytes)
    show "opt_xor x86_32_k b s = opt_xor x86_32_k c s" using that(3) by (simp only: tail32_def)
  qed (use that in \<open>simp_all only: key_eq, simp_all\<close>)
  show "s = s'" if "fmix32 (s XOR of_nat n) = fmix32 (s' XOR of_nat n)" for n s s'
    using that by (simp only: fmix_eq xor_cancel)
qed (simp, (simp only: x86_32_mix_inj tail32_def opt_xor_state)+)

interpretation h64: group_hash 16 "\<lambda>b. x64_mix (keys64 b)" tail64 x64_final
proof
  show "b = c" if "length b = 16" "length c = 16" "x64_mix (keys64 b) s = x64_mix (keys64 c) s" for b c s
  proof (rule take_drop_parts [of 8])
    have "keys64 b = keys64 c" using that(3) by (simp add: hash_inj)
    then show "take 8 b = take 8 c" "drop 8 b = drop 8 c"
      using that le_inj64 [of "take 8 b" "take 8 c"] le_inj64 [of "drop 8 b" "drop 8 c"] by (simp_all add: keys64_def)
  qed
  show "b = c" if "length b < 16" "length c = length b" "tail64 b s = tail64 c s" for b c s
  proof (rule take_drop_parts [of 8])
    obtain h1 h2 where s: "s = (h1, h2)" by (cases s)
    show "take 8 b = take 8 c" "drop 8 b = drop 8 c"
      using that opt_xor_bytes [of "take 8 b" "take 8 c" x64_k1 h1] opt_xor_bytes [of "drop 8 b" "drop 8 c" x64_k2 h2]
      by (simp_all add: tail64_def s key_eq)
  qed
  show "s = s'" if "tail64 b s = tail64 b s'" for b s s'
    using that by (cases s; cases s') (simp add: tail64_def opt_xor_state)
qed (simp, (simp only: hash_inj)+)

interpretation h128: group_hash 16 "\<lambda>b. x86_128_mix (keys128 b)" tail128 x86_128_final
proof
  have four: "b = c" if "take 4 b = take 4 c" "take 4 (drop 4 b) = take 4 (drop 4 c)"
    "take 4 (drop 8 b) = take 4 (drop 8 c)" "drop 12 b = drop 12 c" for b c :: "u8 list"
  proof (rule take_drop_parts [OF that(1)], rule take_drop_parts [of 4], rule that(2),
      rule take_drop_parts [of 4])
    show "take 4 (drop 4 (drop 4 b)) = take 4 (drop 4 (drop 4 c))" using that(3) by simp
    show "drop 4 (drop 4 (drop 4 b)) = drop 4 (drop 4 (drop 4 c))" using that(4) by simp
  qed
  show "b = c" if "length b = 16" "length c = 16" "x86_128_mix (keys128 b) s = x86_128_mix (keys128 c) s" for b c s
  proof (rule four)
    have "keys128 b = keys128 c" using that(3) by (simp add: hash_inj)
    then show "take 4 b = take 4 c" "take 4 (drop 4 b) = take 4 (drop 4 c)"
      "take 4 (drop 8 b) = take 4 (drop 8 c)" "drop 12 b = drop 12 c"
      using that le_inj32 [of "take 4 b" "take 4 c"] le_inj32 [of "take 4 (drop 4 b)" "take 4 (drop 4 c)"]
        le_inj32 [of "take 4 (drop 8 b)" "take 4 (drop 8 c)"] le_inj32 [of "drop 12 b" "drop 12 c"]
      by (simp_all add: keys128_def)
  qed
  show "b = c" if "length b < 16" "length c = length b" "tail128 b s = tail128 c s" for b c s
  proof (rule four)
    obtain h1 h2 h3 h4 where s: "s = (h1, h2, h3, h4)" by (cases s)
    show "take 4 b = take 4 c" "take 4 (drop 4 b) = take 4 (drop 4 c)"
      "take 4 (drop 8 b) = take 4 (drop 8 c)" "drop 12 b = drop 12 c"
      using that opt_xor_bytes [of "take 4 b" "take 4 c" x86_128_k1 h1]
        opt_xor_bytes [of "take 4 (drop 4 b)" "take 4 (drop 4 c)" x86_128_k2 h2]
        opt_xor_bytes [of "take 4 (drop 8 b)" "take 4 (drop 8 c)" x86_128_k3 h3]
        opt_xor_bytes [of "drop 12 b" "drop 12 c" x86_128_k4 h4]
      by (simp_all add: tail128_def s key_eq)
  qed
  show "s = s'" if "tail128 b s = tail128 b s'" for b s s'
    using that by (cases s; cases s') (simp add: tail128_def opt_xor_state)
qed (simp, (simp only: hash_inj)+)

text \<open>The code, with its pointers and indices, computes the grouped hash and never reads outside the key.\<close>

definition hash32_spec :: "u32 \<Rightarrow> u8 list \<Rightarrow> u32" where
  "hash32_spec = hash_all 4 (\<lambda>b. x86_32_mix (key32 b)) tail32 (\<lambda>n h. fmix32 (h XOR of_nat n))"

definition hash64_spec :: "u64 \<times> u64 \<Rightarrow> u8 list \<Rightarrow> u64 \<times> u64" where
  "hash64_spec = hash_all 16 (\<lambda>b. x64_mix (keys64 b)) tail64 x64_final"

definition hash128_spec :: "u32 \<times> u32 \<times> u32 \<times> u32 \<Rightarrow> u8 list \<Rightarrow> u32 \<times> u32 \<times> u32 \<times> u32" where
  "hash128_spec = hash_all 16 (\<lambda>b. x86_128_mix (keys128 b)) tail128 x86_128_final"

lemma group_end:
  assumes "i < length bs div g"
  shows "g * i + g \<le> length (bs :: 'a list)"
proof -
  have "g * Suc i \<le> g * (length bs div g)" using assms by (intro mult_le_mono2) simp
  also have "\<dots> \<le> length bs" by simp
  finally show ?thesis by simp
qed

lemma load_at: "a = int n \<Longrightarrow> n + k \<le> length data \<Longrightarrow> load_le data a k = Some (le (take k (drop n data)))"
  using load_le_spec by blast

lemma tail_at: "a = int k \<Longrightarrow> k + n \<le> length data \<Longrightarrow>
   tail_part data a n f h = Some (opt_xor f (take n (drop k data)) h)"
  using tail_part_spec [of k n data f h] by (auto simp: opt_xor_def)

lemma tail_slice:
  assumes a: "a \<le> length data" and m: "m = min (length data - a) c - k" and x: "x = int a + int k"
  shows "tail_part data x m f h = Some (opt_xor f (take (c - k) (drop k (drop a data))) h)"
proof (cases "a + k \<le> length data")
  case True
  have "take m (drop (a + k) data) = take (c - k) (drop (a + k) data)"
    using True m by (cases "c \<le> length data - a") simp_all
  then show ?thesis using tail_at [of x "a + k" m data f h] True m x by (simp add: add.commute)
next
  case False
  then show ?thesis using m by (simp add: tail_part_def opt_xor_def)
qed

lemma group_parts:
  assumes "k + m \<le> g"
  shows "take m (drop k (hash_group g bs i)) = take m (drop (g * i + k) bs)"
  using assms by (simp add: hash_group_def drop_take min_def add.commute)

lemma tail_length: "length (drop (g * (length bs div g)) bs) = length bs mod g"
  by (simp add: minus_mult_div_eq_mod)

lemma MurmurHash3_x86_32_spec: "MurmurHash3_x86_32 data (length data) seed = Some (hash32_spec seed data)"
proof -
  let ?n = "length data div 4" and ?t = "drop (4 * (length data div 4)) data"
  have body: "foldM (\<lambda>i h1. do { k1 \<leftarrow> getblock32 data (4 * int ?n) i; Some (x86_32_mix k1 h1) }) [- int ?n..- 1] seed =
      Some (hash_body 4 (\<lambda>b. x86_32_mix (key32 b)) seed data ?n)"
    unfolding down_upto foldM_map hash_body_def
  proof (rule foldM_total)
    fix i h assume "i \<in> set [0..<?n]"
    then have "4 * i + 4 \<le> length data" using group_end [of i data 4] by simp
    then have "getblock32 data (4 * int ?n) (int i - int ?n) = Some (key32 (hash_group 4 data i))"
      unfolding getblock32_def key32_def hash_group_def by (intro load_at) (simp_all add: algebra_simps)
    then show "getblock32 data (4 * int ?n) (int i - int ?n) \<bind> (\<lambda>k1. Some (x86_32_mix k1 h)) =
        Some (x86_32_mix (key32 (hash_group 4 data i)) h)" by simp
  qed
  have len: "length ?t = length data mod 4" by (rule tail_length)
  then have tl: "(if length data mod 4 \<ge> 1
      then do { k1 \<leftarrow> tail_xor data (4 * int ?n) (length data mod 4) 0; Some (h XOR x86_32_k k1) } else Some h) =
      Some (tail32 ?t h)" for h
    using tail_xor_spec [of "4 * ?n" "length data mod 4" data "0 :: u32"]
    by (auto simp: tail32_def opt_xor_def)
  show ?thesis
    unfolding MurmurHash3_x86_32_def Let_def body bind.bind_lunit tl hash32_spec_def hash_all_def by simp
qed

lemma MurmurHash3_x64_128_spec:
  "MurmurHash3_x64_128 data (length data) seed = Some (hash64_spec (ucast seed, ucast seed) data)"
proof -
  let ?n = "length data div 16" and ?t = "drop (16 * (length data div 16)) data" and ?r = "length data mod 16"
  have body: "foldM (\<lambda>i h. do { k1 \<leftarrow> getblock64 data 0 (int i * 2 + 0); k2 \<leftarrow> getblock64 data 0 (int i * 2 + 1);
        Some (x64_mix (k1, k2) h) }) [0..<?n] s =
      Some (hash_body 16 (\<lambda>b. x64_mix (keys64 b)) s data ?n)" for s
    unfolding hash_body_def
  proof (rule foldM_total)
    fix i h assume "i \<in> set [0..<?n]"
    then have end_i: "16 * i + 16 \<le> length data" using group_end [of i data 16] by simp
    have "getblock64 data 0 (int i * 2 + 0) = Some (le (take 8 (drop (16 * i) data)))"
      "getblock64 data 0 (int i * 2 + 1) = Some (le (take 8 (drop (16 * i + 8) data)))"
      unfolding getblock64_def using end_i by (auto intro!: load_at)
    moreover have "keys64 (hash_group 16 data i) = (le (take 8 (drop (16 * i) data)), le (take 8 (drop (16 * i + 8) data)))"
      using group_parts [of 0 8 16 data i] group_parts [of 8 8 16 data i]
      by (simp add: keys64_def) (simp add: hash_group_def)
    ultimately show "getblock64 data 0 (int i * 2 + 0) \<bind> (\<lambda>k1. getblock64 data 0 (int i * 2 + 1) \<bind>
        (\<lambda>k2. Some (x64_mix (k1, k2) h))) = Some (x64_mix (keys64 (hash_group 16 data i)) h)" by simp
  qed
  have len: "length data - 16 * ?n = ?r" by (rule minus_mult_div_eq_mod)
  have part: "tail_part data (16 * int ?n + 8) (?r - 8) x64_k2 h = Some (opt_xor x64_k2 (drop 8 ?t) h)"
    "tail_part data (16 * int ?n) (min ?r 8) x64_k1 h = Some (opt_xor x64_k1 (take 8 ?t) h)" for h
    using tail_slice [of "16 * ?n" data "?r - 8" 16 8 "16 * int ?n + 8" x64_k2 h]
      tail_slice [of "16 * ?n" data "min ?r 8" 8 0 "16 * int ?n" x64_k1 h] len by (simp_all add: min_def)
  obtain h1 h2 where h: "hash_body 16 (\<lambda>b. x64_mix (keys64 b)) (ucast seed, ucast seed) data ?n = (h1, h2)"
    by (cases "hash_body 16 (\<lambda>b. x64_mix (keys64 b)) (ucast seed, ucast seed) data ?n")
  show ?thesis
    unfolding MurmurHash3_x64_128_def Let_def body bind.bind_lunit hash64_spec_def hash_all_def h prod.case part tail64_def ..
qed

lemma MurmurHash3_x86_128_spec:
  "MurmurHash3_x86_128 data (length data) seed = Some (hash128_spec (seed, seed, seed, seed) data)"
proof -
  let ?n = "length data div 16" and ?t = "drop (16 * (length data div 16)) data" and ?r = "length data mod 16"
  have body: "foldM (\<lambda>i h. do {
         k1 \<leftarrow> getblock32 data (16 * int ?n) (i * 4 + 0);
         k2 \<leftarrow> getblock32 data (16 * int ?n) (i * 4 + 1);
         k3 \<leftarrow> getblock32 data (16 * int ?n) (i * 4 + 2);
         k4 \<leftarrow> getblock32 data (16 * int ?n) (i * 4 + 3);
         Some (x86_128_mix (k1, k2, k3, k4) h) }) [- int ?n..- 1] s =
      Some (hash_body 16 (\<lambda>b. x86_128_mix (keys128 b)) s data ?n)" for s
    unfolding hash_body_def down_upto foldM_map
  proof (rule foldM_total)
    fix i h assume "i \<in> set [0..<?n]"
    then have end_i: "16 * i + 16 \<le> length data" using group_end [of i data 16] by simp
    let ?i = "int i - int ?n"
    have "getblock32 data (16 * int ?n) (?i * 4 + 0) = Some (le (take 4 (drop (16 * i) data)))"
      "getblock32 data (16 * int ?n) (?i * 4 + 1) = Some (le (take 4 (drop (16 * i + 4) data)))"
      "getblock32 data (16 * int ?n) (?i * 4 + 2) = Some (le (take 4 (drop (16 * i + 8) data)))"
      "getblock32 data (16 * int ?n) (?i * 4 + 3) = Some (le (take 4 (drop (16 * i + 12) data)))"
      unfolding getblock32_def using end_i by (auto intro!: load_at)
    moreover have "keys128 (hash_group 16 data i) = (le (take 4 (drop (16 * i) data)), le (take 4 (drop (16 * i + 4) data)),
        le (take 4 (drop (16 * i + 8) data)), le (take 4 (drop (16 * i + 12) data)))"
      using group_parts [of 0 4 16 data i] group_parts [of 4 4 16 data i] group_parts [of 8 4 16 data i]
        group_parts [of 12 4 16 data i]
      by (simp add: keys128_def) (simp add: hash_group_def)
    ultimately show "getblock32 data (16 * int ?n) (?i * 4 + 0) \<bind> (\<lambda>k1. getblock32 data (16 * int ?n) (?i * 4 + 1) \<bind>
        (\<lambda>k2. getblock32 data (16 * int ?n) (?i * 4 + 2) \<bind> (\<lambda>k3. getblock32 data (16 * int ?n) (?i * 4 + 3) \<bind>
        (\<lambda>k4. Some (x86_128_mix (k1, k2, k3, k4) h))))) = Some (x86_128_mix (keys128 (hash_group 16 data i)) h)" by simp
  qed
  have len: "length data - 16 * ?n = ?r" by (rule minus_mult_div_eq_mod)
  have part: "tail_part data (16 * int ?n + 12) (?r - 12) x86_128_k4 h = Some (opt_xor x86_128_k4 (drop 12 ?t) h)"
    "tail_part data (16 * int ?n + 8) (min ?r 12 - 8) x86_128_k3 h = Some (opt_xor x86_128_k3 (take 4 (drop 8 ?t)) h)"
    "tail_part data (16 * int ?n + 4) (min ?r 8 - 4) x86_128_k2 h = Some (opt_xor x86_128_k2 (take 4 (drop 4 ?t)) h)"
    "tail_part data (16 * int ?n) (min ?r 4) x86_128_k1 h = Some (opt_xor x86_128_k1 (take 4 ?t) h)" for h
    using tail_slice [of "16 * ?n" data "?r - 12" 16 12 "16 * int ?n + 12" x86_128_k4 h]
      tail_slice [of "16 * ?n" data "min ?r 12 - 8" 12 8 "16 * int ?n + 8" x86_128_k3 h]
      tail_slice [of "16 * ?n" data "min ?r 8 - 4" 8 4 "16 * int ?n + 4" x86_128_k2 h]
      tail_slice [of "16 * ?n" data "min ?r 4" 4 0 "16 * int ?n" x86_128_k1 h] len by (simp_all add: min_def)
  let ?h = "hash_body 16 (\<lambda>b. x86_128_mix (keys128 b)) (seed, seed, seed, seed) data ?n"
  obtain h1 h2 h3 h4 where h: "?h = (h1, h2, h3, h4)" by (cases ?h)
  show ?thesis
    unfolding MurmurHash3_x86_128_def Let_def body bind.bind_lunit hash128_spec_def hash_all_def h prod.case part
      tail128_def ..
qed

end
