(* ===== verification/Text_Stream.thy ===== *)
theory Text_Stream
  imports PIM_Common "HOL-Library.Sublist"
begin

text \<open>
  What the file readers and writers use of the C++ standard library: \<open>std::getline\<close>, formatted
  extraction from a \<open>std::stringstream\<close>, \<open>std::stoi\<close>, \<open>std::stoull\<close> and the insertion of integers.
  A \<open>stringstream\<close> is the text that is left, or \<open>None\<close> once its failbit is set; extraction from a
  failed or exhausted stream leaves the variable as it is, a failed conversion writes 0 or the
  nearest value of the type. Exceptions are \<open>None\<close>. Text files end with a newline.
\<close>

subsection \<open>Characters and digits\<close>

definition is_space :: "char \<Rightarrow> bool" where
  "is_space c = (let n = of_char c :: nat in n = 32 \<or> 9 \<le> n \<and> n \<le> 13)"

definition newline :: char where "newline = CHR 0x0A"

definition digit_val :: "nat \<Rightarrow> char \<Rightarrow> nat option" where
  "digit_val base c =
     (let n = of_char c :: nat;
          v = (if 48 \<le> n \<and> n \<le> 57 then n - 48 else if 97 \<le> n \<and> n \<le> 102 then n - 87
               else if 65 \<le> n \<and> n \<le> 70 then n - 55 else 16)
      in if v < base \<and> v < 16 then Some v else None)"

definition is_digit :: "nat \<Rightarrow> char \<Rightarrow> bool" where
  "is_digit base c = (digit_val base c \<noteq> None)"

definition digits_value :: "nat \<Rightarrow> string \<Rightarrow> nat" where
  "digits_value base ds = foldl (\<lambda>v c. v * base + the (digit_val base c)) 0 ds"

definition digit_char :: "nat \<Rightarrow> char" where
  "digit_char d = char_of (if d < 10 then 48 + d else 87 + d)"

text \<open>The digits of a number, most significant first.\<close>

fun show_base :: "nat \<Rightarrow> nat \<Rightarrow> string" where
  "show_base base n =
     (if base < 2 \<or> n < base then [digit_char n] else show_base base (n div base) @ [digit_char (n mod base)])"

declare show_base.simps [simp del]

definition show_nat :: "nat \<Rightarrow> string" where "show_nat n = show_base 10 n"

definition show_int :: "int \<Rightarrow> string" where
  "show_int i = (if i < 0 then CHR ''-'' # show_nat (nat (- i)) else show_nat (nat i))"

subsection \<open>Reading\<close>

text \<open>One line without its newline, and the lines of a text.\<close>

fun lines_of :: "string \<Rightarrow> string list" where
  "lines_of [] = []"
| "lines_of (c # s) =
     (if c = newline then [] # lines_of s
      else case lines_of s of [] \<Rightarrow> [[c]] | l # ls \<Rightarrow> (c # l) # ls)"

definition contains :: "string \<Rightarrow> string \<Rightarrow> bool" where
  "contains s pat = list_ex (prefix pat) (suffixes s)"

type_synonym iss = "string option"

definition scan_sign :: "string \<Rightarrow> bool \<times> string" where
  "scan_sign s =
     (case s of [] \<Rightarrow> (False, s)
      | c # r \<Rightarrow> if c = CHR ''-'' then (True, r) else if c = CHR ''+'' then (False, r) else (False, s))"

definition skip_0x :: "nat \<Rightarrow> string \<Rightarrow> string" where
  "skip_0x base s = (if base = 16 \<and> (take 2 s = ''0x'' \<or> take 2 s = ''0X'') then drop 2 s else s)"

text \<open>Sign, base prefix and digits at the head of a text; \<open>None\<close> without a digit.\<close>

definition scan_num :: "nat \<Rightarrow> string \<Rightarrow> (bool \<times> nat \<times> string) option" where
  "scan_num base s =
     (let (neg, s) = scan_sign s;
          s = skip_0x base s;
          ds = takeWhile (is_digit base) s
      in if ds = [] then None else Some (neg, digits_value base ds, dropWhile (is_digit base) s))"

definition ext_tok :: "iss \<Rightarrow> string \<Rightarrow> iss \<times> string" where
  "ext_tok ss old =
     (case ss of None \<Rightarrow> (None, old)
      | Some s \<Rightarrow> (let s = dropWhile is_space s in
          if s = [] then (None, old)
          else (Some (dropWhile (\<lambda>c. \<not> is_space c) s), takeWhile (\<lambda>c. \<not> is_space c) s)))"

text \<open>A signed number of \<open>k + 1\<close> bits; the old value is \<open>None\<close> where the variable was never written.\<close>

definition ext_int :: "nat \<Rightarrow> iss \<Rightarrow> int option \<Rightarrow> iss \<times> int option" where
  "ext_int k ss old =
     (case ss of None \<Rightarrow> (None, old)
      | Some s \<Rightarrow> (let s = dropWhile is_space s in
          if s = [] then (None, old)
          else case scan_num 10 s of
            None \<Rightarrow> (None, Some 0)
          | Some (neg, n, r) \<Rightarrow>
              (let v = (if neg then - int n else int n) in
               if v < - (2 ^ k) then (None, Some (- (2 ^ k)))
               else if v \<ge> 2 ^ k then (None, Some (2 ^ k - 1)) else (Some r, Some v))))"

abbreviation ext_i64 :: "iss \<Rightarrow> int option \<Rightarrow> iss \<times> int option" where "ext_i64 \<equiv> ext_int 63"
abbreviation ext_i32 :: "iss \<Rightarrow> int option \<Rightarrow> iss \<times> int option" where "ext_i32 \<equiv> ext_int 31"

text \<open>An unsigned 64-bit number; a minus sign negates modulo \<open>2 ^ 64\<close>.\<close>

definition ext_u64 :: "nat \<Rightarrow> iss \<Rightarrow> u64 \<Rightarrow> iss \<times> u64" where
  "ext_u64 base ss old =
     (case ss of None \<Rightarrow> (None, old)
      | Some s \<Rightarrow> (let s = dropWhile is_space s in
          if s = [] then (None, old)
          else case scan_num base s of
            None \<Rightarrow> (None, 0)
          | Some (neg, n, r) \<Rightarrow>
              if n \<ge> 2 ^ 64 then (None, - 1) else (Some r, if neg then - of_nat n else of_nat n)))"

text \<open>A decimal floating-point number: digits with a point, an exponent if there is one.\<close>

definition scan_real :: "string \<Rightarrow> (real \<times> string) option" where
  "scan_real s =
     (let (neg, s) = scan_sign s;
          whole = takeWhile (is_digit 10) s; s = dropWhile (is_digit 10) s;
          (frac, s) = (case s of c # r \<Rightarrow> if c = CHR ''.'' then (takeWhile (is_digit 10) r, dropWhile (is_digit 10) r) else ([], s)
                       | [] \<Rightarrow> ([], s));
          m = (real (digits_value 10 whole) + real (digits_value 10 frac) / 10 ^ length frac) * (if neg then - 1 else 1)
      in if whole = [] \<and> frac = [] then None
         else case s of
           [] \<Rightarrow> Some (m, s)
         | c # r \<Rightarrow>
             if c = CHR ''e'' \<or> c = CHR ''E''
             then (case scan_num 10 r of None \<Rightarrow> None
                   | Some (eneg, e, r) \<Rightarrow> Some (if eneg then m / 10 ^ e else m * 10 ^ e, r))
             else Some (m, s))"

definition ext_real :: "iss \<Rightarrow> real \<Rightarrow> iss \<times> real" where
  "ext_real ss old =
     (case ss of None \<Rightarrow> (None, old)
      | Some s \<Rightarrow> (let s = dropWhile is_space s in
          if s = [] then (None, old)
          else case scan_real s of None \<Rightarrow> (None, 0) | Some (x, r) \<Rightarrow> (Some r, x)))"

text \<open>\<open>stoi\<close> and \<open>stoull\<close> convert the head of a string and throw without digits or out of range.\<close>

definition stoi :: "string \<Rightarrow> int option" where
  "stoi s = do {
     (neg, n, r) \<leftarrow> scan_num 10 (dropWhile is_space s);
     let v = (if neg then - int n else int n);
     if - (2 ^ 31) \<le> v \<and> v < 2 ^ 31 then Some v else None }"

definition stoull :: "string \<Rightarrow> u64 option" where
  "stoull s = do {
     (neg, n, r) \<leftarrow> scan_num 10 (dropWhile is_space s);
     if n < 2 ^ 64 then Some (if neg then - of_nat n else of_nat n) else None }"

text \<open>
  The number at the head of a text as \<open>strtod\<close> and \<open>std::stod\<close> read it; they leave the text alone, or throw,
  where there is none. An exponent without digits is not part of the number. Infinities,
  hexadecimal numbers and numbers out of range are not covered.
\<close>

definition stod :: "string \<Rightarrow> real option" where
  "stod s =
     (let s = dropWhile is_space s
      in case scan_real s of Some (x, r) \<Rightarrow> Some x
         | None \<Rightarrow> map_option fst (scan_real (takeWhile (\<lambda>c. c \<noteq> CHR ''e'' \<and> c \<noteq> CHR ''E'') s)))"

subsection \<open>What was written is read back\<close>

lemma of_char_digit: "d < 16 \<Longrightarrow> (of_char (digit_char d) :: nat) = (if d < 10 then 48 + d else 87 + d)"
  by (simp add: digit_char_def of_char_of)

lemma digit_val_char: "d < base \<Longrightarrow> base \<le> 16 \<Longrightarrow> digit_val base (digit_char d) = Some d"
  by (auto simp: digit_val_def of_char_digit Let_def)

lemma digit_char_props:
  assumes "d < 16"
  shows "\<not> is_space (digit_char d)" "digit_char d \<noteq> CHR ''-''" "digit_char d \<noteq> CHR ''+''" "digit_char d \<noteq> newline"
    "digit_char d \<noteq> CHR ''x''" "digit_char d \<noteq> CHR ''X''" "digit_char d \<noteq> CHR '',''" "digit_char d \<noteq> CHR '':''"
    "digit_char d \<noteq> CHR ''=''" "digit_char d \<noteq> CHR ''|''"
proof -
  have ne: "digit_char d \<noteq> c" if "(of_char c :: nat) < 48 \<or> 57 < (of_char c :: nat) \<and> (of_char c :: nat) < 97 \<or> 102 < (of_char c :: nat)" for c
  proof
    assume "digit_char d = c"
    then show False using that of_char_digit [OF assms] assms by (auto split: if_splits)
  qed
  show "\<not> is_space (digit_char d)" using assms by (auto simp: is_space_def of_char_digit Let_def)
  show "digit_char d \<noteq> CHR ''-''" "digit_char d \<noteq> CHR ''+''" "digit_char d \<noteq> newline"
    "digit_char d \<noteq> CHR ''x''" "digit_char d \<noteq> CHR ''X''" "digit_char d \<noteq> CHR '',''" "digit_char d \<noteq> CHR '':''"
    "digit_char d \<noteq> CHR ''=''" "digit_char d \<noteq> CHR ''|''"
    by (rule ne, simp add: newline_def)+
qed

lemma show_base_digits: "2 \<le> base \<Longrightarrow> base \<le> 16 \<Longrightarrow> c \<in> set (show_base base n) \<Longrightarrow> \<exists>d < base. c = digit_char d"
proof (induction base n rule: show_base.induct)
  case (1 base n)
  show ?case
  proof (cases "n < base")
    case True
    then show ?thesis using 1 by (subst (asm) show_base.simps) auto
  next
    case False
    then have "c \<in> set (show_base base (n div base)) \<or> c = digit_char (n mod base)"
      using 1(2,4) by (subst (asm) show_base.simps) auto
    moreover have "n mod base < base" using 1(2) by simp
    moreover have "\<exists>d < base. c = digit_char d" if "c \<in> set (show_base base (n div base))"
      by (rule 1(1)) (use 1 False that in simp_all)
    ultimately show ?thesis by blast
  qed
qed

lemma digits_value_snoc: "digits_value base (ds @ [c]) = digits_value base ds * base + the (digit_val base c)"
  by (simp add: digits_value_def)

lemma show_base_value: "2 \<le> base \<Longrightarrow> base \<le> 16 \<Longrightarrow> digits_value base (show_base base n) = n"
proof (induction base n rule: show_base.induct)
  case (1 base n)
  show ?case
  proof (cases "n < base")
    case True
    then show ?thesis using 1 by (subst show_base.simps) (simp add: digits_value_def digit_val_char)
  next
    case False
    have "n mod base < base" using 1(2) by simp
    then have "the (digit_val base (digit_char (n mod base))) = n mod base" using 1(3) by (simp add: digit_val_char)
    with False 1 show ?thesis by (subst show_base.simps) (simp add: digits_value_snoc)
  qed
qed

lemma show_base_not_Nil [simp]: "show_base base n \<noteq> []"
  by (subst show_base.simps) simp

lemma is_digit_char: "d < base \<Longrightarrow> base \<le> 16 \<Longrightarrow> is_digit base (digit_char d)"
  by (simp add: is_digit_def digit_val_char)

lemma show_nat_chars: "c \<in> set (show_nat n) \<Longrightarrow> \<exists>d < 10. c = digit_char d"
  using show_base_digits [of 10 c n] by (simp add: show_nat_def)

lemma show_nat_props:
  assumes "c \<in> set (show_nat n)"
  shows "is_digit 10 c" "\<not> is_space c" "c \<noteq> CHR ''-''" "c \<noteq> CHR ''+''" "c \<noteq> newline" "c \<noteq> CHR '',''" "c \<noteq> CHR '':''"
    "c \<noteq> CHR ''=''" "c \<noteq> CHR ''|''"
  using show_nat_chars [OF assms] digit_char_props by (auto simp: is_digit_char)

lemma show_nat_not_Nil [simp]: "show_nat n \<noteq> []"
  by (simp add: show_nat_def)

lemma show_int_not_Nil [simp]: "show_int i \<noteq> []"
  by (simp add: show_int_def)

lemma show_int_props:
  assumes "c \<in> set (show_int i)"
  shows "\<not> is_space c" "c \<noteq> newline" "c \<noteq> CHR '',''" "c \<noteq> CHR '':''" "c \<noteq> CHR ''=''" "c \<noteq> CHR ''|''"
proof -
  have "c = CHR ''-'' \<or> (\<exists>n. c \<in> set (show_nat n))" using assms by (auto simp: show_int_def split: if_splits)
  then show "\<not> is_space c" "c \<noteq> newline" "c \<noteq> CHR '',''" "c \<noteq> CHR '':''" "c \<noteq> CHR ''=''" "c \<noteq> CHR ''|''"
    using show_nat_props [of c] by (auto simp: is_space_def newline_def)
qed

text \<open>The text after a number must not go on with a digit.\<close>

definition stops :: "string \<Rightarrow> bool" where
  "stops r \<longleftrightarrow> (\<forall>c r'. r = c # r' \<longrightarrow> \<not> is_digit 10 c)"

lemma stops_Nil [simp]: "stops []" by (simp add: stops_def)

lemma stops_Cons [simp]: "stops (c # r) \<longleftrightarrow> \<not> is_digit 10 c" by (simp add: stops_def)

lemma punctuation_stops [simp]:
  "\<not> is_digit 10 (CHR '' '')" "\<not> is_digit 10 (CHR '','')" "\<not> is_digit 10 (CHR '':'')" "\<not> is_digit 10 newline"
  by (simp_all add: is_digit_def digit_val_def newline_def)

lemma scan_digits:
  assumes "stops r"
  shows "takeWhile (is_digit 10) (show_nat n @ r) = show_nat n" "dropWhile (is_digit 10) (show_nat n @ r) = r"
proof -
  have "\<forall>c \<in> set (show_nat n). is_digit 10 c" using show_nat_props by blast
  moreover have "takeWhile (is_digit 10) r = []" "dropWhile (is_digit 10) r = r" using assms by (cases r; simp)+
  ultimately show "takeWhile (is_digit 10) (show_nat n @ r) = show_nat n" "dropWhile (is_digit 10) (show_nat n @ r) = r"
    by (simp_all add: takeWhile_append dropWhile_append)
qed

lemma show_nat_value: "digits_value 10 (show_nat n) = n"
  by (simp add: show_nat_def show_base_value)

lemma scan_show_int: "stops r \<Longrightarrow> scan_num 10 (show_int i @ r) = Some (i < 0, nat \<bar>i\<bar>, r)"
proof (cases "i < 0")
  case True
  assume "stops r"
  then show ?thesis using True by (simp add: show_int_def scan_num_def scan_sign_def skip_0x_def scan_digits show_nat_value)
next
  case False
  assume r: "stops r"
  obtain c cs where c: "show_nat (nat i) = c # cs" by (cases "show_nat (nat i)") simp_all
  then have "c \<noteq> CHR ''-''" "c \<noteq> CHR ''+''" using show_nat_props [of c "nat i"] by simp_all
  then show ?thesis using False scan_digits [OF r, of "nat i"] c show_nat_value [of "nat i"]
    by (simp add: show_int_def scan_num_def scan_sign_def skip_0x_def)
qed

lemma show_int_of_nat: "show_int (int n) = show_nat n"
  by (simp add: show_int_def)

lemma skip_spaces: "\<forall>c \<in> set sp. is_space c \<Longrightarrow> dropWhile is_space (sp @ s) = dropWhile is_space s"
  by (simp add: dropWhile_append)

lemma skip_before_int: "dropWhile is_space (show_int i @ r) = show_int i @ r"
proof -
  obtain c cs where c: "show_int i = c # cs" by (cases "show_int i") simp_all
  then have "\<not> is_space c" using show_int_props [of c i] by simp
  with c show ?thesis by simp
qed

lemma ext_i64_show:
  assumes "\<forall>c \<in> set sp. is_space c" and "stops r" and "- (2 ^ k) \<le> v" and "v < 2 ^ k"
  shows "ext_int k (Some (sp @ show_int v @ r)) old = (Some r, Some v)"
  using assms by (simp add: ext_int_def skip_spaces skip_before_int scan_show_int Let_def)

lemma ext_tok_word:
  assumes "\<forall>c \<in> set sp. is_space c" and "w \<noteq> []" and "\<forall>c \<in> set w. \<not> is_space c" and "r = [] \<or> is_space (hd r)"
  shows "ext_tok (Some (sp @ w @ r)) old = (Some r, w)"
proof -
  obtain c cs where c: "w = c # cs" using assms(2) by (cases w) simp_all
  have "dropWhile is_space (sp @ w @ r) = w @ r" using assms(1,3) c by (simp add: skip_spaces)
  moreover have "takeWhile (\<lambda>c. \<not> is_space c) (w @ r) = w" "dropWhile (\<lambda>c. \<not> is_space c) (w @ r) = r"
    using assms(3,4) by (cases r; simp add: takeWhile_append dropWhile_append)+
  ultimately show ?thesis using assms(2) by (simp add: ext_tok_def Let_def)
qed

lemma stoi_show: "stops r \<Longrightarrow> - (2 ^ 31) \<le> v \<Longrightarrow> v < 2 ^ 31 \<Longrightarrow> stoi (show_int v @ r) = Some v"
  by (simp add: stoi_def skip_before_int scan_show_int Let_def)

lemma stoull_show: "stops r \<Longrightarrow> n < 2 ^ 64 \<Longrightarrow> stoull (show_nat n @ r) = Some (of_nat n)"
  using skip_before_int [of "int n" r] scan_show_int [of r "int n"]
  by (simp add: stoull_def show_int_of_nat)

lemma lines_of_line: "newline \<notin> set l \<Longrightarrow> lines_of (l @ newline # s) = l # lines_of s"
  by (induction l) auto

lemma lines_of_concat: "\<forall>l \<in> set ls. newline \<notin> set l \<Longrightarrow> lines_of (concat (map (\<lambda>l. l @ [newline]) ls)) = ls"
  by (induction ls) (simp_all add: lines_of_line)

lemma contains_count: "contains s pat \<Longrightarrow> count_list pat c \<le> count_list s c"
  by (auto simp: contains_def list_ex_iff prefix_def suffix_def)

subsection \<open>Columns\<close>

text \<open>\<open>std::setw\<close> with the default fill; what is longer than the column is written in full.\<close>

definition setw :: "nat \<Rightarrow> string \<Rightarrow> string" where
  "setw n s = replicate (n - length s) (CHR '' '') @ s"

lemma setw_spaces: "\<forall>c \<in> set (replicate n (CHR '' '')). is_space c"
  by (simp add: is_space_def)

lemma setw_first: "length w < n \<Longrightarrow> setw n w @ r = CHR '' '' # (replicate (n - Suc (length w)) (CHR '' '') @ w @ r)"
  by (simp add: setw_def Suc_diff_Suc flip: replicate_Suc append_Cons)

lemma setw_stops: "length w < n \<Longrightarrow> stops (setw n w @ r)" "length w < n \<Longrightarrow> is_space (hd (setw n w @ r))"
  by (simp_all add: setw_first is_space_def)

lemma ext_int_setw:
  "stops r \<Longrightarrow> - (2 ^ k) \<le> v \<Longrightarrow> v < 2 ^ k \<Longrightarrow> ext_int k (Some (setw n (show_int v) @ r)) old = (Some r, Some v)"
  unfolding setw_def append_assoc by (rule ext_i64_show [OF setw_spaces])

lemma scan_real_nat: "scan_real (show_nat v @ CHR '' '' # r) = Some (real v, CHR '' '' # r)"
proof -
  obtain c cs where c: "show_nat v = c # cs" by (cases "show_nat v") simp_all
  then have "c \<noteq> CHR ''-''" "c \<noteq> CHR ''+''" using show_nat_props [of c v] by simp_all
  then have "scan_sign (show_nat v @ CHR '' '' # r) = (False, show_nat v @ CHR '' '' # r)" by (simp add: c scan_sign_def)
  then show ?thesis
    using scan_digits [of "CHR '' '' # r" v] digits_value_def [of 10 "[]"] by (simp add: scan_real_def show_nat_value)
qed

lemma show_nat_length: "n < 10 ^ k \<Longrightarrow> 0 < k \<Longrightarrow> length (show_nat n) \<le> k"
proof (induction k arbitrary: n)
  case (Suc k)
  show ?case
  proof (cases "n < 10")
    case True
    then show ?thesis by (simp add: show_nat_def show_base.simps)
  next
    case False
    then have "0 < k" using Suc.prems(1) by (cases k) simp_all
    then have "length (show_nat (n div 10)) \<le> k" using Suc.prems(1) by (intro Suc.IH) (auto simp: less_mult_imp_div_less mult.commute)
    moreover have "show_nat n = show_nat (n div 10) @ [digit_char (n mod 10)]"
      using False by (simp add: show_nat_def) (subst show_base.simps, simp)
    ultimately show ?thesis by simp
  qed
qed simp

end
