(* ===== verification/LLVM_Inject.thy ===== *)
theory LLVM_Inject
  imports Murmur Text_Stream
begin

text \<open>
  The pass that injects annotations (\<open>LLVMAnalysis/InjectMagic.h\<close> and \<open>AnnotationInjection.cpp\<close>).
  LLVM is not part of the repository: what the pass asks it for is the record \<open>LLVM\<close>, a parameter
  of every definition, and the facts on it that the theorems use are the predicate \<open>llvm_laws\<close>. A
  basic block is the list of its instructions; an instruction of the program is \<open>IR\<close>, the others
  are the calls the pass creates. Creating a call before an instruction puts it in front of that
  instruction; created before a null pointer it is put nowhere. Operations without a defined result
  (the dereferenced end of a block, the entry block of a declaration, a failed assertion) are
  \<open>None\<close>. The diagnostics written to the error stream are left out.
\<close>

subsection \<open>Programs\<close>

datatype 'i Instr =
    IR 'i
  | CallAsm nat string string "u64 list"
  | CallFn string "u64 list"

record 'i Function =
  fn_name :: string
  fn_section :: string
  fn_blocks :: "'i Instr list list"

type_synonym 'i Module = "'i Function list"

text \<open>
  \<open>getFirstInsertionPt\<close> and \<open>getTerminator\<close> as positions in the block (the end of the block, and
  \<open>None\<close> for the null pointer), \<open>isa<ReturnInst>\<close>, and what \<open>raw_string_ostream\<close> leaves in the
  string for a function and for one of its blocks.
\<close>

record 'i LLVM =
  getFirstInsertionPt :: "'i Instr list \<Rightarrow> nat"
  getTerminator :: "'i Instr list \<Rightarrow> nat option"
  isReturnInst :: "'i Instr \<Rightarrow> bool"
  function_text :: "'i Function \<Rightarrow> u8 list"
  block_text :: "'i Function \<Rightarrow> nat \<Rightarrow> u8 list"

subsection \<open>Injected calls\<close>

definition tab :: char where "tab = CHR 0x09"

definition asm_line :: "string \<Rightarrow> string" where
  "asm_line s = tab # s @ [newline]"

text \<open>The call before the instruction at a position of a block.\<close>

definition insert_before :: "nat \<Rightarrow> 'i Instr \<Rightarrow> 'i Instr list \<Rightarrow> 'i Instr list" where
  "insert_before n c b = take n b @ c # drop n b"

definition PIMProfMagic :: "u64 \<Rightarrow> u64 \<Rightarrow> u64 \<Rightarrow> 'i Instr" where
  "PIMProfMagic arg0 arg1 arg2 = CallAsm 3
     (asm_line ''xchg %rcx, %rcx'' @ asm_line ''mov $0, %rax '' @ asm_line ''mov $1, %rbx '' @ asm_line ''mov $2, %rcx '')
     ''imr,imr,imr,~{rax},~{rbx},~{rcx},~{dirflag},~{fpsr},~{flags}'' [arg0, arg1, arg2]"

definition SimMagic0 :: "u64 \<Rightarrow> 'i Instr" where
  "SimMagic0 arg0 = CallAsm 3 (asm_line ''mov $0, %rax '' @ asm_line ''xchg %bx, %bx'')
     ''imr,~{rax},~{dirflag},~{fpsr},~{flags}'' [arg0]"

definition SimMagic2 :: "u64 \<Rightarrow> u64 \<Rightarrow> u64 \<Rightarrow> 'i Instr" where
  "SimMagic2 arg0 arg1 arg2 = CallAsm 3
     (asm_line ''mov $0, %rax '' @ asm_line ''mov $1, %rbx '' @ asm_line ''mov $2, %rcx '' @ asm_line ''xchg %bx, %bx'')
     ''imr,imr,imr,~{rax},~{rbx},~{rcx},~{dirflag},~{fpsr},~{flags}'' [arg0, arg1, arg2]"

definition FunctionCall2 :: "string \<Rightarrow> u64 \<Rightarrow> u64 \<Rightarrow> u64 \<Rightarrow> 'i Instr" where
  "FunctionCall2 funcName arg0 arg1 arg2 = CallFn funcName [arg0, arg1, arg2]"

definition PIMProfVTuneAnnotationName :: string where
  "PIMProfVTuneAnnotationName = ''_Z22PIMProfVTuneAnnotationimm''"

datatype VTUNE_MODE = VTUNE_MODE_CREATE_DOMAIN | VTUNE_MODE_RESUME | VTUNE_MODE_PAUSE | VTUNE_MODE_DETACH
  | VTUNE_MODE_FRAME_BEGIN | VTUNE_MODE_FRAME_END

fun vtune_code :: "VTUNE_MODE \<Rightarrow> u64" where
  "vtune_code VTUNE_MODE_CREATE_DOMAIN = 0"
| "vtune_code VTUNE_MODE_RESUME = 1"
| "vtune_code VTUNE_MODE_PAUSE = 2"
| "vtune_code VTUNE_MODE_DETACH = 3"
| "vtune_code VTUNE_MODE_FRAME_BEGIN = 4"
| "vtune_code VTUNE_MODE_FRAME_END = 5"

text \<open>
  \<open>getOrInsertFunction\<close> adds a declaration to the module unless a function has that name; the
  loops over the functions go on to the declaration, which has no blocks.
\<close>

definition declare_function :: "string \<Rightarrow> 'i Module \<Rightarrow> 'i Module" where
  "declare_function name M =
     (if name \<in> fn_name ` set M then M else M @ [\<lparr>fn_name = name, fn_section = '''', fn_blocks = []\<rparr>])"

subsection \<open>Blocks\<close>

definition hash_text :: "u8 list \<Rightarrow> UUID option" where
  "hash_text content = MurmurHash3_x64_128 content (length content) 0"

text \<open>
  One call at the first insertion point of a block and one before its terminator, which is looked
  up after the first call is in place.
\<close>

definition wrap_block :: "'i LLVM \<Rightarrow> 'i Instr \<Rightarrow> 'i Instr \<Rightarrow> 'i Instr list \<Rightarrow> 'i Instr list option" where
  "wrap_block L head tail b =
     (let n = getFirstInsertionPt L b
      in if length b \<le> n then None
         else let b = insert_before n head b
              in Some (case getTerminator L b of None \<Rightarrow> b | Some t \<Rightarrow> insert_before t tail b))"

definition at_block :: "nat \<Rightarrow> ('i Instr list \<Rightarrow> 'i Instr list option) \<Rightarrow> 'i Function \<Rightarrow> 'i Function option" where
  "at_block i f F = do {
     b \<leftarrow> vec_at (fn_blocks F) (int i); b \<leftarrow> f b;
     bs \<leftarrow> vec_set (fn_blocks F) (int i) b;
     Some (F\<lparr>fn_blocks := bs\<rparr>) }"

text \<open>Calls at the first insertion point of the entry block, in this order.\<close>

definition at_entry :: "'i LLVM \<Rightarrow> 'i Instr list \<Rightarrow> 'i Function \<Rightarrow> 'i Function option" where
  "at_entry L calls F = at_block 0 (\<lambda>b.
     (let n = getFirstInsertionPt L b in if length b \<le> n then None else Some (take n b @ calls @ drop n b))) F"

text \<open>Calls before every return instruction.\<close>

definition before_returns :: "'i LLVM \<Rightarrow> 'i Instr list \<Rightarrow> 'i Function \<Rightarrow> 'i Function" where
  "before_returns L calls F = F\<lparr>fn_blocks :=
     map (\<lambda>b. concat (map (\<lambda>I. if isReturnInst L I then calls @ [I] else [I]) b)) (fn_blocks F)\<rparr>"

subsection \<open>Sniper\<close>

definition InjectSniperAnnotationCallBB :: "'i LLVM \<Rightarrow> 'i Function \<Rightarrow> 'i Function option" where
  "InjectSniperAnnotationCallBB L F = do {
     funchash \<leftarrow> hash_text (function_text L F);
     foldM (\<lambda>i F. do {
       b \<leftarrow> vec_at (fn_blocks F) (int i);
       if b = [] then Some F
       else do {
         bblhash \<leftarrow> hash_text (block_text L F i);
         at_block i (wrap_block L (SimMagic2 SNIPER_SIM_PIMPROF_BBL_START (snd funchash) (snd bblhash))
           (SimMagic2 SNIPER_SIM_PIMPROF_BBL_END (snd funchash) (snd bblhash))) F } })
       [0..<length (fn_blocks F)] F }"

definition InjectSniperAnnotationCallFunc :: "'i LLVM \<Rightarrow> 'i Function \<Rightarrow> 'i Function option" where
  "InjectSniperAnnotationCallFunc L F =
     (if fn_blocks F = [] then Some F
      else do {
        funchash \<leftarrow> hash_text (function_text L F);
        F \<leftarrow> at_entry L [SimMagic2 SNIPER_SIM_PIMPROF_BBL_START (snd funchash) (fst funchash)] F;
        Some (before_returns L [SimMagic2 SNIPER_SIM_PIMPROF_BBL_END (snd funchash) (fst funchash)] F) })"

definition InjectSniperAnnotationCallMain :: "'i LLVM \<Rightarrow> 'i Function \<Rightarrow> 'i Function option" where
  "InjectSniperAnnotationCallMain L F = do {
     F \<leftarrow> at_entry L [SimMagic0 SNIPER_SIM_CMD_ROI_START,
       SimMagic2 SNIPER_SIM_PIMPROF_BBL_START (of_int MAIN_BBLID) (of_int TSJ_BBLID)] F;
     Some (before_returns L [SimMagic2 SNIPER_SIM_PIMPROF_BBL_END (of_int MAIN_BBLID) (of_int TSJ_BBLID),
       SimMagic0 SNIPER_SIM_CMD_ROI_END] F) }"

subsection \<open>VTune\<close>

definition vtune_call :: "VTUNE_MODE \<Rightarrow> u64 \<Rightarrow> u64 \<Rightarrow> 'i Instr" where
  "vtune_call mode hi lo = FunctionCall2 PIMProfVTuneAnnotationName (vtune_code mode) hi lo"

definition InjectVTuneAnnotationCallBB :: "'i LLVM \<Rightarrow> 'i Function \<Rightarrow> 'i Function option" where
  "InjectVTuneAnnotationCallBB L F = do {
     funchash \<leftarrow> hash_text (function_text L F);
     foldM (\<lambda>i F. do {
       b \<leftarrow> vec_at (fn_blocks F) (int i);
       if b = [] then Some F
       else do {
         bblhash \<leftarrow> hash_text (block_text L F i);
         at_block i (wrap_block L (vtune_call VTUNE_MODE_FRAME_BEGIN (snd funchash) (snd bblhash))
           (vtune_call VTUNE_MODE_FRAME_END (snd funchash) (snd bblhash))) F } })
       [0..<length (fn_blocks F)] F }"

definition InjectVTuneAnnotationCallFunc :: "'i LLVM \<Rightarrow> 'i Function \<Rightarrow> 'i Function option" where
  "InjectVTuneAnnotationCallFunc L F =
     (if fn_blocks F = [] then Some F
      else do {
        funchash \<leftarrow> hash_text (function_text L F);
        F \<leftarrow> at_entry L [vtune_call VTUNE_MODE_FRAME_BEGIN (snd funchash) (fst funchash)] F;
        Some (before_returns L [vtune_call VTUNE_MODE_FRAME_END (snd funchash) (fst funchash)] F) })"

definition InjectVTuneAnnotationCallMain :: "'i LLVM \<Rightarrow> 'i Function \<Rightarrow> 'i Function option" where
  "InjectVTuneAnnotationCallMain L F = do {
     F \<leftarrow> at_entry L [vtune_call VTUNE_MODE_RESUME (of_int MAIN_BBLID) (of_int MAIN_BBLID)] F;
     Some (before_returns L [vtune_call VTUNE_MODE_DETACH (of_int MAIN_BBLID) (of_int MAIN_BBLID)] F) }"

subsection \<open>PIMProf\<close>

definition OpenMPIdentifier :: string where "OpenMPIdentifier = ''.omp''"

definition InjectPIMProfAnnotationCall :: "'i LLVM \<Rightarrow> nat \<Rightarrow> 'i Function \<Rightarrow> 'i Function option" where
  "InjectPIMProfAnnotationCall L i F = do {
     bblhash \<leftarrow> hash_text (block_text L F i);
     let isomp = of_bool (contains (fn_name F) OpenMPIdentifier);
     let control_head = GetControlValue (magic_code MAGIC_OP_ANNOTATIONHEAD) isomp;
     let control_tail = GetControlValue (magic_code MAGIC_OP_ANNOTATIONTAIL) isomp;
     at_block i (wrap_block L (PIMProfMagic (snd bblhash) (fst bblhash) control_head)
       (PIMProfMagic (snd bblhash) (fst bblhash) control_tail)) F }"

subsection \<open>The module pass\<close>

datatype InjectMode = SNIPER | SNIPER2 | VTUNE | VTUNE2 | PIMPROF | DEFAULT_MODE | INVALID_MODE

definition inject_mode :: "string \<Rightarrow> InjectMode option" where
  "inject_mode env =
     (if env = ''SNIPER'' then Some SNIPER
      else if env = ''SNIPER2'' then Some SNIPER2
      else if env = ''PIMPROF'' then Some PIMPROF
      else if env = ''VTUNE'' then Some VTUNE
      else if env = ''VTUNE2'' then Some VTUNE2
      else None)"

text \<open>A loop over the functions of the module, the earlier ones already changed.\<close>

definition for_functions :: "('i Function \<Rightarrow> 'i Function option) \<Rightarrow> 'i Module \<Rightarrow> 'i Module option" where
  "for_functions f M = foldM (\<lambda>i M. do { F \<leftarrow> vec_at M (int i); F \<leftarrow> f F; vec_set M (int i) F }) [0..<length M] M"

definition for_main :: "('i Function \<Rightarrow> 'i Function option) \<Rightarrow> 'i Function \<Rightarrow> 'i Function option" where
  "for_main f F = (if fn_name F = ''main'' then f F else Some F)"

definition not_startup :: "('i Function \<Rightarrow> 'i Function option) \<Rightarrow> 'i Function \<Rightarrow> 'i Function option" where
  "not_startup f F = (if fn_section F \<noteq> ''.text.startup'' then f F else Some F)"

text \<open>The declaration of the VTune function appears with the first call to it.\<close>

fun calls_function :: "string \<Rightarrow> 'i Instr \<Rightarrow> bool" where
  "calls_function name (CallFn n args) = (n = name)"
| "calls_function name I = False"

definition declare_if_used :: "'i Module \<Rightarrow> 'i Module" where
  "declare_if_used M =
     (if list_ex (\<lambda>F. list_ex (list_ex (calls_function PIMProfVTuneAnnotationName)) (fn_blocks F)) M
      then declare_function PIMProfVTuneAnnotationName M else M)"

definition AnnotationInjection :: "'i LLVM \<Rightarrow> string option \<Rightarrow> 'i Module \<Rightarrow> 'i Module option" where
  "AnnotationInjection L injectmodeenv M = do {
     env \<leftarrow> injectmodeenv; mode \<leftarrow> inject_mode env;
     case mode of
       PIMPROF \<Rightarrow> for_functions (\<lambda>F. foldM (InjectPIMProfAnnotationCall L) [0..<length (fn_blocks F)] F) M
     | SNIPER \<Rightarrow> do {
         M \<leftarrow> for_functions (InjectSniperAnnotationCallBB L) M;
         for_functions (for_main (InjectSniperAnnotationCallMain L)) M }
     | SNIPER2 \<Rightarrow> for_functions (\<lambda>F. if fn_name F = ''main'' then InjectSniperAnnotationCallMain L F
         else InjectSniperAnnotationCallFunc L F) M
     | VTUNE \<Rightarrow> do {
         M \<leftarrow> for_functions (not_startup (InjectVTuneAnnotationCallBB L)) M;
         M \<leftarrow> for_functions (for_main (InjectVTuneAnnotationCallMain L)) M;
         Some (declare_if_used M) }
     | VTUNE2 \<Rightarrow> do {
         M \<leftarrow> for_functions (not_startup (InjectVTuneAnnotationCallFunc L)) M;
         M \<leftarrow> for_functions (for_main (InjectVTuneAnnotationCallMain L)) M;
         Some (declare_if_used M) }
     | _ \<Rightarrow> Some M }"

end
