(* ===== verification/Reuse_File.thy ===== *)
theory Reuse_File
  imports Text_Stream Solver_Cost
begin

text \<open>
  The reuse file: the recorder writes its segments and switch counters
  (\<open>PrintDataReuseSegments\<close>, \<open>PrintBBLSwitchCount\<close> of \<open>Stats.h\<close> and the print functions of
  \<open>DataReuse.h\<close>), the solver reads them (\<open>ParseReuse\<close> of \<open>CostSolver.cpp\<close>). \<open>get_id\<close> turns what a
  trie is labelled with into a block identifier; it is partial because it reads an object.
\<close>

definition HORIZONTAL_LINE :: string where
  "HORIZONTAL_LINE = replicate 60 (CHR ''='')"

subsection \<open>Writing\<close>

definition print_ids :: "('a \<Rightarrow> BBLID option) \<Rightarrow> 'a list \<Rightarrow> string option" where
  "print_ids get_id xs = foldM (\<lambda>x out. do { i \<leftarrow> get_id x; Some (out @ show_int i @ '' '') }) xs ''''"

definition print_segment :: "('a \<Rightarrow> BBLID option) \<Rightarrow> 'a DataReuseSegment \<Rightarrow> string option" where
  "print_segment get_id seg = do {
     h \<leftarrow> seg_head seg;
     i \<leftarrow> get_id h;
     ids \<leftarrow> print_ids get_id (seg_set seg);
     Some (''head = '' @ show_int i @ '', '' @ ''count = '' @ show_nat (unat (seg_count seg)) @ '' | '' @ ids @ [newline]) }"

definition PrintAllSegments :: "('a::linorder \<Rightarrow> BBLID option) \<Rightarrow> 'a DataReuse \<Rightarrow> string option" where
  "PrintAllSegments get_id dr =
     foldM (\<lambda>leaf out. do {
         seg \<leftarrow> ExportSegment dr new_segment leaf;
         s \<leftarrow> print_segment get_id seg;
         Some (out @ s) }) (leaves dr) ''''"

definition print_cell :: "('a \<Rightarrow> BBLID option) \<Rightarrow> 'a SwitchCountMatrix \<Rightarrow> u64 list \<Rightarrow> nat \<Rightarrow> string option" where
  "print_cell get_id m row toidx = do {
     c \<leftarrow> vec_at row (int toidx);
     if c > 0 then do {
       e \<leftarrow> getElem toidx m; i \<leftarrow> get_id e;
       Some (show_int i @ '':'' @ show_nat (unat c) @ '' '') }
     else Some '''' }"

definition print_matrix :: "('a \<Rightarrow> BBLID option) \<Rightarrow> 'a SwitchCountMatrix \<Rightarrow> string option" where
  "print_matrix get_id m =
     foldM (\<lambda>fromidx out. do {
         total \<leftarrow> vec_at (total_count m) (int fromidx);
         if total > 0 then do {
           e \<leftarrow> getElem fromidx m; i \<leftarrow> get_id e;
           row \<leftarrow> vec_at (count_rows m) (int fromidx);
           cells \<leftarrow> foldM (\<lambda>toidx out. do { s \<leftarrow> print_cell get_id m row toidx; Some (out @ s) }) [0..<length row] '''';
           Some (out @ ''from = '' @ show_int i @ '' | '' @ cells @ [newline]) }
         else Some out }) [0..<length (count_rows m)] ''''"

definition PrintDataReuseSegments :: "int \<Rightarrow> ('a::linorder \<Rightarrow> BBLID option) \<Rightarrow> 'a DataReuse \<Rightarrow> string option" where
  "PrintDataReuseSegments tid get_id dr = do {
     s \<leftarrow> PrintAllSegments get_id dr;
     Some (HORIZONTAL_LINE @ [newline] @ ''ReuseSegment - Thread '' @ show_int tid @ [newline] @ s) }"

definition PrintBBLSwitchCount :: "int \<Rightarrow> ('a \<Rightarrow> BBLID option) \<Rightarrow> 'a SwitchCountMatrix \<Rightarrow> string option" where
  "PrintBBLSwitchCount tid get_id m = do {
     s \<leftarrow> print_matrix get_id m;
     Some (HORIZONTAL_LINE @ [newline] @ ''BBLSwitchCount - Thread '' @ show_int tid @ [newline] @ s) }"

subsection \<open>Reading\<close>

text \<open>\<open>while (ss >> bblid)\<close> and \<open>while (ss >> token)\<close>; what is left becomes shorter in each round.\<close>

lemma dropWhile_shorter: "takeWhile P s \<noteq> [] \<Longrightarrow> length (dropWhile P s) < length s"
  by (cases s) (auto simp: le_imp_less_Suc length_dropWhile_le split: if_splits)

lemma scan_num_shorter:
  assumes "scan_num base s = Some (neg, n, r)"
  shows "length r < length s"
proof -
  obtain sg where sg: "scan_sign s = (neg, sg)"
    using assms by (cases "scan_sign s") (auto simp: scan_num_def Let_def split: if_splits)
  have "length (skip_0x base sg) \<le> length s"
    using sg by (auto simp: skip_0x_def scan_sign_def split: list.splits if_splits)
  moreover have "takeWhile (is_digit base) (skip_0x base sg) \<noteq> []" "r = dropWhile (is_digit base) (skip_0x base sg)"
    using assms sg by (auto simp: scan_num_def Let_def split: if_splits)
  ultimately show ?thesis using dropWhile_shorter by (metis order_less_le_trans)
qed

lemma ext_i64_shorter:
  assumes "ext_i64 (Some s) old = (Some r, v)"
  shows "length r < length s"
proof -
  obtain neg n where "scan_num 10 (dropWhile is_space s) = Some (neg, n, r)"
    using assms by (auto simp: ext_int_def Let_def split: if_splits option.splits)
  then show ?thesis using scan_num_shorter length_dropWhile_le by (metis order_less_le_trans)
qed

lemma ext_tok_shorter:
  assumes "ext_tok (Some s) old = (Some r, t)"
  shows "length r < length s"
proof -
  have "r = dropWhile (\<lambda>c. \<not> is_space c) (dropWhile is_space s)" "dropWhile is_space s \<noteq> []"
    using assms by (auto simp: ext_tok_def Let_def split: if_splits)
  moreover from this(2) have "takeWhile (\<lambda>c. \<not> is_space c) (dropWhile is_space s) \<noteq> []"
    using hd_dropWhile [of is_space s] by (cases "dropWhile is_space s") auto
  ultimately show ?thesis using dropWhile_shorter length_dropWhile_le by (metis order_less_le_trans)
qed

function read_ids :: "string \<Rightarrow> int list" where
  "read_ids s = (case ext_i64 (Some s) None of (Some r, Some v) \<Rightarrow> v # read_ids r | _ \<Rightarrow> [])"
  by pat_completeness auto
termination by (relation "measure length") (auto intro: ext_i64_shorter [OF sym])

function read_toks :: "string \<Rightarrow> string list" where
  "read_toks s = (case ext_tok (Some s) '''' of (Some r, t) \<Rightarrow> t # read_toks r | _ \<Rightarrow> [])"
  by pat_completeness auto
termination by (relation "measure length") (auto intro: ext_tok_shorter [OF sym])

declare read_ids.simps [simp del] read_toks.simps [simp del]

definition ids_left :: "iss \<Rightarrow> int list" where
  "ids_left ss = (case ss of None \<Rightarrow> [] | Some s \<Rightarrow> read_ids s)"

definition toks_left :: "iss \<Rightarrow> string list" where
  "toks_left ss = (case ss of None \<Rightarrow> [] | Some s \<Rightarrow> read_toks s)"

text \<open>The key of the two maps of data movement between blocks.\<close>

definition bb_pair :: "BBLID \<Rightarrow> BBLID \<Rightarrow> BBLID \<times> BBLID" where
  "bb_pair a b = (min a b, max a b)"

text \<open>
  One line of the segment part. The \<open>token\<close> of the caller is kept where nothing is read; a count
  that was never written has no defined value.
\<close>

definition parse_segment :: "string \<Rightarrow> string \<times> CostSolver \<Rightarrow> (string \<times> CostSolver) option" where
  "parse_segment line = (\<lambda>(token, S). do {
     let (ss, token) = ext_tok (Some line) token;
     let (ss, token) = ext_tok ss token;
     let (ss, token) = ext_tok ss token;
     head \<leftarrow> stoi (take (length token - 1) token);
     let (ss, token) = ext_tok ss token;
     let (ss, token) = ext_tok ss token;
     let (ss, count) = ext_i64 ss None;
     let (ss, token) = ext_tok ss token;
     count \<leftarrow> count;
     let (seg, dm, _) = fold (\<lambda>bblid (seg, dm, prebblid).
           (seg_insert bblid seg, omap_add (bb_pair bblid prebblid) (real_of_int count) dm, bblid))
         (ids_left ss) (new_segment, interBB_CL_DM S, head);
     let seg = seg_setHead head seg;
     if count < 0 then None
     else do {
       reuse \<leftarrow> UpdateTrie own_root (seg_setCount (word_of_int count) seg) (bbl_data_reuse S);
       Some (token, S\<lparr>interBB_CL_DM := dm, bbl_data_reuse := reuse\<rparr>) } })"

text \<open>\<open>to:count\<close>; without a colon both substrings are the whole token.\<close>

definition parse_cell :: "string \<Rightarrow> (BBLID \<times> u64) option" where
  "parse_cell token = do {
     let pre = takeWhile (\<lambda>c. c \<noteq> CHR '':'') token;
     let post = (if CHR '':'' \<in> set token then drop (length pre + 1) token else token);
     toidx \<leftarrow> stoull pre;
     count \<leftarrow> stoull post;
     Some (sint toidx, count) }"

definition parse_switch :: "string \<Rightarrow> string \<times> CostSolver \<Rightarrow> (string \<times> CostSolver) option" where
  "parse_switch line = (\<lambda>(token, S). do {
     let (ss, token) = ext_tok (Some line) token;
     let (ss, token) = ext_tok ss token;
     let (ss, fromidx) = ext_i64 ss None;
     let (ss, token) = ext_tok ss token;
     let toks = toks_left ss;
     fromidx \<leftarrow> fromidx;
     (toidxvec, dm) \<leftarrow> foldM (\<lambda>t (toidxvec, dm). do {
         (toidx, count) \<leftarrow> parse_cell t;
         Some (toidxvec @ [(toidx, count)], omap_add (bb_pair fromidx toidx) (real (unat count)) dm) })
       toks ([], interBB_REG_DM S);
     rows \<leftarrow> RowInsert fromidx toidxvec (bbl_switch_count S);
     Some (if toks = [] then token else last toks, S\<lparr>interBB_REG_DM := dm, bbl_switch_count := rows\<rparr>) })"

text \<open>A separator and the line after it choose the part; \<open>getline\<close> at the end leaves an empty line.\<close>

definition parse_title :: "string \<Rightarrow> string \<Rightarrow> (string \<times> bool) option" where
  "parse_title line token =
     (let (ss, token) = ext_tok (Some line) token in
      if token = ''ReuseSegment'' then Some (token, True)
      else if token = ''BBLSwitchCount'' then Some (token, False) else None)"

fun parse_lines :: "string list \<Rightarrow> bool \<Rightarrow> string \<times> CostSolver \<Rightarrow> (string \<times> CostSolver) option" where
  "parse_lines [] isreuse st = Some st"
| "parse_lines [line] isreuse st =
     (if contains line HORIZONTAL_LINE
      then do { (token, isreuse) \<leftarrow> parse_title '''' (fst st); Some (token, snd st) }
      else if isreuse then parse_segment line st else parse_switch line st)"
| "parse_lines (line # next # rest) isreuse st =
     (if contains line HORIZONTAL_LINE
      then do { (token, isreuse) \<leftarrow> parse_title next (fst st); parse_lines rest isreuse (token, snd st) }
      else do {
        st \<leftarrow> (if isreuse then parse_segment line st else parse_switch line st);
        parse_lines (next # rest) isreuse st })"

definition ParseReuse :: "string \<Rightarrow> CostSolver \<Rightarrow> CostSolver option" where
  "ParseReuse ifs S = do {
     (token, S) \<leftarrow> parse_lines (lines_of ifs) True ('''', S);
     Some (S\<lparr>bbl_switch_count := List_Sort (bbl_switch_count S)\<rparr>) }"

subsection \<open>Reading back a segment\<close>

definition ids_text :: "BBLID list \<Rightarrow> string" where
  "ids_text ids = concat (map (\<lambda>i. show_int i @ '' '') ids)"

definition seg_text :: "BBLID \<Rightarrow> nat \<Rightarrow> BBLID list \<Rightarrow> string" where
  "seg_text h c ids = ''head = '' @ show_int h @ '', '' @ ''count = '' @ show_nat c @ '' | '' @ ids_text ids"

definition id32 :: "int \<Rightarrow> bool" where
  "id32 i \<longleftrightarrow> 0 \<le> i \<and> i < 2 ^ 31"

lemma spaces [simp]: "is_space (CHR '' '')" "\<not> is_space (CHR ''='')" "\<not> is_space (CHR ''|'')" "\<not> is_space (CHR '','')"
  by (simp_all add: is_space_def)

lemma print_ids_text:
  assumes "\<forall>x \<in> set xs. get_id x = Some (f x)"
  shows "print_ids get_id xs = Some (ids_text (map f xs))"
proof -
  have "foldM (\<lambda>x out. do { i \<leftarrow> get_id x; Some (out @ show_int i @ '' '') }) xs out = Some (out @ ids_text (map f xs))" for out
    using assms by (induction xs arbitrary: out) (simp_all add: ids_text_def)
  from this [of "[]"] show ?thesis by (simp add: print_ids_def)
qed

lemma read_ids_text: "\<forall>i \<in> set ids. id32 i \<Longrightarrow> read_ids ('' '' @ ids_text ids) = ids"
proof (induction ids)
  case Nil
  have "ext_i64 (Some '' '') None = (None, None)" by (simp add: ext_int_def)
  then show ?case by (subst read_ids.simps) (simp add: ids_text_def)
next
  case (Cons i ids)
  have "ext_i64 (Some ('' '' @ show_int i @ '' '' @ ids_text ids)) None = (Some ('' '' @ ids_text ids), Some i)"
    by (rule ext_i64_show) (use Cons.prems in \<open>simp_all add: id32_def\<close>)
  then have "ext_i64 (Some ('' '' @ ids_text (i # ids))) None = (Some ('' '' @ ids_text ids), Some i)"
    by (simp add: ids_text_def)
  then show ?case using Cons by (subst read_ids.simps) simp
qed

lemma words [simp]: "\<forall>c \<in> set (show_int i). \<not> is_space c" "\<forall>c \<in> set (show_nat n). \<not> is_space c"
  using show_int_props show_nat_props by blast+

text \<open>The pairs of neighbours along a segment that starts at \<open>h\<close>.\<close>

definition moves :: "BBLID \<Rightarrow> BBLID list \<Rightarrow> (BBLID \<times> BBLID) list" where
  "moves h ids = map2 bb_pair ids (h # ids)"

definition add_moves :: "(BBLID \<times> BBLID) list \<Rightarrow> COST \<Rightarrow> ((BBLID \<times> BBLID) \<times> COST) list \<Rightarrow> ((BBLID \<times> BBLID) \<times> COST) list" where
  "add_moves ps c dm = fold (\<lambda>p. omap_add p c) ps dm"

lemma ids_loop:
  "fold (\<lambda>bblid (seg, dm, prebblid). (seg_insert bblid seg, omap_add (bb_pair bblid prebblid) c dm, bblid)) ids (seg, dm, p) =
     (fold seg_insert ids seg, add_moves (moves p ids) c dm, last (p # ids))"
  by (induction ids arbitrary: seg dm p) (simp_all add: moves_def add_moves_def)

lemma fold_seg_insert: "seg_set (fold seg_insert ids seg) = fold oset_insert ids (seg_set seg)"
  by (induction ids arbitrary: seg) (simp_all add: seg_insert_def)

definition read_seg :: "BBLID \<Rightarrow> nat \<Rightarrow> BBLID list \<Rightarrow> BBLID DataReuseSegment" where
  "read_seg h c ids = \<lparr>seg_head = Some h, seg_set = fold oset_insert ids [], seg_count = of_nat c\<rparr>"

lemma read_seg_fold: "seg_setCount (of_nat c) (seg_setHead h (fold seg_insert ids new_segment)) = read_seg h c ids"
  using fold_seg_insert [of ids new_segment] by (simp add: seg_setCount_def seg_setHead_def read_seg_def new_segment_def)

lemma seg_tokens:
  assumes "id32 h" and "c < 2 ^ 63"
  shows "ext_tok (Some (seg_text h c ids)) t = (Some ('' = '' @ show_int h @ '', count = '' @ show_nat c @ '' | '' @ ids_text ids), ''head'')"
    and "ext_tok (Some ('' = '' @ s)) t = (Some ('' '' @ s), ''='')"
    and "ext_tok (Some ('' '' @ show_int h @ '', count = '' @ s)) t = (Some ('' count = '' @ s), show_int h @ '','')"
    and "ext_tok (Some ('' count = '' @ s)) t = (Some ('' = '' @ s), ''count'')"
    and "ext_i64 (Some ('' '' @ show_nat c @ '' '' @ s)) old = (Some ('' '' @ s), Some (int c))"
    and "ext_tok (Some ('' | '' @ s)) t = (Some ('' '' @ s), ''|'')"
proof -
  show "ext_tok (Some (seg_text h c ids)) t = (Some ('' = '' @ show_int h @ '', count = '' @ show_nat c @ '' | '' @ ids_text ids), ''head'')"
    using ext_tok_word [of "[]" "''head''" "'' = '' @ show_int h @ '', count = '' @ show_nat c @ '' | '' @ ids_text ids" t]
    by (simp add: seg_text_def is_space_def)
  show "ext_tok (Some ('' = '' @ s)) t = (Some ('' '' @ s), ''='')"
    using ext_tok_word [of "'' ''" "''=''" "'' '' @ s" t] by simp
  show "ext_tok (Some ('' '' @ show_int h @ '', count = '' @ s)) t = (Some ('' count = '' @ s), show_int h @ '','')"
    using ext_tok_word [of "'' ''" "show_int h @ '',''" "'' count = '' @ s" t] by simp
  show "ext_tok (Some ('' count = '' @ s)) t = (Some ('' = '' @ s), ''count'')"
    using ext_tok_word [of "'' ''" "''count''" "'' = '' @ s" t] by (simp add: is_space_def)
  show "ext_i64 (Some ('' '' @ show_nat c @ '' '' @ s)) old = (Some ('' '' @ s), Some (int c))"
    using ext_i64_show [of "'' ''" "'' '' @ s" 63 "int c" old] assms(2) by (simp add: show_int_of_nat)
  show "ext_tok (Some ('' | '' @ s)) t = (Some ('' '' @ s), ''|'')"
    using ext_tok_word [of "'' ''" "''|''" "'' '' @ s" t] by simp
qed

lemma parse_segment_text:
  assumes "id32 h" and "c < 2 ^ 63" and "\<forall>i \<in> set ids. id32 i"
  shows "parse_segment (seg_text h c ids) (t, S) = do {
     reuse \<leftarrow> UpdateTrie own_root (read_seg h c ids) (bbl_data_reuse S);
     Some (''|'', S\<lparr>interBB_CL_DM := add_moves (moves h ids) (real c) (interBB_CL_DM S), bbl_data_reuse := reuse\<rparr>) }"
proof -
  have h: "stoi (take (length (show_int h @ '','') - 1) (show_int h @ '','')) = Some h"
    using stoi_show [of "[]" h] assms(1) by (simp add: id32_def)
  have toks: "ext_tok (Some ('' '' @ show_int h @ '', count = '' @ s)) t = (Some ('' count = '' @ s), show_int h @ '','')"
    "ext_tok (Some ('' = '' @ s)) t = (Some ('' '' @ s), ''='')"
    "ext_i64 (Some ('' '' @ show_nat c @ '' | '' @ ids_text ids)) old = (Some ('' | '' @ ids_text ids), Some (int c))" for s t old
    using seg_tokens(2,3) [OF assms(1,2)] seg_tokens(5) [OF assms(1,2), of "''| '' @ ids_text ids" old] by simp_all
  have "ids_left (Some ('' '' @ ids_text ids)) = ids" using read_ids_text [OF assms(3)] by (simp add: ids_left_def)
  moreover have "word_of_int (int c) = (of_nat c :: u64)" by simp
  ultimately show ?thesis
    unfolding parse_segment_def prod.case Let_def seg_tokens(1,4,6) [OF assms(1,2)] toks h bind.bind_lunit ids_loop
    by (simp add: read_seg_fold)
qed

subsection \<open>Reading back a row of switch counters\<close>

definition cell_text :: "BBLID \<times> u64 \<Rightarrow> string" where
  "cell_text = (\<lambda>(j, c). show_int j @ '':'' @ show_nat (unat c))"

definition cells_text :: "(BBLID \<times> u64) list \<Rightarrow> string" where
  "cells_text vec = concat (map (\<lambda>e. cell_text e @ '' '') vec)"

definition row_text :: "BBLID \<times> (BBLID \<times> u64) list \<Rightarrow> string" where
  "row_text = (\<lambda>(i, vec). ''from = '' @ show_int i @ '' | '' @ cells_text vec)"

lemma cell_word: "cell_text e \<noteq> []" "\<forall>c \<in> set (cell_text e). \<not> is_space c"
  by (cases e; auto simp: cell_text_def is_space_def dest: show_int_props(1) show_nat_props(2))+

lemma read_toks_cells: "read_toks ('' '' @ cells_text vec) = map cell_text vec"
proof (induction vec)
  case Nil
  have "ext_tok (Some '' '') [] = (None, [])" by (simp add: ext_tok_def)
  then show ?case by (subst read_toks.simps) (simp add: cells_text_def)
next
  case (Cons e vec)
  have "ext_tok (Some ('' '' @ cell_text e @ '' '' @ cells_text vec)) [] = (Some ('' '' @ cells_text vec), cell_text e)"
    by (rule ext_tok_word) (use cell_word in simp_all)
  then have "ext_tok (Some ('' '' @ cells_text (e # vec))) [] = (Some ('' '' @ cells_text vec), cell_text e)"
    by (simp add: cells_text_def)
  then show ?case using Cons by (subst read_toks.simps) simp
qed

lemma sint_id: "id32 j \<Longrightarrow> sint (of_nat (nat j) :: u64) = j"
proof -
  assume "id32 j"
  then have "0 \<le> j" "j < 2 ^ 31" by (simp_all add: id32_def)
  then have "(of_nat (nat j) :: u64) = word_of_int j" by simp
  moreover have "signed_take_bit 63 j = j" using \<open>0 \<le> j\<close> \<open>j < 2 ^ 31\<close> by (intro signed_take_bit_int_eq_self) simp_all
  ultimately show ?thesis by (simp add: signed_of_int)
qed

lemma parse_cell_text:
  assumes "id32 j"
  shows "parse_cell (cell_text (j, c)) = Some (j, c)"
proof -
  have j: "show_int j = show_nat (nat j)" using assms by (simp add: id32_def show_int_def)
  have nc: "\<forall>x \<in> set (show_nat (nat j)). x \<noteq> CHR '':''" using show_nat_props by blast
  then have pre: "takeWhile (\<lambda>c. c \<noteq> CHR '':'') (cell_text (j, c)) = show_nat (nat j)"
    by (simp add: cell_text_def j takeWhile_append)
  have "nat j < 2 ^ 64" using assms by (auto simp: id32_def nat_less_iff)
  moreover have "unat c < 2 ^ LENGTH(64)" by (rule unsigned_less)
  ultimately have "stoull (show_nat (nat j)) = Some (of_nat (nat j))" "stoull (show_nat (unat c)) = Some (of_nat (unat c))"
    using stoull_show [of "[]"] by simp_all
  moreover have "CHR '':'' \<in> set (cell_text (j, c))" "drop (length (show_nat (nat j)) + 1) (cell_text (j, c)) = show_nat (unat c)"
    by (simp_all add: cell_text_def j)
  moreover have "(of_nat (unat c) :: u64) = c" by (metis of_nat_unat ucast_id)
  ultimately show ?thesis using sint_id [OF assms] by (simp add: parse_cell_def Let_def pre)
qed

definition add_row :: "BBLID \<Rightarrow> (BBLID \<times> u64) list \<Rightarrow> ((BBLID \<times> BBLID) \<times> COST) list \<Rightarrow> ((BBLID \<times> BBLID) \<times> COST) list" where
  "add_row i vec dm = fold (\<lambda>(j, c). omap_add (bb_pair i j) (real (unat c))) vec dm"

lemma cells_loop:
  "\<forall>(j, c) \<in> set vec. id32 j \<Longrightarrow>
   foldM (\<lambda>t (toidxvec, dm). do { (toidx, count) \<leftarrow> parse_cell t;
       Some (toidxvec @ [(toidx, count)], omap_add (bb_pair i toidx) (real (unat count)) dm) })
     (map cell_text vec) (out, dm) = Some (out @ vec, add_row i vec dm)"
  by (induction vec arbitrary: out dm) (auto simp: add_row_def parse_cell_text)

lemma row_tokens:
  assumes "id32 i"
  shows "ext_tok (Some (row_text (i, vec))) t = (Some ('' = '' @ show_int i @ '' | '' @ cells_text vec), ''from'')"
    and "ext_i64 (Some ('' '' @ show_int i @ '' | '' @ s)) old = (Some ('' | '' @ s), Some i)"
proof -
  show "ext_tok (Some (row_text (i, vec))) t = (Some ('' = '' @ show_int i @ '' | '' @ cells_text vec), ''from'')"
    using ext_tok_word [of "[]" "''from''" "'' = '' @ show_int i @ '' | '' @ cells_text vec" t]
    by (simp add: row_text_def is_space_def)
  show "ext_i64 (Some ('' '' @ show_int i @ '' | '' @ s)) old = (Some ('' | '' @ s), Some i)"
    using ext_i64_show [of "'' ''" "'' | '' @ s" 63 i old] assms by (simp add: id32_def)
qed

lemma parse_switch_text:
  assumes "id32 i" and "\<forall>(j, c) \<in> set vec. id32 j"
  shows "parse_switch (row_text (i, vec)) (t, S) = do {
     rows \<leftarrow> RowInsert i vec (bbl_switch_count S);
     Some (if vec = [] then ''|'' else cell_text (last vec),
       S\<lparr>interBB_REG_DM := add_row i vec (interBB_REG_DM S), bbl_switch_count := rows\<rparr>) }"
proof -
  have toks: "ext_tok (Some ('' = '' @ s)) t = (Some ('' '' @ s), ''='')" "ext_tok (Some ('' | '' @ s)) t = (Some ('' '' @ s), ''|'')" for s t
    using ext_tok_word [of "'' ''" "''=''" "'' '' @ s" t] ext_tok_word [of "'' ''" "''|''" "'' '' @ s" t] by simp_all
  have "toks_left (Some ('' '' @ cells_text vec)) = map cell_text vec" using read_toks_cells by (simp add: toks_left_def)
  then show ?thesis
    unfolding parse_switch_def prod.case Let_def row_tokens [OF assms(1)] toks bind.bind_lunit
    by (simp add: cells_loop [OF assms(2), where out = "[]", simplified] last_map)
qed

subsection \<open>Reading back the file\<close>

lemma parse_lines_plain:
  "\<not> contains line HORIZONTAL_LINE \<Longrightarrow> parse_lines (line # rest) b st = do {
     st \<leftarrow> (if b then parse_segment line st else parse_switch line st); parse_lines rest b st }"
  by (cases rest) (simp_all split: bind_splits)

lemma parse_lines_part:
  "\<forall>l \<in> set ls. \<not> contains l HORIZONTAL_LINE \<Longrightarrow> parse_lines (ls @ rest) b st = do {
     st \<leftarrow> foldM (\<lambda>l. if b then parse_segment l else parse_switch l) ls st; parse_lines rest b st }"
  by (induction ls arbitrary: st) (auto simp: parse_lines_plain split: bind_splits)

lemma contains_self: "contains s s"
  by (auto simp: contains_def list_ex_iff)

lemma count_eq: "count_list (show_int i) (CHR ''='') = 0" "count_list (show_nat n) (CHR ''='') = 0"
  using show_int_props(5) show_nat_props(8) by (auto simp: count_list_0_iff)

lemma count_eq_texts:
  "count_list (ids_text ids) (CHR ''='') = 0" "count_list (cells_text vec) (CHR ''='') = 0"
proof -
  show "count_list (ids_text ids) (CHR ''='') = 0"
    by (induction ids) (simp_all add: ids_text_def count_eq)
  show "count_list (cells_text vec) (CHR ''='') = 0"
    by (induction vec) (auto simp: cells_text_def cell_text_def count_eq)
qed

lemma no_separator:
  assumes "count_list s (CHR ''='') < 60"
  shows "\<not> contains s HORIZONTAL_LINE"
proof
  assume "contains s HORIZONTAL_LINE"
  from contains_count [OF this, of "CHR ''=''"] have "count_list HORIZONTAL_LINE (CHR ''='') \<le> count_list s (CHR ''='')" .
  moreover have "count_list (replicate n c) c = n" for n and c :: char by (induction n) simp_all
  then have "count_list HORIZONTAL_LINE (CHR ''='') = 60" by (simp only: HORIZONTAL_LINE_def)
  ultimately show False using assms by linarith
qed

lemma texts_plain:
  "\<not> contains (seg_text h c ids) HORIZONTAL_LINE" "\<not> contains (row_text e) HORIZONTAL_LINE"
  by (rule no_separator, simp add: seg_text_def count_eq count_eq_texts,
      rule no_separator, cases e, simp add: row_text_def count_eq count_eq_texts)

lemma titles:
  "parse_title (''ReuseSegment - Thread '' @ s) t = Some (''ReuseSegment'', True)"
  "parse_title (''BBLSwitchCount - Thread '' @ s) t = Some (''BBLSwitchCount'', False)"
  using ext_tok_word [of "[]" "''ReuseSegment''" "'' - Thread '' @ s" t]
    ext_tok_word [of "[]" "''BBLSwitchCount''" "'' - Thread '' @ s" t]
  by (simp_all add: parse_title_def is_space_def)

text \<open>A segment as it is printed: head, count and members by identifier.\<close>

type_synonym seg_line = "BBLID \<times> nat \<times> BBLID list"

definition seg_line_ok :: "seg_line \<Rightarrow> bool" where
  "seg_line_ok = (\<lambda>(h, c, ids). id32 h \<and> c < 2 ^ 63 \<and> (\<forall>i \<in> set ids. id32 i))"

definition row_line_ok :: "BBLID \<times> (BBLID \<times> u64) list \<Rightarrow> bool" where
  "row_line_ok = (\<lambda>(i, vec). id32 i \<and> (\<forall>(j, c) \<in> set vec. id32 j))"

definition read_segs :: "seg_line list \<Rightarrow> BBLID DataReuseSegment list" where
  "read_segs sl = map (\<lambda>(h, c, ids). read_seg h c ids) sl"

definition reuse_text :: "int \<Rightarrow> int \<Rightarrow> seg_line list \<Rightarrow> (BBLID \<times> (BBLID \<times> u64) list) list \<Rightarrow> string" where
  "reuse_text t1 t2 sl rl = concat (map (\<lambda>l. l @ [newline])
     (HORIZONTAL_LINE # (''ReuseSegment - Thread '' @ show_int t1) # map (\<lambda>(h, c, ids). seg_text h c ids) sl @
      HORIZONTAL_LINE # (''BBLSwitchCount - Thread '' @ show_int t2) # map row_text rl))"

lemma foldM_segments:
  "\<forall>e \<in> set sl. seg_line_ok e \<Longrightarrow> \<exists>tok. 
   foldM parse_segment (map (\<lambda>(h, c, ids). seg_text h c ids) sl) (t, S) = do {
     reuse \<leftarrow> insert_segs own_root (read_segs sl) (bbl_data_reuse S);
     Some (tok, S\<lparr>interBB_CL_DM := fold (\<lambda>(h, c, ids). add_moves (moves h ids) (real c)) sl (interBB_CL_DM S),
       bbl_data_reuse := reuse\<rparr>) }"
proof (induction sl arbitrary: t S)
  case Nil
  then show ?case by (simp add: insert_segs_def read_segs_def)
next
  case (Cons e sl)
  obtain h c ids where e: "e = (h, c, ids)" by (cases e)
  then have ok: "id32 h" "c < 2 ^ 63" "\<forall>i \<in> set ids. id32 i" using Cons.prems by (simp_all add: seg_line_ok_def)
  note p = parse_segment_text [OF ok]
  show ?case
  proof (cases "UpdateTrie own_root (read_seg h c ids) (bbl_data_reuse S)")
    case None
    then show ?thesis using p by (simp add: e insert_segs_def read_segs_def)
  next
    case (Some reuse)
    have "\<forall>e \<in> set sl. seg_line_ok e" using Cons.prems by simp
    from Cons.IH [OF this, of "''|''" "S\<lparr>interBB_CL_DM := add_moves (moves h ids) (real c) (interBB_CL_DM S), bbl_data_reuse := reuse\<rparr>"]
    show ?thesis using p Some by (simp add: e insert_segs_def read_segs_def)
  qed
qed

lemma foldM_rows:
  "\<forall>e \<in> set rl. row_line_ok e \<Longrightarrow> \<exists>tok.
   foldM parse_switch (map row_text rl) (t, S) = do {
     rows \<leftarrow> foldM (\<lambda>(i, vec). RowInsert i vec) rl (bbl_switch_count S);
     Some (if rl = [] then t else tok, S\<lparr>interBB_REG_DM := fold (\<lambda>(i, vec). add_row i vec) rl (interBB_REG_DM S),
       bbl_switch_count := rows\<rparr>) }"
proof (induction rl arbitrary: t S)
  case Nil
  then show ?case by simp
next
  case (Cons e rl)
  obtain i vec where e: "e = (i, vec)" by (cases e)
  then have ok: "id32 i" "\<forall>(j, c) \<in> set vec. id32 j" using Cons.prems by (simp_all add: row_line_ok_def)
  note p = parse_switch_text [OF ok]
  show ?case
  proof (cases "RowInsert i vec (bbl_switch_count S)")
    case None
    then show ?thesis using p by (simp add: e)
  next
    case (Some rows)
    let ?t = "if vec = [] then ''|'' else cell_text (last vec)"
    have "\<forall>e \<in> set rl. row_line_ok e" using Cons.prems by simp
    from Cons.IH [OF this, of ?t "S\<lparr>interBB_REG_DM := add_row i vec (interBB_REG_DM S), bbl_switch_count := rows\<rparr>"]
    obtain tok where "foldM parse_switch (map row_text rl) (?t, S\<lparr>interBB_REG_DM := add_row i vec (interBB_REG_DM S), bbl_switch_count := rows\<rparr>) =
       do { rows \<leftarrow> foldM (\<lambda>(i, vec). RowInsert i vec) rl rows;
         Some (if rl = [] then ?t else tok, S\<lparr>interBB_REG_DM := fold (\<lambda>(i, vec). add_row i vec) rl (add_row i vec (interBB_REG_DM S)),
           bbl_switch_count := rows\<rparr>) }" by auto
    then show ?thesis using p Some
      by (intro exI [of _ "if rl = [] then ?t else tok"]) (simp add: e)
  qed
qed

lemma texts_lines: "newline \<notin> set (seg_text h c ids)" "newline \<notin> set (row_text e)" "newline \<notin> set HORIZONTAL_LINE"
proof -
  have n: "newline \<notin> set (show_int i)" "newline \<notin> set (show_nat n)" for i n
    using show_int_props(2) show_nat_props(5) by blast+
  then have "newline \<notin> set (ids_text ids)" "newline \<notin> set (cells_text vec)" for vec
    by (auto simp: ids_text_def cells_text_def cell_text_def newline_def)
  with n show "newline \<notin> set (seg_text h c ids)" "newline \<notin> set (row_text e)" "newline \<notin> set HORIZONTAL_LINE"
    by (cases e; simp add: seg_text_def row_text_def HORIZONTAL_LINE_def newline_def)+
qed

lemma ParseReuse_text:
  assumes "\<forall>e \<in> set sl. seg_line_ok e" and "\<forall>e \<in> set rl. row_line_ok e"
  shows "ParseReuse (reuse_text t1 t2 sl rl) S = do {
     reuse \<leftarrow> insert_segs own_root (read_segs sl) (bbl_data_reuse S);
     rows \<leftarrow> foldM (\<lambda>(i, vec). RowInsert i vec) rl (bbl_switch_count S);
     Some (S\<lparr>interBB_CL_DM := fold (\<lambda>(h, c, ids). add_moves (moves h ids) (real c)) sl (interBB_CL_DM S),
       bbl_data_reuse := reuse,
       interBB_REG_DM := fold (\<lambda>(i, vec). add_row i vec) rl (interBB_REG_DM S),
       bbl_switch_count := List_Sort rows\<rparr>) }"
proof -
  let ?segs = "map (\<lambda>(h, c, ids). seg_text h c ids) sl" and ?rows = "map row_text rl"
  have nl: "newline \<notin> set (show_int i)" for i using show_int_props(2) by blast
  have "\<forall>l \<in> set (HORIZONTAL_LINE # (''ReuseSegment - Thread '' @ show_int t1) # ?segs @
      HORIZONTAL_LINE # (''BBLSwitchCount - Thread '' @ show_int t2) # ?rows). newline \<notin> set l"
    using texts_lines nl by (auto simp: newline_def)
  from lines_of_concat [OF this] have lines: "lines_of (reuse_text t1 t2 sl rl) =
      HORIZONTAL_LINE # (''ReuseSegment - Thread '' @ show_int t1) # ?segs @
      HORIZONTAL_LINE # (''BBLSwitchCount - Thread '' @ show_int t2) # ?rows"
    unfolding reuse_text_def .
  have plain: "\<forall>l \<in> set ?segs. \<not> contains l HORIZONTAL_LINE" "\<forall>l \<in> set ?rows. \<not> contains l HORIZONTAL_LINE"
    using texts_plain by auto
  have rows: "parse_lines ?rows False st = foldM parse_switch ?rows st" for st
    using parse_lines_part [OF plain(2), of "[]" False st] by simp
  have segs: "parse_lines (?segs @ rest) True st = do { st \<leftarrow> foldM parse_segment ?segs st; parse_lines rest True st }" for rest st
    using parse_lines_part [OF plain(1), of rest True st] by simp
  obtain tok where 1: "foldM parse_segment ?segs (''ReuseSegment'', S) = do {
     reuse \<leftarrow> insert_segs own_root (read_segs sl) (bbl_data_reuse S);
     Some (tok, S\<lparr>interBB_CL_DM := fold (\<lambda>(h, c, ids). add_moves (moves h ids) (real c)) sl (interBB_CL_DM S),
       bbl_data_reuse := reuse\<rparr>) }"
    using foldM_segments [OF assms(1), of "''ReuseSegment''" S] by auto
  show ?thesis
  proof (cases "insert_segs own_root (read_segs sl) (bbl_data_reuse S)")
    case None
    then show ?thesis
      by (simp add: ParseReuse_def lines contains_self titles [simplified] segs 1)
  next
    case (Some reuse)
    let ?S = "S\<lparr>interBB_CL_DM := fold (\<lambda>(h, c, ids). add_moves (moves h ids) (real c)) sl (interBB_CL_DM S), bbl_data_reuse := reuse\<rparr>"
    obtain tok2 where 2: "foldM parse_switch ?rows (''BBLSwitchCount'', ?S) = do {
       rows \<leftarrow> foldM (\<lambda>(i, vec). RowInsert i vec) rl (bbl_switch_count ?S);
       Some (if rl = [] then ''BBLSwitchCount'' else tok2,
         ?S\<lparr>interBB_REG_DM := fold (\<lambda>(i, vec). add_row i vec) rl (interBB_REG_DM ?S), bbl_switch_count := rows\<rparr>) }"
      using foldM_rows [OF assms(2), of "''BBLSwitchCount''" ?S] by blast
    show ?thesis
      by (simp add: ParseReuse_def lines contains_self titles [simplified] segs 1 Some rows 2 split: bind_splits)
  qed
qed

text \<open>What the recorder prints, under a labelling \<open>f\<close>.\<close>

definition printed_seg :: "('a \<Rightarrow> BBLID) \<Rightarrow> 'a DataReuseSegment \<Rightarrow> seg_line" where
  "printed_seg f seg = (f (the (seg_head seg)), unat (seg_count seg), map f (seg_set seg))"

definition exported :: "'a::linorder DataReuse \<Rightarrow> 'a DataReuseSegment list" where
  "exported dr = map (\<lambda>leaf. the (ExportSegment dr new_segment leaf)) (leaves dr)"

definition printed_rows :: "('a \<Rightarrow> BBLID) \<Rightarrow> 'a SwitchCountMatrix \<Rightarrow> (BBLID \<times> (BBLID \<times> u64) list) list" where
  "printed_rows f m =
     map (\<lambda>i. (f (idx2elem m ! i),
            map (\<lambda>j. (f (idx2elem m ! j), count_rows m ! i ! j))
              (filter (\<lambda>j. count_rows m ! i ! j > 0) [0..<length (count_rows m ! i)])))
       (filter (\<lambda>i. total_count m ! i > 0) [0..<length (count_rows m)])"

definition exports :: "('a::linorder \<Rightarrow> BBLID option) \<Rightarrow> ('a \<Rightarrow> BBLID) \<Rightarrow> 'a DataReuse \<Rightarrow> bool" where
  "exports get_id f dr \<longleftrightarrow> (\<forall>leaf \<in> set (leaves dr). \<exists>seg h. ExportSegment dr new_segment leaf = Some seg \<and>
     seg_head seg = Some h \<and> (\<forall>x \<in> insert h (set (seg_set seg)). get_id x = Some (f x) \<and> id32 (f x)) \<and>
     unat (seg_count seg) < 2 ^ 63)"

lemma PrintDataReuseSegments_text:
  assumes "exports get_id f dr"
  shows "PrintDataReuseSegments t get_id dr = Some (concat (map (\<lambda>l. l @ [newline])
     (HORIZONTAL_LINE # (''ReuseSegment - Thread '' @ show_int t) #
        map (\<lambda>(h, c, ids). seg_text h c ids) (map (printed_seg f) (exported dr)))))"
    and "\<forall>e \<in> set (map (printed_seg f) (exported dr)). seg_line_ok e"
proof -
  let ?line = "\<lambda>leaf. (case printed_seg f (the (ExportSegment dr new_segment leaf)) of (h, c, ids) \<Rightarrow> seg_text h c ids) @ [newline]"
  have one: "\<exists>seg. ExportSegment dr new_segment leaf = Some seg \<and> print_segment get_id seg = Some (?line leaf)"
    if leaf: "leaf \<in> set (leaves dr)" for leaf
  proof -
    obtain seg h where seg: "ExportSegment dr new_segment leaf = Some seg" "seg_head seg = Some h"
      "\<forall>x \<in> insert h (set (seg_set seg)). get_id x = Some (f x)"
      using assms leaf unfolding exports_def by blast
    then have "print_ids get_id (seg_set seg) = Some (ids_text (map f (seg_set seg)))"
      by (intro print_ids_text) simp
    with seg show ?thesis by (simp add: print_segment_def printed_seg_def seg_text_def)
  qed
  have "foldM (\<lambda>leaf out. do { seg \<leftarrow> ExportSegment dr new_segment leaf; s \<leftarrow> print_segment get_id seg; Some (out @ s) }) ls out =
      Some (out @ concat (map ?line ls))" if "set ls \<subseteq> set (leaves dr)" for ls out
    using that
  proof (induction ls arbitrary: out)
    case (Cons l ls)
    then obtain seg where "ExportSegment dr new_segment l = Some seg" "print_segment get_id seg = Some (?line l)"
      using one by (metis list.set_intros(1) subsetD)
    with Cons show ?case by simp
  qed simp
  from this [of "leaves dr" "[]"] show "PrintDataReuseSegments t get_id dr = Some (concat (map (\<lambda>l. l @ [newline])
     (HORIZONTAL_LINE # (''ReuseSegment - Thread '' @ show_int t) #
        map (\<lambda>(h, c, ids). seg_text h c ids) (map (printed_seg f) (exported dr)))))"
    by (simp add: PrintDataReuseSegments_def PrintAllSegments_def exported_def o_def)
  have "seg_line_ok (printed_seg f (the (ExportSegment dr new_segment leaf)))"
    if leaf: "leaf \<in> set (leaves dr)" for leaf
  proof -
    obtain seg h where seg: "ExportSegment dr new_segment leaf = Some seg" "seg_head seg = Some h"
      "\<forall>x \<in> insert h (set (seg_set seg)). get_id x = Some (f x) \<and> id32 (f x)" "unat (seg_count seg) < 2 ^ 63"
      using assms leaf unfolding exports_def by blast
    then show ?thesis by (simp add: printed_seg_def seg_line_ok_def)
  qed
  then show "\<forall>e \<in> set (map (printed_seg f) (exported dr)). seg_line_ok e" by (auto simp: exported_def)
qed

lemma foldM_concat:
  "(\<And>x out. x \<in> set xs \<Longrightarrow> g x out = Some (out @ h x)) \<Longrightarrow> foldM g xs out = Some (out @ concat (map h xs))"
  by (induction xs arbitrary: out) simp_all

lemma concat_map_filter: "concat (map (\<lambda>x. if P x then h x else []) xs) = concat (map h (filter P xs))"
  by (induction xs) simp_all

lemma PrintBBLSwitchCount_text:
  assumes ok: "matrix_ok m" and ids: "\<forall>x \<in> set (idx2elem m). get_id x = Some (f x) \<and> id32 (f x)"
  shows "PrintBBLSwitchCount t get_id m = Some (concat (map (\<lambda>l. l @ [newline])
     (HORIZONTAL_LINE # (''BBLSwitchCount - Thread '' @ show_int t) # map row_text (printed_rows f m))))"
    and "\<forall>e \<in> set (printed_rows f m). row_line_ok e"
proof -
  let ?el = "\<lambda>i. f (idx2elem m ! i)"
  let ?cell = "\<lambda>row j. if row ! j > 0 then cell_text (?el j, row ! j) @ '' '' else []"
  let ?cells = "\<lambda>i. map (\<lambda>j. (?el j, count_rows m ! i ! j)) (filter (\<lambda>j. count_rows m ! i ! j > 0) [0..<length (count_rows m ! i)])"
  have len: "length (total_count m) = length (count_rows m)" "length (count_rows m) \<le> length (idx2elem m)"
    "\<And>row. row \<in> set (count_rows m) \<Longrightarrow> length row \<le> length (idx2elem m)"
    using ok by (auto simp: matrix_ok_def)
  have elem: "getElem i m = Some (idx2elem m ! i)" "get_id (idx2elem m ! i) = Some (?el i)" "id32 (?el i)"
    if "i < length (idx2elem m)" for i
    using ids that by (simp_all add: getElem_def vec_at_int)
  have cell: "print_cell get_id m row j = Some (?cell row j)" if "row \<in> set (count_rows m)" "j < length row" for row j
    using elem [of j] len(3) [OF that(1)] that(2) by (simp add: print_cell_def vec_at_int cell_text_def)
  have cells: "foldM (\<lambda>j out. do { s \<leftarrow> print_cell get_id m (count_rows m ! i) j; Some (out @ s) }) [0..<length (count_rows m ! i)] [] =
      Some (cells_text (?cells i))" if i: "i < length (count_rows m)" for i
  proof -
    have "count_rows m ! i \<in> set (count_rows m)" using i by simp
    then have "foldM (\<lambda>j out. do { s \<leftarrow> print_cell get_id m (count_rows m ! i) j; Some (out @ s) }) [0..<length (count_rows m ! i)] [] =
        Some ([] @ concat (map (?cell (count_rows m ! i)) [0..<length (count_rows m ! i)]))"
      by (intro foldM_concat) (simp add: cell)
    then show ?thesis by (simp add: concat_map_filter cells_text_def o_def)
  qed
  let ?row = "\<lambda>i. if total_count m ! i > 0 then row_text (?el i, ?cells i) @ [newline] else []"
  have "print_matrix get_id m = Some ([] @ concat (map ?row [0..<length (count_rows m)]))"
    unfolding print_matrix_def
  proof (rule foldM_concat)
    fix i and out :: string
    assume "i \<in> set [0..<length (count_rows m)]"
    then have i: "i < length (count_rows m)" "i < length (total_count m)" "i < length (idx2elem m)" using len by auto
    show "do { total \<leftarrow> vec_at (total_count m) (int i);
         if total > 0 then do {
           e \<leftarrow> getElem i m; i' \<leftarrow> get_id e; row \<leftarrow> vec_at (count_rows m) (int i);
           cells \<leftarrow> foldM (\<lambda>toidx out. do { s \<leftarrow> print_cell get_id m row toidx; Some (out @ s) }) [0..<length row] '''';
           Some (out @ ''from = '' @ show_int i' @ '' | '' @ cells @ [newline]) }
         else Some out } = Some (out @ ?row i)"
      using i elem [OF i(3)] cells [OF i(1)] by (simp add: vec_at_int row_text_def)
  qed
  then have "print_matrix get_id m = Some (concat (map (\<lambda>l. l @ [newline]) (map row_text (printed_rows f m))))"
    by (simp add: concat_map_filter printed_rows_def o_def)
  then show "PrintBBLSwitchCount t get_id m = Some (concat (map (\<lambda>l. l @ [newline])
     (HORIZONTAL_LINE # (''BBLSwitchCount - Thread '' @ show_int t) # map row_text (printed_rows f m))))"
    by (simp add: PrintBBLSwitchCount_def)
  have "row_line_ok (?el i, ?cells i)" if i: "i < length (count_rows m)" for i
  proof -
    have "j < length (idx2elem m)" if "j < length (count_rows m ! i)" for j
      using len(3) [of "count_rows m ! i"] i that by fastforce
    then show ?thesis using elem(3) i len(2) by (auto simp: row_line_ok_def)
  qed
  then show "\<forall>e \<in> set (printed_rows f m). row_line_ok e" by (auto simp: printed_rows_def)
qed

text \<open>The recorder's file as the solver reads it.\<close>

lemma reuse_file_roundtrip:
  assumes "exports get_id f dr" and "matrix_ok m"
    and "\<forall>x \<in> set (idx2elem m). get_id x = Some (f x) \<and> id32 (f x)"
  defines "sl \<equiv> map (printed_seg f) (exported dr)" and "rl \<equiv> printed_rows f m"
  shows "\<exists>a b. PrintDataReuseSegments t get_id dr = Some a \<and> PrintBBLSwitchCount t get_id m = Some b \<and>
    ParseReuse (a @ b) S = do {
     reuse \<leftarrow> insert_segs own_root (read_segs sl) (bbl_data_reuse S);
     rows \<leftarrow> foldM (\<lambda>(i, vec). RowInsert i vec) rl (bbl_switch_count S);
     Some (S\<lparr>interBB_CL_DM := fold (\<lambda>(h, c, ids). add_moves (moves h ids) (real c)) sl (interBB_CL_DM S),
       bbl_data_reuse := reuse,
       interBB_REG_DM := fold (\<lambda>(i, vec). add_row i vec) rl (interBB_REG_DM S),
       bbl_switch_count := List_Sort rows\<rparr>) }"
proof -
  note a = PrintDataReuseSegments_text [OF assms(1), folded sl_def]
  note b = PrintBBLSwitchCount_text [OF assms(2,3), folded rl_def]
  have "concat (map (\<lambda>l. l @ [newline]) (HORIZONTAL_LINE # (''ReuseSegment - Thread '' @ show_int t) #
        map (\<lambda>(h, c, ids). seg_text h c ids) sl)) @
      concat (map (\<lambda>l. l @ [newline]) (HORIZONTAL_LINE # (''BBLSwitchCount - Thread '' @ show_int t) # map row_text rl)) =
      reuse_text t t sl rl"
    unfolding reuse_text_def concat_append [symmetric] map_append [symmetric] append_Cons ..
  then show ?thesis using a b ParseReuse_text [OF a(2) b(2), of t t S] by auto
qed

end
