(* ===== verification/Offload_Inject.thy ===== *)
theory Offload_Inject
  imports LLVM_Inject Reuse_File "HOL-Library.AList"
begin

text \<open>
  The pass that injects the offloading calls (\<open>LLVMAnalysis/OffloaderInjection.cpp\<close>): the decision
  map read from the output file of the solver, the calls around the blocks it knows, and the pass
  over the module with its four counters. A field of a decision that was never written is \<open>None\<close>;
  a decision filed under a key that was never written has no defined result.
\<close>

subsection \<open>Decisions\<close>

record Decision =
  site_decision :: CostSite
  decision_bblid :: "int option"
  decision_difference :: "real option"
  decision_parallel :: "int option"

type_synonym DecisionMap = "(UUID \<times> Decision) list"

text \<open>The key and the decision of one line: ten tokens, of which the second decides.\<close>

definition ext_real_opt :: "iss \<Rightarrow> real option \<Rightarrow> iss \<times> real option" where
  "ext_real_opt ss old =
     (if ss = None \<or> dropWhile is_space (the ss) = [] then (None, old)
      else map_prod id Some (ext_real ss 0))"

definition decision_line :: "string \<Rightarrow> (UUID \<times> Decision) option" where
  "decision_line line =
     (let (ss, i) = ext_i32 (Some line) None;
          (ss, token) = ext_tok ss '''';
          d = (if token = ''P'' then PIM else CPU);
          (ss, token) = ext_tok ss token;
          (ss, token) = ext_tok ss token;
          (ss, token) = ext_tok ss token;
          (ss, diff) = ext_real_opt ss None;
          (ss, hi) = ext_i64 ss None;
          (ss, lo) = ext_i64 ss None
      in do { hi \<leftarrow> hi; lo \<leftarrow> lo;
        Some ((of_int hi, of_int lo), \<lparr>site_decision = d, decision_bblid = i, decision_difference = diff,
          decision_parallel = None\<rparr>) })"

text \<open>The lines after the first separator; a file that cannot be opened has no lines.\<close>

definition after_separator :: "string list \<Rightarrow> string list" where
  "after_separator ls = drop 1 (dropWhile (\<lambda>l. \<not> contains l HORIZONTAL_LINE) ls)"

definition initDecisionMap :: "string \<Rightarrow> DecisionMap \<Rightarrow> DecisionMap option" where
  "initDecisionMap ifs m =
     foldM (\<lambda>line m. do { (key, d) \<leftarrow> decision_line line; Some (AList.update key d m) }) (after_separator (lines_of ifs)) m"

text \<open>An entry that is missing is created with the value 0 in every field; the site 0 is the CPU.\<close>

definition getMainDecision :: "DecisionMap \<Rightarrow> CostSite \<times> DecisionMap" where
  "getMainDecision m =
     (case map_of m MAIN_BBLHASH of
       None \<Rightarrow> (CPU, AList.update MAIN_BBLHASH
         \<lparr>site_decision = CPU, decision_bblid = Some 0, decision_difference = Some 0, decision_parallel = Some 0\<rparr> m)
     | Some d \<Rightarrow> (site_decision d, m))"

definition getBasicBlockDecision :: "'i LLVM \<Rightarrow> DecisionMap \<Rightarrow> 'i Function \<Rightarrow> nat \<Rightarrow> CostSite option" where
  "getBasicBlockDecision L m F i = do {
     bblhash \<leftarrow> hash_text (block_text L F i);
     Some (case map_of m (snd bblhash, fst bblhash) of None \<Rightarrow> INVALID | Some d \<Rightarrow> site_decision d) }"

subsection \<open>The calls around a block\<close>

record OffloadCounts =
  found_cnt :: int
  not_found_cnt :: int
  cpu_inject_cnt :: int
  pim_inject_cnt :: int

definition InjectSniperOffloaderCall :: "'i LLVM \<Rightarrow> DecisionMap \<Rightarrow> nat \<Rightarrow> 'i Function \<times> OffloadCounts \<Rightarrow>
    ('i Function \<times> OffloadCounts) option" where
  "InjectSniperOffloaderCall L m i = (\<lambda>(F, c). do {
     d \<leftarrow> getBasicBlockDecision L m F i;
     if d = INVALID then Some (F, c\<lparr>not_found_cnt := not_found_cnt c + 1\<rparr>)
     else do {
       let c = c\<lparr>found_cnt := found_cnt c + 1\<rparr>;
       bblhash \<leftarrow> hash_text (block_text L F i);
       if d = PIM then do {
         F \<leftarrow> at_block i (wrap_block L (SimMagic2 SNIPER_SIM_PIMPROF_OFFLOAD_START (snd bblhash) PIMPROF_DECISION_PIM)
           (SimMagic2 SNIPER_SIM_PIMPROF_OFFLOAD_END (snd bblhash) PIMPROF_DECISION_PIM)) F;
         Some (F, c\<lparr>pim_inject_cnt := pim_inject_cnt c + 1\<rparr>) }
       else do {
         F \<leftarrow> at_block i (wrap_block L (SimMagic2 SNIPER_SIM_PIMPROF_OFFLOAD_START (snd bblhash) PIMPROF_DECISION_CPU)
           (SimMagic2 SNIPER_SIM_PIMPROF_OFFLOAD_END (snd bblhash) PIMPROF_DECISION_CPU)) F;
         Some (F, c\<lparr>cpu_inject_cnt := cpu_inject_cnt c + 1\<rparr>) } } })"

text \<open>The overload for the function \<open>main\<close>.\<close>

definition InjectSniperOffloaderMain :: "'i LLVM \<Rightarrow> CostSite \<Rightarrow> 'i Function \<Rightarrow> 'i Function option" where
  "InjectSniperOffloaderMain L MainDecision F =
     (if MainDecision = PIM then do {
        F \<leftarrow> at_entry L [SimMagic0 SNIPER_SIM_CMD_ROI_START,
          SimMagic2 SNIPER_SIM_PIMPROF_OFFLOAD_START (of_int MAIN_BBLID) PIMPROF_DECISION_PIM] F;
        Some (before_returns L [SimMagic2 SNIPER_SIM_PIMPROF_OFFLOAD_END (of_int MAIN_BBLID) PIMPROF_DECISION_PIM,
          SimMagic0 SNIPER_SIM_CMD_ROI_END] F) }
      else do {
        F \<leftarrow> at_entry L [SimMagic0 SNIPER_SIM_CMD_ROI_START,
          SimMagic2 SNIPER_SIM_PIMPROF_BBL_START (of_int MAIN_BBLID) PIMPROF_DECISION_CPU] F;
        Some (before_returns L [SimMagic2 SNIPER_SIM_PIMPROF_BBL_END (of_int MAIN_BBLID) PIMPROF_DECISION_CPU,
          SimMagic0 SNIPER_SIM_CMD_ROI_END] F) })"

subsection \<open>The module pass\<close>

definition offload_mode :: "string \<Rightarrow> InjectMode option" where
  "offload_mode env = (if env = ''SNIPER'' then Some SNIPER else if env = ''PIMPROF'' then Some PIMPROF else None)"

text \<open>The blocks of all functions with the counters, function after function.\<close>

definition offload_function :: "'i LLVM \<Rightarrow> DecisionMap \<Rightarrow> 'i Function \<times> OffloadCounts \<Rightarrow> ('i Function \<times> OffloadCounts) option" where
  "offload_function L m = (\<lambda>(F, c). foldM (InjectSniperOffloaderCall L m) [0..<length (fn_blocks F)] (F, c))"

definition offload_blocks :: "'i LLVM \<Rightarrow> DecisionMap \<Rightarrow> 'i Module \<Rightarrow> ('i Module \<times> OffloadCounts) option" where
  "offload_blocks L m M = foldM (\<lambda>i (M, c). do {
     F \<leftarrow> vec_at M (int i); (F, c) \<leftarrow> offload_function L m (F, c); M \<leftarrow> vec_set M (int i) F; Some (M, c) })
     [0..<length M] (M, \<lparr>found_cnt = 0, not_found_cnt = 0, cpu_inject_cnt = 0, pim_inject_cnt = 0\<rparr>)"

definition OffloaderInjection :: "'i LLVM \<Rightarrow> string option \<Rightarrow> string option \<Rightarrow> (string \<Rightarrow> string) \<Rightarrow> 'i Module \<Rightarrow>
    ('i Module \<times> OffloadCounts) option" where
  "OffloaderInjection L decisionfileenv injectmodeenv file_text M = do {
     file \<leftarrow> decisionfileenv; env \<leftarrow> injectmodeenv; mode \<leftarrow> offload_mode env;
     m \<leftarrow> initDecisionMap (file_text file) [];
     let (MainDecision, m) = getMainDecision m;
     if mode = SNIPER then do {
       (M, c) \<leftarrow> offload_blocks L m M;
       M \<leftarrow> for_functions (for_main (InjectSniperOffloaderMain L MainDecision)) M;
       Some (M, c) }
     else Some (M, \<lparr>found_cnt = 0, not_found_cnt = 0, cpu_inject_cnt = 0, pim_inject_cnt = 0\<rparr>) }"

end
