(* ===== verification/Reuse_Chain.thy ===== *)
theory Reuse_Chain
  imports Reuse_Trie
begin

text \<open>
  How \<open>ThreadStats\<close> (\<open>PIMProfSolver/Stats.h\<close>) cuts the accesses to a cache line into reuse
  segments: \<open>InsertSegOnHit\<close> and \<open>SplitSegOnMiss\<close> on the map from tags to open segments and on
  the trie. The specification cuts the list of accesses to one tag, as the comment in
  \<open>DataReuse.h\<close> describes: a piece ends with a store, which also starts the next piece, or
  before a miss.
\<close>

type_synonym 'a tag_map = "u64 \<rightharpoonup> 'a DataReuseSegment"

definition seg_hit :: "u64 \<Rightarrow> 'a::linorder \<Rightarrow> bool \<Rightarrow> 'a tag_map \<times> 'a DataReuse \<Rightarrow> ('a tag_map \<times> 'a DataReuse) option" where
  "seg_hit tag bblstats is_store = (\<lambda>(tag2seg, dr). do {
     let seg = (case tag2seg tag of None \<Rightarrow> new_segment | Some seg \<Rightarrow> seg);
     let seg = seg_setCount 1 (seg_insert bblstats seg);
     if is_store then do {
       dr \<leftarrow> UpdateTrie own_root seg dr;
       let seg = seg_setCount 1 (seg_insert bblstats (seg_clear seg));
       Some (tag2seg(tag \<mapsto> seg), dr) }
     else Some (tag2seg(tag \<mapsto> seg), dr) })"

definition seg_miss :: "u64 \<Rightarrow> 'a::linorder tag_map \<times> 'a DataReuse \<Rightarrow> ('a tag_map \<times> 'a DataReuse) option" where
  "seg_miss tag = (\<lambda>(tag2seg, dr).
     case tag2seg tag of
       None \<Rightarrow> Some (tag2seg, dr)
     | Some seg \<Rightarrow> do {
         dr \<leftarrow> UpdateTrie own_root seg dr;
         Some (tag2seg(tag \<mapsto> seg_clear seg), dr) })"

datatype 'a access = Hit u64 'a bool | Miss u64

fun access_step :: "'a::linorder access \<Rightarrow> 'a tag_map \<times> 'a DataReuse \<Rightarrow> ('a tag_map \<times> 'a DataReuse) option" where
  "access_step (Hit tag b st) s = seg_hit tag b st s"
| "access_step (Miss tag) s = seg_miss tag s"

definition run_accesses :: "'a::linorder access list \<Rightarrow> 'a tag_map \<times> 'a DataReuse \<Rightarrow> ('a tag_map \<times> 'a DataReuse) option" where
  "run_accesses accs s = foldM access_step accs s"

subsection \<open>Specification\<close>

text \<open>The pieces of one tag that are complete, and the open one.\<close>

fun chain_step :: "u64 \<Rightarrow> 'a access \<Rightarrow> 'a list list \<times> 'a list \<Rightarrow> 'a list list \<times> 'a list" where
  "chain_step tag (Hit t b st) (cs, c) =
     (if t \<noteq> tag then (cs, c) else if st then (cs @ [c @ [b]], [b]) else (cs, c @ [b]))"
| "chain_step tag (Miss t) (cs, c) =
     (if t \<noteq> tag then (cs, c) else if c = [] then (cs, []) else (cs @ [c], []))"

definition chains :: "u64 \<Rightarrow> 'a access list \<Rightarrow> 'a list list \<times> 'a list" where
  "chains tag accs = fold (chain_step tag) accs ([], [])"

definition chain_seg :: "'a::linorder list \<Rightarrow> 'a DataReuseSegment" where
  "chain_seg c = \<lparr>seg_head = Some (hd c), seg_set = fold oset_insert c [], seg_count = 1\<rparr>"

definition all_segs :: "'a::linorder access list \<Rightarrow> 'a DataReuseSegment multiset" where
  "all_segs accs = (\<Sum>tag \<in> UNIV. mset (map chain_seg (fst (chains tag accs))))"

lemma chains_Nil [simp]: "chains tag [] = ([], [])"
  by (simp add: chains_def)

lemma chains_snoc: "chains tag (accs @ [a]) = chain_step tag a (chains tag accs)"
  by (simp add: chains_def)

fun access_tag :: "'a access \<Rightarrow> u64" where
  "access_tag (Hit t b st) = t"
| "access_tag (Miss t) = t"

lemma chain_step_other: "access_tag a \<noteq> tag \<Longrightarrow> chain_step tag a s = s"
  by (cases a; cases s) auto

lemma chains_other: "access_tag a \<noteq> tag \<Longrightarrow> chains tag (accs @ [a]) = chains tag accs"
  by (simp add: chains_snoc chain_step_other)

lemma all_segs_snoc:
  assumes "fst (chains (access_tag a) (accs @ [a])) = fst (chains (access_tag a) accs) @ new"
  shows "all_segs (accs @ [a]) = all_segs accs + mset (map chain_seg new)"
proof -
  let ?t = "access_tag a"
  have "all_segs (accs @ [a]) = mset (map chain_seg (fst (chains ?t (accs @ [a])))) +
      (\<Sum>tag \<in> UNIV - {?t}. mset (map chain_seg (fst (chains tag (accs @ [a])))))"
    unfolding all_segs_def by (rule sum.remove) auto
  also have "(\<Sum>tag \<in> UNIV - {?t}. mset (map chain_seg (fst (chains tag (accs @ [a]))))) =
      (\<Sum>tag \<in> UNIV - {?t}. mset (map chain_seg (fst (chains tag accs))))"
    by (rule sum.cong) (auto simp: chains_other)
  finally show ?thesis
    unfolding all_segs_def using assms
    by (subst (2) sum.remove [of UNIV ?t]) auto
qed

text \<open>What the map holds for a tag with the open piece \<open>c\<close>.\<close>

definition open_ok :: "'a::linorder tag_map \<Rightarrow> u64 \<Rightarrow> 'a list \<Rightarrow> bool" where
  "open_ok m tag c \<longleftrightarrow>
     (case m tag of
        None \<Rightarrow> c = []
      | Some seg \<Rightarrow> seg_set seg = fold oset_insert c [] \<and> seg_count seg = 1 \<and>
          (c \<noteq> [] \<longrightarrow> seg_head seg = Some (hd c)))"

lemma fold_oset_insert_Nil [simp]: "fold oset_insert c [] = [] \<longleftrightarrow> c = []"
  by (metis set_empty set_fold_oset_insert sup_bot_right)

lemma seg_ok_chain: "c \<noteq> [] \<Longrightarrow> seg_ok (chain_seg c)"
  by (auto simp: seg_ok_def chain_seg_def intro: exI [of _ "hd c"])

lemma chain_seg_snoc:
  assumes "open_ok m tag c"
  shows "seg_setCount 1 (seg_insert b (case m tag of None \<Rightarrow> new_segment | Some seg \<Rightarrow> seg)) = chain_seg (c @ [b])"
  using assms
  by (cases "c = []")
    (auto simp: open_ok_def seg_setCount_def seg_insert_def new_segment_def chain_seg_def split: option.splits)

lemma chain_seg_start: "seg_setCount 1 (seg_insert b (seg_clear seg)) = chain_seg [b]"
  by (simp add: seg_setCount_def seg_insert_def seg_clear_def chain_seg_def)

lemma open_ok_chain_seg: "m tag = Some (chain_seg c) \<Longrightarrow> open_ok m tag c"
  by (simp add: open_ok_def chain_seg_def)

lemma open_chain_seg: "open_ok m tag c \<Longrightarrow> m tag = Some seg \<Longrightarrow> c \<noteq> [] \<Longrightarrow> seg = chain_seg c"
  by (auto simp: open_ok_def chain_seg_def)

subsection \<open>The recorder computes the pieces\<close>

lemma UpdateTrie_one:
  assumes "trie_holds t segs" and "tries dr own_root = Some t" and "seg_ok seg" and "seg_count seg = 1"
    and "Suc (length segs) < 2 ^ 64" and "\<forall>s \<in> set segs. seg_count s = 1"
  shows "\<exists>dr' t'. UpdateTrie own_root seg dr = Some dr' \<and> tries dr' own_root = Some t' \<and> trie_holds t' (segs @ [seg])"
proof -
  have "key_total segs p \<le> length segs" for p
  proof -
    have "key_total segs p = (\<Sum>s \<leftarrow> big segs. if seg_key s = p then 1 else 0)"
      unfolding key_total_def using assms(6) by (intro arg_cong [where f = sum_list] map_cong) (auto simp: big_def)
    also have "\<dots> \<le> (\<Sum>s \<leftarrow> big segs. 1)" by (rule sum_list_mono) simp
    also have "\<dots> \<le> length segs" by (simp add: big_def sum_list_triv)
    finally show ?thesis .
  qed
  from this [of "seg_key seg"] have "key_total (segs @ [seg]) (seg_key seg) < 2 ^ 64"
    using assms(4,5) by (simp add: key_total_snoc)
  from UpdateTrie_holds [OF assms(1-3) this] show ?thesis by auto
qed

text \<open>
  What the recorder keeps: the trie holds the complete pieces, each of them counted once, and the
  map the open piece of every tag.
\<close>

definition recorder_inv :: "'a::linorder access list \<Rightarrow> 'a tag_map \<Rightarrow> 'a DataReuse \<Rightarrow> 'a DataReuseSegment list \<Rightarrow> bool" where
  "recorder_inv accs m dr segs \<longleftrightarrow> (\<exists>t. tries dr own_root = Some t \<and> trie_holds t segs) \<and>
     (\<forall>s \<in> set segs. seg_count s = 1) \<and> (\<forall>tag. open_ok m tag (snd (chains tag accs))) \<and> mset segs = all_segs accs"

lemma recorder_open: "recorder_inv accs m dr segs \<Longrightarrow> open_ok m tag (snd (chains tag accs))"
  by (simp add: recorder_inv_def)

lemma open_ok_upd:
  assumes "recorder_inv accs m dr segs" and "open_ok m' (access_tag a) (snd (chains (access_tag a) (accs @ [a])))"
    and "\<And>tag. tag \<noteq> access_tag a \<Longrightarrow> m' tag = m tag"
  shows "open_ok m' tag (snd (chains tag (accs @ [a])))"
proof (cases "tag = access_tag a")
  case False
  then show ?thesis
    using recorder_open [OF assms(1), of tag] chains_other [of a tag accs] assms(3) [of tag] by (simp add: open_ok_def)
qed (use assms(2) in simp)

text \<open>An access that closes no piece, and one that closes the piece \<open>c\<close>.\<close>

lemma recorder_stay:
  assumes "recorder_inv accs m dr segs" and "fst (chains (access_tag a) (accs @ [a])) = fst (chains (access_tag a) accs)"
    and "\<And>tag. open_ok m' tag (snd (chains tag (accs @ [a])))"
  shows "recorder_inv (accs @ [a]) m' dr segs"
  using assms all_segs_snoc [of a accs "[]"] by (simp add: recorder_inv_def)

lemma recorder_close:
  assumes "recorder_inv accs m dr segs" and "Suc (length segs) < 2 ^ 64" and "c \<noteq> []"
    and "fst (chains (access_tag a) (accs @ [a])) = fst (chains (access_tag a) accs) @ [c]"
    and "\<And>tag. open_ok m' tag (snd (chains tag (accs @ [a])))"
  shows "\<exists>dr'. UpdateTrie own_root (chain_seg c) dr = Some dr' \<and> recorder_inv (accs @ [a]) m' dr' (segs @ [chain_seg c])"
proof -
  obtain t where t: "tries dr own_root = Some t" "trie_holds t segs" using assms(1) by (auto simp: recorder_inv_def)
  have one: "seg_count (chain_seg c) = 1" by (simp add: chain_seg_def)
  obtain dr' t' where "UpdateTrie own_root (chain_seg c) dr = Some dr'" "tries dr' own_root = Some t'"
    "trie_holds t' (segs @ [chain_seg c])"
    using UpdateTrie_one [OF t(2,1) seg_ok_chain [OF assms(3)] one assms(2)] assms(1) by (auto simp: recorder_inv_def)
  then show ?thesis
    using assms(1,5) one all_segs_snoc [OF assms(4)] by (intro exI [of _ dr']) (simp add: recorder_inv_def)
qed

lemma recorder_hit:
  assumes inv: "recorder_inv accs m dr segs" and len: "Suc (length segs) < 2 ^ 64"
  shows "\<exists>m' dr' segs'. seg_hit tag b st (m, dr) = Some (m', dr') \<and>
    recorder_inv (accs @ [Hit tag b st]) m' dr' segs' \<and> length segs' \<le> Suc (length segs)"
proof -
  obtain cs c where ch: "chains tag accs = (cs, c)" by (cases "chains tag accs")
  have seg: "seg_setCount 1 (seg_insert b (case m tag of None \<Rightarrow> new_segment | Some seg \<Rightarrow> seg)) = chain_seg (c @ [b])"
    using chain_seg_snoc recorder_open [OF inv, of tag] ch by simp
  show ?thesis
  proof (cases st)
    case True
    have new: "chains tag (accs @ [Hit tag b st]) = (cs @ [c @ [b]], [b])" using ch True by (simp add: chains_snoc)
    let ?m = "m(tag \<mapsto> chain_seg [b])"
    have "open_ok ?m t (snd (chains t (accs @ [Hit tag b st])))" for t
      by (rule open_ok_upd [OF inv]) (simp_all add: new open_ok_chain_seg)
    then obtain dr' where "UpdateTrie own_root (chain_seg (c @ [b])) dr = Some dr'"
      "recorder_inv (accs @ [Hit tag b st]) ?m dr' (segs @ [chain_seg (c @ [b])])"
      using recorder_close [OF inv len, of "c @ [b]" "Hit tag b st" ?m] new ch by auto
    moreover from this(1) have "seg_hit tag b st (m, dr) = Some (?m, dr')"
      unfolding seg_hit_def
      by (simp only: prod.case Let_def seg True if_True bind.bind_lunit chain_seg_start)
    ultimately show ?thesis by (intro exI [of _ ?m] exI [of _ dr'] exI [of _ "segs @ [chain_seg (c @ [b])]"]) simp
  next
    case False
    have new: "chains tag (accs @ [Hit tag b st]) = (cs, c @ [b])" using ch False by (simp add: chains_snoc)
    let ?m = "m(tag \<mapsto> chain_seg (c @ [b]))"
    have "open_ok ?m t (snd (chains t (accs @ [Hit tag b st])))" for t
      by (rule open_ok_upd [OF inv]) (simp_all add: new open_ok_chain_seg)
    then have "recorder_inv (accs @ [Hit tag b st]) ?m dr segs" by (intro recorder_stay [OF inv]) (simp_all add: new ch)
    moreover have "seg_hit tag b st (m, dr) = Some (?m, dr)"
      unfolding seg_hit_def by (simp only: prod.case Let_def seg False if_False)
    ultimately show ?thesis by (intro exI [of _ ?m] exI [of _ dr] exI [of _ segs]) simp
  qed
qed

lemma recorder_miss:
  assumes inv: "recorder_inv accs m dr segs" and len: "Suc (length segs) < 2 ^ 64"
  shows "\<exists>m' dr' segs'. seg_miss tag (m, dr) = Some (m', dr') \<and>
    recorder_inv (accs @ [Miss tag]) m' dr' segs' \<and> length segs' \<le> Suc (length segs)"
proof -
  obtain cs c where ch: "chains tag accs = (cs, c)" by (cases "chains tag accs")
  have opc: "open_ok m tag c" using recorder_open [OF inv, of tag] ch by simp
  have new: "chains tag (accs @ [Miss tag]) = (if c = [] then (cs, []) else (cs @ [c], []))" using ch by (simp add: chains_snoc)
  show ?thesis
  proof (cases "m tag")
    case None
    then have "c = []" using opc by (simp add: open_ok_def)
    moreover have "open_ok m t (snd (chains t (accs @ [Miss tag])))" for t
      by (rule open_ok_upd [OF inv]) (use None new in \<open>simp_all add: open_ok_def\<close>)
    ultimately have "recorder_inv (accs @ [Miss tag]) m dr segs" by (intro recorder_stay [OF inv]) (simp_all add: new ch)
    with None show ?thesis by (intro exI [of _ m] exI [of _ dr] exI [of _ segs]) (simp add: seg_miss_def)
  next
    case (Some seg)
    let ?m = "m(tag \<mapsto> seg_clear seg)"
    have ok: "open_ok ?m t (snd (chains t (accs @ [Miss tag])))" for t
      by (rule open_ok_upd [OF inv]) (simp_all add: new open_ok_def seg_clear_def)
    show ?thesis
    proof (cases "c = []")
      case True
      then have "UpdateTrie own_root seg dr = Some dr" using opc Some by (simp add: open_ok_def UpdateTrie_def seg_size_def)
      moreover have "recorder_inv (accs @ [Miss tag]) ?m dr segs"
        using ok by (intro recorder_stay [OF inv]) (simp_all add: new ch True)
      ultimately show ?thesis using Some
        by (intro exI [of _ ?m] exI [of _ dr] exI [of _ segs]) (simp add: seg_miss_def)
    next
      case False
      have seg: "seg = chain_seg c" by (rule open_chain_seg [OF opc Some False])
      obtain dr' where "UpdateTrie own_root seg dr = Some dr'" "recorder_inv (accs @ [Miss tag]) ?m dr' (segs @ [chain_seg c])"
        using recorder_close [OF inv len False, of "Miss tag" ?m] ok new ch False seg by auto
      then show ?thesis using Some
        by (intro exI [of _ ?m] exI [of _ dr'] exI [of _ "segs @ [chain_seg c]"]) (simp add: seg_miss_def)
    qed
  qed
qed

lemma recorder_step:
  assumes "recorder_inv accs m dr segs" and "Suc (length segs) < 2 ^ 64"
  shows "\<exists>m' dr' segs'. access_step a (m, dr) = Some (m', dr') \<and> recorder_inv (accs @ [a]) m' dr' segs' \<and>
    length segs' \<le> Suc (length segs)"
  using recorder_hit [OF assms] recorder_miss [OF assms] by (cases a) simp_all

text \<open>
  Over any interleaving of the accesses to any number of tags, the trie ends up with exactly the
  pieces of every tag.
\<close>

lemma run_accesses_spec:
  assumes "length accs < 2 ^ 64"
  shows "\<exists>m dr segs. run_accesses accs (Map.empty, new_DataReuse) = Some (m, dr) \<and> recorder_inv accs m dr segs \<and>
    length segs \<le> length accs"
  using assms
proof (induction accs rule: rev_induct)
  case Nil
  show ?case
    by (intro exI [of _ Map.empty] exI [of _ new_DataReuse] exI [of _ "[]"])
      (simp add: run_accesses_def new_DataReuse_def open_ok_def all_segs_def recorder_inv_def)
next
  case (snoc a accs)
  then obtain m dr segs where r: "run_accesses accs (Map.empty, new_DataReuse) = Some (m, dr)"
    "recorder_inv accs m dr segs" "length segs \<le> length accs" by auto
  have "Suc (length segs) < 2 ^ 64" using r(3) snoc.prems by simp
  from recorder_step [OF r(2) this, of a] obtain m' dr' segs' where step: "access_step a (m, dr) = Some (m', dr')"
    "recorder_inv (accs @ [a]) m' dr' segs'" "length segs' \<le> Suc (length segs)" by blast
  have "run_accesses (accs @ [a]) (Map.empty, new_DataReuse) = Some (m', dr')"
    using r(1) step(1) by (simp add: run_accesses_def foldM_append)
  with step(2,3) r(3) show ?case by (intro exI [of _ m'] exI [of _ dr'] exI [of _ segs']) simp
qed

text \<open>The leaf of a path counts the pieces that have this path.\<close>

definition pieces_at :: "'a::linorder access list \<Rightarrow> 'a list \<Rightarrow> nat" where
  "pieces_at accs p = size (filter_mset (\<lambda>seg. 1 < seg_size seg \<and> seg_key seg = p) (all_segs accs))"

lemma key_total_ones:
  assumes "\<forall>s \<in> set segs. seg_count s = 1"
  shows "key_total segs p = size (filter_mset (\<lambda>seg. 1 < seg_size seg \<and> seg_key seg = p) (mset segs))"
  using assms by (induction segs) (auto simp: key_total_def big_def)

lemma run_accesses_leaves:
  assumes "length accs < 2 ^ 64"
  shows "\<exists>m dr t. run_accesses accs (Map.empty, new_DataReuse) = Some (m, dr) \<and> tries dr own_root = Some t \<and>
    (\<forall>p. map_option unat (leaf_at t p) = (if pieces_at accs p = 0 then None else Some (pieces_at accs p)))"
proof -
  obtain m dr t segs where r: "run_accesses accs (Map.empty, new_DataReuse) = Some (m, dr)"
    "tries dr own_root = Some t" "trie_holds t segs" "\<forall>s \<in> set segs. seg_count s = 1" "mset segs = all_segs accs"
    using run_accesses_spec [OF assms] unfolding recorder_inv_def by blast
  have total: "key_total segs p = pieces_at accs p" for p
    using key_total_ones [OF r(4)] r(5) by (simp add: pieces_at_def)
  have "p \<in> seg_key ` set (big segs) \<longleftrightarrow> pieces_at accs p \<noteq> 0" for p
    unfolding pieces_at_def r(5) [symmetric]
    by (auto simp: big_def filter_empty_conv simp flip: mset_filter)
  with r(3) total have "\<forall>p. map_option unat (leaf_at t p) = (if pieces_at accs p = 0 then None else Some (pieces_at accs p))"
    by (simp add: trie_holds_def)
  with r(1,2) show ?thesis by blast
qed

end
