(* ===== verification/Thread_Stats.thy ===== *)
theory Thread_Stats
  imports Reuse_Chain Switch_Count Run_Stats "HOL-Library.AList"
begin

text \<open>
  \<open>ThreadStats\<close> (\<open>PIMProfSolver/Stats.h\<close>): what one thread records while the instrumented
  program runs. A \<open>RunStats *\<close> is an address, the objects live in a heap; the order of the
  reuse segments is the order of the addresses, so the allocator is a parameter
  \<open>new_addr\<close> (the address of a new object, given the live ones) of which only freshness is
  used. The two stacks are lists with \<open>back()\<close> first. The destructor and the printing functions
  are not modelled.
\<close>

type_synonym ptr = nat

record ThreadStats =
  ts_heap :: "(ptr \<times> RunStats) list"
  tid :: int
  pim_time :: COST
  switch_cpu2pim :: int
  switch_pim2cpu :: int
  using_pim :: "bool list"
  current_bblstats :: "ptr list"
  last_begin_bblstats :: ptr
  bbl_hash2stats :: "ptr UUIDHashMap"
  thread_switch_count :: "ptr SwitchCountMatrix"
  tag2seg :: "ptr tag_map"
  thread_data_reuse :: "ptr DataReuse"
  bblhash2cputime :: "COST UUIDHashMap"

definition alloc :: "(ptr list \<Rightarrow> ptr) \<Rightarrow> RunStats \<Rightarrow> (ptr \<times> RunStats) list \<Rightarrow> ptr \<times> (ptr \<times> RunStats) list" where
  "alloc new_addr r heap = (let p = new_addr (map fst heap) in (p, heap @ [(p, r)]))"

text \<open>
  The constructor. Its \<open>last_begin_bblstats\<close> is a second object besides the one of the global
  block; the name \<open>bblhash\<close> it is built with is not declared in the source and is a parameter.
\<close>

definition new_ThreadStats :: "(ptr list \<Rightarrow> ptr) \<Rightarrow> UUID \<Rightarrow> int \<Rightarrow> ThreadStats" where
  "new_ThreadStats new_addr hash0 i =
     (let (g, heap) = alloc new_addr (new_RunStats GLOBAL_BBLID GLOBAL_BBLHASH) [];
          (l, heap) = alloc new_addr (new_RunStats GLOBAL_BBLID hash0) heap
      in \<lparr>ts_heap = heap, tid = i, pim_time = 0, switch_cpu2pim = 0, switch_pim2cpu = 0,
          using_pim = [False], current_bblstats = [g], last_begin_bblstats = l,
          bbl_hash2stats = [(GLOBAL_BBLHASH, g)], thread_switch_count = empty_matrix, tag2seg = Map.empty,
          thread_data_reuse = new_DataReuse, bblhash2cputime = []\<rparr>)"

text \<open>\<open>back()\<close> of an empty vector has no defined result.\<close>

fun back_of :: "'a list \<Rightarrow> 'a option" where
  "back_of [] = None"
| "back_of (x # xs) = Some x"

definition IsUsingPIM :: "ThreadStats \<Rightarrow> bool option" where
  "IsUsingPIM ts = back_of (using_pim ts)"

definition GetCurrentRunStats :: "ThreadStats \<Rightarrow> ptr option" where
  "GetCurrentRunStats ts = back_of (current_bblstats ts)"

definition GetCurrentBBLHash :: "ThreadStats \<Rightarrow> UUID option" where
  "GetCurrentBBLHash ts = do {
     p \<leftarrow> GetCurrentRunStats ts; r \<leftarrow> map_of (ts_heap ts) p; Some (bblhash r) }"

definition on_current :: "(RunStats \<Rightarrow> RunStats) \<Rightarrow> ThreadStats \<Rightarrow> ThreadStats option" where
  "on_current f ts = do {
     p \<leftarrow> GetCurrentRunStats ts; r \<leftarrow> map_of (ts_heap ts) p;
     Some (ts\<lparr>ts_heap := AList.update p (f r) (ts_heap ts)\<rparr>) }"

definition BBLStart :: "(ptr list \<Rightarrow> ptr) \<Rightarrow> u64 \<Rightarrow> u64 \<Rightarrow> ThreadStats \<Rightarrow> ThreadStats option" where
  "BBLStart new_addr hi lo ts = do {
     prev_back \<leftarrow> GetCurrentRunStats ts;
     let ts = (case map_of (bbl_hash2stats ts) (hi, lo) of
         None \<Rightarrow> (let (p, heap) = alloc new_addr (new_RunStats GLOBAL_BBLID (hi, lo)) (ts_heap ts)
                  in ts\<lparr>ts_heap := heap, bbl_hash2stats := bbl_hash2stats ts @ [((hi, lo), p)],
                        current_bblstats := p # current_bblstats ts\<rparr>)
       | Some p \<Rightarrow> ts\<lparr>current_bblstats := p # current_bblstats ts\<rparr>);
     cur \<leftarrow> GetCurrentRunStats ts;
     m \<leftarrow> matrix_insert (last_begin_bblstats ts) cur 1 (thread_switch_count ts);
     Some (ts\<lparr>thread_switch_count := m, last_begin_bblstats := cur\<rparr>) }"

definition BBLEnd :: "u64 \<Rightarrow> u64 \<Rightarrow> ThreadStats \<Rightarrow> ThreadStats option" where
  "BBLEnd hi lo ts = do {
     h \<leftarrow> GetCurrentBBLHash ts;
     if (hi, lo) = h then Some (ts\<lparr>current_bblstats := tl (current_bblstats ts)\<rparr>) else None }"

definition count_switch :: "bool \<Rightarrow> bool \<Rightarrow> ThreadStats \<Rightarrow> ThreadStats" where
  "count_switch prev_back new_back ts =
     (if prev_back \<noteq> new_back
      then (if prev_back then ts\<lparr>switch_pim2cpu := switch_pim2cpu ts + 1\<rparr>
            else ts\<lparr>switch_cpu2pim := switch_cpu2pim ts + 1\<rparr>)
      else ts)"

definition OffloadStart :: "(ptr list \<Rightarrow> ptr) \<Rightarrow> u64 \<Rightarrow> u64 \<Rightarrow> ThreadStats \<Rightarrow> ThreadStats option" where
  "OffloadStart new_addr hi type ts = do {
     prev_back \<leftarrow> IsUsingPIM ts;
     let b = (type = PIMPROF_DECISION_PIM);
     let ts = ts\<lparr>using_pim := b # using_pim ts\<rparr>;
     BBLStart new_addr hi 0 (count_switch prev_back b ts) }"

definition OffloadEnd :: "u64 \<Rightarrow> u64 \<Rightarrow> ThreadStats \<Rightarrow> ThreadStats option" where
  "OffloadEnd hi type ts = do {
     prev_back \<leftarrow> IsUsingPIM ts;
     if prev_back = (type = PIMPROF_DECISION_PIM) then do {
       let ts = ts\<lparr>using_pim := tl (using_pim ts)\<rparr>;
       b \<leftarrow> IsUsingPIM ts;
       BBLEnd hi 0 (count_switch prev_back b ts) }
     else None }"

definition AddTimeInstruction :: "u64 \<Rightarrow> u64 \<Rightarrow> ThreadStats \<Rightarrow> ThreadStats option" where
  "AddTimeInstruction time instr =
     on_current (\<lambda>r. r\<lparr>elapsed_time := elapsed_time r + real (unat time) / 1000000,
                       instruction_count := instruction_count r + instr\<rparr>)"

definition AddMemory :: "u64 \<Rightarrow> ThreadStats \<Rightarrow> ThreadStats option" where
  "AddMemory n = on_current (\<lambda>r. r\<lparr>memory_access := memory_access r + n\<rparr>)"

definition AddOffloadingTime :: "u64 \<Rightarrow> ThreadStats \<Rightarrow> ThreadStats" where
  "AddOffloadingTime time ts = ts\<lparr>pim_time := pim_time ts + real (unat time) / 1000000\<rparr>"

definition AddCPUTime :: "u64 \<Rightarrow> ThreadStats \<Rightarrow> ThreadStats option" where
  "AddCPUTime time ts = do {
     h \<leftarrow> GetCurrentBBLHash ts;
     let old = (case map_of (bblhash2cputime ts) h of Some t \<Rightarrow> t | None \<Rightarrow> 0);
     Some (ts\<lparr>bblhash2cputime := AList.update h (old + real (unat time) / 1000000) (bblhash2cputime ts)\<rparr>) }"

definition InsertSegOnHit :: "u64 \<Rightarrow> bool \<Rightarrow> ThreadStats \<Rightarrow> ThreadStats option" where
  "InsertSegOnHit tag is_store ts = do {
     cur \<leftarrow> GetCurrentRunStats ts;
     (m, dr) \<leftarrow> seg_hit tag cur is_store (tag2seg ts, thread_data_reuse ts);
     Some (ts\<lparr>tag2seg := m, thread_data_reuse := dr\<rparr>) }"

definition SplitSegOnMiss :: "u64 \<Rightarrow> ThreadStats \<Rightarrow> ThreadStats option" where
  "SplitSegOnMiss tag ts = do {
     (m, dr) \<leftarrow> seg_miss tag (tag2seg ts, thread_data_reuse ts);
     Some (ts\<lparr>tag2seg := m, thread_data_reuse := dr\<rparr>) }"

subsection \<open>Events\<close>

datatype event =
    EvStart u64 u64
  | EvEnd u64 u64
  | EvOffloadStart u64 u64
  | EvOffloadEnd u64 u64
  | EvTime u64 u64
  | EvMemory u64
  | EvOffloadingTime u64
  | EvCPUTime u64
  | EvHit u64 bool
  | EvMiss u64

fun step :: "(ptr list \<Rightarrow> ptr) \<Rightarrow> event \<Rightarrow> ThreadStats \<Rightarrow> ThreadStats option" where
  "step na (EvStart hi lo) ts = BBLStart na hi lo ts"
| "step na (EvEnd hi lo) ts = BBLEnd hi lo ts"
| "step na (EvOffloadStart hi type) ts = OffloadStart na hi type ts"
| "step na (EvOffloadEnd hi type) ts = OffloadEnd hi type ts"
| "step na (EvTime time instr) ts = AddTimeInstruction time instr ts"
| "step na (EvMemory n) ts = AddMemory n ts"
| "step na (EvOffloadingTime t) ts = Some (AddOffloadingTime t ts)"
| "step na (EvCPUTime t) ts = AddCPUTime t ts"
| "step na (EvHit tag st) ts = InsertSegOnHit tag st ts"
| "step na (EvMiss tag) ts = SplitSegOnMiss tag ts"

definition run :: "(ptr list \<Rightarrow> ptr) \<Rightarrow> event list \<Rightarrow> ThreadStats \<Rightarrow> ThreadStats option" where
  "run na es ts = foldM (step na) es ts"

inductive reachable :: "(ptr list \<Rightarrow> ptr) \<Rightarrow> UUID \<Rightarrow> ThreadStats \<Rightarrow> bool" for na :: "ptr list \<Rightarrow> ptr" and h0 :: UUID where
  init: "reachable na h0 (new_ThreadStats na h0 i)"
| step: "reachable na h0 ts \<Longrightarrow> step na e ts = Some ts' \<Longrightarrow> reachable na h0 ts'"

inductive_cases reachableE: "reachable na h0 ts"

definition allocates :: "(ptr list \<Rightarrow> ptr) \<Rightarrow> bool" where
  "allocates na \<longleftrightarrow> (\<forall>live. na live \<notin> set live)"

text \<open>
  The invariant: addresses are distinct, the hash map is a bijection between the known hashes and
  live objects that carry them, every pointer is live, and the switch counters differ by one
  exactly when the thread is on the PIM side.
\<close>

definition heap_hash :: "ThreadStats \<Rightarrow> ptr \<Rightarrow> UUID option" where
  "heap_hash ts p = map_option bblhash (map_of (ts_heap ts) p)"

definition map_inv :: "ThreadStats \<Rightarrow> bool" where
  "map_inv ts \<longleftrightarrow> distinct (map fst (ts_heap ts)) \<and> distinct (map fst (bbl_hash2stats ts)) \<and>
     (\<forall>(h, p) \<in> set (bbl_hash2stats ts). heap_hash ts p = Some h)"

definition stack_inv :: "ThreadStats \<Rightarrow> bool" where
  "stack_inv ts \<longleftrightarrow> set (current_bblstats ts) \<subseteq> snd ` set (bbl_hash2stats ts) \<and>
     last_begin_bblstats ts \<in> fst ` set (ts_heap ts)"

definition switch_inv :: "ThreadStats \<Rightarrow> bool" where
  "switch_inv ts \<longleftrightarrow> using_pim ts \<noteq> [] \<and> \<not> last (using_pim ts) \<and>
     switch_cpu2pim ts - switch_pim2cpu ts = of_bool (hd (using_pim ts))"

definition thread_inv :: "ThreadStats \<Rightarrow> bool" where
  "thread_inv ts \<longleftrightarrow> map_inv ts \<and> stack_inv ts \<and> switch_inv ts \<and> matrix_ok (thread_switch_count ts)"

lemma map_of_alloc: "distinct (map fst heap) \<Longrightarrow> p \<in> fst ` set heap \<Longrightarrow> map_of (heap @ [(q, r)]) p = map_of heap p"
  by (auto simp: map_add_def map_of_eq_None_iff split: option.splits)

lemma new_ThreadStats_inv: "allocates na \<Longrightarrow> thread_inv (new_ThreadStats na h0 i)"
proof -
  assume "allocates na"
  then have "na [na []] \<noteq> na []" by (auto simp: allocates_def dest: spec [of _ "[na []]"])
  then show ?thesis
    by (simp add: thread_inv_def map_inv_def stack_inv_def switch_inv_def new_ThreadStats_def alloc_def Let_def
        heap_hash_def new_RunStats_def matrix_ok_empty)
qed

lemma back_of_hd: "back_of xs = Some x \<longleftrightarrow> xs \<noteq> [] \<and> x = hd xs"
  by (cases xs) auto

lemma map_inv_live:
  assumes "map_inv ts" and "(h, q) \<in> set (bbl_hash2stats ts)"
  shows "q \<in> fst ` set (ts_heap ts)" and "heap_hash ts q = Some h"
proof -
  show hash: "heap_hash ts q = Some h" using assms unfolding map_inv_def by blast
  then show "q \<in> fst ` set (ts_heap ts)"
    by (auto simp: heap_hash_def dest!: map_of_SomeD intro!: rev_image_eqI)
qed

text \<open>A new object for a hash that has none.\<close>

lemma map_inv_alloc:
  assumes inv: "map_inv ts" and new: "map_of (bbl_hash2stats ts) h = None" and p: "p \<notin> fst ` set (ts_heap ts)"
    and r: "bblhash r = h"
  shows "map_inv (ts\<lparr>ts_heap := ts_heap ts @ [(p, r)], bbl_hash2stats := bbl_hash2stats ts @ [(h, p)]\<rparr>)"
    and "\<forall>q \<in> fst ` set (ts_heap ts). map_of (ts_heap ts @ [(p, r)]) q = map_of (ts_heap ts) q"
proof -
  let ?ts = "ts\<lparr>ts_heap := ts_heap ts @ [(p, r)], bbl_hash2stats := bbl_hash2stats ts @ [(h, p)]\<rparr>"
  have dist: "distinct (map fst (ts_heap ts))" "distinct (map fst (bbl_hash2stats ts))"
    using inv by (simp_all add: map_inv_def)
  show same: "\<forall>q \<in> fst ` set (ts_heap ts). map_of (ts_heap ts @ [(p, r)]) q = map_of (ts_heap ts) q"
    using map_of_alloc [OF dist(1)] by blast
  have "heap_hash ?ts q = Some k" if "(k, q) \<in> set (bbl_hash2stats ts)" for k q
    using map_inv_live(2) [OF inv that] bspec [OF same map_inv_live(1) [OF inv that]] by (simp add: heap_hash_def)
  moreover have "map_of (ts_heap ts) p = None" using p by (simp add: map_of_eq_None_iff)
  then have "heap_hash ?ts p = Some h" using r by (simp add: heap_hash_def map_add_def)
  ultimately have "\<forall>(k, q) \<in> set (bbl_hash2stats ?ts). heap_hash ?ts q = Some k" by auto
  then show "map_inv ?ts"
    using dist p new unfolding map_inv_def by (simp add: map_of_eq_None_iff)
qed

lemma lookup_or_new:
  assumes na: "allocates na" and inv: "map_inv ts"
  obtains p heap hs where "(case map_of (bbl_hash2stats ts) h of
      None \<Rightarrow> (let (p, heap) = alloc na (new_RunStats GLOBAL_BBLID h) (ts_heap ts)
               in ts\<lparr>ts_heap := heap, bbl_hash2stats := bbl_hash2stats ts @ [(h, p)], current_bblstats := p # current_bblstats ts\<rparr>)
    | Some p \<Rightarrow> ts\<lparr>current_bblstats := p # current_bblstats ts\<rparr>) =
      ts\<lparr>ts_heap := heap, bbl_hash2stats := hs, current_bblstats := p # current_bblstats ts\<rparr>"
    "(h, p) \<in> set hs" "map_inv (ts\<lparr>ts_heap := heap, bbl_hash2stats := hs\<rparr>)" "set (bbl_hash2stats ts) \<subseteq> set hs"
    "fst ` set (ts_heap ts) \<subseteq> fst ` set heap" "\<forall>q \<in> fst ` set (ts_heap ts). map_of heap q = map_of (ts_heap ts) q"
proof (cases "map_of (bbl_hash2stats ts) h")
  case (Some p)
  then show thesis using inv by (intro that [where p = p and heap = "ts_heap ts" and hs = "bbl_hash2stats ts"]) (auto dest: map_of_SomeD)
next
  case None
  let ?p = "na (map fst (ts_heap ts))" and ?r = "new_RunStats GLOBAL_BBLID h"
  have "?p \<notin> fst ` set (ts_heap ts)" using na by (metis allocates_def set_map)
  from map_inv_alloc [OF inv None this, of ?r] show thesis
    using None by (intro that [where p = ?p and heap = "ts_heap ts @ [(?p, ?r)]" and hs = "bbl_hash2stats ts @ [(h, ?p)]"])
      (auto simp: alloc_def new_RunStats_def Let_def)
qed

lemma BBLStart_inv:
  assumes na: "allocates na" and inv: "map_inv ts" "stack_inv ts" "matrix_ok (thread_switch_count ts)"
    and ne: "current_bblstats ts \<noteq> []"
  shows "\<exists>ts' p. BBLStart na hi lo ts = Some ts' \<and> map_inv ts' \<and> stack_inv ts' \<and>
    matrix_ok (thread_switch_count ts') \<and> current_bblstats ts' = p # current_bblstats ts \<and>
    heap_hash ts' p = Some (hi, lo) \<and> last_begin_bblstats ts' = p \<and>
    (\<forall>q \<in> fst ` set (ts_heap ts). map_of (ts_heap ts') q = map_of (ts_heap ts) q) \<and>
    (\<forall>h q. (h, q) \<in> set (bbl_hash2stats ts) \<longrightarrow> (h, q) \<in> set (bbl_hash2stats ts')) \<and>
    using_pim ts' = using_pim ts \<and> switch_cpu2pim ts' = switch_cpu2pim ts \<and> switch_pim2cpu ts' = switch_pim2cpu ts \<and>
    tag2seg ts' = tag2seg ts \<and> thread_data_reuse ts' = thread_data_reuse ts \<and>
    (\<forall>x y. matrix_count (thread_switch_count ts') x y = matrix_count (thread_switch_count ts) x y +
       (if x = last_begin_bblstats ts \<and> y = p then 1 else 0))"
proof -
  obtain c where c: "GetCurrentRunStats ts = Some c"
    using ne by (cases "current_bblstats ts") (auto simp: GetCurrentRunStats_def)
  obtain p heap hs where new: "(case map_of (bbl_hash2stats ts) (hi, lo) of
      None \<Rightarrow> (let (p, heap) = alloc na (new_RunStats GLOBAL_BBLID (hi, lo)) (ts_heap ts)
               in ts\<lparr>ts_heap := heap, bbl_hash2stats := bbl_hash2stats ts @ [((hi, lo), p)], current_bblstats := p # current_bblstats ts\<rparr>)
    | Some p \<Rightarrow> ts\<lparr>current_bblstats := p # current_bblstats ts\<rparr>) =
      ts\<lparr>ts_heap := heap, bbl_hash2stats := hs, current_bblstats := p # current_bblstats ts\<rparr>"
    and p: "((hi, lo), p) \<in> set hs" and minv: "map_inv (ts\<lparr>ts_heap := heap, bbl_hash2stats := hs\<rparr>)"
    and sub: "set (bbl_hash2stats ts) \<subseteq> set hs" "fst ` set (ts_heap ts) \<subseteq> fst ` set heap"
    and same: "\<forall>q \<in> fst ` set (ts_heap ts). map_of heap q = map_of (ts_heap ts) q"
    by (rule lookup_or_new [OF na inv(1), of "(hi, lo)"])
  obtain m where m: "matrix_insert (last_begin_bblstats ts) p 1 (thread_switch_count ts) = Some m" "matrix_ok m"
    "\<forall>x y. matrix_count m x y = matrix_count (thread_switch_count ts) x y +
       (if x = last_begin_bblstats ts \<and> y = p then 1 else 0)"
    using matrix_insert_spec [OF inv(3), of "last_begin_bblstats ts" p 1] by blast
  let ?ts = "ts\<lparr>ts_heap := heap, bbl_hash2stats := hs, current_bblstats := p # current_bblstats ts,
    thread_switch_count := m, last_begin_bblstats := p\<rparr>"
  have "BBLStart na hi lo ts = Some ?ts"
    using c m(1) by (simp add: BBLStart_def new GetCurrentRunStats_def Let_def)
  moreover have "map_inv ?ts" using minv by (simp add: map_inv_def heap_hash_def del: map_of_eq_Some_iff)
  moreover have live: "p \<in> fst ` set heap" "heap_hash ?ts p = Some (hi, lo)"
    using map_inv_live [OF minv] p by (simp_all add: heap_hash_def)
  have "set (current_bblstats ts) \<subseteq> snd ` set hs" using inv(2) image_mono [OF sub(1), of snd] unfolding stack_inv_def by blast
  then have "stack_inv ?ts" using live(1) image_eqI [OF _ p, of p snd] by (simp add: stack_inv_def)
  ultimately show ?thesis using m(2,3) same sub(1) live(2)
    by (intro exI [of _ ?ts] exI [of _ p] conjI) (simp_all add: subset_iff)
qed

subsection \<open>Every operation keeps the invariant\<close>

lemma heap_hash_update:
  "map_of (ts_heap ts) p = Some r \<Longrightarrow> bblhash (f r) = bblhash r \<Longrightarrow>
   heap_hash (ts\<lparr>ts_heap := AList.update p (f r) (ts_heap ts)\<rparr>) q = heap_hash ts q"
  by (simp add: heap_hash_def update_conv')

lemma on_current_spec:
  assumes "on_current f ts = Some ts'" and "\<And>r. bblhash (f r) = bblhash r"
  shows "heap_hash ts' = heap_hash ts \<and> fst ` set (ts_heap ts') = fst ` set (ts_heap ts) \<and>
    (distinct (map fst (ts_heap ts)) \<longrightarrow> distinct (map fst (ts_heap ts'))) \<and>
    ts' = ts\<lparr>ts_heap := ts_heap ts'\<rparr>"
proof -
  obtain p r where p: "map_of (ts_heap ts) p = Some r" "ts' = ts\<lparr>ts_heap := AList.update p (f r) (ts_heap ts)\<rparr>"
    using assms(1) by (auto simp: on_current_def bind_eq_Some_conv)
  have "p \<in> fst ` set (ts_heap ts)" using map_of_SomeD [OF p(1)] by force
  then have "fst ` set (AList.update p (f r) (ts_heap ts)) = fst ` set (ts_heap ts)"
    using dom_update [of p "f r" "ts_heap ts"] by auto
  with heap_hash_update [OF p(1), of f] assms(2) p(2) show ?thesis
    by (auto simp: distinct_update)
qed

lemma on_current_inv:
  assumes "thread_inv ts" and "on_current f ts = Some ts'" and "\<And>r. bblhash (f r) = bblhash r"
  shows "thread_inv ts'"
proof -
  note spec = on_current_spec [OF assms(2,3)]
  obtain h where h: "ts' = ts\<lparr>ts_heap := h\<rparr>" using spec by blast
  have "map_inv ts'" using assms(1) spec unfolding thread_inv_def map_inv_def by (simp add: h)
  moreover have "stack_inv ts'" using assms(1) spec unfolding thread_inv_def stack_inv_def by (simp add: h)
  ultimately show ?thesis using assms(1) by (simp add: thread_inv_def switch_inv_def h)
qed

lemma thread_inv_frame:
  "thread_inv ts \<Longrightarrow> ts_heap ts' = ts_heap ts \<Longrightarrow> bbl_hash2stats ts' = bbl_hash2stats ts \<Longrightarrow>
   set (current_bblstats ts') \<subseteq> set (current_bblstats ts) \<Longrightarrow> last_begin_bblstats ts' = last_begin_bblstats ts \<Longrightarrow>
   switch_inv ts' \<Longrightarrow> thread_switch_count ts' = thread_switch_count ts \<Longrightarrow> thread_inv ts'"
  unfolding thread_inv_def map_inv_def stack_inv_def heap_hash_def
  by (simp del: map_of_eq_Some_iff) blast

lemma thread_inv_switch: "thread_inv ts \<Longrightarrow> switch_inv ts"
  by (simp add: thread_inv_def)

lemma BBLEnd_inv:
  "thread_inv ts \<Longrightarrow> BBLEnd hi lo ts = Some ts' \<Longrightarrow> thread_inv ts'"
proof -
  assume inv: "thread_inv ts" and ok: "BBLEnd hi lo ts = Some ts'"
  then have ts': "ts' = ts\<lparr>current_bblstats := tl (current_bblstats ts)\<rparr>"
    by (auto simp: BBLEnd_def bind_eq_Some_conv split: if_splits)
  have "set (tl (current_bblstats ts)) \<subseteq> set (current_bblstats ts)" by (cases "current_bblstats ts") auto
  with inv thread_inv_switch [OF inv] show ?thesis
    by (intro thread_inv_frame [OF inv]) (simp_all add: ts' switch_inv_def)
qed

lemma count_switch_fields [simp]:
  "ts_heap (count_switch a b ts) = ts_heap ts" "using_pim (count_switch a b ts) = using_pim ts"
  "current_bblstats (count_switch a b ts) = current_bblstats ts"
  "last_begin_bblstats (count_switch a b ts) = last_begin_bblstats ts"
  "bbl_hash2stats (count_switch a b ts) = bbl_hash2stats ts"
  "thread_switch_count (count_switch a b ts) = thread_switch_count ts"
  "tag2seg (count_switch a b ts) = tag2seg ts" "thread_data_reuse (count_switch a b ts) = thread_data_reuse ts"
  "heap_hash (count_switch a b ts) = heap_hash ts"
  by (auto simp: count_switch_def heap_hash_def)

lemma count_switch_diff:
  "switch_cpu2pim (count_switch a b ts) - switch_pim2cpu (count_switch a b ts) =
   switch_cpu2pim ts - switch_pim2cpu ts + of_bool b - of_bool a"
  by (auto simp: count_switch_def)

lemma BBLStart_thread_inv:
  assumes "allocates na" and "thread_inv ts" and "BBLStart na hi lo ts = Some ts'"
  shows "thread_inv ts'"
proof -
  have ne: "current_bblstats ts \<noteq> []"
    using assms(3) by (auto simp: BBLStart_def GetCurrentRunStats_def)
  have "map_inv ts" "stack_inv ts" "matrix_ok (thread_switch_count ts)" using assms(2) by (simp_all add: thread_inv_def)
  from BBLStart_inv [OF assms(1) this ne, of hi lo] assms(2,3) show ?thesis
    by (auto simp: thread_inv_def switch_inv_def)
qed

lemma OffloadStart_thread_inv:
  assumes "allocates na" and "thread_inv ts" and "OffloadStart na hi type ts = Some ts'"
  shows "thread_inv ts'"
proof -
  let ?b = "type = PIMPROF_DECISION_PIM"
  obtain a where a: "IsUsingPIM ts = Some a"
    and st: "BBLStart na hi 0 (count_switch a ?b (ts\<lparr>using_pim := ?b # using_pim ts\<rparr>)) = Some ts'"
    using assms(3) by (auto simp: OffloadStart_def bind_eq_Some_conv Let_def)
  then have "a = hd (using_pim ts)" by (simp add: IsUsingPIM_def back_of_hd)
  then have "thread_inv (count_switch a ?b (ts\<lparr>using_pim := ?b # using_pim ts\<rparr>))"
    using thread_inv_switch [OF assms(2)]
    by (intro thread_inv_frame [OF assms(2)]) (simp_all add: switch_inv_def count_switch_diff)
  then show ?thesis using BBLStart_thread_inv [OF assms(1) _ st] by blast
qed

lemma OffloadEnd_thread_inv:
  assumes "thread_inv ts" and "OffloadEnd hi type ts = Some ts'"
  shows "thread_inv ts'"
proof -
  obtain a b where a: "IsUsingPIM ts = Some a" "IsUsingPIM (ts\<lparr>using_pim := tl (using_pim ts)\<rparr>) = Some b"
    and st: "BBLEnd hi 0 (count_switch a b (ts\<lparr>using_pim := tl (using_pim ts)\<rparr>)) = Some ts'"
    using assms(2) by (auto simp: OffloadEnd_def bind_eq_Some_conv Let_def split: if_splits)
  then have "a = hd (using_pim ts)" "tl (using_pim ts) \<noteq> []" "b = hd (tl (using_pim ts))"
    by (simp_all add: IsUsingPIM_def back_of_hd)
  then have "thread_inv (count_switch a b (ts\<lparr>using_pim := tl (using_pim ts)\<rparr>))"
    using thread_inv_switch [OF assms(1)]
    by (intro thread_inv_frame [OF assms(1)]) (simp_all add: switch_inv_def count_switch_diff last_tl)
  then show ?thesis using BBLEnd_inv st by blast
qed

lemma step_thread_inv:
  assumes na: "allocates na" and inv: "thread_inv ts" and st: "step na e ts = Some ts'"
  shows "thread_inv ts'"
proof (cases e)
  case (EvTime time instr)
  with st show ?thesis by (auto simp: AddTimeInstruction_def intro: on_current_inv [OF inv])
next
  case (EvMemory n)
  with st show ?thesis by (auto simp: AddMemory_def intro: on_current_inv [OF inv])
next
  case (EvHit tag w)
  then have "switch_inv ts'" using st thread_inv_switch [OF inv]
    by (auto simp: InsertSegOnHit_def switch_inv_def bind_eq_Some_conv Let_def)
  with st EvHit show ?thesis
    by (intro thread_inv_frame [OF inv]) (auto simp: InsertSegOnHit_def bind_eq_Some_conv Let_def)
next
  case (EvMiss tag)
  then have "switch_inv ts'" using st thread_inv_switch [OF inv]
    by (auto simp: SplitSegOnMiss_def switch_inv_def bind_eq_Some_conv Let_def)
  with st EvMiss show ?thesis
    by (intro thread_inv_frame [OF inv]) (auto simp: SplitSegOnMiss_def bind_eq_Some_conv Let_def)
next
  case (EvCPUTime t)
  then have "switch_inv ts'" using st thread_inv_switch [OF inv]
    by (auto simp: AddCPUTime_def switch_inv_def bind_eq_Some_conv Let_def)
  with st EvCPUTime show ?thesis
    by (intro thread_inv_frame [OF inv]) (auto simp: AddCPUTime_def bind_eq_Some_conv Let_def)
next
  case (EvOffloadingTime t)
  then have "switch_inv ts'" using st thread_inv_switch [OF inv]
    by (auto simp: AddOffloadingTime_def switch_inv_def bind_eq_Some_conv Let_def)
  with st EvOffloadingTime show ?thesis
    by (intro thread_inv_frame [OF inv]) (auto simp: AddOffloadingTime_def bind_eq_Some_conv Let_def)
qed (use st inv na in \<open>auto intro: BBLStart_thread_inv BBLEnd_inv OffloadStart_thread_inv OffloadEnd_thread_inv\<close>)

lemma reachable_inv: "reachable na h0 ts \<Longrightarrow> allocates na \<Longrightarrow> thread_inv ts"
  by (induction rule: reachable.induct) (auto intro: new_ThreadStats_inv step_thread_inv)

subsection \<open>Balanced traces never fail\<close>

text \<open>What correctly nested annotations produce.\<close>

fun neutral :: "event \<Rightarrow> bool" where
  "neutral (EvStart hi lo) = False"
| "neutral (EvEnd hi lo) = False"
| "neutral (EvOffloadStart hi type) = False"
| "neutral (EvOffloadEnd hi type) = False"
| "neutral e = True"

inductive balanced :: "event list \<Rightarrow> bool" where
  nil: "balanced []"
| seq: "balanced es \<Longrightarrow> balanced fs \<Longrightarrow> balanced (es @ fs)"
| single: "neutral e \<Longrightarrow> balanced [e]"
| block: "balanced es \<Longrightarrow> balanced (EvStart hi lo # es @ [EvEnd hi lo])"
| offload: "balanced es \<Longrightarrow> balanced (EvOffloadStart hi type # es @ [EvOffloadEnd hi type])"

definition live_state :: "ThreadStats \<Rightarrow> ptr access list \<Rightarrow> bool" where
  "live_state ts accs \<longleftrightarrow> thread_inv ts \<and> current_bblstats ts \<noteq> [] \<and>
     run_accesses accs (Map.empty, new_DataReuse) = Some (tag2seg ts, thread_data_reuse ts)"

definition same_stacks :: "ThreadStats \<Rightarrow> ThreadStats \<Rightarrow> bool" where
  "same_stacks ts ts' \<longleftrightarrow> current_bblstats ts' = current_bblstats ts \<and> using_pim ts' = using_pim ts \<and>
     (\<forall>q h. heap_hash ts q = Some h \<longrightarrow> heap_hash ts' q = Some h)"

lemma same_stacks_trans: "same_stacks a b \<Longrightarrow> same_stacks b c \<Longrightarrow> same_stacks a c"
  by (simp add: same_stacks_def)

lemma current_live:
  assumes "thread_inv ts" and "current_bblstats ts = p # ps"
  obtains r where "map_of (ts_heap ts) p = Some r" "heap_hash ts p = Some (bblhash r)"
proof -
  have "p \<in> snd ` set (bbl_hash2stats ts)" using assms by (auto simp: thread_inv_def stack_inv_def)
  then obtain h where "heap_hash ts p = Some h" using assms(1) by (force simp: thread_inv_def map_inv_def simp del: map_of_eq_Some_iff)
  then show thesis using that by (auto simp: heap_hash_def simp del: map_of_eq_Some_iff)
qed

lemma run_accesses_step:
  assumes "run_accesses accs (Map.empty, new_DataReuse) = Some s" and "Suc (length accs) < 2 ^ 64"
  shows "\<exists>s'. access_step a s = Some s' \<and> run_accesses (accs @ [a]) (Map.empty, new_DataReuse) = Some s'"
proof -
  have "length (accs @ [a]) < 2 ^ 64" using assms(2) by simp
  from run_accesses_spec [OF this] obtain s' where
    "run_accesses (accs @ [a]) (Map.empty, new_DataReuse) = Some s'" by blast
  moreover from this have "access_step a s = Some s'"
    using assms(1) by (cases "access_step a s") (simp_all add: run_accesses_def foldM_append)
  ultimately show ?thesis by blast
qed

lemma neutral_step:
  assumes na: "allocates na" and e: "neutral e" and live: "live_state ts accs" and len: "Suc (length accs) < 2 ^ 64"
  shows "\<exists>ts' accs'. step na e ts = Some ts' \<and> live_state ts' (accs @ accs') \<and> length accs' \<le> 1 \<and> same_stacks ts ts'"
proof -
  obtain p ps where cur: "current_bblstats ts = p # ps" using live by (cases "current_bblstats ts") (auto simp: live_state_def)
  have inv: "thread_inv ts" and run: "run_accesses accs (Map.empty, new_DataReuse) = Some (tag2seg ts, thread_data_reuse ts)"
    using live by (simp_all add: live_state_def)
  obtain r where r: "map_of (ts_heap ts) p = Some r" using current_live [OF inv cur] by blast
  have cp: "GetCurrentRunStats ts = Some p" by (simp add: GetCurrentRunStats_def cur)
  have upd: "\<exists>ts'. on_current f ts = Some ts' \<and> same_stacks ts ts' \<and> tag2seg ts' = tag2seg ts \<and>
      thread_data_reuse ts' = thread_data_reuse ts" if "\<And>r. bblhash (f r) = bblhash r" for f
    using cp r heap_hash_update [OF r, of f] that
    by (auto simp: on_current_def same_stacks_def simp del: map_of_eq_Some_iff)
  have "\<exists>ts' accs'. step na e ts = Some ts' \<and> same_stacks ts ts' \<and> length accs' \<le> 1 \<and>
      run_accesses (accs @ accs') (Map.empty, new_DataReuse) = Some (tag2seg ts', thread_data_reuse ts')"
  proof (cases e)
    case (EvTime time instr)
    then show ?thesis using upd [of "\<lambda>r. r\<lparr>elapsed_time := elapsed_time r + real (unat time) / 1000000,
        instruction_count := instruction_count r + instr\<rparr>"] run
      by (auto simp: AddTimeInstruction_def intro!: exI [of _ "[]"])
  next
    case (EvMemory n)
    then show ?thesis using upd [of "\<lambda>r. r\<lparr>memory_access := memory_access r + n\<rparr>"] run
      by (auto simp: AddMemory_def intro!: exI [of _ "[]"])
  next
    case (EvHit tag w)
    obtain m dr where s: "access_step (Hit tag p w) (tag2seg ts, thread_data_reuse ts) = Some (m, dr)"
      "run_accesses (accs @ [Hit tag p w]) (Map.empty, new_DataReuse) = Some (m, dr)"
      using run_accesses_step [OF run len, of "Hit tag p w"] by auto
    then show ?thesis using EvHit cp
      by (intro exI [of _ "ts\<lparr>tag2seg := m, thread_data_reuse := dr\<rparr>"] exI [of _ "[Hit tag p w]"])
        (simp add: InsertSegOnHit_def same_stacks_def heap_hash_def del: map_of_eq_Some_iff)
  next
    case (EvMiss tag)
    obtain m dr where s: "access_step (Miss tag) (tag2seg ts, thread_data_reuse ts) = Some (m, dr)"
      "run_accesses (accs @ [Miss tag]) (Map.empty, new_DataReuse) = Some (m, dr)"
      using run_accesses_step [OF run len, of "Miss tag"] by auto
    then show ?thesis using EvMiss
      by (intro exI [of _ "ts\<lparr>tag2seg := m, thread_data_reuse := dr\<rparr>"] exI [of _ "[Miss tag]"])
        (simp add: SplitSegOnMiss_def same_stacks_def heap_hash_def del: map_of_eq_Some_iff)
  next
    case (EvCPUTime t)
    then show ?thesis using cp r run
      by (intro exI [of _ "the (AddCPUTime t ts)"] exI [of _ "[]"])
        (simp add: AddCPUTime_def GetCurrentBBLHash_def Let_def same_stacks_def heap_hash_def del: map_of_eq_Some_iff)
  next
    case (EvOffloadingTime t)
    then show ?thesis using run
      by (intro exI [of _ "AddOffloadingTime t ts"] exI [of _ "[]"])
        (simp add: AddOffloadingTime_def same_stacks_def heap_hash_def del: map_of_eq_Some_iff)
  qed (use e in simp_all)
  then obtain ts' accs' where "step na e ts = Some ts'" "same_stacks ts ts'" "length accs' \<le> 1"
    "run_accesses (accs @ accs') (Map.empty, new_DataReuse) = Some (tag2seg ts', thread_data_reuse ts')" by blast
  moreover from this have "live_state ts' (accs @ accs')"
    using step_thread_inv [OF na inv] cur by (auto simp: live_state_def same_stacks_def)
  ultimately show ?thesis by blast
qed

lemma enter_block:
  assumes na: "allocates na" and live: "live_state ts accs"
  shows "\<exists>ts' p. BBLStart na hi lo ts = Some ts' \<and> live_state ts' accs \<and> using_pim ts' = using_pim ts \<and>
    current_bblstats ts' = p # current_bblstats ts \<and> heap_hash ts' p = Some (hi, lo) \<and>
    (\<forall>q h. heap_hash ts q = Some h \<longrightarrow> heap_hash ts' q = Some h)"
proof -
  have inv: "thread_inv ts" and ne: "current_bblstats ts \<noteq> []"
    and run: "run_accesses accs (Map.empty, new_DataReuse) = Some (tag2seg ts, thread_data_reuse ts)"
    using live by (simp_all add: live_state_def)
  have parts: "map_inv ts" "stack_inv ts" "matrix_ok (thread_switch_count ts)" using inv by (simp_all add: thread_inv_def)
  obtain ts' p where b: "BBLStart na hi lo ts = Some ts'" "current_bblstats ts' = p # current_bblstats ts"
    "heap_hash ts' p = Some (hi, lo)" "using_pim ts' = using_pim ts" "tag2seg ts' = tag2seg ts"
    "thread_data_reuse ts' = thread_data_reuse ts"
    "\<forall>q \<in> fst ` set (ts_heap ts). map_of (ts_heap ts') q = map_of (ts_heap ts) q"
    using BBLStart_inv [OF na parts ne] by blast
  have "heap_hash ts' q = Some h" if "heap_hash ts q = Some h" for q h
  proof -
    have "q \<in> fst ` set (ts_heap ts)" using that by (auto simp: heap_hash_def dest!: map_of_SomeD intro!: rev_image_eqI)
    then have "map_of (ts_heap ts') q = map_of (ts_heap ts) q" using b(7) by blast
    then show ?thesis using that by (simp add: heap_hash_def)
  qed
  moreover have "live_state ts' accs"
    using BBLStart_thread_inv [OF na inv b(1)] b run by (simp add: live_state_def)
  ultimately show ?thesis using b by blast
qed

lemma leave_block:
  assumes live: "live_state ts accs" and cur: "current_bblstats ts = p # ps" and ne: "ps \<noteq> []"
    and hash: "heap_hash ts p = Some (hi, lo)"
  shows "\<exists>ts'. BBLEnd hi lo ts = Some ts' \<and> live_state ts' accs \<and> current_bblstats ts' = ps \<and>
    using_pim ts' = using_pim ts \<and> (\<forall>q h. heap_hash ts q = Some h \<longrightarrow> heap_hash ts' q = Some h)"
proof -
  let ?ts = "ts\<lparr>current_bblstats := ps\<rparr>"
  have "BBLEnd hi lo ts = Some ?ts"
    using cur hash by (auto simp: BBLEnd_def GetCurrentBBLHash_def GetCurrentRunStats_def heap_hash_def
        simp del: map_of_eq_Some_iff)
  moreover from this have "live_state ?ts accs"
    using live ne BBLEnd_inv by (auto simp: live_state_def)
  ultimately show ?thesis by (intro exI [of _ ?ts]) (simp add: heap_hash_def del: map_of_eq_Some_iff)
qed

lemma live_state_offload:
  assumes "live_state ts accs" and "switch_inv (count_switch a b (ts\<lparr>using_pim := us\<rparr>))"
  shows "live_state (count_switch a b (ts\<lparr>using_pim := us\<rparr>)) accs"
proof -
  have "thread_inv (count_switch a b (ts\<lparr>using_pim := us\<rparr>))"
    by (rule thread_inv_frame [of ts]) (use assms in \<open>simp_all add: live_state_def\<close>)
  with assms(1) show ?thesis by (simp add: live_state_def)
qed

lemma heap_hash_using [simp]: "heap_hash (ts\<lparr>using_pim := us\<rparr>) = heap_hash ts"
  by (simp add: heap_hash_def fun_eq_iff)

text \<open>The start and the end of an offloaded region.\<close>

lemma enter_offload:
  assumes na: "allocates na" and live: "live_state ts accs"
  obtains ts1 p where "OffloadStart na hi type ts = Some ts1" "live_state ts1 accs"
    "using_pim ts1 = (type = PIMPROF_DECISION_PIM) # using_pim ts" "current_bblstats ts1 = p # current_bblstats ts"
    "heap_hash ts1 p = Some (hi, 0)" "\<forall>q h. heap_hash ts q = Some h \<longrightarrow> heap_hash ts1 q = Some h"
proof -
  let ?b = "type = PIMPROF_DECISION_PIM"
  have sw: "switch_inv ts" using live by (simp add: live_state_def thread_inv_def)
  then obtain a us where us: "using_pim ts = a # us" by (cases "using_pim ts") (auto simp: switch_inv_def)
  let ?ts = "count_switch a ?b (ts\<lparr>using_pim := ?b # using_pim ts\<rparr>)"
  have "switch_inv ?ts" using sw us by (simp add: switch_inv_def count_switch_diff)
  from live_state_offload [OF live this] have "live_state ?ts accs" .
  from enter_block [OF na this, of hi 0] obtain ts1 p where 1: "BBLStart na hi 0 ?ts = Some ts1" "live_state ts1 accs"
    "using_pim ts1 = ?b # using_pim ts" "current_bblstats ts1 = p # current_bblstats ts" "heap_hash ts1 p = Some (hi, 0)"
    "\<forall>q h. heap_hash ts q = Some h \<longrightarrow> heap_hash ts1 q = Some h" by auto
  have "OffloadStart na hi type ts = Some ts1"
    using 1(1) us by (simp add: OffloadStart_def IsUsingPIM_def Let_def)
  from that [OF this 1(2-6)] show thesis .
qed

lemma leave_offload:
  assumes live: "live_state ts accs" and pim: "using_pim ts = (type = PIMPROF_DECISION_PIM) # us" "us \<noteq> []" "\<not> last us"
    and top: "current_bblstats ts = p # ps" "ps \<noteq> []" "heap_hash ts p = Some (hi, 0)"
  obtains ts1 where "OffloadEnd hi type ts = Some ts1" "live_state ts1 accs" "using_pim ts1 = us" "current_bblstats ts1 = ps"
    "\<forall>q h. heap_hash ts q = Some h \<longrightarrow> heap_hash ts1 q = Some h"
proof -
  let ?b = "type = PIMPROF_DECISION_PIM"
  obtain a vs where us: "us = a # vs" using pim(2) by (cases us) auto
  let ?ts = "count_switch ?b a (ts\<lparr>using_pim := us\<rparr>)"
  have "switch_inv ts" using live by (simp add: live_state_def thread_inv_def)
  then have "switch_inv ?ts" using pim us by (simp add: switch_inv_def count_switch_diff)
  from live_state_offload [OF live this] have live1: "live_state ?ts accs" .
  have "current_bblstats ?ts = p # ps" "heap_hash ?ts p = Some (hi, 0)" using top by simp_all
  from leave_block [OF live1 this(1) top(2) this(2)] obtain ts1 where 1: "BBLEnd hi 0 ?ts = Some ts1" "live_state ts1 accs"
    "current_bblstats ts1 = ps" "using_pim ts1 = us" "\<forall>q h. heap_hash ts q = Some h \<longrightarrow> heap_hash ts1 q = Some h" by auto
  have "OffloadEnd hi type ts = Some ts1"
    using 1(1) pim us by (simp add: OffloadEnd_def IsUsingPIM_def Let_def)
  from that [OF this 1(2,4,3,5)] show thesis .
qed

lemma balanced_run:
  assumes na: "allocates na"
  shows "balanced es \<Longrightarrow> live_state ts accs \<Longrightarrow> length accs + length es < 2 ^ 64 \<Longrightarrow>
    \<exists>ts' accs'. run na es ts = Some ts' \<and> live_state ts' (accs @ accs') \<and> length accs' \<le> length es \<and>
      same_stacks ts ts'"
proof (induction es arbitrary: ts accs rule: balanced.induct)
  case nil
  then show ?case by (intro exI [of _ ts] exI [of _ "[]"]) (simp add: run_def same_stacks_def)
next
  case (seq es fs)
  then obtain ts1 accs1 where 1: "run na es ts = Some ts1" "live_state ts1 (accs @ accs1)"
    "length accs1 \<le> length es" "same_stacks ts ts1" by fastforce
  have "length (accs @ accs1) + length fs < 2 ^ 64" using seq.prems(2) 1(3) by simp
  from seq.IH(2) [OF 1(2) this] obtain ts2 accs2 where "run na fs ts1 = Some ts2"
    "live_state ts2 ((accs @ accs1) @ accs2)" "length accs2 \<le> length fs" "same_stacks ts1 ts2" by blast
  with 1 same_stacks_trans show ?case
    by (intro exI [of _ ts2] exI [of _ "accs1 @ accs2"]) (auto simp: run_def foldM_append)
next
  case (single e)
  then show ?case using neutral_step [OF na single(1), of ts accs] by (simp add: run_def bind_eq_Some_conv)
next
  case (block es hi lo)
  obtain ts1 p where 1: "BBLStart na hi lo ts = Some ts1" "live_state ts1 accs" "using_pim ts1 = using_pim ts"
    "current_bblstats ts1 = p # current_bblstats ts" "heap_hash ts1 p = Some (hi, lo)"
    "\<forall>q h. heap_hash ts q = Some h \<longrightarrow> heap_hash ts1 q = Some h"
    using enter_block [OF na block.prems(1)] by blast
  have "length accs + length es < 2 ^ 64" using block.prems(2) by simp
  from block.IH [OF 1(2) this] obtain ts2 accs2 where 2: "run na es ts1 = Some ts2"
    "live_state ts2 (accs @ accs2)" "length accs2 \<le> length es" "same_stacks ts1 ts2" by blast
  have "current_bblstats ts2 = p # current_bblstats ts" "heap_hash ts2 p = Some (hi, lo)" "current_bblstats ts \<noteq> []"
    using 1(4,5) 2(4) block.prems(1) by (simp_all add: same_stacks_def live_state_def)
  from leave_block [OF 2(2) this(1,3,2)] obtain ts3 where 3: "BBLEnd hi lo ts2 = Some ts3"
    "live_state ts3 (accs @ accs2)" "current_bblstats ts3 = current_bblstats ts" "using_pim ts3 = using_pim ts2"
    "\<forall>q h. heap_hash ts2 q = Some h \<longrightarrow> heap_hash ts3 q = Some h" by blast
  have "run na (EvStart hi lo # es @ [EvEnd hi lo]) ts = Some ts3"
    using 1(1) 2(1) 3(1) by (simp add: run_def foldM_append)
  moreover have "same_stacks ts ts3" using 1 2(4) 3 by (simp add: same_stacks_def)
  ultimately show ?case using 2(3) 3(2) by fastforce
next
  case (offload es hi type)
  obtain ts1 p where 1: "OffloadStart na hi type ts = Some ts1" "live_state ts1 accs"
    "using_pim ts1 = (type = PIMPROF_DECISION_PIM) # using_pim ts" "current_bblstats ts1 = p # current_bblstats ts"
    "heap_hash ts1 p = Some (hi, 0)" "\<forall>q h. heap_hash ts q = Some h \<longrightarrow> heap_hash ts1 q = Some h"
    by (rule enter_offload [OF na offload.prems(1)])
  have "length accs + length es < 2 ^ 64" using offload.prems(2) by simp
  from offload.IH [OF 1(2) this] obtain ts2 accs2 where 2: "run na es ts1 = Some ts2"
    "live_state ts2 (accs @ accs2)" "length accs2 \<le> length es" "same_stacks ts1 ts2" by blast
  have pim: "using_pim ts2 = (type = PIMPROF_DECISION_PIM) # using_pim ts" "using_pim ts \<noteq> []" "\<not> last (using_pim ts)"
    using 1(3) 2(4) offload.prems(1) by (simp_all add: same_stacks_def live_state_def thread_inv_def switch_inv_def)
  have top: "current_bblstats ts2 = p # current_bblstats ts" "current_bblstats ts \<noteq> []" "heap_hash ts2 p = Some (hi, 0)"
    using 1(4,5) 2(4) offload.prems(1) by (simp_all add: same_stacks_def live_state_def)
  obtain ts3 where 3: "OffloadEnd hi type ts2 = Some ts3" "live_state ts3 (accs @ accs2)" "using_pim ts3 = using_pim ts"
    "current_bblstats ts3 = current_bblstats ts" "\<forall>q h. heap_hash ts2 q = Some h \<longrightarrow> heap_hash ts3 q = Some h"
    by (rule leave_offload [OF 2(2) pim top])
  have "run na (EvOffloadStart hi type # es @ [EvOffloadEnd hi type]) ts = Some ts3"
    using 1(1) 2(1) 3(1) by (simp add: run_def foldM_append)
  moreover have "same_stacks ts ts3" using 1 2(4) 3 by (simp add: same_stacks_def)
  ultimately show ?case using 2(3) 3(2) by fastforce
qed

lemma new_ThreadStats_live: "allocates na \<Longrightarrow> live_state (new_ThreadStats na h0 i) []"
  using new_ThreadStats_inv [of na h0 i]
  by (simp add: live_state_def run_accesses_def) (simp add: new_ThreadStats_def alloc_def Let_def)

end
