(* ===== verification/Inject_Trace.thy ===== *)
theory Inject_Trace
  imports Offload_Inject Thread_Stats
begin

text \<open>
  What an injected program does to the statistics of a thread. The simulator answers the magic
  instruction with the operations of \<open>ThreadStats\<close>: \<open>SNIPER_SIM_PIMPROF_BBL_START\<close> with \<open>BBLStart\<close>
  on its two arguments, and so on. A completed activation of a function runs through its blocks
  from the entry block to a return; a call runs activations of other functions of the module,
  and between them come measurements. The activations of a module that the passes produced are
  correctly nested, so the thread statistics never fail on them.
\<close>

subsection \<open>Executions\<close>

definition magic_op :: "u64 \<Rightarrow> u64 \<Rightarrow> u64 \<Rightarrow> event list" where
  "magic_op op hi lo =
     (if op = SNIPER_SIM_PIMPROF_BBL_START then [EvStart hi lo]
      else if op = SNIPER_SIM_PIMPROF_BBL_END then [EvEnd hi lo]
      else if op = SNIPER_SIM_PIMPROF_OFFLOAD_START then [EvOffloadStart hi lo]
      else if op = SNIPER_SIM_PIMPROF_OFFLOAD_END then [EvOffloadEnd hi lo]
      else [])"

fun magic_events :: "'i Instr \<Rightarrow> event list" where
  "magic_events (CallAsm n template constraints [op, hi, lo]) =
     (if (CallAsm n template constraints [op, hi, lo] :: 'i Instr) = SimMagic2 op hi lo then magic_op op hi lo else [])"
| "magic_events _ = []"

text \<open>A path that leaves the entry block for good and ends with the first return.\<close>

definition returns :: "'i LLVM \<Rightarrow> 'i Instr list \<Rightarrow> bool" where
  "returns L b \<longleftrightarrow> (\<exists>I \<in> set b. isReturnInst L I)"

definition complete_path :: "'i LLVM \<Rightarrow> 'i Function \<Rightarrow> nat list \<Rightarrow> bool" where
  "complete_path L F p \<longleftrightarrow> (\<exists>q. p = 0 # q \<and> 0 \<notin> set q) \<and> (\<forall>i \<in> set p. i < length (fn_blocks F)) \<and>
     (\<forall>i \<in> set (butlast p). \<not> returns L (fn_blocks F ! i)) \<and> returns L (fn_blocks F ! last p)"

inductive instr_run :: "'i LLVM \<Rightarrow> 'i Module \<Rightarrow> 'i Instr \<Rightarrow> event list \<Rightarrow> bool"
  and code_run :: "'i LLVM \<Rightarrow> 'i Module \<Rightarrow> 'i Instr list \<Rightarrow> event list \<Rightarrow> bool"
  and path_run :: "'i LLVM \<Rightarrow> 'i Module \<Rightarrow> 'i Function \<Rightarrow> nat list \<Rightarrow> event list \<Rightarrow> bool"
  for L :: "'i LLVM" and M :: "'i Module" where
  measure: "list_all neutral es \<Longrightarrow> instr_run L M (IR i) es"
| call: "instr_run L M (IR i) es \<Longrightarrow> F \<in> set M \<Longrightarrow> complete_path L F p \<Longrightarrow> path_run L M F p fs \<Longrightarrow>
    instr_run L M (IR i) (es @ fs)"
| magic: "instr_run L M (CallAsm n t c args) (magic_events (CallAsm n t c args :: 'i Instr))"
| vtune: "instr_run L M (CallFn f args) []"
| no_code: "code_run L M [] []"
| code: "instr_run L M I es \<Longrightarrow> code_run L M b fs \<Longrightarrow> code_run L M (I # b) (es @ fs)"
| no_path: "path_run L M F [] []"
| path: "code_run L M (fn_blocks F ! i) es \<Longrightarrow> path_run L M F p fs \<Longrightarrow> path_run L M F (i # p) (es @ fs)"

definition activation :: "'i LLVM \<Rightarrow> 'i Module \<Rightarrow> 'i Function \<Rightarrow> event list \<Rightarrow> bool" where
  "activation L M F es \<longleftrightarrow> F \<in> set M \<and> (\<exists>p. complete_path L F p \<and> path_run L M F p es)"

subsection \<open>Balanced code\<close>

text \<open>What one instruction may contribute, given that activations are balanced.\<close>

definition emits :: "'i Instr \<Rightarrow> event list \<Rightarrow> bool" where
  "emits I es \<longleftrightarrow> (case I of IR i \<Rightarrow> balanced es | _ \<Rightarrow> es = magic_events I)"

fun traced :: "'i Instr list \<Rightarrow> event list \<Rightarrow> bool" where
  "traced [] es \<longleftrightarrow> es = []"
| "traced (I # b) es \<longleftrightarrow> (\<exists>es1 es2. es = es1 @ es2 \<and> emits I es1 \<and> traced b es2)"

lemma traced_append: "traced (b @ c) es \<longleftrightarrow> (\<exists>es1 es2. es = es1 @ es2 \<and> traced b es1 \<and> traced c es2)"
proof (induction b arbitrary: es)
  case (Cons I b)
  then show ?case by simp (metis append_assoc)
qed simp

definition balanced_code :: "'i Instr list \<Rightarrow> bool" where
  "balanced_code b \<longleftrightarrow> (\<forall>es. traced b es \<longrightarrow> balanced es)"

lemma balanced_code_append: "balanced_code b \<Longrightarrow> balanced_code c \<Longrightarrow> balanced_code (b @ c)"
  by (auto simp: balanced_code_def traced_append intro: balanced.seq)

lemma balanced_code_Nil [simp]: "balanced_code []"
  by (simp add: balanced_code_def balanced.nil)

text \<open>Instructions that leave the stacks alone.\<close>

definition calm :: "'i Instr \<Rightarrow> bool" where
  "calm I \<longleftrightarrow> (case I of IR i \<Rightarrow> True | _ \<Rightarrow> magic_events I = [])"

lemma calm_code: "list_all calm b \<Longrightarrow> balanced_code b"
proof (induction b)
  case (Cons I b)
  have "balanced es" if "emits I es" for es
    using Cons.prems that by (cases I) (auto simp: calm_def emits_def intro: balanced.nil)
  moreover have "balanced_code b" using Cons by simp
  ultimately show ?case by (auto simp: balanced_code_def intro: balanced.seq)
qed simp

lemma magic_events_SimMagic [simp]:
  "magic_events (SimMagic2 op hi lo :: 'i Instr) = magic_op op hi lo" "magic_events (SimMagic0 op :: 'i Instr) = []"
  by (simp_all add: SimMagic2_def SimMagic0_def)

lemma emits_call [simp]:
  "emits (SimMagic2 op hi lo :: 'i Instr) es \<longleftrightarrow> es = magic_op op hi lo" "emits (SimMagic0 op :: 'i Instr) es \<longleftrightarrow> es = []"
  using magic_events_SimMagic [where 'i = 'i] by (simp_all add: emits_def SimMagic2_def SimMagic0_def del: magic_events.simps)

lemma calm_SimMagic0 [simp]: "calm (SimMagic0 op)" "calm (IR i)"
  by (simp_all add: calm_def SimMagic0_def)

text \<open>Two magic calls that belong together.\<close>

definition pair_calls :: "'i Instr \<Rightarrow> 'i Instr \<Rightarrow> bool" where
  "pair_calls c d \<longleftrightarrow> (\<exists>hi lo.
     c = SimMagic2 SNIPER_SIM_PIMPROF_BBL_START hi lo \<and> d = SimMagic2 SNIPER_SIM_PIMPROF_BBL_END hi lo \<or>
     c = SimMagic2 SNIPER_SIM_PIMPROF_OFFLOAD_START hi lo \<and> d = SimMagic2 SNIPER_SIM_PIMPROF_OFFLOAD_END hi lo)"

lemma magic_op_simps [simp]:
  "magic_op SNIPER_SIM_PIMPROF_BBL_START hi lo = [EvStart hi lo]" "magic_op SNIPER_SIM_PIMPROF_BBL_END hi lo = [EvEnd hi lo]"
  "magic_op SNIPER_SIM_PIMPROF_OFFLOAD_START hi lo = [EvOffloadStart hi lo]"
  "magic_op SNIPER_SIM_PIMPROF_OFFLOAD_END hi lo = [EvOffloadEnd hi lo]"
  by (simp_all add: magic_op_def SNIPER_SIM_PIMPROF_BBL_START_def SNIPER_SIM_PIMPROF_BBL_END_def
      SNIPER_SIM_PIMPROF_OFFLOAD_START_def SNIPER_SIM_PIMPROF_OFFLOAD_END_def)

lemma pair_balanced:
  assumes "pair_calls c d" and "emits c es" and "emits d fs" and "balanced x"
  shows "balanced (es @ x @ fs)"
  using assms balanced.block [OF assms(4)] balanced.offload [OF assms(4)] by (auto simp: pair_calls_def)

lemma pair_code: "pair_calls c d \<Longrightarrow> balanced_code b \<Longrightarrow> balanced_code (c # b @ [d])"
  by (auto simp: balanced_code_def traced_append intro: pair_balanced)

subsection \<open>Blocks and functions\<close>

text \<open>
  What the passes rely on: the first insertion point is behind the leading PHI nodes and landing
  pads (\<open>is_head\<close>), the terminator is the last instruction if that is one (\<open>is_term\<close>), a return
  is a terminator, and none of the calls the passes create is one of these.
\<close>

definition llvm_laws :: "'i LLVM \<Rightarrow> ('i Instr \<Rightarrow> bool) \<Rightarrow> ('i Instr \<Rightarrow> bool) \<Rightarrow> bool" where
  "llvm_laws L is_head is_term \<longleftrightarrow>
     (\<forall>b. getFirstInsertionPt L b = length (takeWhile is_head b)) \<and>
     (\<forall>b. getTerminator L b = (if b \<noteq> [] \<and> is_term (last b) then Some (length b - 1) else None)) \<and>
     (\<forall>I. isReturnInst L I \<longrightarrow> is_term I) \<and>
     (\<forall>I. is_head I \<or> is_term I \<longrightarrow> (\<exists>i. I = IR i)) \<and> (\<forall>I. \<not> (is_head I \<and> is_term I))"

text \<open>
  A block: its head, code that is balanced and has no terminator, the terminator. The blocks of the
  program have this form, and the passes keep it.
\<close>

definition block_form :: "('i Instr \<Rightarrow> bool) \<Rightarrow> ('i Instr \<Rightarrow> bool) \<Rightarrow> 'i Instr list \<Rightarrow> bool" where
  "block_form is_head is_term b \<longleftrightarrow>
     (\<exists>h c t. b = h @ c @ [t] \<and> list_all is_head h \<and> \<not> is_head (hd (c @ [t])) \<and> list_all (\<lambda>I. \<not> is_term I) c \<and>
        is_term t \<and> balanced_code c)"

definition program_block :: "('i Instr \<Rightarrow> bool) \<Rightarrow> 'i Instr list \<Rightarrow> bool" where
  "program_block is_term b \<longleftrightarrow> b \<noteq> [] \<and> (\<forall>I \<in> set b. \<exists>i. I = IR i) \<and> (\<forall>I \<in> set (butlast b). \<not> is_term I) \<and> is_term (last b)"

text \<open>Code in front of the blocks' code in the entry block, and code in front of every return.\<close>

definition bracketed :: "'i LLVM \<Rightarrow> 'i Instr list \<Rightarrow> 'i Instr list \<Rightarrow> 'i Function \<Rightarrow> bool" where
  "bracketed L pre post F \<longleftrightarrow>
     (\<forall>i < length (fn_blocks F). \<exists>h c t. balanced_code h \<and> balanced_code c \<and> balanced_code t \<and>
        fn_blocks F ! i = h @ (if i = 0 then pre else []) @ c @ (if returns L (fn_blocks F ! i) then post else []) @ t)"

definition brackets :: "'i Instr list \<Rightarrow> 'i Instr list \<Rightarrow> bool" where
  "brackets pre post \<longleftrightarrow> (\<forall>es x fs. traced pre es \<longrightarrow> balanced x \<longrightarrow> traced post fs \<longrightarrow> balanced (es @ x @ fs))"

lemma brackets_Nil [simp]: "brackets [] []"
  by (simp add: brackets_def)

lemma brackets_pair: "pair_calls c d \<Longrightarrow> brackets [c] [d]"
  by (auto simp: brackets_def intro: pair_balanced)

text \<open>A completed path through a bracketed function is balanced.\<close>

fun path_traced :: "'i Function \<Rightarrow> nat list \<Rightarrow> event list \<Rightarrow> bool" where
  "path_traced F [] es \<longleftrightarrow> es = []"
| "path_traced F (i # p) es \<longleftrightarrow> (\<exists>es1 es2. es = es1 @ es2 \<and> traced (fn_blocks F ! i) es1 \<and> path_traced F p es2)"

lemma traced_balanced: "balanced_code b \<Longrightarrow> traced b es \<Longrightarrow> balanced es"
  by (simp add: balanced_code_def)

lemma traced_bracketed:
  assumes br: "bracketed L pre post F" and i: "i < length (fn_blocks F)" and es: "traced (fn_blocks F ! i) es"
  shows "\<exists>e1 e2 e3 e4 e5. es = e1 @ e2 @ e3 @ e4 @ e5 \<and> balanced e1 \<and> balanced e3 \<and> balanced e5 \<and>
    traced (if i = 0 then pre else []) e2 \<and> traced (if returns L (fn_blocks F ! i) then post else []) e4"
proof -
  let ?pre = "if i = 0 then pre else []" and ?post = "if returns L (fn_blocks F ! i) then post else []"
  obtain h c t where b: "balanced_code h" "balanced_code c" "balanced_code t" "fn_blocks F ! i = h @ ?pre @ c @ ?post @ t"
    using br i unfolding bracketed_def by blast
  have "traced (h @ ?pre @ c @ ?post @ t) es" using es b(4) by simp
  then obtain e1 e2 e3 e4 e5 where "es = e1 @ e2 @ e3 @ e4 @ e5" "traced h e1" "traced ?pre e2" "traced c e3"
    "traced ?post e4" "traced t e5"
    unfolding traced_append by blast
  moreover from this b have "balanced e1" "balanced e3" "balanced e5" by (auto intro: traced_balanced)
  ultimately show ?thesis by blast
qed

lemma bracketed_suffix:
  assumes br: "bracketed L pre post F"
  shows "path_traced F q es \<Longrightarrow> q \<noteq> [] \<Longrightarrow> 0 \<notin> set q \<Longrightarrow> \<forall>i \<in> set q. i < length (fn_blocks F) \<Longrightarrow>
    \<forall>i \<in> set (butlast q). \<not> returns L (fn_blocks F ! i) \<Longrightarrow> returns L (fn_blocks F ! last q) \<Longrightarrow>
    \<exists>x fs y. es = x @ fs @ y \<and> balanced x \<and> traced post fs \<and> balanced y"
proof (induction q arbitrary: es)
  case (Cons i q)
  obtain es1 es2 where es: "es = es1 @ es2" "traced (fn_blocks F ! i) es1" "path_traced F q es2"
    using Cons.prems(1) by auto
  obtain e1 e2 e3 e4 where e: "es1 = e1 @ e2 @ e3 @ e4" "balanced (e1 @ e2)" "balanced e4"
    "traced (if returns L (fn_blocks F ! i) then post else []) e3"
    using traced_bracketed [OF br _ es(2)] Cons.prems(3,4) by (fastforce intro: balanced.seq)
  show ?case
  proof (cases "q = []")
    case True
    then have "es = (e1 @ e2) @ e3 @ e4" "traced post e3" using es e Cons.prems(6) by auto
    with e(2,3) show ?thesis by blast
  next
    case False
    then have "e3 = []" using e(4) Cons.prems(5) by simp
    obtain x fs y where xy: "es2 = x @ fs @ y" "balanced x" "traced post fs" "balanced y"
      using Cons.IH [OF es(3) False] Cons.prems False by auto
    have "es = ((e1 @ e2) @ e4 @ x) @ fs @ y" using es(1) e(1) xy(1) \<open>e3 = []\<close> by simp
    moreover have "balanced ((e1 @ e2) @ e4 @ x)" using e(2,3) xy(2) by (blast intro: balanced.seq)
    ultimately show ?thesis using xy by blast
  qed
qed simp

lemma bracketed_path:
  assumes br: "bracketed L pre post F" and bs: "brackets pre post"
    and p: "complete_path L F p" and es: "path_traced F p es"
  shows "balanced es"
proof -
  obtain q where q: "p = 0 # q" "0 \<notin> set q" using p by (auto simp: complete_path_def)
  obtain es1 es2 where e: "es = es1 @ es2" "traced (fn_blocks F ! 0) es1" "path_traced F q es2"
    using es q by auto
  have "0 < length (fn_blocks F)" using p q by (auto simp: complete_path_def)
  then obtain e1 e2 e3 e4 e5 where s: "es1 = e1 @ e2 @ e3 @ e4 @ e5" "balanced e1" "balanced e3" "balanced e5"
    "traced pre e2" "traced (if returns L (fn_blocks F ! 0) then post else []) e4"
    using traced_bracketed [OF br _ e(2)] by auto
  have glue: "balanced (e1 @ (e2 @ x @ fs) @ y)" if "balanced x" "traced post fs" "balanced y" for x fs y
    using bs that s(2,5) unfolding brackets_def by (blast intro: balanced.seq)
  show ?thesis
  proof (cases "q = []")
    case True
    then have "es = e1 @ (e2 @ e3 @ e4) @ e5" "traced post e4" using p q e s by (auto simp: complete_path_def)
    then show ?thesis using glue [OF s(3) _ s(4)] by simp
  next
    case False
    then have "e4 = []" using s(6) p q by (auto simp: complete_path_def)
    obtain x fs y where xy: "es2 = x @ fs @ y" "balanced x" "traced post fs" "balanced y"
      using bracketed_suffix [OF br e(3) False q(2)] p q False by (auto simp: complete_path_def)
    have "es = e1 @ (e2 @ (e3 @ e5 @ x) @ fs) @ y" using e(1) s(1) xy(1) \<open>e4 = []\<close> by simp
    with glue [OF _ xy(3,4), of "e3 @ e5 @ x"] show ?thesis using s(3,4) xy(2) by (simp add: balanced.seq)
  qed
qed

text \<open>The activations of a module of bracketed functions are balanced.\<close>

lemma neutral_balanced: "list_all neutral es \<Longrightarrow> balanced es"
proof (induction es)
  case (Cons e es)
  then show ?case using balanced.seq [OF balanced.single [of e], of es] by simp
qed (simp add: balanced.nil)

definition bracketed_function :: "'i LLVM \<Rightarrow> 'i Function \<Rightarrow> bool" where
  "bracketed_function L F \<longleftrightarrow> (\<exists>pre post. brackets pre post \<and> bracketed L pre post F)"

lemma bracketed_functionI: "brackets pre post \<Longrightarrow> bracketed L pre post F \<Longrightarrow> bracketed_function L F"
  by (auto simp: bracketed_function_def)

definition bracketed_module :: "'i LLVM \<Rightarrow> 'i Module \<Rightarrow> bool" where
  "bracketed_module L M \<longleftrightarrow> (\<forall>F \<in> set M. bracketed_function L F)"

lemma runs_traced:
  assumes M: "bracketed_module L M"
  shows "instr_run L M I es \<Longrightarrow> emits I es" and "code_run L M b fs \<Longrightarrow> traced b fs"
    and "path_run L M F p gs \<Longrightarrow> path_traced F p gs"
proof (induction rule: instr_run_code_run_path_run.inducts)
  case (call i es F p fs)
  obtain pre post where "brackets pre post" "bracketed L pre post F"
    using M call(3) unfolding bracketed_module_def bracketed_function_def by blast
  then have "balanced fs" using bracketed_path call(4,6) by blast
  with call show ?case by (simp add: emits_def balanced.seq)
qed (auto simp: emits_def neutral_balanced)

theorem activation_balanced:
  assumes "bracketed_module L M" and "activation L M F es"
  shows "balanced es"
proof -
  obtain p where p: "F \<in> set M" "complete_path L F p" "path_run L M F p es"
    using assms(2) by (auto simp: activation_def)
  obtain pre post where "brackets pre post" "bracketed L pre post F"
    using assms(1) p(1) unfolding bracketed_module_def bracketed_function_def by blast
  then show ?thesis by (rule bracketed_path [OF _ _ p(2) runs_traced(3) [OF assms(1) p(3)], rotated])
qed

end
