(* ===== verification/Inject_Correct.thy ===== *)
theory Inject_Correct
  imports Inject_Trace
begin

text \<open>
  The passes produce bracketed modules: every block they wrap keeps its form, a function gets its
  opening calls in the entry block and its closing calls before every return. So the annotated and
  the offloaded program only produce correctly nested traces. The counters of the offloading pass
  account for every block.
\<close>

subsection \<open>One block\<close>

lemma llvm_heads: "llvm_laws L is_head is_term \<Longrightarrow> is_head I \<Longrightarrow> \<not> is_term I \<and> calm I"
  by (auto simp: llvm_laws_def calm_def split: Instr.split)

lemma llvm_terms: "llvm_laws L is_head is_term \<Longrightarrow> is_term I \<Longrightarrow> \<not> is_head I \<and> calm I"
  by (auto simp: llvm_laws_def calm_def split: Instr.split)

lemma block_formE:
  assumes "block_form is_head is_term b" and "llvm_laws L is_head is_term"
  obtains h c t where "b = h @ c @ [t]" "list_all is_head h" "list_all (\<lambda>I. \<not> is_term I) c" "is_term t"
    "balanced_code h" "balanced_code c" "balanced_code [t]" "takeWhile is_head b = h" "\<not> is_head (hd (c @ [t]))"
    "\<forall>I \<in> set h. \<not> is_term I"
proof -
  obtain h c t where b: "b = h @ c @ [t]" "list_all is_head h" "\<not> is_head (hd (c @ [t]))" "list_all (\<lambda>I. \<not> is_term I) c"
    "is_term t" "balanced_code c"
    using assms(1) unfolding block_form_def by blast
  have "takeWhile is_head b = h"
    using b(1-3) by (cases c) (auto simp: list_all_iff takeWhile_append)
  moreover have "list_all calm h" "list_all calm [t]" "\<forall>I \<in> set h. \<not> is_term I"
    using b(2,5) llvm_heads [OF assms(2)] llvm_terms [OF assms(2)] by (auto simp: list_all_iff)
  ultimately show thesis using that b by (simp add: calm_code)
qed

lemma program_block_form:
  assumes b: "program_block is_term b" and laws: "llvm_laws L is_head is_term"
  shows "block_form is_head is_term b"
proof -
  define h c t where "h = takeWhile is_head (butlast b)" and "c = dropWhile is_head (butlast b)" and "t = last b"
  have "b = h @ c @ [t]" using b append_butlast_last_id [of b]
    by (simp add: h_def c_def t_def program_block_def flip: append_assoc)
  moreover have "set c \<subseteq> set (butlast b)" by (auto simp: c_def dest: set_dropWhileD)
  moreover have "list_all is_head h" by (auto simp: h_def list_all_iff dest: set_takeWhileD)
  moreover have "is_term t" using b by (simp add: t_def program_block_def)
  moreover have "\<not> is_head (hd (c @ [t]))"
    using llvm_terms [OF laws \<open>is_term t\<close>] hd_dropWhile [of is_head "butlast b", folded c_def] by (cases "c = []") simp_all
  moreover have "list_all calm c" "list_all (\<lambda>I. \<not> is_term I) c"
    using b \<open>set c \<subseteq> set (butlast b)\<close> in_set_butlastD [of _ b] by (force simp: program_block_def list_all_iff)+
  ultimately show ?thesis unfolding block_form_def using calm_code by metis
qed

lemma pair_calls_plain:
  assumes "pair_calls c d" and "llvm_laws L is_head is_term"
  shows "\<not> is_head c" "\<not> is_head d" "\<not> is_term c" "\<not> is_term d"
  using assms by (auto simp: pair_calls_def llvm_laws_def SimMagic2_def)

lemma wrap_form:
  assumes b: "block_form is_head is_term b" and laws: "llvm_laws L is_head is_term" and cd: "pair_calls c d"
  shows "\<exists>b'. wrap_block L c d b = Some b' \<and> block_form is_head is_term b'"
proof -
  obtain h k t where f: "b = h @ k @ [t]" "list_all is_head h" "list_all (\<lambda>I. \<not> is_term I) k" "is_term t"
    "balanced_code k" "takeWhile is_head b = h"
    by (rule block_formE [OF b laws]) blast
  have first: "getFirstInsertionPt L b = length h" using laws f(6) by (simp add: llvm_laws_def)
  have "getTerminator L (h @ c # k @ [t]) = Some (length (h @ c # k))" using laws f(4) by (simp add: llvm_laws_def)
  then have "wrap_block L c d b = Some (h @ (c # k @ [d]) @ [t])"
    unfolding wrap_block_def first Let_def insert_before_def by (simp add: f(1))
  moreover have "block_form is_head is_term (h @ (c # k @ [d]) @ [t])"
    unfolding block_form_def
    using f pair_calls_plain [OF cd laws] pair_code [OF cd f(5)]
    by (intro exI [of _ h] exI [of _ "c # k @ [d]"] exI [of _ t]) simp
  ultimately show ?thesis by blast
qed

subsection \<open>One function\<close>

definition well_formed :: "('i Instr \<Rightarrow> bool) \<Rightarrow> ('i Instr \<Rightarrow> bool) \<Rightarrow> 'i Function \<Rightarrow> bool" where
  "well_formed is_head is_term F \<longleftrightarrow> list_all (block_form is_head is_term) (fn_blocks F)"

lemma at_block_in_range:
  assumes "i < length (fn_blocks F)" and "f (fn_blocks F ! i) = Some b"
  shows "at_block i f F = Some (F\<lparr>fn_blocks := (fn_blocks F)[i := b]\<rparr>)"
  using assms by (simp add: at_block_def vec_at_int vec_set_in_range)

text \<open>Blocks may be replaced by blocks of the same form, the name of the function stays.\<close>

definition same_function :: "('i Instr \<Rightarrow> bool) \<Rightarrow> ('i Instr \<Rightarrow> bool) \<Rightarrow> 'i Function \<Rightarrow> 'i Function \<Rightarrow> bool" where
  "same_function is_head is_term F F' \<longleftrightarrow>
     fn_name F' = fn_name F \<and> length (fn_blocks F') = length (fn_blocks F) \<and> well_formed is_head is_term F'"

lemma at_block_wrap:
  assumes "same_function is_head is_term F0 F" and "i < length (fn_blocks F0)" and "llvm_laws L is_head is_term"
    and "pair_calls c d"
  shows "\<exists>F'. at_block i (wrap_block L c d) F = Some F' \<and> same_function is_head is_term F0 F'"
proof -
  have i: "i < length (fn_blocks F)" and "block_form is_head is_term (fn_blocks F ! i)"
    using assms(1,2) by (auto simp: same_function_def well_formed_def list_all_length)
  then obtain b where b: "wrap_block L c d (fn_blocks F ! i) = Some b" "block_form is_head is_term b"
    using wrap_form assms(3,4) by blast
  have "at_block i (wrap_block L c d) F = Some (F\<lparr>fn_blocks := (fn_blocks F)[i := b]\<rparr>)"
    using at_block_in_range [where f = "wrap_block L c d"] i b(1) by blast
  with assms(1) b(2) i show ?thesis
    by (auto simp: same_function_def well_formed_def list_all_length nth_list_update)
qed

lemma hash_text_total: "\<exists>h. hash_text content = Some h"
  by (simp add: hash_text_def MurmurHash3_x64_128_spec)

lemma block_form_nonempty: "block_form is_head is_term b \<Longrightarrow> b \<noteq> []"
  by (auto simp: block_form_def)

lemma pair_calls_SimMagic2 [simp]:
  "pair_calls (SimMagic2 SNIPER_SIM_PIMPROF_BBL_START hi lo) (SimMagic2 SNIPER_SIM_PIMPROF_BBL_END hi lo)"
  "pair_calls (SimMagic2 SNIPER_SIM_PIMPROF_OFFLOAD_START hi lo) (SimMagic2 SNIPER_SIM_PIMPROF_OFFLOAD_END hi lo)"
  by (auto simp: pair_calls_def)

lemma sniper_blocks:
  assumes F: "well_formed is_head is_term F" and laws: "llvm_laws L is_head is_term"
  shows "\<exists>F'. InjectSniperAnnotationCallBB L F = Some F' \<and> same_function is_head is_term F F'"
proof -
  obtain fh where fh: "hash_text (function_text L F) = Some fh" using hash_text_total by blast
  have "\<exists>F'. foldM (\<lambda>i F. do {
       b \<leftarrow> vec_at (fn_blocks F) (int i);
       if b = [] then Some F
       else do {
         bblhash \<leftarrow> hash_text (block_text L F i);
         at_block i (wrap_block L (SimMagic2 SNIPER_SIM_PIMPROF_BBL_START (snd fh) (snd bblhash))
           (SimMagic2 SNIPER_SIM_PIMPROF_BBL_END (snd fh) (snd bblhash))) F } })
       [0..<length (fn_blocks F)] F = Some F' \<and> same_function is_head is_term F F'"
  proof (rule foldM_defined)
    show "same_function is_head is_term F F" using F by (simp add: same_function_def)
  next
    fix i G assume i: "i \<in> set [0..<length (fn_blocks F)]" and G: "same_function is_head is_term F G"
    obtain bh where bh: "hash_text (block_text L G i) = Some bh" using hash_text_total by blast
    have "i < length (fn_blocks G)" using i G by (simp add: same_function_def)
    then show "\<exists>F'. do {
       b \<leftarrow> vec_at (fn_blocks G) (int i);
       if b = [] then Some G
       else do {
         bblhash \<leftarrow> hash_text (block_text L G i);
         at_block i (wrap_block L (SimMagic2 SNIPER_SIM_PIMPROF_BBL_START (snd fh) (snd bblhash))
           (SimMagic2 SNIPER_SIM_PIMPROF_BBL_END (snd fh) (snd bblhash))) G } } = Some F' \<and>
      same_function is_head is_term F F'"
      using at_block_wrap [OF G _ laws] i G bh by (auto simp: vec_at_int)
  qed
  then show ?thesis by (simp add: InjectSniperAnnotationCallBB_def fh)
qed

text \<open>A function that gets calls at its entry and before its returns.\<close>

definition returning :: "'i LLVM \<Rightarrow> 'i Instr list \<Rightarrow> 'i Instr list \<Rightarrow> 'i Instr list" where
  "returning L calls b = concat (map (\<lambda>I. if isReturnInst L I then calls @ [I] else [I]) b)"

lemma returning_append [simp]: "returning L calls (b @ c) = returning L calls b @ returning L calls c"
  by (simp add: returning_def)

lemma returning_plain: "list_all (\<lambda>I. \<not> isReturnInst L I) b \<Longrightarrow> returning L calls b = b"
  by (induction b) (simp_all add: returning_def)

lemma returning_one: "returning L calls [t] = (if isReturnInst L t then calls else []) @ [t]"
  by (simp add: returning_def)

lemma returning_form:
  assumes b: "b = h @ e @ c @ [t]" and "list_all (\<lambda>I. \<not> isReturnInst L I) h" "list_all (\<lambda>I. \<not> isReturnInst L I) e"
    "list_all (\<lambda>I. \<not> isReturnInst L I) c" and post: "list_all (\<lambda>I. \<not> isReturnInst L I) post"
  shows "returning L post b = h @ e @ c @ (if returns L (returning L post b) then post else []) @ [t]"
proof -
  have r: "returning L post b = h @ e @ c @ (if isReturnInst L t then post else []) @ [t]"
    using assms by (simp add: returning_plain returning_one)
  have "returns L (returning L post b) \<longleftrightarrow> isReturnInst L t"
    unfolding r using assms by (auto simp: returns_def list_all_iff)
  with r show ?thesis by simp
qed

text \<open>Calls that the passes insert are no returns.\<close>

abbreviation no_returns :: "'i LLVM \<Rightarrow> 'i Instr list \<Rightarrow> bool" where
  "no_returns L b \<equiv> list_all (\<lambda>I. \<not> isReturnInst L I) b"

lemma no_returns_SimMagic [simp]:
  assumes "llvm_laws L is_head is_term"
  shows "\<not> isReturnInst L (SimMagic2 op hi lo)" "\<not> isReturnInst L (SimMagic0 op)"
  using assms by (auto simp: llvm_laws_def SimMagic2_def SimMagic0_def)

lemma no_returns_terms: "llvm_laws L is_head is_term \<Longrightarrow> list_all (\<lambda>I. \<not> is_term I) b \<Longrightarrow> no_returns L b"
  by (auto simp: llvm_laws_def list_all_iff)

lemma bracketed_plain:
  assumes F: "well_formed is_head is_term F" and laws: "llvm_laws L is_head is_term"
  shows "bracketed L [] [] F"
  unfolding bracketed_def
proof (intro allI impI)
  fix i assume "i < length (fn_blocks F)"
  then have "block_form is_head is_term (fn_blocks F ! i)" using F by (simp add: well_formed_def list_all_length)
  from block_formE [OF this laws] obtain h c t where "fn_blocks F ! i = h @ c @ [t]" "balanced_code h" "balanced_code c"
    "balanced_code [t]"
    by metis
  then show "\<exists>h c t. balanced_code h \<and> balanced_code c \<and> balanced_code t \<and>
      fn_blocks F ! i = h @ (if i = 0 then [] else []) @ c @ (if returns L (fn_blocks F ! i) then [] else []) @ t"
    by (intro exI [of _ h] exI [of _ c] exI [of _ "[t]"]) simp
qed

lemma entry_exit:
  assumes F: "well_formed is_head is_term F" and laws: "llvm_laws L is_head is_term" and "fn_blocks F \<noteq> []"
    and pre: "no_returns L pre" and post: "no_returns L post"
  shows "\<exists>F'. at_entry L pre F = Some F' \<and> bracketed L pre post (before_returns L post F')"
proof -
  let ?b = "\<lambda>i. fn_blocks F ! i"
  have forms: "block_form is_head is_term (?b i)" if "i < length (fn_blocks F)" for i
    using F that by (simp add: well_formed_def list_all_length)
  define insert_pre where "insert_pre b = (let n = getFirstInsertionPt L b in take n b @ pre @ drop n b)" for b
  have shape: "\<exists>h c t. ?b i = h @ c @ [t] \<and> insert_pre (?b i) = h @ pre @ c @ [t] \<and> length h < length (?b i) \<and>
      getFirstInsertionPt L (?b i) = length h \<and>
      no_returns L h \<and> no_returns L c \<and> balanced_code h \<and> balanced_code c \<and> balanced_code [t]"
    if i: "i < length (fn_blocks F)" for i
  proof -
    obtain h c t where f: "?b i = h @ c @ [t]" "list_all (\<lambda>I. \<not> is_term I) c" "balanced_code h" "balanced_code c"
      "balanced_code [t]" "takeWhile is_head (?b i) = h" "\<forall>I \<in> set h. \<not> is_term I"
      by (rule block_formE [OF forms [OF i] laws]) blast
    have n: "getFirstInsertionPt L (?b i) = length h" using laws f(6) by (simp add: llvm_laws_def)
    have "insert_pre (?b i) = h @ pre @ c @ [t]" unfolding insert_pre_def n Let_def by (simp add: f(1))
    moreover have "no_returns L h" "no_returns L c"
      using no_returns_terms [OF laws f(2)] no_returns_terms [OF laws, of h] f(7) by (simp_all add: list_all_iff)
    moreover have "length h < length (?b i)" by (simp add: f(1))
    ultimately show ?thesis using f(1,3-5) n by blast
  qed
  define G where "G = F\<lparr>fn_blocks := (fn_blocks F)[0 := insert_pre (?b 0)]\<rparr>"
  have "at_entry L pre F = Some G"
    using shape [of 0] \<open>fn_blocks F \<noteq> []\<close>
    by (auto simp: at_entry_def G_def insert_pre_def Let_def at_block_def vec_at_def vec_set_def)
  moreover have "bracketed L pre post (before_returns L post G)"
    unfolding bracketed_def
  proof (intro allI impI)
    fix i assume "i < length (fn_blocks (before_returns L post G))"
    then have i: "i < length (fn_blocks F)" by (simp add: before_returns_def G_def)
    then obtain h c t where s: "?b i = h @ c @ [t]" "insert_pre (?b i) = h @ pre @ c @ [t]"
      "no_returns L h" "no_returns L c" "balanced_code h" "balanced_code c" "balanced_code [t]"
      using shape by blast
    let ?pre = "if i = 0 then pre else []"
    have "fn_blocks G ! i = h @ ?pre @ c @ [t]" using s(1,2) i by (auto simp: G_def)
    moreover have "fn_blocks (before_returns L post G) ! i = returning L post (fn_blocks G ! i)"
      using i by (simp add: before_returns_def returning_def G_def)
    moreover have "no_returns L ?pre" using pre by simp
    ultimately have "fn_blocks (before_returns L post G) ! i = h @ ?pre @ c @
        (if returns L (fn_blocks (before_returns L post G) ! i) then post else []) @ [t]"
      using returning_form [OF _ s(3) _ s(4) post] by metis
    then show "\<exists>h c t. balanced_code h \<and> balanced_code c \<and> balanced_code t \<and>
      fn_blocks (before_returns L post G) ! i = h @ ?pre @ c @
        (if returns L (fn_blocks (before_returns L post G) ! i) then post else []) @ t"
      using s(5-7) by blast
  qed
  ultimately show ?thesis by blast
qed

subsection \<open>The module\<close>

lemma for_functions_map:
  assumes "\<And>F. F \<in> set M \<Longrightarrow> \<exists>F'. f F = Some F' \<and> P F F'"
  shows "\<exists>M'. for_functions f M = Some M' \<and> list_all2 P M M'"
proof -
  obtain g where g: "f F = Some (g F)" "P F (g F)" if "F \<in> set M" for F using assms by metis
  have "\<exists>M'. for_functions f M = Some M' \<and> M' = map g (take (length M) M) @ drop (length M) M"
    unfolding for_functions_def
  proof (rule foldM_upt)
    fix k M' assume k: "k < length M" and M': "M' = map g (take k M) @ drop k M"
    have "M' ! k = M ! k" "length M' = length M" using k M' by (simp_all add: nth_append)
    moreover have "M'[k := g (M ! k)] = map g (take (Suc k) M) @ drop (Suc k) M"
      using k by (simp add: M' list_update_append take_Suc_conv_app_nth flip: Cons_nth_drop_Suc)
    ultimately show "\<exists>t'. (do { F \<leftarrow> vec_at M' (int k); F \<leftarrow> f F; vec_set M' (int k) F }) = Some t' \<and>
        t' = map g (take (Suc k) M) @ drop (Suc k) M"
      using k g(1) [of "M ! k"] by (simp add: vec_at_int vec_set_in_range)
  qed simp
  with g(2) show ?thesis by (auto simp: list_all2_map2 intro: list.rel_refl_strong)
qed

text \<open>The modules the passes start from.\<close>

definition program_module :: "('i Instr \<Rightarrow> bool) \<Rightarrow> 'i Module \<Rightarrow> bool" where
  "program_module is_term M \<longleftrightarrow>
     (\<forall>F \<in> set M. list_all (program_block is_term) (fn_blocks F) \<and> (fn_name F = ''main'' \<longrightarrow> fn_blocks F \<noteq> []))"

lemma program_module_forms:
  "program_module is_term M \<Longrightarrow> llvm_laws L is_head is_term \<Longrightarrow> F \<in> set M \<Longrightarrow> well_formed is_head is_term F"
  by (auto simp: program_module_def well_formed_def list_all_iff program_block_form)

lemma sniper_main_bracketed:
  assumes "well_formed is_head is_term F" and laws: "llvm_laws L is_head is_term" and "fn_blocks F \<noteq> []"
  shows "\<exists>F'. InjectSniperAnnotationCallMain L F = Some F' \<and> bracketed_function L F'"
proof -
  let ?pre = "[SimMagic0 SNIPER_SIM_CMD_ROI_START, SimMagic2 SNIPER_SIM_PIMPROF_BBL_START (of_int MAIN_BBLID) (of_int TSJ_BBLID)]"
  let ?post = "[SimMagic2 SNIPER_SIM_PIMPROF_BBL_END (of_int MAIN_BBLID) (of_int TSJ_BBLID), SimMagic0 SNIPER_SIM_CMD_ROI_END]"
  have "brackets ?pre ?post" by (auto simp: brackets_def dest: balanced.block)
  moreover have "\<exists>F'. InjectSniperAnnotationCallMain L F = Some F' \<and> bracketed L ?pre ?post F'"
    using entry_exit [OF assms(1,2,3), of ?pre ?post] no_returns_SimMagic [OF laws]
    by (auto simp: InjectSniperAnnotationCallMain_def)
  ultimately show ?thesis using bracketed_functionI by blast
qed

lemma sniper_function_bracketed:
  assumes "well_formed is_head is_term F" and laws: "llvm_laws L is_head is_term"
  shows "\<exists>F'. InjectSniperAnnotationCallFunc L F = Some F' \<and> bracketed_function L F'"
proof (cases "fn_blocks F = []")
  case True
  then show ?thesis using bracketed_functionI [OF brackets_Nil bracketed_plain [OF assms]]
    by (simp add: InjectSniperAnnotationCallFunc_def)
next
  case False
  obtain fh where fh: "hash_text (function_text L F) = Some fh" using hash_text_total by blast
  let ?pre = "SimMagic2 SNIPER_SIM_PIMPROF_BBL_START (snd fh) (fst fh)"
  let ?post = "SimMagic2 SNIPER_SIM_PIMPROF_BBL_END (snd fh) (fst fh)"
  have "brackets [?pre] [?post]" by (simp add: brackets_pair)
  moreover have "\<exists>F'. InjectSniperAnnotationCallFunc L F = Some F' \<and> bracketed L [?pre] [?post] F'"
    using entry_exit [OF assms False, of "[?pre]" "[?post]"] no_returns_SimMagic [OF laws] False fh
    by (auto simp: InjectSniperAnnotationCallFunc_def)
  ultimately show ?thesis using bracketed_functionI by blast
qed

lemma for_functions_bracketed:
  assumes "\<And>F. F \<in> set M \<Longrightarrow> \<exists>F'. f F = Some F' \<and> bracketed_function L F'"
  shows "\<exists>M'. for_functions f M = Some M' \<and> bracketed_module L M'"
proof -
  obtain M' where "for_functions f M = Some M'" "list_all2 (\<lambda>_ F'. bracketed_function L F') M M'"
    using for_functions_map [of M f "\<lambda>_ F'. bracketed_function L F'"] assms by blast
  then show ?thesis by (auto simp: bracketed_module_def list_all2_conv_all_nth in_set_conv_nth)
qed

lemma main_bracketed:
  assumes F: "well_formed is_head is_term F" and laws: "llvm_laws L is_head is_term"
    and "fn_name F = ''main'' \<longrightarrow> (\<exists>F'. f F = Some F' \<and> bracketed_function L F')"
  shows "\<exists>F'. for_main f F = Some F' \<and> bracketed_function L F'"
  using assms(3) bracketed_functionI [OF brackets_Nil bracketed_plain [OF F laws]] by (auto simp: for_main_def)

theorem annotated_module:
  assumes laws: "llvm_laws L is_head is_term" and M: "program_module is_term M" and env: "env \<in> {''SNIPER'', ''SNIPER2''}"
  shows "\<exists>M'. AnnotationInjection L (Some env) M = Some M' \<and> bracketed_module L M'"
proof (cases "env = ''SNIPER''")
  case True
  obtain M1 where M1: "for_functions (InjectSniperAnnotationCallBB L) M = Some M1"
    "list_all2 (same_function is_head is_term) M M1"
    using for_functions_map [of M _ "same_function is_head is_term"]
      sniper_blocks [OF program_module_forms [OF M laws] laws] by blast
  have "\<exists>M'. for_functions (for_main (InjectSniperAnnotationCallMain L)) M1 = Some M' \<and> bracketed_module L M'"
  proof (rule for_functions_bracketed)
    fix F assume "F \<in> set M1"
    then obtain F0 where F0: "F0 \<in> set M" "same_function is_head is_term F0 F"
      using M1(2) by (metis in_set_conv_nth list_all2_conv_all_nth)
    then have "well_formed is_head is_term F" "fn_name F = ''main'' \<longrightarrow> fn_blocks F \<noteq> []"
      using M by (auto simp: same_function_def program_module_def)
    then show "\<exists>F'. for_main (InjectSniperAnnotationCallMain L) F = Some F' \<and>
        bracketed_function L F'"
      using main_bracketed [OF _ laws] sniper_main_bracketed [OF _ laws] by blast
  qed
  then show ?thesis using M1(1) True by (simp add: AnnotationInjection_def inject_mode_def)
next
  case False
  have "\<exists>M'. for_functions (\<lambda>F. if fn_name F = ''main'' then InjectSniperAnnotationCallMain L F
         else InjectSniperAnnotationCallFunc L F) M = Some M' \<and> bracketed_module L M'"
  proof (rule for_functions_bracketed)
    fix F assume F: "F \<in> set M"
    then have "fn_name F = ''main'' \<longrightarrow> fn_blocks F \<noteq> []" using M by (simp add: program_module_def)
    then show "\<exists>F'. (if fn_name F = ''main'' then InjectSniperAnnotationCallMain L F else InjectSniperAnnotationCallFunc L F) = Some F' \<and>
        bracketed_function L F'"
      using program_module_forms [OF M laws F] sniper_main_bracketed sniper_function_bracketed laws by metis
  qed
  then show ?thesis using False env by (simp add: AnnotationInjection_def inject_mode_def)
qed

subsection \<open>The offloading pass\<close>

definition counts_ok :: "nat \<Rightarrow> OffloadCounts \<Rightarrow> bool" where
  "counts_ok n c \<longleftrightarrow> found_cnt c + not_found_cnt c = int n \<and> found_cnt c = cpu_inject_cnt c + pim_inject_cnt c"

lemma offload_call:
  assumes F: "same_function is_head is_term F0 F" and i: "i < length (fn_blocks F0)" and laws: "llvm_laws L is_head is_term"
    and c: "counts_ok n c"
  shows "\<exists>F' c'. InjectSniperOffloaderCall L m i (F, c) = Some (F', c') \<and> same_function is_head is_term F0 F' \<and>
    counts_ok (Suc n) c'"
proof -
  obtain bh where bh: "hash_text (block_text L F i) = Some bh" using hash_text_total by blast
  obtain d where d: "getBasicBlockDecision L m F i = Some d" by (simp add: getBasicBlockDecision_def bh)
  obtain F1 F2 where
    F1: "at_block i (wrap_block L (SimMagic2 SNIPER_SIM_PIMPROF_OFFLOAD_START (snd bh) PIMPROF_DECISION_PIM)
      (SimMagic2 SNIPER_SIM_PIMPROF_OFFLOAD_END (snd bh) PIMPROF_DECISION_PIM)) F = Some F1" "same_function is_head is_term F0 F1" and
    F2: "at_block i (wrap_block L (SimMagic2 SNIPER_SIM_PIMPROF_OFFLOAD_START (snd bh) PIMPROF_DECISION_CPU)
      (SimMagic2 SNIPER_SIM_PIMPROF_OFFLOAD_END (snd bh) PIMPROF_DECISION_CPU)) F = Some F2" "same_function is_head is_term F0 F2"
    using at_block_wrap [OF F i laws pair_calls_SimMagic2(2)] by metis
  show ?thesis
    using F c by (simp add: InjectSniperOffloaderCall_def bh d F1 F2 counts_ok_def Let_def)
qed

lemma offload_one_function:
  assumes F: "well_formed is_head is_term F" and laws: "llvm_laws L is_head is_term" and c: "counts_ok n c"
  shows "\<exists>F' c'. offload_function L m (F, c) = Some (F', c') \<and> same_function is_head is_term F F' \<and>
    counts_ok (n + length (fn_blocks F)) c'"
proof -
  have "\<exists>s. foldM (InjectSniperOffloaderCall L m) [0..<length (fn_blocks F)] (F, c) = Some s \<and>
    same_function is_head is_term F (fst s) \<and> counts_ok (n + length (fn_blocks F)) (snd s)"
  proof (rule foldM_upt [where P = "\<lambda>k s. same_function is_head is_term F (fst s) \<and> counts_ok (n + k) (snd s)"])
    fix k s assume k: "k < length (fn_blocks F)" and "same_function is_head is_term F (fst s) \<and> counts_ok (n + k) (snd s)"
    then show "\<exists>t. InjectSniperOffloaderCall L m k s = Some t \<and> same_function is_head is_term F (fst t) \<and>
        counts_ok (n + Suc k) (snd t)"
      using offload_call [OF _ k laws, of "fst s" "n + k" "snd s"] by fastforce
  qed (use F c in \<open>simp add: same_function_def\<close>)
  then show ?thesis by (auto simp: offload_function_def)
qed

lemma offload_all:
  assumes M: "\<And>F. F \<in> set M \<Longrightarrow> well_formed is_head is_term F" and laws: "llvm_laws L is_head is_term"
  shows "\<exists>M' c. offload_blocks L m M = Some (M', c) \<and> list_all2 (same_function is_head is_term) M M' \<and>
    counts_ok (\<Sum>F\<leftarrow>M. length (fn_blocks F)) c"
proof -
  let ?P = "\<lambda>k (M', c). length M' = length M \<and> drop k M' = drop k M \<and>
    list_all2 (same_function is_head is_term) (take k M) (take k M') \<and> counts_ok (\<Sum>F\<leftarrow>take k M. length (fn_blocks F)) c"
  let ?f = "\<lambda>i (M, c). do {
     F \<leftarrow> vec_at M (int i); (F, c) \<leftarrow> offload_function L m (F, c); M \<leftarrow> vec_set M (int i) F; Some (M, c) }"
  have "\<exists>s. foldM ?f [0..<length M] (M, \<lparr>found_cnt = 0, not_found_cnt = 0, cpu_inject_cnt = 0, pim_inject_cnt = 0\<rparr>) = Some s \<and>
      ?P (length M) s"
  proof (rule foldM_upt [where P = ?P and f = ?f])
    fix k s assume k: "k < length M" and P: "?P k s"
    obtain M1 c where s: "s = (M1, c)" by (cases s)
    with P have M1: "length M1 = length M" "drop k M1 = drop k M"
      "list_all2 (same_function is_head is_term) (take k M) (take k M1)" and
      c: "counts_ok (\<Sum>F\<leftarrow>take k M. length (fn_blocks F)) c" by auto
    have nth: "M1 ! k = M ! k" using M1(1,2) k by (metis Cons_nth_drop_Suc list.inject)
    obtain F' c' where F': "offload_function L m (M ! k, c) = Some (F', c')" "same_function is_head is_term (M ! k) F'"
      "counts_ok ((\<Sum>F\<leftarrow>take k M. length (fn_blocks F)) + length (fn_blocks (M ! k))) c'"
      using offload_one_function [OF M laws c] k by (metis nth_mem)
    have "drop (Suc k) M1 = drop (Suc k) M" using M1(2) by (metis drop_Suc tl_drop)
    then show "\<exists>t. ?f k s = Some t \<and> ?P (Suc k) t"
      using k M1 F' nth
      by (simp add: s vec_at_int vec_set_in_range take_Suc_conv_app_nth list_all2_append add.commute)
  qed (simp add: counts_ok_def)
  then show ?thesis by (auto simp: offload_blocks_def)
qed

lemma offload_main_bracketed:
  assumes F: "well_formed is_head is_term F" and laws: "llvm_laws L is_head is_term" and ne: "fn_blocks F \<noteq> []"
  shows "\<exists>F'. InjectSniperOffloaderMain L d F = Some F' \<and> bracketed_function L F'"
proof -
  define pre post where
    "pre = (if d = PIM
       then [SimMagic0 SNIPER_SIM_CMD_ROI_START, SimMagic2 SNIPER_SIM_PIMPROF_OFFLOAD_START (of_int MAIN_BBLID) PIMPROF_DECISION_PIM]
       else [SimMagic0 SNIPER_SIM_CMD_ROI_START, SimMagic2 SNIPER_SIM_PIMPROF_BBL_START (of_int MAIN_BBLID) PIMPROF_DECISION_CPU] :: 'a Instr list)" and
    "post = (if d = PIM
       then [SimMagic2 SNIPER_SIM_PIMPROF_OFFLOAD_END (of_int MAIN_BBLID) PIMPROF_DECISION_PIM, SimMagic0 SNIPER_SIM_CMD_ROI_END]
       else [SimMagic2 SNIPER_SIM_PIMPROF_BBL_END (of_int MAIN_BBLID) PIMPROF_DECISION_CPU, SimMagic0 SNIPER_SIM_CMD_ROI_END] :: 'a Instr list)"
  have "brackets pre post" by (auto simp: brackets_def pre_def post_def dest: balanced.block balanced.offload)
  moreover have "no_returns L pre" "no_returns L post" using no_returns_SimMagic [OF laws] by (auto simp: pre_def post_def)
  then obtain F' where "at_entry L pre F = Some F'" "bracketed L pre post (before_returns L post F')"
    using entry_exit [OF F laws ne] by blast
  ultimately show ?thesis
    by (auto simp: InjectSniperOffloaderMain_def pre_def post_def intro: bracketed_functionI split: if_splits)
qed

theorem offloaded_module:
  assumes laws: "llvm_laws L is_head is_term" and M: "program_module is_term M"
    and m: "initDecisionMap (file_text file) [] = Some m"
  shows "\<exists>M' c. OffloaderInjection L (Some file) (Some ''SNIPER'') file_text M = Some (M', c) \<and> bracketed_module L M' \<and>
    counts_ok (\<Sum>F\<leftarrow>M. length (fn_blocks F)) c"
proof -
  obtain d m' where d: "getMainDecision m = (d, m')" by fastforce
  obtain M1 c where M1: "offload_blocks L m' M = Some (M1, c)" "list_all2 (same_function is_head is_term) M M1"
    "counts_ok (\<Sum>F\<leftarrow>M. length (fn_blocks F)) c"
    using offload_all [OF program_module_forms [OF M laws] laws] by blast
  have "\<exists>M'. for_functions (for_main (InjectSniperOffloaderMain L d)) M1 = Some M' \<and> bracketed_module L M'"
  proof (rule for_functions_bracketed)
    fix F assume "F \<in> set M1"
    then obtain F0 where F0: "F0 \<in> set M" "same_function is_head is_term F0 F"
      using M1(2) by (metis in_set_conv_nth list_all2_conv_all_nth)
    then have "well_formed is_head is_term F" "fn_name F = ''main'' \<longrightarrow> fn_blocks F \<noteq> []"
      using M by (auto simp: same_function_def program_module_def)
    then show "\<exists>F'. for_main (InjectSniperOffloaderMain L d) F = Some F' \<and> bracketed_function L F'"
      using main_bracketed [OF _ laws] offload_main_bracketed [OF _ laws] by blast
  qed
  then show ?thesis using M1(1,3) m d by (auto simp: OffloaderInjection_def offload_mode_def)
qed

subsection \<open>The statistics of a thread\<close>

lemma activation_runs:
  assumes na: "allocates na" and M: "bracketed_module L M" and es: "activation L M F es" "length es < 2 ^ 64"
  shows "\<exists>ts'. run na es (new_ThreadStats na h0 i) = Some ts' \<and>
    current_bblstats ts' = current_bblstats (new_ThreadStats na h0 i) \<and> using_pim ts' = [False]"
proof -
  obtain ts' where "run na es (new_ThreadStats na h0 i) = Some ts'" "same_stacks (new_ThreadStats na h0 i) ts'"
    using balanced_run [OF na activation_balanced [OF M es(1)] new_ThreadStats_live [OF na]] es(2) by fastforce
  moreover have "using_pim (new_ThreadStats na h0 i) = [False]" by (simp add: new_ThreadStats_def alloc_def Let_def)
  ultimately show ?thesis by (simp add: same_stacks_def)
qed

end
