(* ===== verification/Report_Text.thy ===== *)
theory Report_Text
  imports Solver_Report Inject_Correct
begin

text \<open>
  The table \<open>PrintDecision\<close> writes (\<open>PIMProfSolver/CostSolver.cpp\<close>) as text, and what the offloading
  pass makes of it: the two disagree on the columns. How the stream prints a time is a parameter.
\<close>

subsection \<open>The text of the table\<close>

definition decision_title :: string where
  "decision_title = setw 7 ''BBLID'' @ setw 10 ''Decision'' @ setw 12 ''ctsDecision'' @ setw 12 ''scaDecision'' @
     setw 14 ''Parallelism'' @ setw 14 ''bbCount'' @ setw 15 ''CPU'' @ setw 15 ''PIM'' @ setw 15 ''Difference'' @
     setw 21 ''Hash(hi)'' @ setw 21 ''Hash(lo)''"

definition row_text :: "(COST \<Rightarrow> string) \<Rightarrow> ReportRow \<Rightarrow> string" where
  "row_text show_cost r = setw 7 (show_nat (row_bblid r)) @ setw 10 (row_decision r) @ setw 12 (row_cts r) @
     setw 12 (row_sca r) @ setw 14 (show_int (row_parallelism r)) @ setw 14 (show_nat (unat (row_bbCount r))) @
     setw 15 (show_cost (row_CPU r)) @ setw 15 (show_cost (row_PIM r)) @ setw 15 (show_cost (row_Difference r)) @
     ''  '' @ setw 21 (show_base 16 (unat (fst (row_hash r)))) @
     ''  '' @ setw 21 (show_base 16 (unat (snd (row_hash r))))"

definition table_text :: "(COST \<Rightarrow> string) \<Rightarrow> ReportRow list \<Rightarrow> string" where
  "table_text show_cost rows = concat (map (\<lambda>l. l @ [newline])
     (HORIZONTAL_LINE # decision_title # map (row_text show_cost) rows))"

subsection \<open>Reading it back\<close>

text \<open>A line that does not begin with a number leaves the two halves of the key unset.\<close>

lemma decision_line_unread: "ext_i32 (Some line) None = (None, i) \<Longrightarrow> decision_line line = None"
  by (simp add: decision_line_def ext_tok_def ext_real_opt_def ext_int_def)

lemma ext_tok_setw:
  "w \<noteq> [] \<Longrightarrow> \<forall>c \<in> set w. \<not> is_space c \<Longrightarrow> r = [] \<or> is_space (hd r) \<Longrightarrow> ext_tok (Some (setw n w @ r)) old = (Some r, w)"
  unfolding setw_def append_assoc by (rule ext_tok_word [OF setw_spaces])

lemma ext_int_word:
  assumes "w = c # cs" and "\<not> is_space c" and "\<not> is_digit 10 c" and "c \<noteq> CHR ''-''" and "c \<noteq> CHR ''+''"
  shows "ext_int k (Some (setw n w @ r)) old = (None, Some 0)"
proof -
  have "dropWhile is_space (setw n w @ r) = w @ r"
    using assms(1,2) setw_spaces [of "n - length w"] by (simp add: setw_def skip_spaces)
  then show ?thesis
    using assms by (simp add: ext_int_def scan_num_def scan_sign_def skip_0x_def Let_def)
qed

lemma decision_title_unread: "decision_line decision_title = None"
  unfolding decision_title_def
  by (rule decision_line_unread, rule ext_int_word [OF refl])
    (simp_all add: is_space_def is_digit_def digit_val_def)

text \<open>A whole number as a floating-point number.\<close>

lemma ext_real_setw:
  assumes "r = CHR '' '' # r'"
  shows "ext_real_opt (Some (setw n (show_nat v) @ r)) old = (Some r, Some (real v))"
proof -
  have skip: "dropWhile is_space (setw n (show_nat v) @ r) = show_nat v @ r"
    using setw_spaces skip_before_int [of "int v" r] by (simp add: setw_def skip_spaces show_int_of_nat)
  have "scan_real (show_nat v @ r) = Some (real v, r)" using assms by (simp add: scan_real_nat)
  then show ?thesis by (simp add: ext_real_opt_def ext_real_def skip)
qed

text \<open>
  A printed row: the site is read, but the two values that are taken for the halves of the hash
  are the two times, and the difference is the number of executions of the block.
\<close>

definition printable :: "(COST \<Rightarrow> string) \<Rightarrow> ReportRow \<Rightarrow> bool" where
  "printable show_cost r \<longleftrightarrow> row_bblid r < 10 ^ 6 \<and>
     (\<forall>w \<in> {row_decision r, row_cts r, row_sca r}. w \<in> {''C'', ''P''}) \<and>
     length (show_int (row_parallelism r)) < 14 \<and> length (show_nat (unat (row_bbCount r))) < 14 \<and>
     (\<forall>t. length (show_cost t) < 15)"

lemma decision_line_row:
  assumes r: "printable show_cost r" and "show_cost (row_CPU r) = show_int a" and "show_cost (row_PIM r) = show_int b"
    and "\<bar>a\<bar> < 2 ^ 63" and "\<bar>b\<bar> < 2 ^ 63"
  shows "decision_line (row_text show_cost r) = Some ((of_int a, of_int b),
    \<lparr>site_decision = (if row_decision r = ''P'' then PIM else CPU), decision_bblid = Some (int (row_bblid r)),
     decision_difference = Some (real (unat (row_bbCount r))), decision_parallel = None\<rparr>)"
proof -
  define r9 where "r9 = setw 15 (show_cost (row_Difference r)) @ ''  '' @ setw 21 (show_base 16 (unat (fst (row_hash r)))) @
     ''  '' @ setw 21 (show_base 16 (unat (snd (row_hash r))))"
  define r8 where "r8 = setw 15 (show_int b) @ r9"
  define r7 where "r7 = setw 15 (show_int a) @ r8"
  define r6 where "r6 = setw 14 (show_nat (unat (row_bbCount r))) @ r7"
  define r5 where "r5 = setw 14 (show_int (row_parallelism r)) @ r6"
  define r4 where "r4 = setw 12 (row_sca r) @ r5"
  define r3 where "r3 = setw 12 (row_cts r) @ r4"
  define r2 where "r2 = setw 10 (row_decision r) @ r3"
  have lens: "length (show_int a) < 15" "length (show_int b) < 15" "length (show_cost (row_Difference r)) < 15"
    "length (show_int (row_parallelism r)) < 14" "length (show_nat (unat (row_bbCount r))) < 14"
    "length (row_decision r) < 10" "length (row_cts r) < 12" "length (row_sca r) < 12"
    using r assms(2,3) unfolding printable_def by (metis, metis, auto)
  have words: "w \<noteq> [] \<and> (\<forall>c \<in> set w. \<not> is_space c)" if "w \<in> {row_decision r, row_cts r, row_sca r}" for w
    using r that by (auto simp: printable_def is_space_def)
  have t2: "stops r2" using lens setw_stops by (simp add: r2_def)
  have t: "is_space (hd r3)" "is_space (hd r4)" "is_space (hd r5)" "is_space (hd r6)"
    using lens setw_stops by (simp_all add: r3_def r4_def r5_def r6_def)
  have t8: "stops r8" "stops r9" using lens setw_stops by (simp_all add: r8_def r9_def)
  obtain r7' where t7: "r7 = CHR '' '' # r7'" using lens setw_first by (auto simp: r7_def)
  have "row_text show_cost r = setw 7 (show_int (int (row_bblid r))) @ r2"
    using assms(2,3) by (simp add: row_text_def r2_def r3_def r4_def r5_def r6_def r7_def r8_def r9_def show_int_of_nat)
  moreover have "ext_i32 (Some (setw 7 (show_int (int (row_bblid r))) @ r2)) None = (Some r2, Some (int (row_bblid r)))"
    by (rule ext_int_setw [OF t2]) (use r in \<open>simp_all add: printable_def\<close>)
  moreover have "ext_tok (Some r2) old = (Some r3, row_decision r)" for old
    unfolding r2_def using words t(1) by (intro ext_tok_setw) auto
  moreover have "ext_tok (Some r3) old = (Some r4, row_cts r)" for old
    unfolding r3_def using words t(2) by (intro ext_tok_setw) auto
  moreover have "ext_tok (Some r4) old = (Some r5, row_sca r)" for old
    unfolding r4_def using words t(3) by (intro ext_tok_setw) auto
  moreover have "ext_tok (Some r5) old = (Some r6, show_int (row_parallelism r))" for old
    using t show_int_props(1) unfolding r5_def by (intro ext_tok_setw) auto
  moreover have "ext_real_opt (Some r6) None = (Some r7, Some (real (unat (row_bbCount r))))"
    unfolding r6_def by (rule ext_real_setw [OF t7])
  moreover have "ext_i64 (Some r7) None = (Some r8, Some a)" "ext_i64 (Some r8) None = (Some r9, Some b)"
    unfolding r7_def r8_def using t8 assms(4,5) by (auto simp: r8_def intro!: ext_int_setw)
  ultimately show ?thesis by (simp add: decision_line_def)
qed

text \<open>The table after text without a separator, and after a separator whatever follows.\<close>

lemma after_first_separator:
  "\<forall>l \<in> set before. \<not> contains l HORIZONTAL_LINE \<Longrightarrow> after_separator (before @ HORIZONTAL_LINE # rest) = rest"
proof -
  assume "\<forall>l \<in> set before. \<not> contains l HORIZONTAL_LINE"
  moreover have "contains HORIZONTAL_LINE HORIZONTAL_LINE" by (auto simp: contains_def list_ex_iff)
  ultimately show ?thesis by (simp add: after_separator_def dropWhile_append)
qed

lemma table_unread:
  assumes "\<forall>l \<in> set before. newline \<notin> set l \<and> \<not> contains l HORIZONTAL_LINE"
  shows "initDecisionMap (concat (map (\<lambda>l. l @ [newline]) before) @ table_text show_cost rows @ rest) m = None"
proof -
  have nl: "newline \<notin> set HORIZONTAL_LINE" "newline \<notin> set decision_title"
    by (simp_all add: HORIZONTAL_LINE_def newline_def decision_title_def setw_def)
  have "lines_of (concat (map (\<lambda>l. l @ [newline]) before) @ s) = before @ lines_of s" for s
    using assms by (induction before) (simp_all add: lines_of_line)
  moreover have "lines_of (table_text show_cost rows @ rest) = HORIZONTAL_LINE # decision_title #
      lines_of (concat (map (\<lambda>l. l @ [newline]) (map (row_text show_cost) rows)) @ rest)"
    using nl by (simp add: table_text_def lines_of_line)
  ultimately show ?thesis
    using assms by (simp add: initDecisionMap_def after_first_separator decision_title_unread)
qed

end
