(* ===== verification/Block_Ids.thy ===== *)
theory Block_Ids
  imports Thread_Stats
begin

text \<open>
  The consensus on block identifiers (\<open>MergeStatsMap\<close>, \<open>GenerateBBLID\<close>, \<open>AssignBBLID\<close> of
  \<open>PIMProfSolver/Stats.h\<close>): the statistics of all threads are merged by hash, the blocks are
  numbered in the order of their hashes, and every thread takes over the numbers.
\<close>

definition MergeStatsMap :: "ThreadStats \<Rightarrow> RunStats UUIDHashMap \<Rightarrow> RunStats UUIDHashMap option" where
  "MergeStatsMap ts statsmap =
     foldM (\<lambda>(h, p) m. do {
         r \<leftarrow> map_of (ts_heap ts) p;
         case map_of m h of
           None \<Rightarrow> Some (m @ [(h, MergeStats (new_RunStats GLOBAL_BBLID h) r)])
         | Some q \<Rightarrow> Some (AList.update h (MergeStats q r) m) })
       (bbl_hash2stats ts) statsmap"

definition GenerateBBLID :: "RunStats UUIDHashMap \<Rightarrow> RunStats UUIDHashMap option" where
  "GenerateBBLID statsmap =
     (let sorted = SortStatsMap statsmap in
      foldM (\<lambda>i m. do {
          s \<leftarrow> vec_at sorted (int i);
          q \<leftarrow> map_of m (bblhash s);
          Some (AList.update (bblhash s) (q\<lparr>bblid := int i\<rparr>) m) })
        [0..<length sorted] statsmap)"

definition AssignBBLID :: "RunStats UUIDHashMap \<Rightarrow> ThreadStats \<Rightarrow> ThreadStats option" where
  "AssignBBLID statsmap ts =
     foldM (\<lambda>(h, p) ts. do {
         r \<leftarrow> map_of (ts_heap ts) p;
         q \<leftarrow> map_of statsmap (bblhash r);
         Some (ts\<lparr>ts_heap := AList.update p (r\<lparr>bblid := bblid q\<rparr>) (ts_heap ts)\<rparr>) })
       (bbl_hash2stats ts) ts"

definition hashes :: "ThreadStats \<Rightarrow> UUID set" where
  "hashes ts = fst ` set (bbl_hash2stats ts)"

text \<open>A map of merged statistics: one entry per hash, filed under it.\<close>

definition merged_ok :: "RunStats UUIDHashMap \<Rightarrow> bool" where
  "merged_ok m \<longleftrightarrow> distinct (map fst m) \<and> (\<forall>(h, r) \<in> set m. bblhash r = h)"

lemma merged_ok_update:
  "merged_ok m \<Longrightarrow> bblhash r = h \<Longrightarrow> merged_ok (AList.update h r m)"
proof -
  assume ok: "merged_ok m" and r: "bblhash r = h"
  have "set (AList.update h r m) \<subseteq> insert (h, r) (set m)" by (induction m) auto
  with ok r show ?thesis by (auto simp: merged_ok_def distinct_update)
qed

lemma merged_ok_snoc: "merged_ok m \<Longrightarrow> map_of m h = None \<Longrightarrow> bblhash r = h \<Longrightarrow> merged_ok (m @ [(h, r)])"
  by (auto simp: merged_ok_def map_of_eq_None_iff)

lemma bblhash_MergeStats [simp]: "bblhash (MergeStats q r) = bblhash q"
  by (simp add: MergeStats_def)

definition time_at :: "RunStats UUIDHashMap \<Rightarrow> UUID \<Rightarrow> COST" where
  "time_at m h = (case map_of m h of None \<Rightarrow> 0 | Some r \<Rightarrow> elapsed_time r)"

definition thread_time :: "ThreadStats \<Rightarrow> UUID \<Rightarrow> COST" where
  "thread_time ts h = (case map_of (bbl_hash2stats ts) h of None \<Rightarrow> 0
     | Some p \<Rightarrow> (case map_of (ts_heap ts) p of None \<Rightarrow> 0 | Some r \<Rightarrow> elapsed_time r))"

text \<open>One round of the merge: the object of a hash is created or found, and the new times are added.\<close>

definition merge_entry :: "UUID \<Rightarrow> 'b RunStats_scheme \<Rightarrow> RunStats UUIDHashMap \<Rightarrow> RunStats UUIDHashMap" where
  "merge_entry h r m = (case map_of m h of
     None \<Rightarrow> m @ [(h, MergeStats (new_RunStats GLOBAL_BBLID h) r)]
   | Some q \<Rightarrow> AList.update h (MergeStats q r) m)"

lemma merge_entry_spec:
  assumes "merged_ok m"
  shows "merged_ok (merge_entry h r m)" and "fst ` set (merge_entry h r m) = insert h (fst ` set m)"
    and "time_at (merge_entry h r m) g = time_at m g + (if g = h then elapsed_time r else 0)"
proof -
  show "merged_ok (merge_entry h r m)"
  proof (cases "map_of m h")
    case None
    then show ?thesis using assms by (simp add: merge_entry_def merged_ok_snoc new_RunStats_def)
  next
    case (Some q)
    then have "bblhash q = h" using assms by (auto simp: merged_ok_def dest: map_of_SomeD)
    with Some show ?thesis using assms by (simp add: merge_entry_def merged_ok_update)
  qed
  show "fst ` set (merge_entry h r m) = insert h (fst ` set m)"
    by (cases "map_of m h") (auto simp: merge_entry_def dom_update)
  show "time_at (merge_entry h r m) g = time_at m g + (if g = h then elapsed_time r else 0)"
    by (cases "map_of m h") (auto simp: merge_entry_def time_at_def map_add_def update_conv' MergeStats_def new_RunStats_def
      split: option.splits)
qed

lemma merge_loop_spec:
  assumes live: "\<forall>(h, p) \<in> set es. map_of heap p \<noteq> None" and d: "distinct (map fst es)" and ok: "merged_ok m"
  shows "\<exists>m'. foldM (\<lambda>(h, p) m. do {
         r \<leftarrow> map_of heap p;
         case map_of m h of
           None \<Rightarrow> Some (m @ [(h, MergeStats (new_RunStats GLOBAL_BBLID h) r)])
         | Some q \<Rightarrow> Some (AList.update h (MergeStats q r) m) }) es m = Some m' \<and>
     merged_ok m' \<and> fst ` set m' = fst ` set es \<union> fst ` set m \<and>
     (\<forall>h. time_at m' h = time_at m h + (case map_of es h of None \<Rightarrow> 0
        | Some p \<Rightarrow> (case map_of heap p of None \<Rightarrow> 0 | Some r \<Rightarrow> elapsed_time r)))"
  using live d ok
proof (induction es arbitrary: m)
  case Nil
  then show ?case by simp
next
  case (Cons e es)
  obtain h p where e: "e = (h, p)" by (cases e)
  obtain r where r: "map_of heap p = Some r" using Cons.prems(1) e by auto
  have hes: "map_of es h = None" using Cons.prems(2) e by (auto simp: map_of_eq_None_iff)
  let ?m1 = "merge_entry h r m"
  note m1 = merge_entry_spec [OF Cons.prems(3), of h r]
  obtain m' where m': "foldM (\<lambda>(h, p) m. do {
         r \<leftarrow> map_of heap p;
         case map_of m h of
           None \<Rightarrow> Some (m @ [(h, MergeStats (new_RunStats GLOBAL_BBLID h) r)])
         | Some q \<Rightarrow> Some (AList.update h (MergeStats q r) m) }) es ?m1 = Some m'"
     "merged_ok m'" "fst ` set m' = fst ` set es \<union> fst ` set ?m1"
     "\<forall>h. time_at m' h = time_at ?m1 h + (case map_of es h of None \<Rightarrow> 0
        | Some p \<Rightarrow> (case map_of heap p of None \<Rightarrow> 0 | Some r \<Rightarrow> elapsed_time r))"
    using Cons.IH [OF _ _ m1(1)] Cons.prems(1,2) by auto
  have "(case map_of m h of
           None \<Rightarrow> Some (m @ [(h, MergeStats (new_RunStats GLOBAL_BBLID h) r)])
         | Some q \<Rightarrow> Some (AList.update h (MergeStats q r) m)) = Some ?m1"
    by (simp add: merge_entry_def split: option.split)
  with m' m1 r hes e show ?case by (intro exI [of _ m']) auto
qed

lemma hash2stats_live:
  "thread_inv ts \<Longrightarrow> (h, p) \<in> set (bbl_hash2stats ts) \<Longrightarrow> \<exists>r. map_of (ts_heap ts) p = Some r \<and> bblhash r = h"
  by (force simp: thread_inv_def map_inv_def heap_hash_def simp del: map_of_eq_Some_iff)

lemma stack_entry:
  assumes "thread_inv ts" and "p \<in> set (current_bblstats ts)"
  shows "\<exists>h r. map_of (bbl_hash2stats ts) h = Some p \<and> map_of (ts_heap ts) p = Some r \<and> bblhash r = h"
proof -
  obtain h where hp: "(h, p) \<in> set (bbl_hash2stats ts)"
    using assms by (auto simp: thread_inv_def stack_inv_def)
  have "map_of (bbl_hash2stats ts) h = Some p"
    using hp assms(1) by (simp add: thread_inv_def map_inv_def)
  with hash2stats_live [OF assms(1) hp] show ?thesis by blast
qed

lemma MergeStatsMap_spec:
  assumes "thread_inv ts" and "merged_ok m"
  shows "\<exists>m'. MergeStatsMap ts m = Some m' \<and> merged_ok m' \<and> fst ` set m' = hashes ts \<union> fst ` set m \<and>
    (\<forall>h. time_at m' h = time_at m h + thread_time ts h)"
proof -
  have "\<forall>(h, p) \<in> set (bbl_hash2stats ts). map_of (ts_heap ts) p \<noteq> None"
    using hash2stats_live [OF assms(1)] by fastforce
  moreover have "distinct (map fst (bbl_hash2stats ts))" using assms(1) by (simp add: thread_inv_def map_inv_def)
  ultimately show ?thesis
    using merge_loop_spec [OF _ _ assms(2)] by (simp add: MergeStatsMap_def hashes_def thread_time_def)
qed

definition merge_all :: "ThreadStats list \<Rightarrow> RunStats UUIDHashMap option" where
  "merge_all tss = foldM MergeStatsMap tss []"

lemma merge_all_spec:
  "\<forall>ts \<in> set tss. thread_inv ts \<Longrightarrow>
   \<exists>m. merge_all tss = Some m \<and> merged_ok m \<and> fst ` set m = \<Union> (hashes ` set tss) \<and>
     (\<forall>h. time_at m h = (\<Sum>ts \<leftarrow> tss. thread_time ts h))"
proof (induction tss rule: rev_induct)
  case Nil
  show ?case by (simp add: merge_all_def merged_ok_def time_at_def)
next
  case (snoc ts tss)
  then obtain m where m: "merge_all tss = Some m" "merged_ok m" "fst ` set m = \<Union> (hashes ` set tss)"
    "\<forall>h. time_at m h = (\<Sum>ts \<leftarrow> tss. thread_time ts h)" by auto
  obtain m' where m': "MergeStatsMap ts m = Some m'" "merged_ok m'" "fst ` set m' = hashes ts \<union> fst ` set m"
    "\<forall>h. time_at m' h = time_at m h + thread_time ts h"
    using MergeStatsMap_spec [OF _ m(2), of ts] snoc.prems by auto
  have "merge_all (tss @ [ts]) = Some m'" using m(1) m'(1) by (simp add: merge_all_def foldM_append)
  with m m' show ?case by (intro exI [of _ m']) auto
qed

subsection \<open>Numbering\<close>

text \<open>The identifier of a hash: its rank among all hashes.\<close>

definition rank :: "UUID set \<Rightarrow> UUID \<Rightarrow> BBLID" where
  "rank H h = int (card {g \<in> H. g < h})"

lemma rank_nth:
  assumes "sorted_wrt (<) hs" and "i < length hs"
  shows "rank (set hs) (hs ! i) = int i"
proof -
  have "{g \<in> set hs. g < hs ! i} = set (take i hs)" using assms by (rule strict_sorted_below)
  moreover have "distinct hs" using assms(1) by (simp add: strict_sorted_iff)
  then have "card (set (take i hs)) = i" using assms(2) by (simp add: distinct_card)
  ultimately show ?thesis by (simp add: rank_def)
qed

lemma rank_inj: "finite H \<Longrightarrow> g \<in> H \<Longrightarrow> h \<in> H \<Longrightarrow> g < h \<Longrightarrow> rank H g < rank H h"
proof -
  assume H: "finite H" "g \<in> H" "h \<in> H" "g < h"
  have "{x \<in> H. x < g} \<subset> {x \<in> H. x < h}" using H less_trans by blast
  then show ?thesis using H(1) by (simp add: rank_def psubset_card_mono)
qed

text \<open>Numbering one block keeps the numbers given so far.\<close>

lemma number_entry:
  assumes "merged_ok m" and "h \<in> fst ` set m"
  obtains q where "map_of m h = Some q" "merged_ok (AList.update h (q\<lparr>bblid := k\<rparr>) m)"
    "fst ` set (AList.update h (q\<lparr>bblid := k\<rparr>) m) = fst ` set m"
proof -
  obtain q where q: "map_of m h = Some q" using assms(2) by (metis map_of_eq_None_iff option.exhaust)
  then have "bblhash q = h" using assms(1) by (auto simp: merged_ok_def dest: map_of_SomeD)
  then have "merged_ok (AList.update h (q\<lparr>bblid := k\<rparr>) m)" using assms(1) by (simp add: merged_ok_update)
  moreover have "fst ` set (AList.update h (q\<lparr>bblid := k\<rparr>) m) = fst ` set m"
    using assms(2) unfolding dom_update by blast
  ultimately show thesis using that q by blast
qed

lemma GenerateBBLID_spec:
  assumes ok: "merged_ok m"
  shows "\<exists>m'. GenerateBBLID m = Some m' \<and> merged_ok m' \<and> fst ` set m' = fst ` set m \<and>
    (\<forall>h \<in> fst ` set m. \<exists>q. map_of m' h = Some q \<and> bblid q = rank (fst ` set m) h)"
proof -
  let ?s = "SortStatsMap m" and ?hs = "map bblhash (SortStatsMap m)"
  have strict: "sorted_wrt (<) ?hs"
    using ok by (intro SortStatsMap_strict) (auto simp: merged_ok_def)
  have set_hs: "set ?hs = fst ` set m"
  proof -
    have "set ?s = snd ` set m" by (simp add: SortStatsMap_def)
    then have "set ?hs = (\<lambda>e. bblhash (snd e)) ` set m" by (simp add: image_image)
    also have "\<dots> = fst ` set m" using ok by (intro image_cong) (auto simp: merged_ok_def)
    finally show ?thesis .
  qed
  have "\<exists>m'. foldM (\<lambda>i m. do {
          s \<leftarrow> vec_at ?s (int i);
          q \<leftarrow> map_of m (bblhash s);
          Some (AList.update (bblhash s) (q\<lparr>bblid := int i\<rparr>) m) }) [0..<n] m = Some m' \<and>
      merged_ok m' \<and> fst ` set m' = fst ` set m \<and>
      (\<forall>j < n. \<exists>q. map_of m' (?hs ! j) = Some q \<and> bblid q = int j)" if "n \<le> length ?s" for n
    using that
  proof (induction n)
    case 0
    show ?case using ok by simp
  next
    case (Suc n)
    then obtain m1 where m1: "foldM (\<lambda>i m. do {
          s \<leftarrow> vec_at ?s (int i);
          q \<leftarrow> map_of m (bblhash s);
          Some (AList.update (bblhash s) (q\<lparr>bblid := int i\<rparr>) m) }) [0..<n] m = Some m1"
      "merged_ok m1" "fst ` set m1 = fst ` set m"
      "\<forall>j < n. \<exists>q. map_of m1 (?hs ! j) = Some q \<and> bblid q = int j" by auto
    let ?h = "bblhash (?s ! n)"
    have hn: "?h = ?hs ! n" using Suc.prems by simp
    have "?h \<in> set ?hs" using Suc.prems by simp
    then have "?h \<in> fst ` set m1" unfolding set_hs m1(3) .
    then obtain q where q: "map_of m1 ?h = Some q" "merged_ok (AList.update ?h (q\<lparr>bblid := int n\<rparr>) m1)"
      "fst ` set (AList.update ?h (q\<lparr>bblid := int n\<rparr>) m1) = fst ` set m1"
      by (rule number_entry [OF m1(2)])
    have "\<exists>r. map_of (AList.update ?h (q\<lparr>bblid := int n\<rparr>) m1) (?hs ! j) = Some r \<and> bblid r = int j"
      if "j < Suc n" for j
    proof (cases "j = n")
      case True
      then show ?thesis using hn by (simp add: update_conv')
    next
      case False
      then have "?hs ! j \<noteq> ?h"
        using that Suc.prems hn sorted_wrt_nth_less [OF strict, of j n] by simp
      then show ?thesis using m1(4) that False by (simp add: update_conv')
    qed
    moreover have "vec_at ?s (int n) = Some (?s ! n)" using Suc.prems by (simp add: vec_at_int)
    ultimately show ?case using m1(1,3) q by (simp add: foldM_append)
  qed
  from this [OF order_refl] obtain m' where m': "GenerateBBLID m = Some m'" "merged_ok m'"
    "fst ` set m' = fst ` set m" "\<forall>j < length ?s. \<exists>q. map_of m' (?hs ! j) = Some q \<and> bblid q = int j"
    by (auto simp: GenerateBBLID_def Let_def)
  have "\<exists>q. map_of m' h = Some q \<and> bblid q = rank (fst ` set m) h" if "h \<in> fst ` set m" for h
  proof -
    from that obtain j where "j < length ?hs" "h = ?hs ! j" using set_hs by (metis in_set_conv_nth)
    with m'(4) rank_nth [OF strict, of j] set_hs show ?thesis by auto
  qed
  with m' show ?thesis by blast
qed

subsection \<open>Taking the numbers over\<close>

definition assigned :: "RunStats UUIDHashMap \<Rightarrow> (ptr \<times> RunStats) list \<Rightarrow> UUID \<times> ptr \<Rightarrow> bool" where
  "assigned m heap = (\<lambda>(h, p). \<exists>r q. map_of heap p = Some r \<and> map_of m h = Some q \<and> bblid r = bblid q)"

lemma assign_loop_spec:
  "\<forall>(h, p) \<in> set es. heap_hash ts p = Some h \<and> map_of m h \<noteq> None \<Longrightarrow> distinct (map fst es) \<Longrightarrow>
   \<exists>ts'. foldM (\<lambda>(h, p) ts. do {
         r \<leftarrow> map_of (ts_heap ts) p;
         q \<leftarrow> map_of m (bblhash r);
         Some (ts\<lparr>ts_heap := AList.update p (r\<lparr>bblid := bblid q\<rparr>) (ts_heap ts)\<rparr>) }) es ts = Some ts' \<and>
     heap_hash ts' = heap_hash ts \<and> bbl_hash2stats ts' = bbl_hash2stats ts \<and>
     (\<forall>e \<in> set es. assigned m (ts_heap ts') e) \<and>
     (\<forall>p. p \<notin> snd ` set es \<longrightarrow> map_of (ts_heap ts') p = map_of (ts_heap ts) p)"
proof (induction es arbitrary: ts)
  case (Cons e es)
  obtain h p where e: "e = (h, p)" by (cases e)
  have hp: "heap_hash ts p = Some h" "map_of m h \<noteq> None" using Cons.prems(1) e by auto
  obtain r where r: "map_of (ts_heap ts) p = Some r" "bblhash r = h" using hp(1) by (auto simp: heap_hash_def)
  obtain q where q: "map_of m h = Some q" using hp(2) by blast
  let ?ts = "ts\<lparr>ts_heap := AList.update p (r\<lparr>bblid := bblid q\<rparr>) (ts_heap ts)\<rparr>"
  have hh: "heap_hash ?ts = heap_hash ts"
    using heap_hash_update [OF r(1), of "\<lambda>r. r\<lparr>bblid := bblid q\<rparr>"] by (simp add: fun_eq_iff)
  have d: "distinct (map fst es)" using Cons.prems(2) by simp
  have all: "\<forall>(h, p) \<in> set es. heap_hash ?ts p = Some h \<and> map_of m h \<noteq> None"
    using Cons.prems(1) unfolding hh by simp
  obtain ts' where ts': "foldM (\<lambda>(h, p) ts. do {
         r \<leftarrow> map_of (ts_heap ts) p;
         q \<leftarrow> map_of m (bblhash r);
         Some (ts\<lparr>ts_heap := AList.update p (r\<lparr>bblid := bblid q\<rparr>) (ts_heap ts)\<rparr>) }) es ?ts = Some ts'"
     "heap_hash ts' = heap_hash ts" "bbl_hash2stats ts' = bbl_hash2stats ts"
     "\<forall>e \<in> set es. assigned m (ts_heap ts') e"
     "\<forall>p. p \<notin> snd ` set es \<longrightarrow> map_of (ts_heap ts') p = map_of (ts_heap ?ts) p"
    using Cons.IH [OF all d] hh by auto
  have "p \<notin> snd ` set es"
  proof
    assume "p \<in> snd ` set es"
    then obtain g where g: "(g, p) \<in> set es" by auto
    then have "heap_hash ts p = Some g" using Cons.prems(1) by auto
    then have "g = h" using hp(1) by simp
    with g Cons.prems(2) e show False by force
  qed
  then have "map_of (ts_heap ts') p = Some (r\<lparr>bblid := bblid q\<rparr>)" using ts'(5) by (simp add: update_conv')
  then have "assigned m (ts_heap ts') e" using q e by (simp add: assigned_def)
  moreover have "\<forall>p'. p' \<notin> snd ` set (e # es) \<longrightarrow> map_of (ts_heap ts') p' = map_of (ts_heap ts) p'"
    using ts'(5) e by (simp add: update_conv')
  ultimately show ?case using ts' r q e by (intro exI [of _ ts']) simp
qed simp

lemma AssignBBLID_spec:
  assumes "thread_inv ts" and "hashes ts \<subseteq> fst ` set m"
  shows "\<exists>ts'. AssignBBLID m ts = Some ts' \<and> bbl_hash2stats ts' = bbl_hash2stats ts \<and> heap_hash ts' = heap_hash ts \<and>
    (\<forall>e \<in> set (bbl_hash2stats ts). assigned m (ts_heap ts') e)"
proof -
  have "heap_hash ts p = Some h \<and> map_of m h \<noteq> None" if "(h, p) \<in> set (bbl_hash2stats ts)" for h p
  proof
    show "heap_hash ts p = Some h" using assms(1) that by (auto simp: thread_inv_def map_inv_def)
    have "h \<in> fst ` set m" using assms(2) that by (force simp: hashes_def)
    then show "map_of m h \<noteq> None" by (metis map_of_eq_None_iff)
  qed
  then have "\<forall>(h, p) \<in> set (bbl_hash2stats ts). heap_hash ts p = Some h \<and> map_of m h \<noteq> None" by blast
  moreover have "distinct (map fst (bbl_hash2stats ts))" using assms(1) by (simp add: thread_inv_def map_inv_def)
  ultimately show ?thesis using assign_loop_spec unfolding AssignBBLID_def by blast
qed

text \<open>All threads agree: a block gets the rank of its hash among the hashes of all threads.\<close>

lemma block_id_consensus:
  assumes inv: "\<forall>ts \<in> set tss. thread_inv ts"
  shows "\<exists>m m'. merge_all tss = Some m \<and> GenerateBBLID m = Some m' \<and>
    (\<forall>h. time_at m h = (\<Sum>ts \<leftarrow> tss. thread_time ts h)) \<and>
    (\<forall>ts \<in> set tss. \<exists>ts'. AssignBBLID m' ts = Some ts' \<and> bbl_hash2stats ts' = bbl_hash2stats ts \<and>
       (\<forall>(h, p) \<in> set (bbl_hash2stats ts). \<exists>r. map_of (ts_heap ts') p = Some r \<and> bblhash r = h \<and>
          bblid r = rank (\<Union> (hashes ` set tss)) h))"
proof -
  obtain m where m: "merge_all tss = Some m" "merged_ok m" "fst ` set m = \<Union> (hashes ` set tss)"
    "\<forall>h. time_at m h = (\<Sum>ts \<leftarrow> tss. thread_time ts h)"
    using merge_all_spec [OF inv] by blast
  obtain m' where m': "GenerateBBLID m = Some m'" "merged_ok m'" "fst ` set m' = fst ` set m"
    "\<forall>h \<in> fst ` set m. \<exists>q. map_of m' h = Some q \<and> bblid q = rank (fst ` set m) h"
    using GenerateBBLID_spec [OF m(2)] by blast
  have "\<exists>ts'. AssignBBLID m' ts = Some ts' \<and> bbl_hash2stats ts' = bbl_hash2stats ts \<and>
       (\<forall>(h, p) \<in> set (bbl_hash2stats ts). \<exists>r. map_of (ts_heap ts') p = Some r \<and> bblhash r = h \<and>
          bblid r = rank (\<Union> (hashes ` set tss)) h)" if ts: "ts \<in> set tss" for ts
  proof -
    have sub: "hashes ts \<subseteq> fst ` set m'" using m'(3) m(3) ts by auto
    have tinv: "thread_inv ts" using inv ts by blast
    obtain ts' where ts': "AssignBBLID m' ts = Some ts'" "bbl_hash2stats ts' = bbl_hash2stats ts"
      "heap_hash ts' = heap_hash ts" "\<forall>e \<in> set (bbl_hash2stats ts). assigned m' (ts_heap ts') e"
      using AssignBBLID_spec [OF tinv sub] by blast
    have "\<exists>r. map_of (ts_heap ts') p = Some r \<and> bblhash r = h \<and> bblid r = rank (\<Union> (hashes ` set tss)) h"
      if hp: "(h, p) \<in> set (bbl_hash2stats ts)" for h p
    proof -
      obtain r q where r: "map_of (ts_heap ts') p = Some r" "map_of m' h = Some q" "bblid r = bblid q"
        using ts'(4) hp by (fastforce simp: assigned_def)
      have "heap_hash ts' p = Some h" using tinv hp ts'(3) by (auto simp: thread_inv_def map_inv_def)
      then have "bblhash r = h" using r(1) by (simp add: heap_hash_def)
      moreover have "h \<in> fst ` set m" using sub m'(3) hp by (force simp: hashes_def)
      then have "bblid q = rank (fst ` set m) h" using m'(4) r(2) by fastforce
      ultimately show ?thesis using r m(3) by simp
    qed
    then show ?thesis using ts'(1,2) by blast
  qed
  then show ?thesis using m(1,4) m'(1) by blast
qed

end
