(* ===== verification/Reuse_Roundtrip.thy ===== *)
theory Reuse_Roundtrip
  imports Reuse_File Search_Correct
begin

text \<open>
  From the recorder through the file to the solver: the reuse cost the solver computes from the
  file is that of the segments that were recorded.
\<close>

subsection \<open>Sums over segments and over leaves\<close>

lemma key_total_sum:
  fixes g :: "'a::linorder list \<Rightarrow> 'b::comm_semiring_1"
  assumes "finite K" and "seg_key ` set (big segs) \<subseteq> K"
  shows "(\<Sum>seg \<leftarrow> big segs. of_nat (unat (seg_count seg)) * g (seg_key seg)) = (\<Sum>p \<in> K. of_nat (key_total segs p) * g p)"
  using assms(2)
proof (induction segs)
  case Nil
  then show ?case by (simp add: big_def key_total_def)
next
  case (Cons s segs)
  show ?case
  proof (cases "1 < seg_size s")
    case True
    have k: "seg_key s \<in> K" "seg_key ` set (big segs) \<subseteq> K" using Cons.prems True by (auto simp: big_def)
    have "key_total (s # segs) p = (if p = seg_key s then unat (seg_count s) else 0) + key_total segs p" for p
      using True by (simp add: key_total_def big_def)
    then have "(\<Sum>p \<in> K. of_nat (key_total (s # segs) p) * g p) =
        (\<Sum>p \<in> K. (if p = seg_key s then of_nat (unat (seg_count s)) * g p else 0) + of_nat (key_total segs p) * g p)"
      by (intro sum.cong) (simp_all add: distrib_right)
    also have "\<dots> = of_nat (unat (seg_count s)) * g (seg_key s) + (\<Sum>p \<in> K. of_nat (key_total segs p) * g p)"
      using assms(1) k(1) by (simp add: sum.distrib)
    finally show ?thesis using Cons.IH [OF k(2)] True by (simp add: big_def)
  next
    case False
    then have "big (s # segs) = big segs" "\<And>p. key_total (s # segs) p = key_total segs p"
      by (simp_all add: big_def key_total_def)
    then show ?thesis using Cons by simp
  qed
qed

lemma key_total_distinct:
  "distinct (map seg_key segs) \<Longrightarrow> key_total segs p < 2 ^ 64"
proof (induction segs)
  case Nil
  then show ?case by (simp add: key_total_def big_def)
next
  case (Cons s segs)
  have u: "unat (seg_count s) < 2 ^ LENGTH(64)" by (rule unsigned_less)
  show ?case
  proof (cases "seg_key s = p \<and> 1 < seg_size s")
    case True
    have "\<forall>s' \<in> set (big segs). seg_key s' \<noteq> p" using Cons.prems True by (auto simp: big_def rev_image_eqI)
    then have "key_total segs p = 0" by (simp add: key_total_def sum_list_eq_0_iff)
    then have "key_total (s # segs) p = unat (seg_count s)" using True by (simp add: key_total_def big_def)
    with u show ?thesis by simp
  next
    case False
    then have "key_total (s # segs) p = key_total segs p" by (auto simp: key_total_def big_def)
    with Cons show ?thesis by simp
  qed
qed

subsection \<open>Relabelled segments\<close>

text \<open>The segment the solver reads for the leaf at \<open>p\<close> with count \<open>c\<close>.\<close>

definition relabel :: "('a \<Rightarrow> BBLID) \<Rightarrow> 'a list \<Rightarrow> nat \<Rightarrow> BBLID DataReuseSegment" where
  "relabel f p c = read_seg (f (last p)) c (map f (butlast p))"

lemma relabel_key: "seg_key (relabel f p c) = fold oset_insert (map f (butlast p)) [] @ [f (last p)]"
  by (simp add: relabel_def read_seg_def seg_key_def)

lemma relabel_inj:
  assumes inj: "inj_on f L" and p: "seg_path p" "set p \<subseteq> L" and q: "seg_path q" "set q \<subseteq> L"
    and eq: "seg_key (relabel f p c) = seg_key (relabel f q c')"
  shows "p = q"
proof -
  obtain s h where s: "p = s @ [h]" "oset_ok s" using p(1) by (auto simp: seg_path_def)
  obtain s' h' where s': "q = s' @ [h']" "oset_ok s'" using q(1) by (auto simp: seg_path_def)
  have "fold oset_insert (map f s) [] = fold oset_insert (map f s') []" "f h = f h'"
    using eq by (simp_all add: relabel_key s(1) s'(1))
  then have "f ` set s = f ` set s'" by (metis set_fold_oset_insert set_map sup_bot_right empty_set)
  then have "set s = set s'" using inj p(2) q(2) s(1) s'(1) by (auto simp: inj_on_image_eq_iff)
  then have "s = s'" using oset_eqI s(2) s'(2) by blast
  moreover have "h = h'" using \<open>f h = f h'\<close> inj p(2) q(2) s(1) s'(1) by (auto dest: inj_onD)
  ultimately show ?thesis using s(1) s'(1) by simp
qed

lemma relabel_big:
  assumes "inj_on f L" and "seg_path p" and "set p \<subseteq> L"
  shows "seg_ok (relabel f p c)" and "1 < seg_size (relabel f p c)"
proof -
  obtain s h where s: "p = s @ [h]" "oset_ok s" "h \<in> set s" "2 \<le> length s"
    using assms(2) by (auto simp: seg_path_def)
  have set: "seg_set (relabel f p c) = fold oset_insert (map f s) []" "seg_head (relabel f p c) = Some (f h)"
    by (simp_all add: relabel_def read_seg_def s(1))
  then show "seg_ok (relabel f p c)" using s(3) by (auto simp: seg_ok_def)
  have "distinct s" using s(2) by (simp add: strict_sorted_iff)
  moreover have "inj_on f (set s)" by (rule inj_on_subset [OF assms(1)]) (use s(1) assms(3) in auto)
  ultimately have "card (f ` set s) = length s" by (metis card_image distinct_card)
  moreover have "set (fold oset_insert (map f s) []) = f ` set s" by simp
  ultimately have "card (set (fold oset_insert (map f s) [])) = length s" by metis
  then have "length s \<le> length (fold oset_insert (map f s) [])"
    using card_length [of "fold oset_insert (map f s) []"] by linarith
  then show "1 < seg_size (relabel f p c)" using s(4) by (simp add: seg_size_def set)
qed

lemma relabel_cost: "p \<noteq> [] \<Longrightarrow> seg_cost S d (seg_key (relabel f p c)) = seg_cost S d (map f p)"
proof -
  assume p: "p \<noteq> []"
  then obtain s h where s: "p = s @ [h]" by (cases p rule: rev_cases) auto
  have "seg_key (relabel f p c) = fold oset_insert (map f s) [] @ [f h]" by (simp add: relabel_key s)
  moreover have "set (fold oset_insert (map f s) [] @ [f h]) = set (map f p)" by (simp add: s)
  moreover have "last (fold oset_insert (map f s) [] @ [f h]) = last (map f p)" by (simp add: s)
  ultimately show ?thesis unfolding seg_cost_def uniform_def by presburger
qed

subsection \<open>The file\<close>

lemma seg_path_key: "seg_ok seg \<Longrightarrow> 1 < seg_size seg \<Longrightarrow> seg_path (seg_key seg) \<and> set (seg_key seg) = set (seg_set seg)"
  by (auto simp: seg_ok_def seg_size_def seg_path_def seg_key_def)

lemma foldM_RowInsert_defined:
  "\<forall>e \<in> set rl. row_line_ok e \<Longrightarrow> \<exists>rows'. foldM (\<lambda>(i, vec). RowInsert i vec) rl rows = Some rows'"
proof (induction rl arbitrary: rows)
  case (Cons e rl)
  obtain i vec where e: "e = (i, vec)" by (cases e)
  then have "0 \<le> i" using Cons.prems by (simp add: row_line_ok_def id32_def)
  then obtain rows1 where "RowInsert i vec rows = Some rows1" using RowInsert_getRow by blast
  with Cons e show ?case by simp
qed simp

text \<open>What is known of the recorded segments and of the labelling by identifiers.\<close>

definition labelling :: "('a \<Rightarrow> BBLID option) \<Rightarrow> ('a \<Rightarrow> BBLID) \<Rightarrow> 'a set \<Rightarrow> nat \<Rightarrow> bool" where
  "labelling get_id f L n \<longleftrightarrow> inj_on f L \<and> n \<le> 2 ^ 31 \<and> (\<forall>x \<in> L. get_id x = Some (f x) \<and> 0 \<le> f x \<and> f x < int n)"

lemma labelling_id32: "labelling get_id f L n \<Longrightarrow> x \<in> L \<Longrightarrow> get_id x = Some (f x) \<and> id32 (f x)"
proof -
  assume l: "labelling get_id f L n" and x: "x \<in> L"
  then have "f x < int n" "int n \<le> 2 ^ 31" by (auto simp: labelling_def)
  with l x show ?thesis by (auto simp: labelling_def id32_def)
qed

definition recorded :: "'a::linorder DataReuseSegment list \<Rightarrow> 'a DataReuse \<Rightarrow> ('a \<Rightarrow> BBLID option) \<Rightarrow> ('a \<Rightarrow> BBLID) \<Rightarrow>
    'a set \<Rightarrow> nat \<Rightarrow> bool" where
  "recorded segs dr get_id f L n \<longleftrightarrow> segs_ok segs \<and> (\<forall>seg \<in> set segs. set (seg_set seg) \<subseteq> L) \<and>
     (\<forall>p. key_total segs p < 2 ^ 63) \<and> insert_segs own_root segs new_DataReuse = Some dr \<and> labelling get_id f L n"

lemma recordedD:
  assumes "recorded segs dr get_id f L n"
  shows "segs_ok segs" "\<forall>seg \<in> set segs. set (seg_set seg) \<subseteq> L" "key_total segs p < 2 ^ 63"
    "insert_segs own_root segs new_DataReuse = Some dr" "labelling get_id f L n"
  using assms by (simp_all add: recorded_def)

lemma recorded_key:
  assumes rec: "recorded segs dr get_id f L n" and "p \<in> seg_key ` set (big segs)"
  shows "seg_path p \<and> set p \<subseteq> L"
proof -
  note segs = recordedD(1,2) [OF rec]
  from assms(2) obtain seg where seg: "seg \<in> set segs" "1 < seg_size seg" "p = seg_key seg" by (auto simp: big_def)
  then have "seg_ok seg" using segs(1) by (simp add: segs_ok_def)
  from seg_path_key [OF this seg(2)] show ?thesis using seg(1,3) segs(2) by auto
qed

lemma recorded_leaves:
  assumes rec: "recorded segs dr get_id f L n"
  shows "distinct (map snd (leaves dr)) \<and> set (map snd (leaves dr)) = seg_key ` set (big segs)"
  "leaf \<in> set (leaves dr) \<Longrightarrow> ExportSegment dr new_segment leaf =
     Some \<lparr>seg_head = Some (last (snd leaf)), seg_set = butlast (snd leaf), seg_count = of_nat (key_total segs (snd leaf))\<rparr>"
proof -
  note segs = recordedD(1) [OF rec] and dr = recordedD(4) [OF rec]
  have e: "distinct (leaves dr)" "set (leaves dr) = Pair own_root ` seg_key ` set (big segs)"
    "\<forall>p \<in> seg_key ` set (big segs). ExportSegment dr new_segment (own_root, p) =
       Some \<lparr>seg_head = Some (last p), seg_set = butlast p, seg_count = of_nat (key_total segs p)\<rparr>"
    using insert_segs_exports [OF segs] dr by auto
  have "inj_on snd (set (leaves dr))" by (auto simp: e(2) inj_on_def)
  then show "distinct (map snd (leaves dr)) \<and> set (map snd (leaves dr)) = seg_key ` set (big segs)"
    using e(1,2) by (simp add: distinct_map image_image)
  show "leaf \<in> set (leaves dr) \<Longrightarrow> ExportSegment dr new_segment leaf =
     Some \<lparr>seg_head = Some (last (snd leaf)), seg_set = butlast (snd leaf), seg_count = of_nat (key_total segs (snd leaf))\<rparr>"
    using e(2,3) by auto
qed

lemma total_word:
  assumes rec: "recorded segs dr get_id f L n"
  shows "unat (of_nat (key_total segs p) :: u64) = key_total segs p"
  using recordedD(3) [OF rec, of p] by (simp add: unsigned_of_nat take_bit_nat_eq_self)

lemma recorded_exports:
  assumes rec: "recorded segs dr get_id f L n"
  shows "exports get_id f dr"
  unfolding exports_def
proof
  fix leaf assume leaf: "leaf \<in> set (leaves dr)"
  then have "snd leaf \<in> seg_key ` set (big segs)" using recorded_leaves(1) [OF rec] by (metis image_eqI set_map)
  then have p: "seg_path (snd leaf)" "set (snd leaf) \<subseteq> L" using recorded_key [OF rec] by blast+
  then have "insert (last (snd leaf)) (set (butlast (snd leaf))) \<subseteq> L"
    by (auto simp: seg_path_def)
  then have "\<forall>x \<in> insert (last (snd leaf)) (set (butlast (snd leaf))). get_id x = Some (f x) \<and> id32 (f x)"
    using labelling_id32 [OF recordedD(5) [OF rec]] by blast
  moreover have "key_total segs (snd leaf) < 2 ^ 63" by (rule recordedD(3) [OF rec])
  ultimately show "\<exists>seg h. ExportSegment dr new_segment leaf = Some seg \<and> seg_head seg = Some h \<and>
      (\<forall>x \<in> insert h (set (seg_set seg)). get_id x = Some (f x) \<and> id32 (f x)) \<and> unat (seg_count seg) < 2 ^ 63"
    using recorded_leaves(2) [OF rec leaf] total_word [OF rec] by simp
qed

lemma recorded_read:
  assumes rec: "recorded segs dr get_id f L n"
  shows "read_segs (map (printed_seg f) (exported dr)) = map (\<lambda>p. relabel f p (key_total segs p)) (map snd (leaves dr))"
  using recorded_leaves(2) [OF rec] by (auto simp: read_segs_def exported_def printed_seg_def relabel_def total_word [OF rec])

lemma recorded_read_ok:
  assumes rec: "recorded segs dr get_id f L n"
  shows "segs_ok (read_segs (map (printed_seg f) (exported dr)))" "segs_in n (read_segs (map (printed_seg f) (exported dr)))"
  "big (read_segs (map (printed_seg f) (exported dr))) = read_segs (map (printed_seg f) (exported dr))"
proof -
  let ?r = "\<lambda>p. relabel f p (key_total segs p)" and ?ps = "map snd (leaves dr)"
  have inj: "inj_on f L" and rng: "\<forall>x \<in> L. 0 \<le> f x \<and> f x < int n" using recordedD(5) [OF rec] by (simp_all add: labelling_def)
  have ps: "distinct ?ps" "\<forall>p \<in> set ?ps. seg_path p \<and> set p \<subseteq> L" using recorded_leaves(1) [OF rec] recorded_key [OF rec] by auto
  have "inj_on (\<lambda>p. seg_key (?r p)) (set ?ps)"
    using ps(2) relabel_inj [OF inj] by (intro inj_onI) blast
  then have "distinct (map (\<lambda>p. seg_key (?r p)) ?ps)" unfolding distinct_map using ps(1) by (simp add: distinct_map)
  then have "distinct (map seg_key (map ?r ?ps))" unfolding map_map o_def .
  from key_total_distinct [OF this] show "segs_ok (read_segs (map (printed_seg f) (exported dr)))"
    unfolding recorded_read [OF rec] using relabel_big(1) [OF inj] ps(2) by (auto simp: segs_ok_def)
  show "big (read_segs (map (printed_seg f) (exported dr))) = read_segs (map (printed_seg f) (exported dr))"
    unfolding recorded_read [OF rec] big_def using relabel_big(2) [OF inj] ps(2) by (intro filter_True) auto
  have "0 \<le> x \<and> x < int n" if "p \<in> set ?ps" "x \<in> set (seg_set (?r p))" for p x
  proof -
    have "x \<in> f ` set (butlast p)" using that(2) by (simp add: relabel_def read_seg_def)
    then show ?thesis using ps(2) that(1) rng by (auto dest: in_set_butlastD)
  qed
  then show "segs_in n (read_segs (map (printed_seg f) (exported dr)))"
    unfolding recorded_read [OF rec] segs_in_def by auto
qed

lemma recorded_cost:
  assumes rec: "recorded segs dr get_id f L n" and m: "matrix_ok m" "set (idx2elem m) \<subseteq> L" and S: "solver_ok S" "bbl_data_reuse S = new_DataReuse" and d: "length d = n"
  shows "\<exists>a b S' t. PrintDataReuseSegments tid get_id dr = Some a \<and> PrintBBLSwitchCount tid get_id m = Some b \<and>
    ParseReuse (a @ b) S = Some S' \<and> tries (bbl_data_reuse S') own_root = Some t \<and>
    ReuseCost S' d t = Some (\<Sum>seg \<leftarrow> big segs. real (unat (seg_count seg)) * seg_cost S d (map f (seg_key seg)))"
proof -
  let ?sl = "map (printed_seg f) (exported dr)" and ?rl = "printed_rows f m"
  have ids: "\<forall>x \<in> set (idx2elem m). get_id x = Some (f x) \<and> id32 (f x)" using m(2) labelling_id32 [OF recordedD(5) [OF rec]] by blast
  obtain dr' t where t: "insert_segs own_root (read_segs ?sl) new_DataReuse = Some dr'" "tries dr' = [own_root \<mapsto> t]"
    "trie_holds t (read_segs ?sl)" "keys_in n t"
    using insert_segs_instance [OF recorded_read_ok(1,2) [OF rec]] by blast
  obtain rows where rows: "foldM (\<lambda>(i, vec). RowInsert i vec) ?rl (bbl_switch_count S) = Some rows"
    using foldM_RowInsert_defined PrintBBLSwitchCount_text(2) [OF m(1) ids] by blast
  let ?S = "S\<lparr>interBB_CL_DM := fold (\<lambda>(h, c, ids). add_moves (moves h ids) (real c)) ?sl (interBB_CL_DM S),
       bbl_data_reuse := dr', interBB_REG_DM := fold (\<lambda>(i, vec). add_row i vec) ?rl (interBB_REG_DM S),
       bbl_switch_count := List_Sort rows\<rparr>"
  obtain a b where ab: "PrintDataReuseSegments tid get_id dr = Some a" "PrintBBLSwitchCount tid get_id m = Some b"
    "ParseReuse (a @ b) S = Some ?S"
    using reuse_file_roundtrip [OF recorded_exports [OF rec] m(1) ids, of tid S] t(1) rows S(2) by auto
  have "solver_ok ?S" using S(1) by (simp add: solver_ok_def)
  moreover have "seg_cost ?S d = seg_cost S d" by (simp add: seg_cost_def fun_eq_iff)
  ultimately have "ReuseCost ?S d t = Some (\<Sum>seg \<leftarrow> read_segs ?sl. real (unat (seg_count seg)) * seg_cost S d (seg_key seg))"
    using ReuseCost_segments [OF _ t(3), of ?S d] t(4) d recorded_read_ok(3) [OF rec] by simp
  also have "(\<Sum>seg \<leftarrow> read_segs ?sl. real (unat (seg_count seg)) * seg_cost S d (seg_key seg)) =
      (\<Sum>p \<leftarrow> map snd (leaves dr). real (key_total segs p) * seg_cost S d (map f p))"
    unfolding recorded_read [OF rec] map_map o_def
  proof (intro arg_cong [where f = sum_list] map_cong)
    fix leaf assume "leaf \<in> set (leaves dr)"
    then have "snd leaf \<in> seg_key ` set (big segs)" using recorded_leaves(1) [OF rec] by (metis image_eqI set_map)
    then have "snd leaf \<noteq> []" by (auto simp: seg_key_def)
    then show "real (unat (seg_count (relabel f (snd leaf) (key_total segs (snd leaf))))) *
        seg_cost S d (seg_key (relabel f (snd leaf) (key_total segs (snd leaf)))) =
        real (key_total segs (snd leaf)) * seg_cost S d (map f (snd leaf))"
      using relabel_cost [of "snd leaf"] total_word [OF rec] by (simp add: relabel_def read_seg_def)
  qed simp
  also have "\<dots> = (\<Sum>p \<in> seg_key ` set (big segs). real (key_total segs p) * seg_cost S d (map f p))"
    by (simp only: sum_list_distinct_conv_sum_set recorded_leaves(1) [OF rec])
  also have "\<dots> = (\<Sum>seg \<leftarrow> big segs. real (unat (seg_count seg)) * seg_cost S d (map f (seg_key seg)))"
    by (rule key_total_sum [symmetric]) simp_all
  finally show ?thesis using ab t(2) by (intro exI [of _ a] exI [of _ b] exI [of _ ?S] exI [of _ t]) simp
qed

end
