(* ===== verification/Stats_File.thy ===== *)
theory Stats_File
  imports Reuse_File "HOL-Library.AList"
begin

text \<open>
  The other files the solver reads (\<open>ParseDecision\<close>, \<open>ParseSCADecision\<close>, \<open>ParseStats\<close> and
  \<open>initialize\<close> of \<open>CostSolver.cpp\<close>): the decision files of two other tools and the statistics of
  the two runs, thread after thread. A file that is not open is \<open>None\<close>.
\<close>

subsection \<open>Decision files\<close>

text \<open>A hash as two hexadecimal numbers, then the value.\<close>

definition parse_uuid :: "iss \<Rightarrow> iss \<times> UUID" where
  "parse_uuid ss = (let (ss, hi) = ext_u64 16 ss 0; (ss, lo) = ext_u64 16 ss 0 in (ss, (hi, lo)))"

definition parse_keyed :: "string \<Rightarrow> UUID \<times> string" where
  "parse_keyed line = (let (ss, key) = parse_uuid (Some line); (ss, value) = ext_tok ss '''' in (key, value))"

definition cts_value :: "string \<Rightarrow> CostSite option" where
  "cts_value value = (if value = ''PIM'' then Some PIM else if value = ''CPU'' then Some CPU else None)"

definition sca_value :: "string \<Rightarrow> CostSite option" where
  "sca_value value =
     (if value = ''PIM'' then Some PIM else if value = ''Follower'' then Some Follower
      else if value = ''CPU'' then Some CPU else None)"

definition parse_decisions :: "(string \<Rightarrow> CostSite option) \<Rightarrow> string \<Rightarrow> DecisionFromFile \<Rightarrow> DecisionFromFile option" where
  "parse_decisions value_of ifs m =
     foldM (\<lambda>line m. do { let (key, value) = parse_keyed line; site \<leftarrow> value_of value; Some (omap_update key site m) })
       (lines_of ifs) m"

definition ParseDecision :: "string \<Rightarrow> CostSolver \<Rightarrow> CostSolver option" where
  "ParseDecision ifs S = do { m \<leftarrow> parse_decisions cts_value ifs (ctsDecision S); Some (S\<lparr>ctsDecision := m\<rparr>) }"

text \<open>The cycle count at the end of a line is read into a local variable and dropped.\<close>

definition ParseSCADecision :: "string \<Rightarrow> CostSolver \<Rightarrow> CostSolver option" where
  "ParseSCADecision ifs S = do { m \<leftarrow> parse_decisions sca_value ifs (scaDecision S); Some (S\<lparr>scaDecision := m\<rparr>) }"

subsection \<open>Statistics\<close>

definition parse_stats :: "string \<Rightarrow> RunStats" where
  "parse_stats line =
     (let r = new_RunStats GLOBAL_BBLID GLOBAL_BBLHASH;
          (ss, i) = ext_i64 (Some line) (Some (bblid r));
          (ss, t) = ext_real ss (elapsed_time r);
          (ss, instr) = ext_u64 10 ss (instruction_count r);
          (ss, mem) = ext_u64 10 ss (memory_access r);
          (ss, hi) = ext_u64 16 ss (fst (bblhash r));
          (ss, lo) = ext_u64 16 ss (snd (bblhash r))
      in \<lparr>bblid = the i, bblhash = (hi, lo), elapsed_time = t, instruction_count = instr, memory_access = mem\<rparr>)"

definition add_stats :: "int \<Rightarrow> RunStats \<Rightarrow> ThreadRunStats UUIDHashMap \<Rightarrow> ThreadRunStats UUIDHashMap option" where
  "add_stats tid r m =
     (if elapsed_time r \<ge> 0
      then (case map_of m (bblhash r) of
          None \<Rightarrow> do { p \<leftarrow> new_ThreadRunStats tid r; Some (m @ [(bblhash r, p)]) }
        | Some p \<Rightarrow> do { p \<leftarrow> MergeStats_tid tid r p; Some (AList.update (bblhash r) p m) })
      else None)"

text \<open>The line after a separator names the thread, the one after that holds the column titles.\<close>

definition title_tid :: "string \<Rightarrow> int \<Rightarrow> int" where
  "title_tid line tid = (let (ss, token) = ext_tok (Some line) ''''; (ss, tid') = ext_i32 ss (Some tid) in the tid')"

fun parse_stats_lines :: "string list \<Rightarrow> int \<Rightarrow> ThreadRunStats UUIDHashMap \<Rightarrow> ThreadRunStats UUIDHashMap option" where
  "parse_stats_lines [] tid m = Some m"
| "parse_stats_lines (line # rest) tid m =
     (if contains line HORIZONTAL_LINE
      then parse_stats_lines (drop 2 rest) (title_tid (case rest of [] \<Rightarrow> '''' | l # ls \<Rightarrow> l) tid) m
      else do { m \<leftarrow> add_stats tid (parse_stats line) m; parse_stats_lines rest tid m })"

definition ParseStats :: "string \<Rightarrow> ThreadRunStats UUIDHashMap \<Rightarrow> ThreadRunStats UUIDHashMap option" where
  "ParseStats ifs m = parse_stats_lines (lines_of ifs) 0 m"

subsection \<open>Initialisation\<close>

definition stream_text :: "string option \<Rightarrow> string" where
  "stream_text ifs = (case ifs of None \<Rightarrow> '''' | Some s \<Rightarrow> s)"

definition initialize :: "COST \<Rightarrow> string option \<Rightarrow> string option \<Rightarrow> string option \<Rightarrow> string option \<Rightarrow> string option \<Rightarrow>
    CostSolver \<Rightarrow> CostSolver option" where
  "initialize threshold sca decision cpustats pimstats reuse S = do {
     cpustats \<leftarrow> cpustats; pimstats \<leftarrow> pimstats; reuse \<leftarrow> reuse;
     S \<leftarrow> ParseDecision (stream_text decision) S;
     S \<leftarrow> ParseSCADecision (stream_text sca) S;
     c \<leftarrow> ParseStats cpustats (hash2stats_CPU S);
     p \<leftarrow> ParseStats pimstats (hash2stats_PIM S);
     S \<leftarrow> ParseReuse reuse (S\<lparr>hash2stats_CPU := c, hash2stats_PIM := p\<rparr>);
     Some (set_costs threshold S) }"

subsection \<open>What the statistics become\<close>

text \<open>Specification: the entries of a file in order, each with its thread.\<close>

fun stats_entries :: "string list \<Rightarrow> int \<Rightarrow> (int \<times> RunStats) list" where
  "stats_entries [] tid = []"
| "stats_entries (line # rest) tid =
     (if contains line HORIZONTAL_LINE
      then stats_entries (drop 2 rest) (title_tid (case rest of [] \<Rightarrow> '''' | l # ls \<Rightarrow> l) tid)
      else (tid, parse_stats line) # stats_entries rest tid)"

lemma parse_stats_entries:
  "parse_stats_lines ls tid m = foldM (\<lambda>(tid, r). add_stats tid r) (stats_entries ls tid) m"
  by (induction ls tid m rule: parse_stats_lines.induct) (simp_all split: bind_splits)

definition entry_ok :: "int \<times> RunStats \<Rightarrow> bool" where
  "entry_ok = (\<lambda>(tid, r). 0 \<le> tid \<and> 0 \<le> elapsed_time r)"

text \<open>The time of a block in a thread is the last one the file gives.\<close>

fun last_time :: "(int \<times> RunStats) list \<Rightarrow> UUID \<Rightarrow> nat \<Rightarrow> COST" where
  "last_time [] h t = 0"
| "last_time (e # es) h t =
     (if \<exists>(tid, r) \<in> set es. bblhash r = h \<and> nat tid = t then last_time es h t
      else if bblhash (snd e) = h \<and> nat (fst e) = t then elapsed_time (snd e) else last_time es h t)"

definition instr_sum :: "(int \<times> RunStats) list \<Rightarrow> UUID \<Rightarrow> u64" where
  "instr_sum es h = (\<Sum>(tid, r) \<leftarrow> es. if bblhash r = h then instruction_count r else 0)"

definition slot :: "ThreadRunStats \<Rightarrow> nat \<Rightarrow> COST" where
  "slot p t = (if t < length (thread_elapsed_time p) then thread_elapsed_time p ! t else 0)"

lemma last_time_snoc:
  "last_time (es @ [(tid, r)]) h t = (if bblhash r = h \<and> nat tid = t then elapsed_time r else last_time es h t)"
  by (induction es) auto

definition stats_spec :: "(int \<times> RunStats) list \<Rightarrow> ThreadRunStats UUIDHashMap \<Rightarrow> bool" where
  "stats_spec es m \<longleftrightarrow> stats_map_ok m \<and> fst ` set m = (bblhash \<circ> snd) ` set es \<and>
     (\<forall>h p. map_of m h = Some p \<longrightarrow> instruction_count p = instr_sum es h \<and> (\<forall>t. slot p t = last_time es h t))"

lemma set_thread_time_slot:
  assumes "0 \<le> tid" and "dirty s" and "sorted_elapsed_time s = thread_elapsed_time s"
  shows "\<exists>s'. set_thread_time tid t s = Some s' \<and> fresh_threads s' \<and> bblhash s' = bblhash s \<and>
    instruction_count s' = instruction_count s \<and> (\<forall>i. slot s' i = (if i = nat tid then t else slot s i))"
proof -
  obtain s' where s': "set_thread_time tid t s = Some s'" "fresh_threads s'" "bblhash s' = bblhash s"
    "length (thread_elapsed_time s') = max (length (thread_elapsed_time s)) (nat tid + 1)"
    "\<forall>i < length (thread_elapsed_time s'). thread_elapsed_time s' ! i =
       (if i = nat tid then t else if i < length (thread_elapsed_time s) then thread_elapsed_time s ! i else 0)"
    using set_thread_time_spec [OF assms] by blast
  moreover have "instruction_count s' = instruction_count s"
    using s'(1) by (auto simp: set_thread_time_def Let_def bind_eq_Some_conv)
  ultimately show ?thesis by (intro exI [of _ s']) (auto simp: slot_def)
qed

lemma add_stats_spec:
  assumes spec: "stats_spec es m" and e: "entry_ok (tid, r)"
  shows "\<exists>m'. add_stats tid r m = Some m' \<and> stats_spec (es @ [(tid, r)]) m'"
proof -
  let ?h = "bblhash r" and ?es = "es @ [(tid, r)]"
  have tid: "0 \<le> tid" and t0: "0 \<le> elapsed_time r" using e by (simp_all add: entry_ok_def)
  have ok: "stats_map_ok m" and dom: "fst ` set m = (bblhash \<circ> snd) ` set es" using spec by (simp_all add: stats_spec_def)
  have dist: "distinct (map fst m)" using ok by (simp add: stats_map_ok_def)
  have instr: "instr_sum ?es h = instr_sum es h + (if ?h = h then instruction_count r else 0)" for h
    by (simp add: instr_sum_def)
  show ?thesis
  proof (cases "map_of m ?h")
    case None
    let ?s = "RunStats.extend r \<lparr>thread_elapsed_time = [], sorted_elapsed_time = [], dirty = True\<rparr>"
    have s: "dirty ?s" "sorted_elapsed_time ?s = thread_elapsed_time ?s" "bblhash ?s = ?h"
      "instruction_count ?s = instruction_count r" "slot ?s i = 0" for i
      by (simp_all add: RunStats.defs slot_def)
    obtain p where p: "new_ThreadRunStats tid r = Some p" "fresh_threads p" "bblhash p = ?h"
      "instruction_count p = instruction_count r" "\<forall>i. slot p i = (if i = nat tid then elapsed_time r else 0)"
      using set_thread_time_slot [OF tid s(1,2), of "elapsed_time r"] s(3-5) by (auto simp: new_ThreadRunStats_def)
    have new: "?h \<notin> (bblhash \<circ> snd) ` set es" using None dom by (metis map_of_eq_None_iff)
    then have "\<forall>(tid, r) \<in> set es. bblhash r \<noteq> ?h" by force
    then have zero: "instr_sum es ?h = 0" "last_time es ?h t = 0" for t
      by (induction es) (auto simp: instr_sum_def)
    have "stats_map_ok (m @ [(?h, p)])"
      using ok p(2,3) None by (auto simp: stats_map_ok_def map_of_eq_None_iff)
    moreover have "map_of (m @ [(?h, p)]) h = (if h = ?h then Some p else map_of m h)" for h
      using None by (auto simp: map_add_def split: option.splits)
    ultimately have "stats_spec ?es (m @ [(?h, p)])"
      using spec p(4,5) dom zero by (auto simp: stats_spec_def instr last_time_snoc)
    moreover have "add_stats tid r m = Some (m @ [(?h, p)])" using None p(1) t0 by (simp add: add_stats_def)
    ultimately show ?thesis by blast
  next
    case (Some q)
    have q: "fresh_threads q" "bblhash q = ?h" using map_of_SomeD [OF Some] ok by (auto simp: stats_map_ok_def)
    have ms: "dirty (MergeStats q r)" "sorted_elapsed_time (MergeStats q r) = thread_elapsed_time (MergeStats q r)"
      "bblhash (MergeStats q r) = ?h" "instruction_count (MergeStats q r) = instruction_count q + instruction_count r"
      "slot (MergeStats q r) i = slot q i" for i
      using q by (simp_all add: MergeStats_def fresh_threads_def slot_def)
    obtain p where p: "MergeStats_tid tid r q = Some p" "fresh_threads p" "bblhash p = ?h"
      "instruction_count p = instruction_count q + instruction_count r"
      "\<forall>i. slot p i = (if i = nat tid then elapsed_time r else slot q i)"
      using set_thread_time_slot [OF tid ms(1,2), of "elapsed_time r"] ms(3-5) by (auto simp: MergeStats_tid_def)
    let ?m = "AList.update ?h p m"
    have sub: "set ?m \<subseteq> insert (?h, p) (set m)" by (induction m) auto
    have "stats_map_ok ?m"
      using ok p(2,3) sub dist by (fastforce simp: stats_map_ok_def distinct_update)
    moreover have "fst ` set ?m = (bblhash \<circ> snd) ` set ?es"
      using dom by (simp add: dom_update)
    moreover have "map_of ?m h = (if h = ?h then Some p else map_of m h)" for h by (simp add: update_conv')
    moreover have "instruction_count q = instr_sum es ?h" "slot q t = last_time es ?h t" for t
      using spec Some unfolding stats_spec_def by blast+
    ultimately have "stats_spec ?es ?m"
      using spec p(4,5) by (auto simp: stats_spec_def instr last_time_snoc)
    moreover have "add_stats tid r m = Some ?m" using Some p(1) t0 by (simp add: add_stats_def)
    ultimately show ?thesis by blast
  qed
qed

lemma ParseStats_spec:
  assumes "\<forall>e \<in> set (stats_entries (lines_of ifs) 0). entry_ok e"
  shows "\<exists>m. ParseStats ifs [] = Some m \<and> stats_spec (stats_entries (lines_of ifs) 0) m"
proof -
  have "\<exists>m. foldM (\<lambda>(tid, r). add_stats tid r) es [] = Some m \<and> stats_spec es m" if "\<forall>e \<in> set es. entry_ok e" for es
    using that
  proof (induction es rule: rev_induct)
    case Nil
    then show ?case by (simp add: stats_spec_def stats_map_ok_def)
  next
    case (snoc e es)
    obtain tid r where e: "e = (tid, r)" by (cases e)
    obtain m where "foldM (\<lambda>(tid, r). add_stats tid r) es [] = Some m" "stats_spec es m" using snoc by auto
    with add_stats_spec [of es m tid r] snoc.prems e show ?case by (auto simp: foldM_append)
  qed
  with assms show ?thesis by (simp add: ParseStats_def parse_stats_entries)
qed

text \<open>A negative time stops the reader.\<close>

lemma add_stats_negative: "elapsed_time r < 0 \<Longrightarrow> add_stats tid r m = None"
  by (simp add: add_stats_def)

end
