(* ===== verification/Stats_Print.thy ===== *)
theory Stats_Print
  imports Stats_File Block_Ids
begin

text \<open>
  The statistics file: \<open>ThreadStats::PrintStats\<close> (\<open>PIMProfSolver/Stats.h\<close>) writes one table per thread,
  \<open>CostSolver::PrintStats\<close> (\<open>CostSolver.cpp\<close>) one per site in the same columns. What the recorder
  writes is what \<open>ParseStats\<close> reads, as long as every number leaves room in its column. How the
  stream prints a time is a parameter.
\<close>

subsection \<open>The tables\<close>

text \<open>\<open>std::setfill('0')\<close> and \<open>std::setw(16)\<close> before a hexadecimal number.\<close>

definition hex16 :: "u64 \<Rightarrow> string" where
  "hex16 w = replicate (16 - length (show_base 16 (unat w))) CHR ''0'' @ show_base 16 (unat w)"

definition stats_title :: string where
  "stats_title = setw 7 ''BBLID'' @ setw 15 ''Time(ns)'' @ setw 15 ''Instruction'' @ setw 15 ''Memory Access'' @
     setw 18 ''Hash(hi)'' @ setw 18 ''Hash(lo)''"

definition stats_row :: "(COST \<Rightarrow> string) \<Rightarrow> 'a RunStats_scheme \<Rightarrow> string" where
  "stats_row show_cost r = setw 7 (show_int (bblid r)) @ setw 15 (show_cost (elapsed_time r)) @
     setw 15 (show_nat (unat (instruction_count r))) @ setw 15 (show_nat (unat (memory_access r))) @
     ''  '' @ hex16 (fst (bblhash r)) @ ''  '' @ hex16 (snd (bblhash r))"

text \<open>The objects a thread points to; a dangling pointer has no value.\<close>

definition thread_map :: "ThreadStats \<Rightarrow> RunStats UUIDHashMap option" where
  "thread_map ts = foldM (\<lambda>(h, p) m. do { r \<leftarrow> map_of (ts_heap ts) p; Some (m @ [(h, r)]) }) (bbl_hash2stats ts) []"

definition PrintStats_lines :: "(COST \<Rightarrow> string) \<Rightarrow> int \<Rightarrow> RunStats list \<Rightarrow> string list" where
  "PrintStats_lines show_cost i rows =
     [HORIZONTAL_LINE, ''Thread '' @ show_int i, stats_title] @ map (stats_row show_cost) rows"

definition PrintStats :: "(COST \<Rightarrow> string) \<Rightarrow> ThreadStats \<Rightarrow> string option" where
  "PrintStats show_cost ts = do {
     m \<leftarrow> thread_map ts;
     Some (concat (map (\<lambda>l. l @ [newline]) (PrintStats_lines show_cost (tid ts) (SortStatsMap m)))) }"

definition solver_PrintStats :: "(COST \<Rightarrow> string) \<Rightarrow> CostSolver \<Rightarrow> (string \<times> CostSolver) option" where
  "solver_PrintStats show_cost S = do {
     S \<leftarrow> getBBLSortedStats S;
     Some (concat (map (\<lambda>l. l @ [newline])
       ([HORIZONTAL_LINE, stats_title] @ map (stats_row show_cost) (sorted_CPU S) @
        [HORIZONTAL_LINE, stats_title] @ map (stats_row show_cost) (sorted_PIM S))), S) }"

text \<open>The file of a run: the tables of its threads.\<close>

definition stats_file :: "(COST \<Rightarrow> string) \<Rightarrow> ThreadStats list \<Rightarrow> string option" where
  "stats_file show_cost tss = foldM (\<lambda>ts out. do { t \<leftarrow> PrintStats show_cost ts; Some (out @ t) }) tss []"

subsection \<open>A row\<close>

lemma digits_value_zeros: "digits_value 16 (replicate n CHR ''0'' @ ds) = digits_value 16 ds"
  by (induction n) (simp_all add: digits_value_def digit_val_def)

lemma hex16_digits: "c \<in> set (hex16 w) \<Longrightarrow> \<exists>d < 16. c = digit_char d"
proof -
  assume "c \<in> set (hex16 w)"
  then consider "c = CHR ''0''" | "c \<in> set (show_base 16 (unat w))" by (auto simp: hex16_def)
  then show ?thesis
  proof cases
    case 1
    then have "c = digit_char 0" by (simp add: digit_char_def char_of_def bit_0)
    then show ?thesis by (intro exI [of _ 0]) simp
  next
    case 2
    then show ?thesis using show_base_digits [of 16 c "unat w"] by simp
  qed
qed

lemma hex16_value: "digits_value 16 (hex16 w) = unat w"
  by (simp add: hex16_def digits_value_zeros show_base_value)

lemma ext_u64_hex16:
  assumes "r = [] \<or> r = CHR '' '' # r'"
  shows "ext_u64 16 (Some (''  '' @ hex16 w @ r)) old = (Some r, w)"
proof -
  obtain c cs where c: "hex16 w = c # cs" by (cases "hex16 w") (simp_all add: hex16_def)
  have digits: "\<forall>c \<in> set (hex16 w). is_digit 16 c \<and> \<not> is_space c \<and> c \<notin> {CHR ''-'', CHR ''+'', CHR ''x'', CHR ''X''}"
    using hex16_digits [of _ w] digit_char_props is_digit_char [of _ 16] by fastforce
  have stop: "takeWhile (is_digit 16) r = []" "dropWhile (is_digit 16) r = r"
    using assms by (auto simp: is_digit_def digit_val_def)
  have "dropWhile is_space (''  '' @ hex16 w @ r) = hex16 w @ r" using digits c by (simp add: is_space_def)
  moreover have "scan_sign (hex16 w @ r) = (False, hex16 w @ r)" using digits c by (simp add: scan_sign_def)
  moreover have "skip_0x 16 (hex16 w @ r) = hex16 w @ r"
  proof -
    have "take 2 (hex16 w @ r) \<noteq> [CHR ''0'', x]" if "x \<in> {CHR ''x'', CHR ''X''}" for x
      using that digits c assms by (cases cs) auto
    then show ?thesis by (simp add: skip_0x_def)
  qed
  moreover have "takeWhile (is_digit 16) (hex16 w @ r) = hex16 w" "dropWhile (is_digit 16) (hex16 w @ r) = r"
    using digits stop by (simp_all add: takeWhile_append dropWhile_append)
  moreover have "unat w < 2 ^ 64" using unsigned_less [of w, where ?'a = nat] by simp
  moreover have "digits_value 16 (hex16 w) = unat w" by (rule hex16_value)
  ultimately show ?thesis using c
    by (simp add: ext_u64_def scan_num_def Let_def of_nat_unat ucast_id del: takeWhile.simps dropWhile.simps)
qed

lemma ext_u64_setw:
  assumes "stops r"
  shows "ext_u64 10 (Some (setw n (show_nat (unat (w :: u64))) @ r)) old = (Some r, w)"
proof -
  have "dropWhile is_space (setw n (show_nat (unat w)) @ r) = show_nat (unat w) @ r"
    using setw_spaces [of "n - length (show_nat (unat w))"] skip_before_int [of "int (unat w)" r]
    by (simp add: setw_def skip_spaces show_int_of_nat)
  moreover have "scan_num 10 (show_nat (unat w) @ r) = Some (False, unat w, r)"
    using scan_show_int [OF assms, of "int (unat w)"] by (simp add: show_int_of_nat)
  moreover have "unat w < 2 ^ 64" using unsigned_less [of w, where ?'a = nat] by simp
  ultimately show ?thesis by (simp add: ext_u64_def Let_def of_nat_unat ucast_id)
qed

text \<open>A time is legible when it is read back in front of a blank.\<close>

definition legible_time :: "(COST \<Rightarrow> string) \<Rightarrow> COST \<Rightarrow> bool" where
  "legible_time show_cost t \<longleftrightarrow> length (show_cost t) < 15 \<and>
     (\<exists>c w. show_cost t = c # w \<and> \<not> is_space c) \<and> newline \<notin> set (show_cost t) \<and>
     (\<forall>r. scan_real (show_cost t @ CHR '' '' # r) = Some (t, CHR '' '' # r))"

definition row_fits :: "(COST \<Rightarrow> string) \<Rightarrow> 'a RunStats_scheme \<Rightarrow> bool" where
  "row_fits show_cost r \<longleftrightarrow> - (2 ^ 63) \<le> bblid r \<and> bblid r < 2 ^ 63 \<and> 0 \<le> elapsed_time r \<and>
     legible_time show_cost (elapsed_time r) \<and> unat (instruction_count r) < 10 ^ 14 \<and> unat (memory_access r) < 10 ^ 14"

lemma ext_real_setw15:
  assumes "legible_time show_cost t"
  shows "ext_real (Some (setw 15 (show_cost t) @ CHR '' '' # r)) old = (Some (CHR '' '' # r), t)"
proof -
  have "dropWhile is_space (setw 15 (show_cost t) @ CHR '' '' # r) = show_cost t @ CHR '' '' # r"
    using assms setw_spaces [of "15 - length (show_cost t)"] by (auto simp: setw_def skip_spaces legible_time_def)
  then show ?thesis using assms by (auto simp: ext_real_def legible_time_def)
qed

lemma parse_stats_row:
  assumes "row_fits show_cost r"
  shows "parse_stats (stats_row show_cost r) = \<lparr>bblid = bblid r, bblhash = bblhash r, elapsed_time = elapsed_time r,
    instruction_count = instruction_count r, memory_access = memory_access r\<rparr>"
proof -
  have fits: "length (show_cost (elapsed_time r)) < 15" "length (show_nat (unat (instruction_count r))) < 15"
    "length (show_nat (unat (memory_access r))) < 15" "legible_time show_cost (elapsed_time r)"
    using assms show_nat_length [of "unat (instruction_count r)" 14] show_nat_length [of "unat (memory_access r)" 14]
    by (simp_all add: row_fits_def legible_time_def)
  define r4 where "r4 = CHR '' '' # '' '' @ hex16 (fst (bblhash r)) @ ''  '' @ hex16 (snd (bblhash r))"
  define r3 where "r3 = setw 15 (show_nat (unat (memory_access r))) @ r4"
  define r2 where "r2 = setw 15 (show_nat (unat (instruction_count r))) @ r3"
  define r1 where "r1 = setw 15 (show_cost (elapsed_time r)) @ r2"
  have row: "stats_row show_cost r = setw 7 (show_int (bblid r)) @ r1"
    by (simp add: stats_row_def r1_def r2_def r3_def r4_def)
  obtain x where x: "r2 = CHR '' '' # x" using setw_first [OF fits(2)] by (simp add: r2_def)
  have stop: "stops r1" "stops r3" "stops r4"
    using setw_stops(1) [OF fits(1)] setw_stops(1) [OF fits(3)] by (simp_all add: r1_def r3_def r4_def)
  have hi: "ext_u64 16 (Some r4) old = (Some (''  '' @ hex16 (snd (bblhash r))), fst (bblhash r))" for old
    using ext_u64_hex16 [of "''  '' @ hex16 (snd (bblhash r))"] by (simp add: r4_def)
  have lo: "ext_u64 16 (Some (''  '' @ hex16 w)) old = (Some [], w)" for old w
    using ext_u64_hex16 [of "[]"] by simp
  have "ext_int 63 (Some (stats_row show_cost r)) old = (Some r1, Some (bblid r))" for old
    unfolding row using ext_int_setw [OF stop(1), of 63 "bblid r"] assms by (simp add: row_fits_def)
  moreover have "ext_real (Some r1) old = (Some r2, elapsed_time r)" for old
    unfolding r1_def x by (rule ext_real_setw15 [OF fits(4)])
  moreover have "ext_u64 10 (Some r2) old = (Some r3, instruction_count r)" for old
    unfolding r2_def by (rule ext_u64_setw [OF stop(2)])
  moreover have "ext_u64 10 (Some r3) old = (Some r4, memory_access r)" for old
    unfolding r3_def by (rule ext_u64_setw [OF stop(3)])
  ultimately show ?thesis using hi lo by (simp add: parse_stats_def Let_def)
qed


subsection \<open>The lines\<close>

lemma count_zero: "x \<notin> set xs \<Longrightarrow> count_list xs x = 0"
  by (simp add: count_list_0_iff)

lemma setw_chars: "set (setw n s) \<subseteq> insert CHR '' '' (set s)"
  by (auto simp: setw_def)

lemma count_setw: "x \<noteq> CHR '' '' \<Longrightarrow> count_list (setw n s) x = count_list s x"
proof -
  assume x: "x \<noteq> CHR '' ''"
  have "count_list (replicate k CHR '' '') x = 0" for k using x by (intro count_zero) auto
  then show ?thesis by (simp add: setw_def)
qed

lemma hex16_plain: "CHR ''='' \<notin> set (hex16 w)" "newline \<notin> set (hex16 w)"
  using hex16_digits [of _ w] digit_char_props by metis+

lemma stats_row_line:
  assumes "row_fits show_cost r"
  shows "newline \<notin> set (stats_row show_cost r)" "\<not> contains (stats_row show_cost r) HORIZONTAL_LINE"
proof -
  have t: "length (show_cost (elapsed_time r)) < 15" "newline \<notin> set (show_cost (elapsed_time r))"
    using assms by (simp_all add: row_fits_def legible_time_def)
  have "newline \<notin> set (setw n s)" if "newline \<notin> set s" for n s using setw_chars [of n s] that by (auto simp: newline_def)
  moreover have "newline \<notin> set (show_int i)" "newline \<notin> set (show_nat k)" for i k
    using show_int_props(2) show_nat_props(5) by blast+
  ultimately show "newline \<notin> set (stats_row show_cost r)"
    using t(2) hex16_plain(2) by (simp add: stats_row_def) (simp add: newline_def)
  have z: "count_list (show_int i) CHR ''='' = 0" "count_list (show_nat k) CHR ''='' = 0" "count_list (hex16 w) CHR ''='' = 0" for i k w
    using show_int_props(5) show_nat_props(8) hex16_plain(1) by (metis count_zero)+
  have "count_list (stats_row show_cost r) CHR ''='' = count_list (show_cost (elapsed_time r)) CHR ''=''"
    by (simp add: stats_row_def count_setw z)
  also have "\<dots> \<le> length (show_cost (elapsed_time r))" by (rule count_le_length)
  finally show "\<not> contains (stats_row show_cost r) HORIZONTAL_LINE" using t(1) by (intro no_separator) simp
qed

lemma title_tid_thread:
  assumes "- (2 ^ 31) \<le> i" and "i < 2 ^ 31"
  shows "title_tid (''Thread '' @ show_int i) t = i"
proof -
  have "ext_tok (Some ([] @ ''Thread'' @ CHR '' '' # show_int i)) [] = (Some (CHR '' '' # show_int i), ''Thread'')"
    by (rule ext_tok_word) (simp_all add: is_space_def)
  moreover have "ext_int 31 (Some ('' '' @ show_int i @ [])) (Some t) = (Some [], Some i)"
    by (rule ext_i64_show) (use assms in \<open>simp_all add: is_space_def\<close>)
  ultimately show ?thesis by (simp add: title_tid_def)
qed

lemma entries_rows:
  assumes "\<forall>r \<in> set rs. row_fits show_cost r"
  shows "stats_entries (map (stats_row show_cost) rs @ ls) i = map (\<lambda>r. (i, r)) (rs :: RunStats list) @ stats_entries ls i"
  using assms
proof (induction rs)
  case (Cons r rs)
  then have "parse_stats (stats_row show_cost r) = r" by (simp add: parse_stats_row)
  with Cons show ?case by (simp add: stats_row_line(2))
qed simp

lemma HORIZONTAL_contains: "contains HORIZONTAL_LINE HORIZONTAL_LINE"
  by (auto simp: contains_def list_ex_iff)

lemma entries_thread:
  assumes "\<forall>r \<in> set rs. row_fits show_cost r" and "- (2 ^ 31) \<le> i" and "i < 2 ^ 31"
  shows "stats_entries (PrintStats_lines show_cost i rs @ ls) t = map (\<lambda>r. (i, r)) rs @ stats_entries ls i"
  using entries_rows [OF assms(1)] title_tid_thread [OF assms(2,3)] by (simp add: PrintStats_lines_def HORIZONTAL_contains)

subsection \<open>The threads\<close>

text \<open>The rows of a thread.\<close>

definition thread_rows :: "ThreadStats \<Rightarrow> RunStats list" where
  "thread_rows ts = SortStatsMap (map (\<lambda>(h, p). (h, the (map_of (ts_heap ts) p))) (bbl_hash2stats ts))"

lemma thread_map_live:
  assumes "thread_inv ts"
  shows "thread_map ts = Some (map (\<lambda>(h, p). (h, the (map_of (ts_heap ts) p))) (bbl_hash2stats ts))"
proof -
  have loop: "foldM (\<lambda>(h, p) m. do { r \<leftarrow> map_of heap p; Some (m @ [(h, r)]) }) es m =
      Some (m @ map (\<lambda>(h, p). (h, the (map_of heap p))) es)" if "\<forall>(h, p) \<in> set es. map_of heap p \<noteq> None" for es heap and m :: "RunStats UUIDHashMap"
    using that by (induction es arbitrary: m) auto
  have "\<forall>(h, p) \<in> set (bbl_hash2stats ts). map_of (ts_heap ts) p \<noteq> None"
    using hash2stats_live [OF assms] by fastforce
  from loop [OF this, of "[]"] show ?thesis by (simp only: thread_map_def append_Nil)
qed

lemma thread_rows_set:
  assumes "thread_inv ts"
  shows "r \<in> set (thread_rows ts) \<longleftrightarrow>
    (\<exists>p. map_of (bbl_hash2stats ts) (bblhash r) = Some p \<and> map_of (ts_heap ts) p = Some r)"
proof -
  have "r \<in> set (thread_rows ts) \<longleftrightarrow> (\<exists>h p. (h, p) \<in> set (bbl_hash2stats ts) \<and> r = the (map_of (ts_heap ts) p))"
    by (force simp: thread_rows_def SortStatsMap_def)
  moreover have "distinct (map fst (bbl_hash2stats ts))" using assms by (simp add: thread_inv_def map_inv_def)
  ultimately show ?thesis
    using hash2stats_live [OF assms] by (metis map_of_eq_Some_iff option.sel)
qed

definition thread_instr :: "ThreadStats \<Rightarrow> UUID \<Rightarrow> u64" where
  "thread_instr ts h = (case map_of (bbl_hash2stats ts) h of None \<Rightarrow> 0
     | Some p \<Rightarrow> (case map_of (ts_heap ts) p of None \<Rightarrow> 0 | Some r \<Rightarrow> instruction_count r))"

lemma keyed_sum:
  assumes "distinct (map fst es)" and "\<forall>(g, p) \<in> set es. bblhash (f p) = g"
  shows "(\<Sum>e \<leftarrow> es. if bblhash (f (snd e)) = h then instruction_count (f (snd e)) else 0) =
    (case map_of es h of None \<Rightarrow> 0 | Some p \<Rightarrow> instruction_count (f p))"
  using assms
proof (induction es)
  case (Cons e es)
  obtain g p where e: "e = (g, p)" by (cases e)
  have "map_of es g = None" using Cons.prems(1) e by (simp add: map_of_eq_None_iff)
  with Cons e show ?case by (auto split: option.splits)
qed simp

lemma thread_rows_instr:
  assumes "thread_inv ts"
  shows "(\<Sum>r \<leftarrow> thread_rows ts. if bblhash r = h then instruction_count r else 0) = thread_instr ts h"
proof -
  let ?obj = "\<lambda>p. the (map_of (ts_heap ts) p)" and ?f = "\<lambda>r. if bblhash r = h then instruction_count r else 0"
  have live: "\<forall>(g, p) \<in> set (bbl_hash2stats ts). bblhash (?obj p) = g"
    using hash2stats_live [OF assms] by fastforce
  have dist: "distinct (map fst (bbl_hash2stats ts))" using assms by (simp add: thread_inv_def map_inv_def)
  have "mset (thread_rows ts) = mset (map (\<lambda>e. ?obj (snd e)) (bbl_hash2stats ts))"
    by (simp add: thread_rows_def SortStatsMap_perm o_def case_prod_beta del: mset_map)
  then have "mset (map ?f (thread_rows ts)) = mset (map ?f (map (\<lambda>e. ?obj (snd e)) (bbl_hash2stats ts)))"
    by (metis mset_map)
  then have "(\<Sum>r \<leftarrow> thread_rows ts. ?f r) = (\<Sum>e \<leftarrow> bbl_hash2stats ts. ?f (?obj (snd e)))"
    by (simp add: o_def case_prod_beta flip: sum_mset_sum_list)
  also have "\<dots> = (case map_of (bbl_hash2stats ts) h of None \<Rightarrow> 0 | Some p \<Rightarrow> instruction_count (?obj p))"
    by (rule keyed_sum [OF dist live])
  also have "\<dots> = thread_instr ts h"
    using hash2stats_live [OF assms] by (fastforce simp: thread_instr_def split: option.splits dest: map_of_SomeD)
  finally show ?thesis .
qed


subsection \<open>The file of a run\<close>

definition thread_fits :: "(COST \<Rightarrow> string) \<Rightarrow> ThreadStats \<Rightarrow> bool" where
  "thread_fits show_cost ts \<longleftrightarrow> 0 \<le> tid ts \<and> tid ts < 2 ^ 31 \<and> (\<forall>r \<in> set (thread_rows ts). row_fits show_cost r)"

definition run_entries :: "ThreadStats list \<Rightarrow> (int \<times> RunStats) list" where
  "run_entries tss = concat (map (\<lambda>ts. map (\<lambda>r. (tid ts, r)) (thread_rows ts)) tss)"

lemma stats_file_lines:
  assumes "\<forall>ts \<in> set tss. thread_inv ts"
  shows "stats_file show_cost tss = Some (concat (map (\<lambda>l. l @ [newline])
    (concat (map (\<lambda>ts. PrintStats_lines show_cost (tid ts) (thread_rows ts)) tss))))"
proof -
  have "foldM (\<lambda>ts out. do { t \<leftarrow> PrintStats show_cost ts; Some (out @ t) }) tss out =
      Some (out @ concat (map (\<lambda>l. l @ [newline]) (concat (map (\<lambda>ts. PrintStats_lines show_cost (tid ts) (thread_rows ts)) tss))))" for out
    using assms
    by (induction tss arbitrary: out) (simp_all add: PrintStats_def thread_map_live thread_rows_def)
  then show ?thesis by (simp add: stats_file_def)
qed

lemma HORIZONTAL_no_newline: "newline \<notin> set HORIZONTAL_LINE"
  by (simp add: HORIZONTAL_LINE_def newline_def)

lemma stats_file_entries:
  assumes "\<forall>ts \<in> set tss. thread_inv ts \<and> thread_fits show_cost ts" and "stats_file show_cost tss = Some out"
  shows "stats_entries (lines_of out) i = run_entries tss"
proof -
  let ?ls = "concat (map (\<lambda>ts. PrintStats_lines show_cost (tid ts) (thread_rows ts)) tss)"
  have row: "newline \<notin> set (stats_row show_cost r)" if "ts \<in> set tss" "r \<in> set (thread_rows ts)" for ts r
    using stats_row_line(1) assms(1) that by (auto simp: thread_fits_def)
  have "newline \<notin> set stats_title" by (simp add: stats_title_def setw_def newline_def)
  moreover have "newline \<notin> set (''Thread '' @ show_int j)" for j
    using show_int_props(2) [of newline j] by (auto simp: newline_def)
  ultimately have "newline \<notin> set l" if "ts \<in> set tss" "l \<in> set (PrintStats_lines show_cost (tid ts) (thread_rows ts))" for ts l
    using that row HORIZONTAL_no_newline unfolding PrintStats_lines_def by (auto simp del: append_Cons)
  then have "newline \<notin> set l" if "l \<in> set ?ls" for l using that by fastforce
  then have "lines_of (concat (map (\<lambda>l. l @ [newline]) ?ls)) = ?ls" by (intro lines_of_concat ballI)
  moreover have "out = concat (map (\<lambda>l. l @ [newline]) ?ls)" using assms stats_file_lines [of tss show_cost] by simp
  ultimately have "lines_of out = ?ls" by simp
  moreover have "stats_entries ?ls i = run_entries tss"
    using assms(1)
  proof (induction tss arbitrary: i)
    case (Cons ts tss)
    then show ?case using entries_thread [of "thread_rows ts" show_cost "tid ts"]
      by (simp add: run_entries_def thread_fits_def)
  qed (simp add: run_entries_def)
  ultimately show ?thesis by simp
qed

lemma last_time_unique:
  assumes "\<forall>(i, r) \<in> set es. bblhash r = h \<and> nat i = t \<longrightarrow> elapsed_time r = x"
    and "(\<forall>(i, r) \<in> set es. \<not> (bblhash r = h \<and> nat i = t)) \<longrightarrow> x = 0"
  shows "last_time es h t = x"
  using assms
proof (induction es)
  case (Cons e es)
  obtain i r where e: "e = (i, r)" by (cases e)
  show ?case
  proof (cases "\<exists>(i, r) \<in> set es. bblhash r = h \<and> nat i = t")
    case True
    moreover have "last_time es h t = x" by (rule Cons.IH) (use Cons.prems True in auto)
    ultimately show ?thesis by simp
  next
    case False
    then have "last_time es h t = 0" by (induction es) auto
    then show ?thesis using False Cons.prems e by auto
  qed
qed simp

lemma run_last_time:
  assumes "\<forall>ts \<in> set tss. thread_inv ts \<and> 0 \<le> tid ts" and "distinct (map tid tss)" and "ts \<in> set tss"
  shows "last_time (run_entries tss) h (nat (tid ts)) = thread_time ts h"
proof -
  have same: "ts' = ts" if "ts' \<in> set tss" "nat (tid ts') = nat (tid ts)" for ts'
    using that assms by (metis distinct_map inj_onD nat_eq_iff)
  have inv: "thread_inv ts" using assms(1,3) by blast
  show ?thesis
  proof (rule last_time_unique)
    show "\<forall>(i, r) \<in> set (run_entries tss). bblhash r = h \<and> nat i = nat (tid ts) \<longrightarrow> elapsed_time r = thread_time ts h"
      using same thread_rows_set [OF inv] by (fastforce simp: run_entries_def thread_time_def)
    have "thread_time ts h = 0" if none: "\<forall>r \<in> set (thread_rows ts). bblhash r \<noteq> h"
    proof (cases "map_of (bbl_hash2stats ts) h")
      case (Some p)
      then obtain r where "map_of (ts_heap ts) p = Some r" "bblhash r = h"
        using hash2stats_live [OF inv] map_of_SomeD by metis
      then show ?thesis using thread_rows_set [OF inv, of r] Some none by auto
    qed (simp add: thread_time_def)
    then show "(\<forall>(i, r) \<in> set (run_entries tss). \<not> (bblhash r = h \<and> nat i = nat (tid ts))) \<longrightarrow> thread_time ts h = 0"
      using assms(3) by (fastforce simp: run_entries_def)
  qed
qed

lemma run_instr_sum:
  assumes "\<forall>ts \<in> set tss. thread_inv ts"
  shows "instr_sum (run_entries tss) h = (\<Sum>ts \<leftarrow> tss. thread_instr ts h)"
  using assms
proof (induction tss)
  case (Cons ts tss)
  have "instr_sum (map (\<lambda>r. (tid ts, r)) (thread_rows ts) @ run_entries tss) h =
      thread_instr ts h + instr_sum (run_entries tss) h"
    using thread_rows_instr [of ts h] Cons.prems by (simp add: instr_sum_def o_def)
  with Cons show ?case by (simp add: run_entries_def)
qed (simp add: run_entries_def instr_sum_def)

lemma run_hashes:
  assumes "\<forall>ts \<in> set tss. thread_inv ts"
  shows "(bblhash \<circ> snd) ` set (run_entries tss) = \<Union> (hashes ` set tss)"
proof -
  have "bblhash ` set (thread_rows ts) = hashes ts" if inv: "thread_inv ts" for ts
  proof
    show "bblhash ` set (thread_rows ts) \<subseteq> hashes ts"
      using thread_rows_set [OF inv] by (force simp: hashes_def dest: map_of_SomeD)
    show "hashes ts \<subseteq> bblhash ` set (thread_rows ts)"
    proof
      fix h assume "h \<in> hashes ts"
      then obtain p where p: "(h, p) \<in> set (bbl_hash2stats ts)" by (auto simp: hashes_def)
      then have m: "map_of (bbl_hash2stats ts) h = Some p" using inv by (simp add: thread_inv_def map_inv_def)
      obtain r where r: "map_of (ts_heap ts) p = Some r" "bblhash r = h" using hash2stats_live [OF inv p] by blast
      then have "r \<in> set (thread_rows ts)" using thread_rows_set [OF inv] m by simp
      with r show "h \<in> bblhash ` set (thread_rows ts)" by blast
    qed
  qed
  then show ?thesis using assms by (auto simp: run_entries_def image_image image_UN)
qed

theorem stats_file_read:
  assumes "\<forall>ts \<in> set tss. thread_inv ts \<and> thread_fits show_cost ts" and "distinct (map tid tss)"
    and "stats_file show_cost tss = Some out"
  shows "\<exists>m. ParseStats out [] = Some m \<and> stats_map_ok m \<and> fst ` set m = \<Union> (hashes ` set tss) \<and>
    (\<forall>h p. map_of m h = Some p \<longrightarrow> instruction_count p = (\<Sum>ts \<leftarrow> tss. thread_instr ts h) \<and>
       (\<forall>ts \<in> set tss. slot p (nat (tid ts)) = thread_time ts h))"
proof -
  have e: "stats_entries (lines_of out) 0 = run_entries tss" by (rule stats_file_entries [OF assms(1,3)])
  have "\<forall>e \<in> set (run_entries tss). entry_ok e"
    using assms(1) by (auto simp: run_entries_def thread_fits_def entry_ok_def row_fits_def)
  then obtain m where "ParseStats out [] = Some m" "stats_spec (run_entries tss) m"
    using ParseStats_spec [of out] e by auto
  moreover have "\<forall>ts \<in> set tss. thread_inv ts" "\<forall>ts \<in> set tss. thread_inv ts \<and> 0 \<le> tid ts"
    using assms(1) by (auto simp: thread_fits_def)
  ultimately show ?thesis
    using run_last_time [OF _ assms(2)] run_instr_sum run_hashes
    by (intro exI [of _ m]) (simp add: stats_spec_def)
qed

end
