(* ===== verification/Demo_Instance.thy ===== *)
theory Demo_Instance
  imports Solver_Report Block_Ids Reuse_Roundtrip Stats_Print
begin

text \<open>
  A small instance on which the properties of the solver are applied: two blocks, two reuse
  segments over both (one hot, one below the importance threshold) and transitions both ways.
\<close>

definition demo_stats :: "BBLID \<Rightarrow> u64 \<Rightarrow> COST \<Rightarrow> ThreadRunStats" where
  "demo_stats i h t = \<lparr>bblid = i, bblhash = (h, h), elapsed_time = t, instruction_count = 4000,
     memory_access = 100, thread_elapsed_time = [t], sorted_elapsed_time = [t], dirty = False\<rparr>"

definition demo_trie :: "BBLID TrieNode" where
  "demo_trie = TrieNode False None 0
     [(0, TrieNode False (Some 0) 0
        [(1, TrieNode False (Some 1) 0
           [(0, TrieNode True (Some 0) 100 []), (1, TrieNode True (Some 1) 1 [])])])]"

definition demo_solver :: CostSolver where
  "demo_solver = set_costs (1 / 10) (empty_solver
     \<lparr>scaDecision := [((1, 1), CPU), ((2, 2), Follower)], ctsDecision := [((2, 2), PIM)],
      interBB_CL_DM := [((0, 1), 40)], interBB_REG_DM := [((0, 1), 15)],
      hash2stats_CPU := [((1, 1), demo_stats 0 1 1000000), ((2, 2), demo_stats 1 2 3000000)],
      hash2stats_PIM := [((1, 1), demo_stats 0 1 2000000), ((2, 2), demo_stats 1 2 1000000)],
      sorted_CPU := [demo_stats 0 1 1000000, demo_stats 1 2 3000000],
      sorted_PIM := [demo_stats 0 1 2000000, demo_stats 1 2 1000000],
      stale := False,
      bbl_data_reuse := \<lparr>tries = [own_root \<mapsto> demo_trie], leaves = [(own_root, [0, 1, 0]), (own_root, [0, 1, 1])]\<rparr>,
      bbl_switch_count := [\<lparr>row_fromidx = 0, toidxvec = [(1, 10)]\<rparr>, \<lparr>row_fromidx = 1, toidxvec = [(0, 5)]\<rparr>]\<rparr>)"

lemma demo_time [simp]: "max_time (demo_stats i h t) = Some t"
  by (simp add: max_time_def MaxElapsedTime_def demo_stats_def)

lemma demo_hash [simp]: "bblhash (demo_stats i h t) = (h, h)" "bblid (demo_stats i h t) = i"
  by (simp_all add: demo_stats_def)

lemma demo_fields [simp]:
  "sorted_CPU demo_solver = [demo_stats 0 1 1000000, demo_stats 1 2 3000000]"
  "sorted_PIM demo_solver = [demo_stats 0 1 2000000, demo_stats 1 2 1000000]"
  "bbl_switch_count demo_solver =
     [\<lparr>row_fromidx = 0, toidxvec = [(1, 10)]\<rparr>, \<lparr>row_fromidx = 1, toidxvec = [(0, 5)]\<rparr>]"
  "tries (bbl_data_reuse demo_solver) = [own_root \<mapsto> demo_trie]"
  "leaves (bbl_data_reuse demo_solver) = map (Pair own_root) [[0, 1, 0], [0, 1, 1]]"
  "\<not> stale demo_solver" "flush_cost demo_solver = [60, 30]" "fetch_cost demo_solver = [60, 30]"
  "switch_cost demo_solver = [800, 800]" "batch_threshold demo_solver = 1 / 1000" "batch_size demo_solver = 10"
  "block_count demo_solver = 2" "length (hash2stats_CPU demo_solver) = 2"
  by (simp_all add: demo_solver_def set_costs_def block_count_def)

lemma demo_trie_ok: "trie_ok [] demo_trie" "\<not> isLeaf demo_trie" "keys_in 2 demo_trie"
proof -
  have "seg_path [0, 1, 0::int]" "seg_path [0, 1, 1::int]"
    unfolding seg_path_def by (rule exI [of _ "[0, 1]"], simp)+
  then show "trie_ok [] demo_trie" "\<not> isLeaf demo_trie" "keys_in 2 demo_trie"
    by (simp_all add: demo_trie_def)
qed

lemma demo_solver_ok: "solver_ok demo_solver"
  by (simp add: solver_ok_def aligned_def)

lemma demo_rows_ok: "\<forall>row \<in> set (bbl_switch_count demo_solver). row_ok 2 row"
  by (simp add: row_ok_def)

lemma demo_instance_ok: "instance_ok demo_solver demo_trie (bbl_switch_count demo_solver)"
  unfolding instance_ok_def using demo_solver_ok demo_trie_ok demo_rows_ok by simp

lemma demo_report_ok: "report_ok demo_solver demo_trie"
  using demo_instance_ok by (simp add: report_ok_def)

lemma demo_search_ok: "search_ok demo_solver"
  unfolding search_ok_def using demo_solver_ok demo_rows_ok by simp

lemma demo_own_ok: "own_ok demo_solver demo_trie [[0, 1, 0], [0, 1, 1]]"
  using demo_trie_ok by (simp add: own_ok_def) (simp add: demo_trie_def)

lemma demo_thresholds: "elapsed_min demo_solver = Some 3000000" "SingleSegMaxReuseCost demo_solver = Some 90"
  by (simp_all add: elapsed_min_def ElapsedTime_site_def SingleSegMaxReuseCost_def)

lemma demo_decisions: "complete d \<Longrightarrow> length d = 2 \<Longrightarrow> d \<in> {[CPU, CPU], [CPU, PIM], [PIM, CPU], [PIM, PIM]}"
  by (auto simp: complete_def numeral_2_eq_2 length_Suc_conv)

lemma demo_cost [simp]:
  "cost_spec demo_solver [CPU, CPU] demo_trie (bbl_switch_count demo_solver) = 4000000"
  "cost_spec demo_solver [CPU, PIM] demo_trie (bbl_switch_count demo_solver) = 2021090"
  "cost_spec demo_solver [PIM, CPU] demo_trie (bbl_switch_count demo_solver) = 5021090"
  "cost_spec demo_solver [PIM, PIM] demo_trie (bbl_switch_count demo_solver) = 3000000"
  by (simp_all add: cost_spec_def reuse_spec_def switch_spec_def elapsed_spec_def demo_trie_def seg_cost_def
      uniform_def row_cost_spec_def crosses_def time_of_def lessThan_Suc)

text \<open>The segments behind \<open>demo_trie\<close>, the first one in two parts, and a segment of one block.\<close>

definition demo_segs :: "BBLID DataReuseSegment list" where
  "demo_segs =
     [\<lparr>seg_head = Some 0, seg_set = [0, 1], seg_count = 40\<rparr>, \<lparr>seg_head = Some 1, seg_set = [1], seg_count = 9\<rparr>,
      \<lparr>seg_head = Some 1, seg_set = [0, 1], seg_count = 1\<rparr>, \<lparr>seg_head = Some 0, seg_set = [0, 1], seg_count = 60\<rparr>]"

lemma demo_segs_ok: "segs_ok demo_segs" "segs_in 2 demo_segs"
  by (simp_all add: segs_ok_def segs_in_def demo_segs_def seg_ok_def key_total_def big_def seg_size_def seg_key_def)

lemma demo_segs_big: "seg_key ` set (big demo_segs) = {[0, 1, 0], [0, 1, 1]}" "key_total demo_segs [0, 1, 0] = 100"
  by (auto simp: demo_segs_def big_def seg_size_def seg_key_def key_total_def)

text \<open>Two accesses to one cache line, the second a store, then one access to another line.\<close>

definition demo_accs :: "nat access list" where
  "demo_accs = [Hit 7 1 False, Hit 7 2 True, Hit 9 3 False]"

lemma demo_pieces: "all_segs demo_accs = {#\<lparr>seg_head = Some 1, seg_set = [1, 2], seg_count = 1\<rparr>#}"
proof -
  have 0: "all_segs ([] :: nat access list) = {#}" by (simp add: all_segs_def)
  have "all_segs ([] @ [Hit 7 (1::nat) False]) = {#}"
    by (subst all_segs_snoc [where new = "[]"]) (simp_all add: chains_def 0)
  then have "all_segs ([Hit 7 (1::nat) False] @ [Hit 7 2 True]) = {#chain_seg [1, 2]#}"
    by (subst all_segs_snoc [where new = "[[1, 2]]"]) (simp_all add: chains_def)
  then have "all_segs ([Hit 7 (1::nat) False, Hit 7 2 True] @ [Hit 9 3 False]) = {#chain_seg [1, 2]#}"
    by (subst all_segs_snoc [where new = "[]"]) (simp_all add: chains_def)
  then show ?thesis by (simp add: demo_accs_def chain_seg_def)
qed

text \<open>A bump allocator, and a thread that runs one nested trace.\<close>

definition demo_addr :: "ptr list \<Rightarrow> ptr" where
  "demo_addr live = Suc (sum_list live)"

lemma demo_addr_allocates: "allocates demo_addr"
proof -
  have "Suc (sum_list live) \<notin> set live" for live :: "nat list"
    using member_le_sum_list [of _ live] by fastforce
  then show ?thesis by (simp add: allocates_def demo_addr_def)
qed

definition demo_trace :: "event list" where
  "demo_trace = EvOffloadStart 5 PIMPROF_DECISION_PIM #
     ([EvStart 8 9] @ [EvTime 3000000 20, EvHit 7 True] @ [EvEnd 8 9]) @ [EvOffloadEnd 5 PIMPROF_DECISION_PIM]"

lemma demo_trace_balanced: "balanced demo_trace"
proof -
  have "balanced ([EvTime 3000000 20] @ [EvHit 7 True])"
    by (intro balanced.seq balanced.single) simp_all
  then have "balanced (EvStart 8 9 # [EvTime 3000000 20, EvHit 7 True] @ [EvEnd 8 9])"
    using balanced.block by fastforce
  then show ?thesis unfolding demo_trace_def using balanced.offload by fastforce
qed

text \<open>One recorded segment over two objects at the addresses 10 and 20, with the identifiers 0 and 1.\<close>

definition demo_label :: "nat \<Rightarrow> BBLID" where
  "demo_label x = (if x = 10 then 0 else 1)"

definition demo_recorded :: "nat DataReuseSegment list" where
  "demo_recorded = [\<lparr>seg_head = Some 10, seg_set = [10, 20], seg_count = 3\<rparr>]"

lemma demo_recorded_big: "big demo_recorded = demo_recorded" "segs_ok demo_recorded" "key_total demo_recorded p < 2 ^ 63"
  by (simp_all add: demo_recorded_def big_def seg_size_def segs_ok_def seg_ok_def key_total_def seg_key_def)

lemma demo_recording: "\<exists>dr. recorded demo_recorded dr (Some \<circ> demo_label) demo_label {10, 20} 2"
proof -
  obtain dr where "insert_segs own_root demo_recorded new_DataReuse = Some dr"
    using insert_segs_exports [OF demo_recorded_big(2)] by blast
  moreover have "labelling (Some \<circ> demo_label) demo_label {10, 20} 2"
    by (simp add: labelling_def demo_label_def)
  ultimately show ?thesis using demo_recorded_big
    by (intro exI [of _ dr]) (simp add: recorded_def, simp add: demo_recorded_def)
qed

lemma demo_fresh_solver: "solver_ok (demo_solver\<lparr>bbl_data_reuse := new_DataReuse\<rparr>)"
  using demo_solver_ok by (simp add: solver_ok_def)

text \<open>The statistics of one block in thread 1.\<close>

definition demo_stats_text :: string where
  "demo_stats_text = HORIZONTAL_LINE @ [newline] @ ''Thread 1'' @ [newline] @ ''BBLID Time'' @ [newline] @
     ''0 2.5 10 3 00af 0b'' @ [newline]"

lemma demo_stats_lines: "lines_of demo_stats_text = [HORIZONTAL_LINE, ''Thread 1'', ''BBLID Time'', ''0 2.5 10 3 00af 0b'']"
proof -
  have "lines_of (concat (map (\<lambda>l. l @ [newline]) [HORIZONTAL_LINE, ''Thread 1'', ''BBLID Time'', ''0 2.5 10 3 00af 0b''])) =
      [HORIZONTAL_LINE, ''Thread 1'', ''BBLID Time'', ''0 2.5 10 3 00af 0b'']"
    using texts_lines(3) by (intro lines_of_concat) (simp add: newline_def)
  then show ?thesis by (simp add: demo_stats_text_def)
qed

lemma demo_parse_stats: "parse_stats ''0 2.5 10 3 00af 0b'' =
   \<lparr>bblid = 0, bblhash = (175, 11), elapsed_time = 5 / 2, instruction_count = 10, memory_access = 3\<rparr>"
  by (simp add: parse_stats_def new_RunStats_def ext_int_def ext_real_def ext_u64_def scan_num_def scan_sign_def skip_0x_def
      scan_real_def is_space_def is_digit_def digit_val_def digits_value_def)

lemma demo_tid: "title_tid ''Thread 1'' t = 1"
  by (simp add: title_tid_def ext_tok_def ext_int_def is_space_def scan_num_def scan_sign_def skip_0x_def is_digit_def
      digit_val_def digits_value_def)

lemma demo_entries: "stats_entries (lines_of demo_stats_text) 0 = [(1,
   \<lparr>bblid = 0, bblhash = (175, 11), elapsed_time = 5 / 2, instruction_count = 10, memory_access = 3\<rparr>)]"
proof -
  have "\<not> contains ''0 2.5 10 3 00af 0b'' HORIZONTAL_LINE" by (rule no_separator) simp
  then show ?thesis
    unfolding demo_stats_lines stats_entries.simps by (simp add: contains_self demo_tid demo_parse_stats)
qed

text \<open>The tables on the demo instance: block 0 is faster on the CPU, block 1 on PIM.\<close>

lemma demo_decisions_ok: "s \<in> {[CPU, CPU], [CPU, PIM]} \<Longrightarrow> decisions_ok demo_solver demo_trie [CPU, PIM] s"
proof -
  assume s: "s \<in> {[CPU, CPU], [CPU, PIM]}"
  have "sites_ok (scaDecision demo_solver)"
    by (simp add: sites_ok_def demo_solver_def set_costs_def getCostSiteString_def CostSiteString_def vec_at_def)
  with s demo_report_ok show ?thesis by (auto simp: decisions_ok_def complete_def)
qed

lemma demo_gap: "gap demo_solver 0 = - 1000000" "gap demo_solver (Suc 0) = 2000000"
  by (simp_all add: gap_def time_of_def)

lemma demo_wrong:
  "i < 2 \<Longrightarrow> 0 \<le> thr \<Longrightarrow> wrong demo_solver [CPU, CPU] thr i \<longleftrightarrow> i = 1 \<and> thr < 2000000"
  by (auto simp: wrong_def cpu_wrong_def pim_wrong_def less_Suc_eq numeral_2_eq_2 demo_gap)


subsection \<open>Two threads\<close>

text \<open>A thread whose global block took a whole number of nanoseconds and executed some instructions.\<close>

definition demo_thread :: "int \<Rightarrow> u64 \<Rightarrow> u64 \<Rightarrow> ThreadStats" where
  "demo_thread i time instr = the (AddTimeInstruction time instr (new_ThreadStats demo_addr (0, 0) i))"

definition whole_cost :: "COST \<Rightarrow> string" where "whole_cost t = show_nat (nat \<lfloor>t\<rfloor>)"

lemma demo_thread_run: "AddTimeInstruction time instr (new_ThreadStats demo_addr (0, 0) i) = Some (demo_thread i time instr)"
  by (simp add: demo_thread_def AddTimeInstruction_def on_current_def GetCurrentRunStats_def new_ThreadStats_def alloc_def
      demo_addr_def Let_def)

lemma demo_thread_inv: "thread_inv (demo_thread i time instr)"
  by (rule on_current_inv [OF new_ThreadStats_inv [OF demo_addr_allocates] demo_thread_run [unfolded AddTimeInstruction_def]]) simp

lemma demo_thread_fields:
  "tid (demo_thread i time instr) = i" "bbl_hash2stats (demo_thread i time instr) = [(GLOBAL_BBLHASH, 1)]"
  "map_of (ts_heap (demo_thread i time instr)) 1 = Some \<lparr>bblid = GLOBAL_BBLID, bblhash = GLOBAL_BBLHASH,
     elapsed_time = real (unat time) / 1000000, instruction_count = instr, memory_access = 0\<rparr>"
  by (simp_all add: demo_thread_def AddTimeInstruction_def on_current_def GetCurrentRunStats_def new_ThreadStats_def alloc_def
      demo_addr_def new_RunStats_def Let_def)

lemma demo_thread_rows: "thread_rows (demo_thread i time instr) = [\<lparr>bblid = GLOBAL_BBLID, bblhash = GLOBAL_BBLHASH,
     elapsed_time = real (unat time) / 1000000, instruction_count = instr, memory_access = 0\<rparr>]"
  using demo_thread_fields(3) [of i time instr] by (simp add: thread_rows_def demo_thread_fields(2) SortStatsMap_def)

lemma whole_cost_legible: "v < 10 ^ 6 \<Longrightarrow> legible_time whole_cost (real v)"
proof -
  assume v: "v < 10 ^ 6"
  obtain c w where c: "show_nat v = c # w" by (cases "show_nat v") simp_all
  then have "\<not> is_space c" using show_nat_props(2) [of c v] by simp
  moreover have "newline \<notin> set (show_nat v)" using show_nat_props(5) by blast
  moreover have "length (show_nat v) < 15" using show_nat_length [of v 6] v by simp
  moreover have "whole_cost (real v) = show_nat v" by (simp add: whole_cost_def)
  ultimately show ?thesis using c scan_real_nat [of v] unfolding legible_time_def by metis
qed

end
