(* ===== verification/Inject_Demo.thy ===== *)
theory Inject_Demo
  imports Report_Text Demo_Instance
begin

text \<open>
  A program of two functions in a small instruction set, on which the hypotheses about LLVM hold,
  its annotated form, and one of its executions.
\<close>

definition demo_head :: "nat Instr \<Rightarrow> bool" where "demo_head I = (I = IR 0)"

definition demo_term :: "nat Instr \<Rightarrow> bool" where "demo_term I = (I = IR 1 \<or> I = IR 2)"

text \<open>0 is a PHI node, 1 a return, 2 a branch, everything else computes.\<close>

definition demo_llvm :: "nat LLVM" where
  "demo_llvm = \<lparr>getFirstInsertionPt = (\<lambda>b. length (takeWhile demo_head b)),
     getTerminator = (\<lambda>b. if b \<noteq> [] \<and> demo_term (last b) then Some (length b - 1) else None),
     isReturnInst = (\<lambda>I. I = IR 1), function_text = (\<lambda>F. map (\<lambda>c. of_nat (of_char c)) (fn_name F)),
     block_text = (\<lambda>F i. map (\<lambda>I. case I of IR n \<Rightarrow> of_nat n | _ \<Rightarrow> 255) (fn_blocks F ! i))\<rparr>"

lemma demo_llvm_laws: "llvm_laws demo_llvm demo_head demo_term"
  by (auto simp: llvm_laws_def demo_llvm_def demo_head_def demo_term_def)

definition demo_module :: "nat Module" where
  "demo_module =
     [\<lparr>fn_name = ''main'', fn_section = '''', fn_blocks = [[IR 5, IR 2], [IR 0, IR 6, IR 2], [IR 7, IR 1]]\<rparr>,
      \<lparr>fn_name = ''work'', fn_section = '''', fn_blocks = [[IR 8, IR 1]]\<rparr>]"

lemma demo_module_ok: "program_module demo_term demo_module"
  by (simp add: program_module_def demo_module_def program_block_def demo_term_def)

definition demo_main :: "nat Function" where
  "demo_main = \<lparr>fn_name = ''main'', fn_section = '''',
     fn_blocks = [[SimMagic0 1, SimMagic2 1024 1 1, IR 5, IR 2], [IR 0, IR 6, IR 2],
       [IR 7, SimMagic2 1025 1 1, SimMagic0 2, IR 1]]\<rparr>"

definition demo_work :: "UUID \<Rightarrow> nat Function" where
  "demo_work h = \<lparr>fn_name = ''work'', fn_section = '''',
     fn_blocks = [[SimMagic2 1024 (snd h) (fst h), IR 8, SimMagic2 1025 (snd h) (fst h), IR 1]]\<rparr>"

lemma demo_annotated:
  "\<exists>h. AnnotationInjection demo_llvm (Some ''SNIPER2'') demo_module = Some [demo_main, demo_work h]"
proof -
  obtain h where h: "hash_text (function_text demo_llvm (demo_module ! 1)) = Some h" using hash_text_total by blast
  have "AnnotationInjection demo_llvm (Some ''SNIPER2'') demo_module = Some [demo_main, demo_work h]"
    using h
    by (simp add: AnnotationInjection_def inject_mode_def for_functions_def demo_module_def upt_rec vec_at_def vec_set_def
        InjectSniperAnnotationCallMain_def InjectSniperAnnotationCallFunc_def at_entry_def at_block_def before_returns_def
        demo_llvm_def demo_head_def SimMagic2_def SimMagic0_def demo_main_def demo_work_def Let_def
        SNIPER_SIM_CMD_ROI_START_def SNIPER_SIM_CMD_ROI_END_def SNIPER_SIM_PIMPROF_BBL_START_def SNIPER_SIM_PIMPROF_BBL_END_def
        MAIN_BBLID_def TSJ_BBLID_def)
  then show ?thesis by blast
qed

text \<open>One execution: the loop body of \<open>main\<close> runs once and calls \<open>work\<close>, which accesses memory.\<close>

definition demo_events :: "UUID \<Rightarrow> event list" where
  "demo_events h = [EvStart 1 1, EvMemory 64, EvStart (snd h) (fst h), EvMemory 128, EvEnd (snd h) (fst h), EvEnd 1 1]"

lemma demo_magic:
  "instr_run L M (SimMagic2 1024 hi lo) [EvStart hi lo]" "instr_run L M (SimMagic2 1025 hi lo) [EvEnd hi lo]"
  "instr_run L M (SimMagic0 op) []"
proof -
  have "instr_run L M (SimMagic2 op hi lo) (magic_op op hi lo)" for op
    using magic [of L M 3] magic_events_SimMagic(1) unfolding SimMagic2_def by metis
  from this [of 1024] this [of 1025]
  show "instr_run L M (SimMagic2 1024 hi lo) [EvStart hi lo]" "instr_run L M (SimMagic2 1025 hi lo) [EvEnd hi lo]"
    by (simp_all add: magic_op_def SNIPER_SIM_PIMPROF_BBL_START_def SNIPER_SIM_PIMPROF_BBL_END_def)
  show "instr_run L M (SimMagic0 op) []"
    using magic [of L M 3] magic_events_SimMagic(2) unfolding SimMagic0_def by metis
qed

lemma demo_quiet: "instr_run L M (IR i) []" "instr_run L M (IR i) [EvMemory a]"
  by (rule measure, simp)+

lemma demo_activation: "activation demo_llvm [demo_main, demo_work h] demo_main (demo_events h)"
proof -
  let ?L = demo_llvm and ?M = "[demo_main, demo_work h]"
  let ?work = "[EvStart (snd h) (fst h), EvMemory 128, EvEnd (snd h) (fst h)]"
  note one = code [of ?L ?M, OF _ no_code]
  have "code_run ?L ?M (fn_blocks (demo_work h) ! 0) ?work"
    using code [OF demo_magic(1) [of ?L ?M "snd h" "fst h"] code [OF demo_quiet(2) [of ?L ?M 8 128]
        code [OF demo_magic(2) [of ?L ?M "snd h" "fst h"] one [OF demo_quiet(1) [of ?L ?M 1]]]]]
    by (simp add: demo_work_def)
  from path [OF this no_path] have work: "path_run ?L ?M (demo_work h) [0] ?work" by simp
  have "complete_path ?L (demo_work h) [0]" by (simp add: complete_path_def returns_def demo_work_def demo_llvm_def)
  from call [OF demo_quiet(2) [of ?L ?M 6 64] _ this work] have body: "instr_run ?L ?M (IR 6) (EvMemory 64 # ?work)" by simp
  have c: "code_run ?L ?M (fn_blocks demo_main ! 0) [EvStart 1 1]"
    "code_run ?L ?M (fn_blocks demo_main ! 1) (EvMemory 64 # ?work)"
    "code_run ?L ?M (fn_blocks demo_main ! 2) [EvEnd 1 1]"
    using code [OF demo_magic(3) [of ?L ?M 1] code [OF demo_magic(1) [of ?L ?M 1 1] code [OF demo_quiet(1) [of ?L ?M 5]
          one [OF demo_quiet(1) [of ?L ?M 2]]]]]
      code [OF demo_quiet(1) [of ?L ?M 0] code [OF body one [OF demo_quiet(1) [of ?L ?M 2]]]]
      code [OF demo_quiet(1) [of ?L ?M 7] code [OF demo_magic(2) [of ?L ?M 1 1] code [OF demo_magic(3) [of ?L ?M 2]
          one [OF demo_quiet(1) [of ?L ?M 1]]]]]
    by (simp_all add: demo_main_def numeral_2_eq_2)
  have "path_run ?L ?M demo_main [0, 1, 2] (demo_events h)"
    using path [OF c(1) path [OF c(2) path [OF c(3) no_path]]] by (simp add: demo_events_def)
  moreover have "complete_path ?L demo_main [0, 1, 2]"
    by (simp add: complete_path_def returns_def demo_main_def demo_llvm_def SimMagic0_def SimMagic2_def numeral_2_eq_2)
  ultimately show ?thesis by (auto simp: activation_def)
qed

text \<open>A report with one row and the file that holds it.\<close>

definition demo_row :: ReportRow where
  "demo_row = \<lparr>row_bblid = 3, row_decision = ''P'', row_cts = ''C'', row_sca = ''C'', row_parallelism = 2, row_bbCount = 7,
     row_CPU = 40, row_PIM = 25, row_Difference = 15, row_hash = (171, 205)\<rparr>"

definition demo_show :: "COST \<Rightarrow> string" where
  "demo_show t = (if t = 40 then ''40'' else if t = 25 then ''25'' else ''15'')"

end
