(* ===== verification/INI_Reader.thy ===== *)
theory INI_Reader
  imports Text_Stream "HOL-Library.List_Lexorder" "HOL-Library.Char_ord"
begin

text \<open>
  The configuration reader (\<open>PIMProfSolver/INIReader.h\<close>): the line parser \<open>ini_parse_stream\<close> with its
  handler, and the class \<open>INIReader\<close> that collects the values. A C string is the list of its
  characters before the terminating zero; writing a zero into the line buffer cuts the list. The
  text of a file is the stream, \<open>fgets\<close> takes a line of it, or as much of a line as the buffer holds.
\<close>

subsection \<open>Strings\<close>

definition c_str :: "string \<Rightarrow> string" where
  "c_str = takeWhile (\<lambda>c. c \<noteq> CHR 0x00)"

definition rstrip :: "string \<Rightarrow> string" where
  "rstrip s = rev (dropWhile is_space (rev s))"

definition lskip :: "string \<Rightarrow> string" where
  "lskip s = dropWhile is_space s"

text \<open>What the pointer passes over, and what it points to; no characters to look for is the null pointer.\<close>

fun find_from :: "bool \<Rightarrow> string \<Rightarrow> string \<Rightarrow> string \<times> string" where
  "find_from was_space chars [] = ([], [])"
| "find_from was_space chars (c # s) =
     (if c \<in> set chars \<or> was_space \<and> c = CHR '';'' then ([], c # s)
      else let (a, r) = find_from (is_space c) chars s in (c # a, r))"

definition find_chars_or_comment :: "string \<Rightarrow> string \<Rightarrow> string \<times> string" where
  "find_chars_or_comment s chars = find_from False chars s"

definition strncpy0 :: "string \<Rightarrow> nat \<Rightarrow> string" where
  "strncpy0 src n = take (n - 1) src"

definition MAX_SECTION :: nat where "MAX_SECTION = 50"
definition MAX_NAME :: nat where "MAX_NAME = 50"
definition INI_MAX_LINE :: nat where "INI_MAX_LINE = 200"

subsection \<open>The line parser\<close>

text \<open>The text up to and with its first newline.\<close>

fun first_line :: "string \<Rightarrow> string" where
  "first_line [] = []"
| "first_line (c # s) = (if c = newline then [c] else c # first_line s)"

definition fgets :: "nat \<Rightarrow> string \<Rightarrow> (string \<times> string) option" where
  "fgets num stream =
     (let line = first_line (take (num - 1) stream)
      in if line = [] then None else Some (line, drop (length line) stream))"

text \<open>\<open>ini_handler\<close>: the section, the name and the value; whether it accepts them.\<close>

type_synonym 'u ini_handler = "'u \<Rightarrow> string \<Rightarrow> string \<Rightarrow> string \<Rightarrow> 'u \<times> bool"

record 'u ini_state =
  ini_section :: string
  prev_name :: string
  lineno :: nat
  ini_error :: nat
  ini_user :: 'u

definition ini_fail :: "'u ini_state \<Rightarrow> 'u ini_state" where
  "ini_fail st = st\<lparr>ini_error := if ini_error st = 0 then lineno st else ini_error st\<rparr>"

definition ini_call :: "'u ini_handler \<Rightarrow> string \<Rightarrow> string \<Rightarrow> 'u ini_state \<Rightarrow> 'u ini_state" where
  "ini_call handler name val st =
     (let (u, ok) = handler (ini_user st) (ini_section st) name val;
          st = st\<lparr>ini_user := u\<rparr>
      in if ok then st else ini_fail st)"

definition BOM :: string where "BOM = [CHR 0xEF, CHR 0xBB, CHR 0xBF]"

text \<open>One round of the loop: what is done with the stripped line, and how it is found in the buffer.\<close>

definition ini_start :: "'u ini_handler \<Rightarrow> bool \<Rightarrow> string \<Rightarrow> 'u ini_state \<Rightarrow> 'u ini_state" where
  "ini_start handler moved start st =
     (if take 1 start = '';'' \<or> take 1 start = ''#'' then st
      else if prev_name st \<noteq> [] \<and> start \<noteq> [] \<and> moved then
        ini_call handler (prev_name st) (rstrip (fst (find_chars_or_comment start []))) st
      else if take 1 start = ''['' then
        (let (name, stop) = find_chars_or_comment (tl start) '']''
         in if take 1 stop = '']'' then st\<lparr>ini_section := strncpy0 name MAX_SECTION, prev_name := []\<rparr>
            else ini_fail st)
      else if start \<noteq> [] then
        (let (name, stop) = find_chars_or_comment start ''=:''
         in if take 1 stop = ''='' \<or> take 1 stop = '':'' then
              let name = rstrip name;
                  val = rstrip (fst (find_chars_or_comment (lskip (tl stop)) []))
              in ini_call handler name val (st\<lparr>prev_name := strncpy0 name MAX_NAME\<rparr>)
            else ini_fail st)
      else st)"

definition ini_line :: "'u ini_handler \<Rightarrow> string \<Rightarrow> 'u ini_state \<Rightarrow> 'u ini_state" where
  "ini_line handler buffer st =
     (let st = st\<lparr>lineno := lineno st + 1\<rparr>;
          line = c_str buffer;
          bom = (lineno st = 1 \<and> take 3 line = BOM);
          stripped = rstrip (if bom then drop 3 line else line);
          start = lskip stripped
      in ini_start handler (bom \<or> length start < length stripped) start st)"

lemma fgets_shorter: "fgets num stream = Some (line, rest) \<Longrightarrow> length rest < length stream"
  by (cases stream) (auto simp: fgets_def Let_def split: if_splits)

function ini_loop :: "'u ini_handler \<Rightarrow> string \<Rightarrow> 'u ini_state \<Rightarrow> 'u ini_state" where
  "ini_loop handler stream st =
     (case fgets INI_MAX_LINE stream of
        None \<Rightarrow> st
      | Some (line, rest) \<Rightarrow> ini_loop handler rest (ini_line handler line st))"
  by pat_completeness auto

termination
  by (relation "measure (\<lambda>(_, stream, _). length stream)") (auto dest: fgets_shorter)

declare ini_loop.simps [simp del]

definition ini_parse_stream :: "string \<Rightarrow> 'u ini_handler \<Rightarrow> 'u \<Rightarrow> int \<times> 'u" where
  "ini_parse_stream stream handler user =
     (let st = ini_loop handler stream
          \<lparr>ini_section = [], prev_name = [], lineno = 0, ini_error = 0, ini_user = user\<rparr>
      in (int (ini_error st), ini_user st))"

definition ini_parse_file :: "string \<Rightarrow> 'u ini_handler \<Rightarrow> 'u \<Rightarrow> int \<times> 'u" where
  "ini_parse_file file handler user = ini_parse_stream file handler user"

text \<open>\<open>files\<close> gives the text of a file that can be opened.\<close>

definition ini_parse :: "(string \<Rightarrow> string option) \<Rightarrow> string \<Rightarrow> 'u ini_handler \<Rightarrow> 'u \<Rightarrow> int \<times> 'u" where
  "ini_parse files filename handler user =
     (case files filename of None \<Rightarrow> (- 1, user) | Some file \<Rightarrow> ini_parse_file file handler user)"

subsection \<open>The reader\<close>

record INIReader =
  reader_error :: int
  reader_values :: "(string \<times> string) list"
  reader_sections :: "string list"

definition to_lower :: "char \<Rightarrow> char" where
  "to_lower c = (let n = of_char c :: nat in if 65 \<le> n \<and> n \<le> 90 then char_of (n + 32) else c)"

definition MakeKey :: "string \<Rightarrow> string \<Rightarrow> string" where
  "MakeKey sect name = map to_lower (sect @ ''='' @ name)"

text \<open>\<open>_values[key]\<close> enters an empty value for a key that is not there.\<close>

definition reader_value :: "INIReader \<Rightarrow> string \<Rightarrow> string" where
  "reader_value r key = (case map_of (reader_values r) key of None \<Rightarrow> [] | Some v \<Rightarrow> v)"

definition ValueHandler :: "INIReader ini_handler" where
  "ValueHandler r sect name val =
     (let key = MakeKey sect name;
          old = reader_value r key;
          old = (if length old > 0 then old @ [newline] else old)
      in (r\<lparr>reader_values := omap_update key (old @ val) (reader_values r),
            reader_sections := oset_insert sect (reader_sections r)\<rparr>, True))"

text \<open>The constructors; before the body only the error is not set.\<close>

definition empty_INIReader :: "int \<Rightarrow> INIReader" where
  "empty_INIReader e = \<lparr>reader_error = e, reader_values = [], reader_sections = []\<rparr>"

definition new_INIReader :: "int \<Rightarrow> (string \<Rightarrow> string option) \<Rightarrow> string \<Rightarrow> INIReader" where
  "new_INIReader e files filename =
     (let (error, r) = ini_parse files filename ValueHandler (empty_INIReader e) in r\<lparr>reader_error := error\<rparr>)"

definition new_INIReader_FILE :: "int \<Rightarrow> string \<Rightarrow> INIReader" where
  "new_INIReader_FILE e file =
     (let (error, r) = ini_parse_file file ValueHandler (empty_INIReader e) in r\<lparr>reader_error := error\<rparr>)"

definition ParseError :: "INIReader \<Rightarrow> int" where "ParseError r = reader_error r"

definition Sections :: "INIReader \<Rightarrow> string list" where "Sections r = reader_sections r"

definition INI_Get :: "INIReader \<Rightarrow> string \<Rightarrow> string \<Rightarrow> string \<Rightarrow> string" where
  "INI_Get r sect name dflt =
     (case map_of (reader_values r) (MakeKey sect name) of Some v \<Rightarrow> v | None \<Rightarrow> dflt)"

text \<open>\<open>strtol\<close> with base 0 on a 64-bit \<open>long\<close>; \<open>None\<close> where no number starts the text.\<close>

definition strtol :: "string \<Rightarrow> int option" where
  "strtol s =
     (let (neg, s) = scan_sign (dropWhile is_space s);
          hex = ((take 2 s = ''0x'' \<or> take 2 s = ''0X'') \<and> list_ex (is_digit 16) (take 1 (drop 2 s)));
          base = (if hex then 16 else if take 1 s = ''0'' then 8 else 10);
          ds = takeWhile (is_digit base) (if hex then drop 2 s else s);
          n = int (digits_value base ds)
      in if ds = [] then None
         else Some (if neg then max (- (2 ^ 63)) (- n) else min (2 ^ 63 - 1) n))"

definition INI_GetInteger :: "INIReader \<Rightarrow> string \<Rightarrow> string \<Rightarrow> int \<Rightarrow> int" where
  "INI_GetInteger r sect name dflt =
     (case strtol (INI_Get r sect name []) of Some n \<Rightarrow> n | None \<Rightarrow> dflt)"

definition INI_GetReal :: "INIReader \<Rightarrow> string \<Rightarrow> string \<Rightarrow> real \<Rightarrow> real" where
  "INI_GetReal r sect name dflt =
     (case stod (INI_Get r sect name []) of Some x \<Rightarrow> x | None \<Rightarrow> dflt)"

definition INI_GetBoolean :: "INIReader \<Rightarrow> string \<Rightarrow> string \<Rightarrow> bool \<Rightarrow> bool" where
  "INI_GetBoolean r sect name dflt =
     (let valstr = map to_lower (INI_Get r sect name [])
      in if valstr = ''true'' \<or> valstr = ''yes'' \<or> valstr = ''on'' \<or> valstr = ''1'' then True
         else if valstr = ''false'' \<or> valstr = ''no'' \<or> valstr = ''off'' \<or> valstr = ''0'' then False
         else dflt)"

end
