(* ===== verification/INI_Roundtrip.thy ===== *)
theory INI_Roundtrip
  imports INI_Reader
begin

text \<open>
  The language of configuration files: an abstract syntax of their lines, how a line is written,
  which lines fit the limits of the parser, and the assignments a file makes. The parser accepts
  every such file and its reader answers from the assignments.
\<close>

subsection \<open>Files\<close>

text \<open>
  An assignment is written \<open>name = val\<close>, with blanks before the equals sign and perhaps a comment
  after the value; a continuation is an indented line.
\<close>

datatype INI_Line = Blank | Comment bool string | Section string
  | Assign string nat string "string option" | More string "string option"

definition trail :: "string option \<Rightarrow> string" where
  "trail c = (case c of None \<Rightarrow> [] | Some c \<Rightarrow> '' ;'' @ c)"

fun show_line :: "INI_Line \<Rightarrow> string" where
  "show_line Blank = []"
| "show_line (Comment hash c) = (if hash then ''#'' else '';'') @ c"
| "show_line (Section s) = ''['' @ s @ '']''"
| "show_line (Assign n k v c) = n @ replicate k CHR '' '' @ ''= '' @ v @ trail c"
| "show_line (More v c) = '' '' @ v @ trail c"

definition ini_text :: "INI_Line list \<Rightarrow> string" where
  "ini_text ls = concat (map (\<lambda>l. show_line l @ [newline]) ls)"

definition line_chars :: "string \<Rightarrow> bool" where
  "line_chars s \<longleftrightarrow> CHR 0x00 \<notin> set s \<and> newline \<notin> set s"

definition trimmed :: "string \<Rightarrow> bool" where
  "trimmed s \<longleftrightarrow> (s = [] \<or> \<not> is_space (hd s) \<and> \<not> is_space (last s))"

definition name_ok :: "string \<Rightarrow> bool" where
  "name_ok n \<longleftrightarrow> n \<noteq> [] \<and> trimmed n \<and> line_chars n \<and> length n < MAX_NAME \<and> hd n \<notin> {CHR ''['', CHR ''#''} \<and>
     set n \<inter> {CHR '';'', CHR ''='', CHR '':''} = {}"

definition value_ok :: "string \<Rightarrow> bool" where
  "value_ok v \<longleftrightarrow> trimmed v \<and> line_chars v \<and> CHR '';'' \<notin> set v"

definition comment_ok :: "string \<Rightarrow> string option \<Rightarrow> bool" where
  "comment_ok v c = (case c of None \<Rightarrow> True | Some c \<Rightarrow> v \<noteq> [] \<and> line_chars c)"

text \<open>\<open>named\<close> tells whether there is an assignment to be continued.\<close>

fun line_ok :: "bool \<Rightarrow> INI_Line \<Rightarrow> bool" where
  "line_ok named Blank = True"
| "line_ok named (Comment hash c) = line_chars c"
| "line_ok named (Section s) = (line_chars s \<and> length s < MAX_SECTION \<and> set s \<inter> {CHR '';'', CHR '']''} = {})"
| "line_ok named (Assign n k v c) = (name_ok n \<and> value_ok v \<and> comment_ok v c)"
| "line_ok named (More v c) = (named \<and> v \<noteq> [] \<and> hd v \<noteq> CHR ''#'' \<and> value_ok v \<and> comment_ok v c)"

fun still_named :: "bool \<Rightarrow> INI_Line \<Rightarrow> bool" where
  "still_named named (Section s) = False"
| "still_named named (Assign n k v c) = True"
| "still_named named l = named"

fun lines_ok :: "bool \<Rightarrow> INI_Line list \<Rightarrow> bool" where
  "lines_ok named [] = True"
| "lines_ok named (l # ls) =
     (line_ok named l \<and> length (show_line l) + 1 < INI_MAX_LINE \<and> lines_ok (still_named named l) ls)"

text \<open>The assignments: section, name and value.\<close>

fun assignments :: "string \<Rightarrow> string \<Rightarrow> INI_Line list \<Rightarrow> (string \<times> string \<times> string) list" where
  "assignments s n [] = []"
| "assignments s n (Section s' # ls) = assignments s' [] ls"
| "assignments s n (Assign n' k v c # ls) = (s, n', v) # assignments s n' ls"
| "assignments s n (More v c # ls) = (s, n, v) # assignments s n ls"
| "assignments s n (l # ls) = assignments s n ls"

definition join_values :: "string list \<Rightarrow> string" where
  "join_values vs = foldl (\<lambda>a v. if a = [] then v else a @ newline # v) [] vs"

definition values_at :: "(string \<times> string \<times> string) list \<Rightarrow> string \<Rightarrow> string list" where
  "values_at as key = map (\<lambda>(s, n, v). v) (filter (\<lambda>(s, n, v). MakeKey s n = key) as)"

subsection \<open>Blanks\<close>

lemma space_chars [simp]: "is_space newline" "is_space CHR '' ''" "\<not> is_space CHR ''=''" "\<not> is_space CHR '';''"
  "\<not> is_space CHR ''#''" "\<not> is_space CHR ''[''" "\<not> is_space CHR '']''" "newline \<noteq> CHR 0x00"
  by (simp_all add: is_space_def newline_def)

lemma rstrip_Nil [simp]: "rstrip [] = []"
  by (simp add: rstrip_def)

lemma rstrip_snoc [simp]: "rstrip (s @ [c]) = (if is_space c then rstrip s else s @ [c])"
  by (simp add: rstrip_def)

lemma rstrip_Cons: "\<not> is_space c \<Longrightarrow> rstrip (c # s) = c # rstrip s"
  by (simp add: rstrip_def dropWhile_append)

lemma rstrip_keep: "\<not> is_space c \<Longrightarrow> rstrip (a @ c # s) = a @ c # rstrip s"
  by (simp add: rstrip_def dropWhile_append)

lemma rstrip_trimmed: "trimmed s \<Longrightarrow> rstrip s = s"
  by (cases s rule: rev_cases) (auto simp: trimmed_def)

lemma rstrip_pad: "trimmed s \<Longrightarrow> rstrip (s @ replicate k CHR '' '') = s"
proof (induction k)
  case (Suc k)
  have "s @ replicate (Suc k) CHR '' '' = (s @ replicate k CHR '' '') @ [CHR '' '']"
    by (simp add: replicate_append_same)
  then show ?case using Suc by (metis rstrip_snoc space_chars(2))
qed (simp add: rstrip_trimmed)

lemma lskip_simps [simp]: "lskip [] = []" "is_space c \<Longrightarrow> lskip (c # s) = lskip s"
  "\<not> is_space c \<Longrightarrow> lskip (c # s) = c # s"
  by (simp_all add: lskip_def)

lemma lskip_trimmed: "trimmed s \<Longrightarrow> s \<noteq> [] \<Longrightarrow> lskip (s @ r) = s @ r"
  by (cases s) (auto simp: trimmed_def)

subsection \<open>Searching\<close>

lemma find_from_append:
  "CHR '';'' \<notin> set a \<Longrightarrow> set a \<inter> set chars = {} \<Longrightarrow>
   find_from w chars (a @ r) =
     (let (b, r) = find_from (if a = [] then w else is_space (last a)) chars r in (a @ b, r))"
  by (induction a arbitrary: w) (auto simp: Let_def split: prod.splits)

lemma find_char:
  "CHR '';'' \<notin> set a \<Longrightarrow> set a \<inter> set chars = {} \<Longrightarrow> c \<in> set chars \<Longrightarrow>
   find_chars_or_comment (a @ c # r) chars = (a, c # r)"
  by (simp add: find_chars_or_comment_def find_from_append)

lemma find_none: "CHR '';'' \<notin> set a \<Longrightarrow> find_chars_or_comment a [] = (a, [])"
  using find_from_append [of a "[]" False "[]"] by (simp add: find_chars_or_comment_def)

lemma find_comment:
  "CHR '';'' \<notin> set a \<Longrightarrow> find_chars_or_comment (a @ '' ;'' @ r) [] = (a @ '' '', '';'' @ r)"
  by (simp add: find_chars_or_comment_def find_from_append)

text \<open>The value in the rest of a line, its comment cut off.\<close>

lemma value_part:
  assumes "value_ok v" and "comment_ok v c" and "v \<noteq> []"
  shows "rstrip (v @ trail c @ [newline]) = v @ rstrip (trail c)"
    and "rstrip (fst (find_chars_or_comment (v @ rstrip (trail c)) [])) = v"
    and "lskip (v @ rstrip (trail c)) = v @ rstrip (trail c)"
proof -
  have v: "trimmed v" "CHR '';'' \<notin> set v" using assms by (auto simp: value_ok_def)
  obtain b x where bx: "v = b @ [x]" "\<not> is_space x"
    using v(1) assms(3) by (cases v rule: rev_cases) (auto simp: trimmed_def)
  have "rstrip (v @ trail c @ [newline]) = b @ rstrip (x # trail c @ [newline])"
    using bx by (simp add: rstrip_keep rstrip_Cons)
  also have "\<dots> = v @ rstrip (trail c)"
    using bx rstrip_snoc [of "trail c" newline] by (simp add: rstrip_Cons del: rstrip_snoc)
  finally show "rstrip (v @ trail c @ [newline]) = v @ rstrip (trail c)" .
  show "lskip (v @ rstrip (trail c)) = v @ rstrip (trail c)" using v assms(3) by (simp add: lskip_trimmed)
  show "rstrip (fst (find_chars_or_comment (v @ rstrip (trail c)) [])) = v"
  proof (cases c)
    case None
    then show ?thesis using v by (simp add: trail_def find_none rstrip_trimmed)
  next
    case (Some t)
    have "rstrip (trail c) = '' ;'' @ rstrip t" using rstrip_keep [of "CHR '';''" "'' ''" t] Some by (simp add: trail_def)
    then show ?thesis using v find_comment [of v "rstrip t"] rstrip_snoc [of v "CHR '' ''"]
      by (simp add: rstrip_trimmed del: rstrip_snoc)
  qed
qed


subsection \<open>One line\<close>

text \<open>What a line does to the parser.\<close>

fun ini_step :: "'u ini_handler \<Rightarrow> INI_Line \<Rightarrow> 'u ini_state \<Rightarrow> 'u ini_state" where
  "ini_step h (Section s) st = st\<lparr>lineno := lineno st + 1, ini_section := s, prev_name := []\<rparr>"
| "ini_step h (Assign n k v c) st = ini_call h n v (st\<lparr>lineno := lineno st + 1, prev_name := n\<rparr>)"
| "ini_step h (More v c) st = ini_call h (prev_name st) v (st\<lparr>lineno := lineno st + 1\<rparr>)"
| "ini_step h l st = st\<lparr>lineno := lineno st + 1\<rparr>"

lemma show_line_chars: "line_ok named l \<Longrightarrow> line_chars (show_line l)"
  by (cases l) (auto simp: line_chars_def name_ok_def value_ok_def comment_ok_def trail_def newline_def split: option.splits)

lemma ini_line_found:
  assumes "line_ok named l" and "lineno st = 0 \<longrightarrow> take 3 (show_line l @ [newline]) \<noteq> BOM"
    and "rstrip (show_line l @ [newline]) = s"
  shows "ini_line h (show_line l @ [newline]) st =
    ini_start h (length (lskip s) < length s) (lskip s) (st\<lparr>lineno := lineno st + 1\<rparr>)"
proof -
  have "c_str (show_line l @ [newline]) = show_line l @ [newline]"
    using show_line_chars [OF assms(1)] by (auto simp: c_str_def line_chars_def takeWhile_eq_all_conv)
  moreover have "\<not> (lineno (st\<lparr>lineno := lineno st + 1\<rparr>) = 1 \<and> take 3 (show_line l @ [newline]) = BOM)"
    using assms(2) by (auto simp del: take_append)
  ultimately show ?thesis using assms(3) by (simp only: ini_line_def Let_def if_False HOL.simp_thms)
qed

lemma ini_line_pair:
  assumes "line_ok named (Assign n k v c)"
    and "lineno st = 0 \<longrightarrow> take 3 (show_line (Assign n k v c) @ [newline]) \<noteq> BOM"
  shows "ini_line h (show_line (Assign n k v c) @ [newline]) st = ini_step h (Assign n k v c) st"
proof -
  let ?pad = "replicate k CHR '' ''"
  have ok: "name_ok n" "value_ok v" "comment_ok v c" using assms(1) by simp_all
  have n: "n \<noteq> []" "trimmed n" "CHR '';'' \<notin> set n" "CHR ''='' \<notin> set n" "CHR '':'' \<notin> set n"
    "hd n \<noteq> CHR ''[''" "hd n \<noteq> CHR ''#''" "length n < MAX_NAME"
    using ok(1) by (auto simp: name_ok_def)
  have n1: "take 1 (n @ r) = [hd n]" for r :: string using n(1) by (cases n) auto
  have hd_n: "hd n \<noteq> CHR '';''" using n(1,3) by (cases n) auto
  have keep: "strncpy0 n MAX_NAME = n" using n(8) by (simp add: strncpy0_def)
  have line: "rstrip (show_line (Assign n k v c) @ [newline]) = n @ ?pad @ ''='' @ rstrip ('' '' @ v @ trail c @ [newline])"
    using rstrip_keep [of "CHR ''=''" "n @ ?pad" "'' '' @ v @ trail c @ [newline]"] by simp
  have stay: "lskip (n @ r) = n @ r" for r using n(1,2) by (simp add: lskip_trimmed)
  have find: "find_chars_or_comment (n @ ?pad @ ''='' @ r) ''=:'' = (n @ ?pad, ''='' @ r)" for r
    using find_char [of "n @ ?pad" "''=:''" "CHR ''=''" r] n(3,4,5) by auto
  have val: "rstrip (fst (find_chars_or_comment (lskip (rstrip ('' '' @ v @ trail c @ [newline]))) [])) = v"
  proof (cases "v = []")
    case True
    then have "c = None" using ok(3) by (cases c) (simp_all add: comment_ok_def)
    with True show ?thesis
      using rstrip_snoc [of "'' ''" newline] rstrip_snoc [of "[]" "CHR '' ''"]
      by (simp add: trail_def find_chars_or_comment_def)
  next
    case False
    then obtain x w where v: "v = x # w" "\<not> is_space x" using ok(2) by (cases v) (auto simp: value_ok_def trimmed_def)
    then have "rstrip ('' '' @ v @ trail c @ [newline]) = '' '' @ rstrip (v @ trail c @ [newline])"
      using rstrip_keep [of x "'' ''" "w @ trail c @ [newline]"] by (simp add: rstrip_Cons)
    then show ?thesis using value_part [OF ok(2,3) False] by simp
  qed
  show ?thesis
    unfolding ini_line_found [OF assms line] stay
    using n1 hd_n keep find val n(6,7) n(1) rstrip_pad [OF n(2)] by (simp add: ini_start_def Let_def del: take_append)
qed

lemma ini_line_more:
  assumes "line_ok named (More v c)" and "prev_name st \<noteq> []"
    and "lineno st = 0 \<longrightarrow> take 3 (show_line (More v c) @ [newline]) \<noteq> BOM"
  shows "ini_line h (show_line (More v c) @ [newline]) st = ini_step h (More v c) st"
proof -
  have ok: "value_ok v" "comment_ok v c" "v \<noteq> []" "hd v \<noteq> CHR ''#''" using assms(1) by simp_all
  obtain x w where v: "v = x # w" "\<not> is_space x" using ok by (cases v) (auto simp: value_ok_def trimmed_def)
  have x: "x \<noteq> CHR '';''" "x \<noteq> CHR ''#''" using ok v by (auto simp: value_ok_def)
  have line: "rstrip (show_line (More v c) @ [newline]) = '' '' @ v @ rstrip (trail c)"
    using rstrip_keep [of x "'' ''" "w @ trail c @ [newline]"] value_part(1) [OF ok(1-3)] v by (simp add: rstrip_Cons)
  show ?thesis
    unfolding ini_line_found [OF assms(1,3) line]
    using value_part(2,3) [OF ok(1-3)] assms(2) x v by (simp add: ini_start_def)
qed

lemma ini_line_step:
  assumes "line_ok (prev_name st \<noteq> []) l" and "lineno st = 0 \<longrightarrow> take 3 (show_line l @ [newline]) \<noteq> BOM"
  shows "ini_line h (show_line l @ [newline]) st = ini_step h l st"
proof (cases l)
  case Blank
  then show ?thesis
    using ini_line_found [OF assms, where s = "[]"] rstrip_snoc [of "[]" newline] by (simp add: ini_start_def)
next
  case (Comment hash c)
  then have "rstrip (show_line l @ [newline]) = (if hash then ''#'' else '';'') @ rstrip (c @ [newline])"
    by (simp add: rstrip_Cons)
  then show ?thesis unfolding ini_line_found [OF assms refl] by (simp add: ini_start_def Comment)
next
  case (Section s)
  have line: "rstrip (show_line l @ [newline]) = ''['' @ s @ '']''"
    using rstrip_snoc [of "''['' @ s @ '']''" newline] rstrip_snoc [of "''['' @ s" "CHR '']''"] Section by simp
  have "find_chars_or_comment (s @ '']'') '']'' = (s, '']'')"
    by (rule find_char) (use assms(1) Section in auto)
  moreover have "strncpy0 s MAX_SECTION = s" using assms(1) Section by (auto simp: strncpy0_def)
  ultimately show ?thesis using Section unfolding ini_line_found [OF assms line] by (simp add: ini_start_def)
next
  case (Assign n k v c)
  then show ?thesis using ini_line_pair [of "prev_name st \<noteq> []" n k v c st h] assms by simp
next
  case (More v c)
  then show ?thesis using ini_line_more [of "prev_name st \<noteq> []" v c st h] assms by simp
qed


subsection \<open>A file\<close>

lemma first_line_append: "newline \<notin> set s \<Longrightarrow> first_line (s @ newline # r) = s @ [newline]"
  by (induction s) auto

lemma fgets_line:
  assumes "newline \<notin> set s" and "length s + 1 < INI_MAX_LINE"
  shows "fgets INI_MAX_LINE (s @ newline # r) = Some (s @ [newline], r)"
proof -
  have "take (INI_MAX_LINE - 1) (s @ newline # r) = s @ newline # take (INI_MAX_LINE - 2 - length s) r"
    using assms(2) by (simp add: INI_MAX_LINE_def take_Cons')
  then show ?thesis using assms(1) by (simp add: fgets_def Let_def first_line_append)
qed

lemma ini_text_Cons: "ini_text (l # ls) = show_line l @ newline # ini_text ls"
  by (simp add: ini_text_def)

lemma no_BOM:
  assumes "take 3 (s @ newline # r) \<noteq> BOM"
  shows "take 3 (s @ [newline]) \<noteq> BOM"
proof
  assume bom: "take 3 (s @ [newline]) = BOM"
  then have "length (take 3 (s @ [newline])) = 3" by (simp add: BOM_def)
  then have "3 \<le> length (s @ [newline])" by (simp del: take_append)
  then have "take 3 ((s @ [newline]) @ r) = take 3 (s @ [newline])" by (subst take_append) simp
  then show False using assms bom by simp
qed

lemma still_named_step:
  "line_ok (prev_name st \<noteq> []) l \<Longrightarrow> still_named (prev_name st \<noteq> []) l = (prev_name (ini_step h l st) \<noteq> [])"
  by (cases l) (auto simp: ini_call_def ini_fail_def name_ok_def Let_def split: prod.splits)

lemma lineno_step: "lineno (ini_step h l st) = lineno st + 1"
  by (cases l) (simp_all add: ini_call_def ini_fail_def Let_def split: prod.splits)

lemma ini_loop_text:
  assumes "lines_ok (prev_name st \<noteq> []) ls" and "lineno st = 0 \<longrightarrow> take 3 (ini_text ls) \<noteq> BOM"
  shows "ini_loop h (ini_text ls) st = foldl (\<lambda>st l. ini_step h l st) st ls"
  using assms
proof (induction ls arbitrary: st)
  case Nil
  then show ?case by (subst ini_loop.simps) (simp add: ini_text_def fgets_def)
next
  case (Cons l ls)
  have l: "line_ok (prev_name st \<noteq> []) l" "length (show_line l) + 1 < INI_MAX_LINE" using Cons.prems(1) by simp_all
  have "newline \<notin> set (show_line l)" using show_line_chars [OF l(1)] by (simp add: line_chars_def)
  from fgets_line [OF this l(2)]
  have "fgets INI_MAX_LINE (ini_text (l # ls)) = Some (show_line l @ [newline], ini_text ls)" by (simp add: ini_text_Cons)
  moreover have "ini_line h (show_line l @ [newline]) st = ini_step h l st"
    by (rule ini_line_step [OF l(1)]) (use Cons.prems(2) no_BOM [of "show_line l" "ini_text ls"] in \<open>auto simp only: ini_text_Cons\<close>)
  moreover have "ini_loop h (ini_text ls) (ini_step h l st) = foldl (\<lambda>st l. ini_step h l st) (ini_step h l st) ls"
    by (rule Cons.IH) (use Cons.prems(1) still_named_step [OF l(1), of h] in \<open>simp_all add: lineno_step\<close>)
  ultimately show ?case by (subst ini_loop.simps) simp
qed

text \<open>
  The interface between the parser and its handler. A handler that accepts every assignment keeps
  the parser free of errors; one that collects what it is given has, after a file, what the
  assignments of the file amount to.
\<close>

locale accepting_handler =
  fixes handler :: "'u ini_handler"
  assumes accepts: "snd (handler u s n v)"
begin

lemma call_accepts: "ini_call handler n v st = st\<lparr>ini_user := fst (handler (ini_user st) (ini_section st) n v)\<rparr>"
proof -
  obtain u where "handler (ini_user st) (ini_section st) n v = (u, True)"
    using accepts [of "ini_user st" "ini_section st" n v] by (cases "handler (ini_user st) (ini_section st) n v") simp
  then show ?thesis by (simp add: ini_call_def)
qed

lemma no_error: "ini_error (foldl (\<lambda>st l. ini_step handler l st) st ls) = ini_error st"
proof (induction ls arbitrary: st)
  case (Cons l ls)
  then show ?case by (cases l) (simp_all add: call_accepts)
qed simp

end

locale collecting_handler = accepting_handler +
  fixes holds :: "(string \<times> string \<times> string) list \<Rightarrow> 'u \<Rightarrow> bool"
  assumes collects: "holds as u \<Longrightarrow> holds (as @ [(s, n, v)]) (fst (handler u s n v))"
begin

lemma collected:
  "holds as (ini_user st) \<Longrightarrow>
   holds (as @ assignments (ini_section st) (prev_name st) ls) (ini_user (foldl (\<lambda>st l. ini_step handler l st) st ls))"
proof (induction ls arbitrary: st as)
  case (Cons l ls)
  note more = Cons.IH [where st = "ini_step handler l st"]
  show ?case
  proof (cases l)
    case (Assign n k v c)
    then show ?thesis using more [of "as @ [(ini_section st, n, v)]"] collects [OF Cons.prems] by (simp add: call_accepts)
  next
    case (More v c)
    then show ?thesis using more [of "as @ [(ini_section st, prev_name st, v)]"] collects [OF Cons.prems] by (simp add: call_accepts)
  qed (use more [of as] Cons.prems in simp_all)
qed simp

lemma parsed:
  assumes "lines_ok False ls" and "take 3 (ini_text ls) \<noteq> BOM" and "holds [] u"
  shows "\<exists>u'. ini_parse_stream (ini_text ls) handler u = (0, u') \<and> holds (assignments [] [] ls) u'"
proof -
  define st0 where "st0 = \<lparr>ini_section = [], prev_name = [], lineno = 0, ini_error = 0, ini_user = u\<rparr>"
  have "ini_loop handler (ini_text ls) st0 = foldl (\<lambda>st l. ini_step handler l st) st0 ls"
    using ini_loop_text [of st0 ls handler] assms(1,2) by (simp add: st0_def)
  moreover have "ini_error (foldl (\<lambda>st l. ini_step handler l st) st0 ls) = 0" by (simp add: no_error st0_def)
  moreover have "holds (assignments [] [] ls) (ini_user (foldl (\<lambda>st l. ini_step handler l st) st0 ls))"
    using collected [of "[]" st0 ls] assms(3) by (simp add: st0_def)
  ultimately show ?thesis by (simp add: ini_parse_stream_def st0_def)
qed

end

subsection \<open>The values\<close>

text \<open>What the reader holds after some assignments.\<close>

definition reader_holds :: "(string \<times> string \<times> string) list \<Rightarrow> INIReader \<Rightarrow> bool" where
  "reader_holds as r \<longleftrightarrow> omap_ok (reader_values r) \<and> set (reader_sections r) = fst ` set as \<and>
     (\<forall>key. map_of (reader_values r) key =
        (if values_at as key = [] then None else Some (join_values (values_at as key))))"

lemma values_at_snoc:
  "values_at (as @ [(s, n, v)]) key = values_at as key @ (if MakeKey s n = key then [v] else [])"
  by (simp add: values_at_def)

lemma join_values_snoc:
  "join_values (vs @ [v]) = (if join_values vs = [] then v else join_values vs @ newline # v)"
  by (simp add: join_values_def)

lemma ValueHandler_holds:
  assumes "reader_holds as r"
  shows "reader_holds (as @ [(s, n, v)]) (fst (ValueHandler r s n v))"
proof -
  let ?k = "MakeKey s n"
  have "reader_value r ?k = join_values (values_at as ?k)"
    using assms by (simp add: reader_holds_def reader_value_def join_values_def)
  then show ?thesis
    using assms by (auto simp: reader_holds_def ValueHandler_def Let_def map_of_omap_update values_at_snoc join_values_snoc)
qed

interpretation reader: collecting_handler ValueHandler reader_holds
  by unfold_locales (simp add: ValueHandler_def Let_def, rule ValueHandler_holds)

theorem INIReader_file:
  assumes "files filename = Some (ini_text ls)" and "lines_ok False ls" and "take 3 (ini_text ls) \<noteq> BOM"
  shows "ParseError (new_INIReader e files filename) = 0"
    and "reader_holds (assignments [] [] ls) (new_INIReader e files filename)"
proof -
  have "reader_holds [] (empty_INIReader e)" by (simp add: reader_holds_def empty_INIReader_def values_at_def)
  from reader.parsed [OF assms(2,3) this] obtain r
    where "ini_parse_stream (ini_text ls) ValueHandler (empty_INIReader e) = (0, r)" "reader_holds (assignments [] [] ls) r"
    by blast
  moreover have "reader_holds as (r\<lparr>reader_error := err\<rparr>) = reader_holds as r" for as r err by (simp add: reader_holds_def)
  ultimately show "ParseError (new_INIReader e files filename) = 0"
    "reader_holds (assignments [] [] ls) (new_INIReader e files filename)"
    using assms(1) by (simp_all add: new_INIReader_def ini_parse_def ini_parse_file_def ParseError_def)
qed

lemma reader_holds_Get:
  "reader_holds as r \<Longrightarrow> INI_Get r s n d = (case values_at as (MakeKey s n) of [] \<Rightarrow> d | v # vs \<Rightarrow> join_values (v # vs))"
  by (simp add: reader_holds_def INI_Get_def split: list.splits)


subsection \<open>Numbers\<close>

lemma hd_show_nat: "hd (show_nat n) = CHR ''0'' \<Longrightarrow> n = 0"
proof (unfold show_nat_def, induction n rule: less_induct)
  case (less n)
  show ?case
  proof (cases "n < 10")
    case True
    then have "digit_char n = CHR ''0''" using less.prems by (subst (asm) show_base.simps) simp
    then have "digit_val 10 (CHR ''0'') = Some n" using digit_val_char [of n 10] True by simp
    then show ?thesis by (simp add: digit_val_def)
  next
    case False
    then have "show_base 10 n = show_base 10 (n div 10) @ [digit_char (n mod 10)]" by (subst show_base.simps) simp
    then have "hd (show_base 10 (n div 10)) = CHR ''0''" using less.prems by (simp add: hd_append)
    then have "n div 10 = 0" using less.IH [of "n div 10"] False by simp
    then show ?thesis using False by simp
  qed
qed

lemma show_nat_0: "show_nat 0 = ''0''"
  by (simp add: show_nat_def show_base.simps digit_char_def char_of_def bit_0)

lemma strtol_digits:
  "(let s = show_nat n;
        hex = ((take 2 s = ''0x'' \<or> take 2 s = ''0X'') \<and> list_ex (is_digit 16) (take 1 (drop 2 s)));
        base = (if hex then 16 else if take 1 s = ''0'' then 8 else 10);
        ds = takeWhile (is_digit base) (if hex then drop 2 s else s)
    in (ds = [], digits_value base ds)) = (False, n)"
proof (cases "n = 0")
  case True
  then show ?thesis by (simp add: show_nat_0 is_digit_def digit_val_def digits_value_def)
next
  case False
  obtain c cs where c: "show_nat n = c # cs" by (cases "show_nat n") simp_all
  then have "c \<noteq> CHR ''0''" using hd_show_nat [of n] False by auto
  moreover have "takeWhile (is_digit 10) (show_nat n) = show_nat n" using scan_digits(1) [of "[]" n] by simp
  ultimately show ?thesis using c show_nat_value [of n] by (simp add: Let_def)
qed

theorem strtol_show:
  assumes "- (2 ^ 63) \<le> v" and "v < 2 ^ 63"
  shows "strtol (show_int v) = Some v"
proof (cases "v < 0")
  case True
  then have "show_int v = CHR ''-'' # show_nat (nat (- v))" by (simp add: show_int_def)
  moreover have "dropWhile is_space (show_int v) = show_int v" using skip_before_int [of v "[]"] by simp
  ultimately show ?thesis using strtol_digits [of "nat (- v)"] True assms
    by (simp add: strtol_def scan_sign_def Let_def max_def split: if_splits)
next
  case False
  obtain c cs where c: "show_nat (nat v) = c # cs" by (cases "show_nat (nat v)") simp_all
  then have "c \<noteq> CHR ''-''" "c \<noteq> CHR ''+''" using show_nat_props [of c "nat v"] by simp_all
  then have "scan_sign (show_nat (nat v)) = (False, show_nat (nat v))" using c by (simp add: scan_sign_def)
  moreover have "dropWhile is_space (show_nat (nat v)) = show_nat (nat v)"
    using skip_before_int [of v "[]"] False by (simp add: show_int_def)
  ultimately show ?thesis using strtol_digits [of "nat v"] False assms
    by (simp add: strtol_def show_int_def Let_def min_def split: if_splits)
qed

end
