(* ===== verification/Cache_Sets.thy ===== *)
theory Cache_Sets
  imports PIM_Common
begin

unbundle bit_operations_syntax

text \<open>
  The cache sets of \<open>PIMProfSolver/Storage.h\<close>: the integer logarithms, the cache tags, and the
  three replacement policies \<open>DIRECT_MAPPED\<close>, \<open>ROUND_ROBIN\<close> and \<open>LRU\<close> behind the virtual class
  \<open>CACHE_SET\<close>. The interface of a set is the locale \<open>cache_set\<close>; each policy is an
  interpretation of it, and so is the class with its dynamic dispatch. A round robin set is a
  queue, an LRU set is the list of the most recent tags. \<open>ADDRINT\<close> is the 64-bit address of the
  instrumentation framework. An operation without a defined result (a failed assertion, an
  access outside a container) is \<open>None\<close>; a null pointer is an inner \<open>None\<close>.
\<close>

type_synonym ADDRINT = u64
type_synonym STORAGE_ptr = nat

subsection \<open>Logarithms\<close>

definition IsPower2 :: "u32 \<Rightarrow> bool" where
  "IsPower2 n \<longleftrightarrow> n AND (n - 1) = 0"

text \<open>Binary search for the highest bit: each step halves the window.\<close>

definition log_step :: "u32 \<Rightarrow> nat \<Rightarrow> int \<times> u32 \<Rightarrow> int \<times> u32" where
  "log_step window k = (\<lambda>(p, n). if n AND window \<noteq> 0 then (p + int k, drop_bit k n) else (p, n))"

definition FloorLog2 :: "u32 \<Rightarrow> int" where
  "FloorLog2 n =
     (if n = 0 then - 1
      else let (p, n) = log_step 0x0000000c 2 (log_step 0x000000f0 4
             (log_step 0x0000ff00 8 (log_step 0xffff0000 16 (0, n))))
           in if n AND 0x00000002 \<noteq> 0 then p + 1 else p)"

definition CeilLog2 :: "u32 \<Rightarrow> int" where
  "CeilLog2 n = FloorLog2 (n - 1) + 1"

lemma take_bit_eq_unat: "take_bit k (n :: 'a::len word) = n \<longleftrightarrow> unat n < 2 ^ k"
proof -
  have "unat (take_bit k n) = take_bit k (unat n)" by (rule unsigned_take_bit_eq)
  then have "take_bit k n = n \<longleftrightarrow> take_bit k (unat n) = unat n" by (simp add: word_unat_eq_iff)
  then show ?thesis by (simp add: take_bit_nat_eq_self_iff)
qed

text \<open>A number below \<open>2\<^sup>m\<close> meets the window of the bits \<open>k\<close> to \<open>m - 1\<close> iff it is at least \<open>2\<^sup>k\<close>.\<close>

lemma and_window:
  fixes n c :: u32
  assumes n: "unat n < 2 ^ m" and c: "\<And>i. bit c i \<longleftrightarrow> k \<le> i \<and> i < m \<and> i < 32"
  shows "n AND c = 0 \<longleftrightarrow> unat n < 2 ^ k"
proof -
  have m: "take_bit m n = n" using n by (simp add: take_bit_eq_unat)
  have hi: "bit n i \<Longrightarrow> i < m \<and> i < 32" for i
    using m bit_imp_le_length [of n i] bit_take_bit_iff [of m n i] by simp
  have "n AND c = 0 \<longleftrightarrow> (\<forall>i. \<not> (bit n i \<and> bit c i))"
    using hi by (auto simp: bit_eq_iff bit_and_iff)
  also have "\<dots> \<longleftrightarrow> (\<forall>i. bit n i \<longrightarrow> i < k)" using c hi by fastforce
  also have "\<dots> \<longleftrightarrow> take_bit k n = n" using hi by (auto simp: bit_eq_iff bit_take_bit_iff)
  finally show ?thesis by (simp add: take_bit_eq_unat)
qed

definition log_inv :: "nat \<Rightarrow> nat \<Rightarrow> int \<times> u32 \<Rightarrow> bool" where
  "log_inv N m = (\<lambda>(p, n). 0 \<le> p \<and> n \<noteq> 0 \<and> unat n < 2 ^ m \<and> unat n = N div 2 ^ nat p)"

lemma log_step_inv:
  assumes inv: "log_inv N (2 * k) s" and w: "window = push_bit k (mask k)" and k: "2 * k \<le> 32"
  shows "log_inv N k (log_step window k s)"
proof -
  obtain p n where s: "s = (p, n)" by (cases s)
  have n: "0 \<le> p" "n \<noteq> 0" "unat n < 2 ^ (2 * k)" "unat n = N div 2 ^ nat p" using inv by (simp_all add: log_inv_def s)
  have iff: "n AND window = 0 \<longleftrightarrow> unat n < 2 ^ k"
    by (rule and_window [OF n(3)]) (use k in \<open>auto simp: w bit_push_bit_iff bit_mask_iff\<close>)
  have d: "unat (drop_bit k n) = unat n div 2 ^ k" unfolding unat_drop_bit_eq by (simp add: drop_bit_eq_div)
  show ?thesis
  proof (cases "unat n < 2 ^ k")
    case True
    with n iff show ?thesis by (simp add: log_inv_def log_step_def s)
  next
    case False
    then have "unat n div 2 ^ k \<noteq> 0" by (simp add: div_eq_0_iff)
    then have nz: "drop_bit k n \<noteq> 0" using d by (metis unat_0)
    have "unat n < 2 ^ k * 2 ^ k" using n(3) by (simp add: mult_2 power_add)
    then have "unat n div 2 ^ k < 2 ^ k" by (simp add: less_mult_imp_div_less)
    moreover have "unat n div 2 ^ k = N div 2 ^ nat (p + int k)"
      using n(1,4) by (simp add: nat_add_distrib power_add div_mult2_eq)
    ultimately show ?thesis using False iff n(1) nz d by (simp add: log_inv_def log_step_def s)
  qed
qed

lemma log_windows:
  "(0xffff0000 :: u32) = push_bit 16 (mask 16)" "(0x0000ff00 :: u32) = push_bit 8 (mask 8)"
  "(0x000000f0 :: u32) = push_bit 4 (mask 4)" "(0x0000000c :: u32) = push_bit 2 (mask 2)"
  "(0x00000002 :: u32) = push_bit 1 (mask 1)"
  by (simp_all add: mask_eq_exp_minus_1)

lemma FloorLog2_spec:
  assumes "n \<noteq> 0"
  shows "0 \<le> FloorLog2 n" and "2 ^ nat (FloorLog2 n) \<le> unat n" and "unat n < 2 ^ Suc (nat (FloorLog2 n))"
proof -
  have "unat n < 2 ^ 32" using unsigned_less [of n, where 'a = nat] by simp
  then have "log_inv (unat n) (2 * 16) (0, n)" using assms by (simp add: log_inv_def)
  from log_step_inv [OF this log_windows(1)] have "log_inv (unat n) (2 * 8) (log_step 0xffff0000 16 (0, n))" by simp
  from log_step_inv [OF this log_windows(2)]
  have "log_inv (unat n) (2 * 4) (log_step 0x0000ff00 8 (log_step 0xffff0000 16 (0, n)))" by simp
  from log_step_inv [OF this log_windows(3)]
  have "log_inv (unat n) (2 * 2) (log_step 0x000000f0 4 (log_step 0x0000ff00 8 (log_step 0xffff0000 16 (0, n))))" by simp
  from log_step_inv [OF this log_windows(4)]
  have last: "log_inv (unat n) (2 * 1)
      (log_step 0x0000000c 2 (log_step 0x000000f0 4 (log_step 0x0000ff00 8 (log_step 0xffff0000 16 (0, n)))))" by simp
  obtain p k where pk:
    "log_step 0x0000000c 2 (log_step 0x000000f0 4 (log_step 0x0000ff00 8 (log_step 0xffff0000 16 (0, n)))) = (p, k)"
    by (metis surj_pair)
  note inv = last [unfolded pk]
  let ?r = "if k AND 2 \<noteq> 0 then p + 1 else p"
  have r: "FloorLog2 n = ?r" using assms pk by (simp add: FloorLog2_def)
  have "log_step 2 1 (p, k) = (?r, if k AND 2 \<noteq> 0 then drop_bit 1 k else k)" by (simp add: log_step_def)
  moreover have "log_inv (unat n) 1 (log_step 2 1 (p, k))" by (rule log_step_inv [OF inv log_windows(5)]) simp
  ultimately obtain m where "log_inv (unat n) 1 (?r, m)" by metis
  then have one: "0 \<le> ?r" "unat n div 2 ^ nat ?r = 1"
    by (auto simp: log_inv_def less_2_cases_iff unat_eq_zero)
  then show "0 \<le> FloorLog2 n" using r by simp
  have d: "unat n div 2 ^ nat (FloorLog2 n) = 1" using one(2) r by simp
  then show "2 ^ nat (FloorLog2 n) \<le> unat n" by (metis div_less not_le zero_neq_one)
  have "unat n mod 2 ^ nat (FloorLog2 n) < 2 ^ nat (FloorLog2 n)" by simp
  with div_mult_mod_eq [of "unat n" "2 ^ nat (FloorLog2 n)", unfolded d] have "unat n < 2 * 2 ^ nat (FloorLog2 n)" by linarith
  then show "unat n < 2 ^ Suc (nat (FloorLog2 n))" by simp
qed

lemma floor_log_unique: "2 ^ p \<le> n \<Longrightarrow> n < 2 ^ Suc p \<Longrightarrow> 2 ^ q \<le> n \<Longrightarrow> n < 2 ^ Suc q \<Longrightarrow> p = (q :: nat)" for n :: nat
proof -
  assume "2 ^ p \<le> n" "n < 2 ^ Suc p" "2 ^ q \<le> n" "n < 2 ^ Suc q"
  then have "(2 :: nat) ^ p < 2 ^ Suc q" "(2 :: nat) ^ q < 2 ^ Suc p" by linarith+
  then have "p < Suc q" "q < Suc p" by (simp_all only: power_strict_increasing_iff one_less_numeral_iff semiring_norm)
  then show ?thesis by simp
qed

lemma bit_top: "n \<noteq> 0 \<Longrightarrow> bit n (nat (FloorLog2 n))"
proof -
  assume n: "n \<noteq> 0"
  note spec = FloorLog2_spec [OF n]
  have "unat n div 2 ^ nat (FloorLog2 n) = 1" using spec(2,3) by (intro div_nat_eqI) simp_all
  then have "bit (unat n) (nat (FloorLog2 n))" by (simp add: bit_iff_odd)
  then show ?thesis by (simp add: bit_unsigned_iff)
qed

text \<open>\<open>IsPower2\<close> also accepts 0.\<close>

lemma IsPower2_iff: "IsPower2 n \<longleftrightarrow> n = 0 \<or> (\<exists>k<32. n = 2 ^ k)"
proof (cases "n = 0")
  case True
  then show ?thesis by (simp add: IsPower2_def)
next
  case False
  let ?p = "nat (FloorLog2 n)"
  note spec = FloorLog2_spec [OF False]
  have "unat n < 2 ^ 32" using unsigned_less [of n, where 'a = nat] by simp
  with spec(2) have lt: "(2 :: nat) ^ ?p < 2 ^ 32" by (rule le_less_trans)
  then have p: "?p < 32" by (rule power_less_imp_less_exp [rotated]) simp
  then have u: "unat ((2 :: u32) ^ ?p) = 2 ^ ?p" using unat_of_nat [of "2 ^ ?p", where 'a = 32] lt by simp
  have m1: "unat (n - 1) = unat n - 1" using False by (simp add: unat_minus_one)
  show ?thesis
  proof
    assume np: "IsPower2 n"
    have "unat n = 2 ^ ?p"
    proof (rule ccontr)
      assume "unat n \<noteq> 2 ^ ?p"
      with spec(2) have ge: "2 ^ ?p \<le> unat (n - 1)" using m1 by simp
      then have nz: "n - 1 \<noteq> 0" using unat_0 by force
      have "unat (n - 1) < 2 ^ Suc ?p" using spec(3) m1 by simp
      from floor_log_unique [OF ge this FloorLog2_spec(2,3) [OF nz]] have "bit (n - 1) ?p" using bit_top [OF nz] by simp
      with bit_top [OF False] have "bit (n AND (n - 1)) ?p" by (simp add: bit_and_iff)
      with np show False by (simp add: IsPower2_def)
    qed
    then have "n = 2 ^ ?p" using u by (simp add: word_unat_eq_iff)
    with p show "n = 0 \<or> (\<exists>k<32. n = 2 ^ k)" by blast
  next
    assume "n = 0 \<or> (\<exists>k<32. n = 2 ^ k)"
    with False obtain k where k: "n = 2 ^ k" "k < 32" by blast
    then have "n AND (n - 1) = take_bit k (2 ^ k)" by (simp add: mask_eq_exp_minus_1 [symmetric] take_bit_eq_mask)
    moreover have "take_bit k ((2 :: u32) ^ k) = 0" by (rule bit_eqI) (simp add: bit_take_bit_iff bit_exp_iff)
    ultimately show "IsPower2 n" by (simp add: IsPower2_def k(1))
  qed
qed

lemma CeilLog2_spec:
  assumes "1 < unat n"
  shows "0 < CeilLog2 n" and "unat n \<le> 2 ^ nat (CeilLog2 n)" and "2 ^ nat (CeilLog2 n - 1) < unat n"
proof -
  have m1: "unat (n - 1) = unat n - 1" using assms by (intro unat_minus_one) auto
  then have nz: "n - 1 \<noteq> 0" using assms unat_0 by force
  note spec = FloorLog2_spec [OF nz]
  show "0 < CeilLog2 n" using spec(1) by (simp add: CeilLog2_def)
  have "nat (CeilLog2 n) = Suc (nat (FloorLog2 (n - 1)))" using spec(1) by (simp add: CeilLog2_def)
  with spec(3) m1 show "unat n \<le> 2 ^ nat (CeilLog2 n)" by simp
  from spec(2) m1 assms show "2 ^ nat (CeilLog2 n - 1) < unat n" by (simp add: CeilLog2_def)
qed

lemma CeilLog2_small: "\<not> 1 < unat n \<Longrightarrow> CeilLog2 n = (if n = 0 then 32 else 0)"
proof -
  assume "\<not> 1 < unat n"
  then have "unat n = unat (0 :: u32) \<or> unat n = unat (1 :: u32)" by (simp only: unat_0 unat_1) linarith
  then consider "n = 0" | "n = 1" unfolding word_unat_eq_iff [symmetric] by blast
  then show ?thesis
  proof cases
    case 1
    have "FloorLog2 4294967295 = 31" by (simp add: FloorLog2_def log_step_def)
    moreover have "(0 - 1 :: u32) = 4294967295" by simp
    ultimately show ?thesis unfolding CeilLog2_def 1 by (simp only: if_True refl)
  qed (simp add: CeilLog2_def FloorLog2_def)
qed

subsection \<open>Tags\<close>

text \<open>A tag knows the storage it belongs to.\<close>

record CACHE_TAG =
  tag_addr :: ADDRINT
  tag_storage :: STORAGE_ptr

definition new_tag :: "STORAGE_ptr \<Rightarrow> ADDRINT \<Rightarrow> CACHE_TAG" where
  "new_tag storage tagaddr = \<lparr>tag_addr = tagaddr, tag_storage = storage\<rparr>"

definition SetTag :: "ADDRINT \<Rightarrow> CACHE_TAG \<Rightarrow> CACHE_TAG" where
  "SetTag tagaddr t = t\<lparr>tag_addr := tagaddr\<rparr>"

definition tag_is :: "ADDRINT \<Rightarrow> CACHE_TAG \<Rightarrow> bool" where
  "tag_is rhs t \<longleftrightarrow> tag_addr t = rhs"

definition MAX_ASSOCIATIVITY :: nat where
  "MAX_ASSOCIATIVITY = 32"

lemma tag_addr_new [simp]: "tag_addr (new_tag storage a) = a" "tag_addr (SetTag a t) = a"
  by (simp_all add: new_tag_def SetTag_def)

subsection \<open>DIRECT_MAPPED\<close>

record DIRECT_MAPPED =
  dm_tag :: CACHE_TAG
  dm_storage :: STORAGE_ptr

definition new_DIRECT_MAPPED :: "STORAGE_ptr \<Rightarrow> u32 \<Rightarrow> DIRECT_MAPPED option" where
  "new_DIRECT_MAPPED storage associativity =
     (if associativity = 1 then Some \<lparr>dm_tag = new_tag storage 0, dm_storage = storage\<rparr> else None)"

definition DM_SetAssociativity :: "u32 \<Rightarrow> DIRECT_MAPPED \<Rightarrow> DIRECT_MAPPED option" where
  "DM_SetAssociativity associativity s = (if associativity = 1 then Some s else None)"

definition DM_Find :: "ADDRINT \<Rightarrow> DIRECT_MAPPED \<Rightarrow> (CACHE_TAG option \<times> DIRECT_MAPPED) option" where
  "DM_Find tagaddr s = Some (if tag_is tagaddr (dm_tag s) then Some (dm_tag s) else None, s)"

definition DM_Replace :: "ADDRINT \<Rightarrow> DIRECT_MAPPED \<Rightarrow> (CACHE_TAG \<times> DIRECT_MAPPED) option" where
  "DM_Replace tagaddr s = (let t = SetTag tagaddr (dm_tag s) in Some (t, s\<lparr>dm_tag := t\<rparr>))"

definition DM_Flush :: "DIRECT_MAPPED \<Rightarrow> DIRECT_MAPPED option" where
  "DM_Flush s = Some (s\<lparr>dm_tag := SetTag 0 (dm_tag s)\<rparr>)"

subsection \<open>ROUND_ROBIN\<close>

text \<open>
  The array has \<open>MAX_ASSOCIATIVITY\<close> pointers, of which the constructor sets the first ones; the
  others are uninitialised (\<open>None\<close>). The two indices are unsigned, the loops run downwards with a
  signed index, here as the number of entries still to visit.
\<close>

record ROUND_ROBIN =
  rr_tags :: "CACHE_TAG option list"
  tagsLastIndex :: u32
  nextReplaceIndex :: u32
  rr_storage :: STORAGE_ptr

definition rr_count :: "ROUND_ROBIN \<Rightarrow> nat" where
  "rr_count s = nat (sint (tagsLastIndex s) + 1)"

definition new_ROUND_ROBIN :: "STORAGE_ptr \<Rightarrow> u32 \<Rightarrow> ROUND_ROBIN option" where
  "new_ROUND_ROBIN storage associativity =
     (if unat associativity \<le> MAX_ASSOCIATIVITY
      then Some \<lparr>rr_tags = replicate (nat (sint (associativity - 1) + 1)) (Some (new_tag storage 0)) @
             replicate (MAX_ASSOCIATIVITY - nat (sint (associativity - 1) + 1)) None,
           tagsLastIndex = associativity - 1, nextReplaceIndex = associativity - 1, rr_storage = storage\<rparr>
      else None)"

definition RR_SetAssociativity :: "u32 \<Rightarrow> ROUND_ROBIN \<Rightarrow> ROUND_ROBIN option" where
  "RR_SetAssociativity associativity s =
     (if unat associativity \<le> MAX_ASSOCIATIVITY
      then Some (s\<lparr>tagsLastIndex := associativity - 1, nextReplaceIndex := associativity - 1\<rparr>) else None)"

fun find_down :: "CACHE_TAG option list \<Rightarrow> ADDRINT \<Rightarrow> nat \<Rightarrow> CACHE_TAG option option" where
  "find_down tags tagaddr 0 = Some None"
| "find_down tags tagaddr (Suc index) = do {
     p \<leftarrow> vec_at tags (int index); t \<leftarrow> p;
     if tag_is tagaddr t then Some (Some t) else find_down tags tagaddr index }"

definition RR_Find :: "ADDRINT \<Rightarrow> ROUND_ROBIN \<Rightarrow> (CACHE_TAG option \<times> ROUND_ROBIN) option" where
  "RR_Find tagaddr s = do { r \<leftarrow> find_down (rr_tags s) tagaddr (rr_count s); Some (r, s) }"

definition RR_Replace :: "ADDRINT \<Rightarrow> ROUND_ROBIN \<Rightarrow> (CACHE_TAG \<times> ROUND_ROBIN) option" where
  "RR_Replace tagaddr s = do {
     let index = nextReplaceIndex s;
     p \<leftarrow> vec_at (rr_tags s) (int (unat index)); t \<leftarrow> p;
     let t = SetTag tagaddr t;
     Some (t, s\<lparr>rr_tags := (rr_tags s)[unat index := Some t],
        nextReplaceIndex := (if index = 0 then tagsLastIndex s else index - 1)\<rparr>) }"

fun flush_down :: "nat \<Rightarrow> CACHE_TAG option list \<Rightarrow> CACHE_TAG option list option" where
  "flush_down 0 tags = Some tags"
| "flush_down (Suc index) tags = do {
     p \<leftarrow> vec_at tags (int index); t \<leftarrow> p;
     flush_down index (tags[index := Some (SetTag 0 t)]) }"

definition RR_Flush :: "ROUND_ROBIN \<Rightarrow> ROUND_ROBIN option" where
  "RR_Flush s = do {
     tags \<leftarrow> flush_down (rr_count s) (rr_tags s);
     Some (s\<lparr>rr_tags := tags, nextReplaceIndex := tagsLastIndex s\<rparr>) }"

subsection \<open>LRU\<close>

text \<open>The list of the tags, the most recently used one first.\<close>

record LRU =
  lru_tags :: "CACHE_TAG list"
  lru_storage :: STORAGE_ptr

definition fresh_tags :: "STORAGE_ptr \<Rightarrow> nat \<Rightarrow> CACHE_TAG list" where
  "fresh_tags storage n = replicate n (new_tag storage 0)"

definition new_LRU :: "STORAGE_ptr \<Rightarrow> u32 \<Rightarrow> LRU option" where
  "new_LRU storage associativity =
     (if unat associativity \<le> MAX_ASSOCIATIVITY
      then Some \<lparr>lru_tags = fresh_tags storage (unat associativity), lru_storage = storage\<rparr> else None)"

definition LRU_SetAssociativity :: "u32 \<Rightarrow> LRU \<Rightarrow> LRU option" where
  "LRU_SetAssociativity associativity s =
     (if unat associativity \<le> MAX_ASSOCIATIVITY
      then Some (s\<lparr>lru_tags := fresh_tags (lru_storage s) (unat associativity)\<rparr>) else None)"

text \<open>The walk over the list: the first matching tag, and the list without it.\<close>

fun erase_tag :: "ADDRINT \<Rightarrow> CACHE_TAG list \<Rightarrow> (CACHE_TAG \<times> CACHE_TAG list) option" where
  "erase_tag tagaddr [] = None"
| "erase_tag tagaddr (t # ts) =
     (if tag_is tagaddr t then Some (t, ts)
      else map_option (\<lambda>(u, us). (u, t # us)) (erase_tag tagaddr ts))"

definition LRU_Find :: "ADDRINT \<Rightarrow> LRU \<Rightarrow> (CACHE_TAG option \<times> LRU) option" where
  "LRU_Find tagaddr s =
     (case erase_tag tagaddr (lru_tags s) of
        Some (t, ts) \<Rightarrow> Some (Some t, s\<lparr>lru_tags := t # ts\<rparr>)
      | None \<Rightarrow> Some (None, s))"

definition LRU_Replace :: "ADDRINT \<Rightarrow> LRU \<Rightarrow> (CACHE_TAG \<times> LRU) option" where
  "LRU_Replace tagaddr s =
     (if lru_tags s = [] then None
      else let t = SetTag tagaddr (last (lru_tags s))
           in Some (t, s\<lparr>lru_tags := t # butlast (lru_tags s)\<rparr>))"

definition LRU_Flush :: "LRU \<Rightarrow> LRU option" where
  "LRU_Flush s = Some (s\<lparr>lru_tags := fresh_tags (lru_storage s) (length (lru_tags s))\<rparr>)"

subsection \<open>What a cache set promises\<close>

text \<open>
  \<open>find\<close> hits exactly the resident tags and keeps them, \<open>replace\<close> brings a tag in and evicts at
  most others, \<open>flush\<close> leaves the tag 0 only (the mark of an empty line), and there are never
  more tags than ways.
\<close>

locale cache_set =
  fixes sinv :: "'s \<Rightarrow> bool" and resident :: "'s \<Rightarrow> ADDRINT set" and ways :: "'s \<Rightarrow> nat"
    and find_tag :: "ADDRINT \<Rightarrow> 's \<Rightarrow> (CACHE_TAG option \<times> 's) option"
    and replace_tag :: "ADDRINT \<Rightarrow> 's \<Rightarrow> (CACHE_TAG \<times> 's) option"
    and flush_tags :: "'s \<Rightarrow> 's option"
  assumes find_law: "sinv s \<Longrightarrow> \<exists>r s'. find_tag a s = Some (r, s') \<and> sinv s' \<and> resident s' = resident s \<and>
      ways s' = ways s \<and> (r \<noteq> None \<longleftrightarrow> a \<in> resident s)"
    and replace_law: "sinv s \<Longrightarrow> \<exists>t s'. replace_tag a s = Some (t, s') \<and> sinv s' \<and> a \<in> resident s' \<and>
      resident s' \<subseteq> insert a (resident s) \<and> ways s' = ways s"
    and flush_law: "sinv s \<Longrightarrow> \<exists>s'. flush_tags s = Some s' \<and> sinv s' \<and> resident s' = {0} \<and> ways s' = ways s"
    and ways_law: "sinv s \<Longrightarrow> finite (resident s) \<and> card (resident s) \<le> ways s"
begin

text \<open>The use of a set by a cache level: look the tag up, bring it in on a miss.\<close>

definition touch :: "ADDRINT \<Rightarrow> 's \<Rightarrow> (bool \<times> 's) option" where
  "touch a s = do {
     (r, s) \<leftarrow> find_tag a s;
     if r \<noteq> None then Some (True, s) else do { (t, s) \<leftarrow> replace_tag a s; Some (False, s) } }"

definition touches :: "ADDRINT list \<Rightarrow> 's \<Rightarrow> 's option" where
  "touches as s = foldM (\<lambda>a s. do { (h, s) \<leftarrow> touch a s; Some s }) as s"

lemma touch_spec:
  assumes "sinv s"
  shows "\<exists>s'. touch a s = Some (a \<in> resident s, s') \<and> sinv s' \<and> a \<in> resident s' \<and>
    resident s' \<subseteq> insert a (resident s) \<and> ways s' = ways s"
proof -
  obtain r s1 where 1: "find_tag a s = Some (r, s1)" "sinv s1" "resident s1 = resident s" "ways s1 = ways s"
    "r \<noteq> None \<longleftrightarrow> a \<in> resident s" using find_law [OF assms] by blast
  obtain t s2 where "replace_tag a s1 = Some (t, s2)" "sinv s2" "a \<in> resident s2" "resident s2 \<subseteq> insert a (resident s)"
    "ways s2 = ways s" using replace_law [OF 1(2), of a] 1(3,4) by auto
  with 1 show ?thesis by (cases "a \<in> resident s") (auto simp: touch_def)
qed

text \<open>The second of two accesses to a line hits when nothing came between.\<close>

lemma touch_again:
  assumes "sinv s" and "touch a s = Some (h, s')"
  shows "\<exists>s''. touch a s' = Some (True, s'')"
proof -
  from touch_spec [OF assms(1), of a] assms(2) have "sinv s'" "a \<in> resident s'" by auto
  from touch_spec [OF this(1), of a] this(2) show ?thesis by auto
qed

lemma touches_spec:
  assumes "sinv s"
  shows "\<exists>s'. touches as s = Some s' \<and> sinv s' \<and> ways s' = ways s \<and> resident s' \<subseteq> set as \<union> resident s"
  using assms
proof (induction as arbitrary: s)
  case (Cons a as)
  from touch_spec [OF Cons.prems, of a] obtain s1 where 1: "touch a s = Some (a \<in> resident s, s1)" "sinv s1"
    "resident s1 \<subseteq> insert a (resident s)" "ways s1 = ways s" by blast
  from Cons.IH [OF 1(2)] obtain s2 where "touches as s1 = Some s2" "sinv s2" "ways s2 = ways s1"
    "resident s2 \<subseteq> set as \<union> resident s1" by blast
  with 1 show ?case by (auto simp: touches_def)
qed (simp add: touches_def)

text \<open>
  After a flush a set never reports a hit for a line that was not accessed since, except for the
  line with tag 0, and it never holds more lines than it has ways.
\<close>

lemma hits_since_flush:
  assumes "sinv s"
  shows "\<exists>s0 s' h s''. flush_tags s = Some s0 \<and> touches as s0 = Some s' \<and> touch a s' = Some (h, s'') \<and>
    (h \<longrightarrow> a \<in> set as \<or> a = 0) \<and> card (resident s') \<le> ways s \<and> finite (resident s')"
proof -
  from flush_law [OF assms] obtain s0 where 0: "flush_tags s = Some s0" "sinv s0" "resident s0 = {0}" "ways s0 = ways s"
    by blast
  from touches_spec [OF 0(2)] obtain s' where 1: "touches as s0 = Some s'" "sinv s'" "ways s' = ways s0"
    "resident s' \<subseteq> set as \<union> resident s0" by blast
  from touch_spec [OF 1(2), of a] 0 1 ways_law [OF 1(2)] show ?thesis by fastforce
qed

end

subsection \<open>The three policies keep it\<close>

lemma dm_find: "DM_Find a s = Some (if tag_addr (dm_tag s) = a then Some (dm_tag s) else None, s)"
  by (simp add: DM_Find_def tag_is_def)

interpretation dm: cache_set "\<lambda>_. True" "\<lambda>s. {tag_addr (dm_tag s)}" "\<lambda>_. 1" DM_Find DM_Replace DM_Flush
  by unfold_locales (auto simp: dm_find DM_Replace_def DM_Flush_def Let_def)

text \<open>The tags of the ways in use; a round robin set is used with all of them initialised.\<close>

definition rr_list :: "ROUND_ROBIN \<Rightarrow> CACHE_TAG list" where
  "rr_list s = map the (take (rr_count s) (rr_tags s))"

definition rr_inv :: "ROUND_ROBIN \<Rightarrow> bool" where
  "rr_inv s \<longleftrightarrow> length (rr_tags s) = MAX_ASSOCIATIVITY \<and> unat (tagsLastIndex s) < MAX_ASSOCIATIVITY \<and>
     unat (nextReplaceIndex s) \<le> unat (tagsLastIndex s) \<and> (\<forall>p \<in> set (take (rr_count s) (rr_tags s)). p \<noteq> None)"

lemma rr_count_update [simp]:
  "rr_count (rr_tags_update f s) = rr_count s" "rr_count (nextReplaceIndex_update g s) = rr_count s"
  by (simp_all add: rr_count_def)

lemma rr_count_last: "unat (tagsLastIndex s) < MAX_ASSOCIATIVITY \<Longrightarrow> rr_count s = Suc (unat (tagsLastIndex s))"
proof -
  assume a: "unat (tagsLastIndex s) < MAX_ASSOCIATIVITY"
  then have "int (unat (tagsLastIndex s)) < 2 ^ 31" by (simp add: MAX_ASSOCIATIVITY_def)
  then have "uint (tagsLastIndex s) < 2 ^ 31" by (simp only: of_nat_unat)
  moreover have "- (2 ^ 31) \<le> uint (tagsLastIndex s)" by (rule order.trans [OF _ uint_ge_0]) simp
  ultimately have "sint (tagsLastIndex s) = uint (tagsLastIndex s)"
    by (simp add: sint_uint signed_take_bit_int_eq_self_iff)
  then have "sint (tagsLastIndex s) = int (unat (tagsLastIndex s))" by (simp only: of_nat_unat)
  then show ?thesis by (simp add: rr_count_def nat_add_distrib)
qed

lemma find_down_spec:
  "k \<le> length tags \<Longrightarrow> \<forall>p \<in> set (take k tags). p \<noteq> None \<Longrightarrow>
   \<exists>r. find_down tags a k = Some r \<and> (r \<noteq> None \<longleftrightarrow> a \<in> tag_addr ` set (map the (take k tags)))"
proof (induction k)
  case (Suc k)
  then have k: "k < length tags" and all: "\<forall>p \<in> set (take k tags). p \<noteq> None" "tags ! k \<noteq> None"
    by (auto simp: take_Suc_conv_app_nth)
  then obtain t where t: "tags ! k = Some t" by blast
  from Suc.IH k all(1) obtain r where "find_down tags a k = Some r"
    "r \<noteq> None \<longleftrightarrow> a \<in> tag_addr ` set (map the (take k tags))" by auto
  with t k show ?case by (auto simp: vec_at_int tag_is_def take_Suc_conv_app_nth)
qed simp

lemma flush_down_spec:
  "k \<le> length tags \<Longrightarrow> \<forall>p \<in> set (take k tags). p \<noteq> None \<Longrightarrow>
   flush_down k tags = Some (map (map_option (SetTag 0)) (take k tags) @ drop k tags)"
proof (induction k arbitrary: tags)
  case (Suc k)
  then have k: "k < length tags" and all: "\<forall>p \<in> set (take k tags). p \<noteq> None" "tags ! k \<noteq> None"
    by (auto simp: take_Suc_conv_app_nth)
  then obtain t where t: "tags ! k = Some t" by blast
  let ?tags = "tags[k := Some (SetTag 0 t)]"
  have "flush_down k ?tags = Some (map (map_option (SetTag 0)) (take k ?tags) @ drop k ?tags)"
    using k all(1) by (intro Suc.IH) simp_all
  moreover have "drop k ?tags = Some (SetTag 0 t) # drop (Suc k) tags"
    using k by (simp add: drop_update_swap Cons_nth_drop_Suc [symmetric])
  ultimately show ?case using t k by (simp add: vec_at_int take_Suc_conv_app_nth)
qed simp

lemma rr_list_length: "rr_inv s \<Longrightarrow> length (rr_list s) = rr_count s"
  by (simp add: rr_inv_def rr_list_def rr_count_last)

lemma rr_tags_list:
  assumes "rr_inv s" and "i < rr_count s"
  shows "i < length (rr_tags s)" and "rr_tags s ! i = Some (rr_list s ! i)"
proof -
  show i: "i < length (rr_tags s)" using assms by (auto simp: rr_inv_def rr_count_last)
  then have "rr_tags s ! i \<in> set (take (rr_count s) (rr_tags s))"
    using assms(2) by (metis in_set_conv_nth length_take min_less_iff_conj nth_take)
  then have "rr_tags s ! i \<noteq> None" using assms(1) unfolding rr_inv_def by blast
  with i assms(2) show "rr_tags s ! i = Some (rr_list s ! i)" by (auto simp: rr_list_def)
qed

lemma rr_next_below: "rr_inv s \<Longrightarrow> unat (nextReplaceIndex s) < rr_count s"
  by (simp add: rr_inv_def rr_count_last)

text \<open>One replacement writes at \<open>nextReplaceIndex\<close> and moves the index down, cyclically.\<close>

lemma RR_Replace_spec:
  assumes inv: "rr_inv s"
  shows "\<exists>t s'. RR_Replace a s = Some (t, s') \<and> rr_inv s' \<and> rr_count s' = rr_count s \<and>
    map tag_addr (rr_list s') = (map tag_addr (rr_list s))[unat (nextReplaceIndex s) := a] \<and>
    unat (nextReplaceIndex s') = (if unat (nextReplaceIndex s) = 0 then rr_count s - 1 else unat (nextReplaceIndex s) - 1)"
proof -
  let ?i = "unat (nextReplaceIndex s)"
  note i = rr_next_below [OF inv] and at = rr_tags_list [OF inv rr_next_below [OF inv]]
  let ?t = "SetTag a (rr_list s ! ?i)"
  let ?s = "s\<lparr>rr_tags := (rr_tags s)[?i := Some ?t],
        nextReplaceIndex := (if nextReplaceIndex s = 0 then tagsLastIndex s else nextReplaceIndex s - 1)\<rparr>"
  have c: "rr_count ?s = rr_count s" by simp
  have z: "nextReplaceIndex s = 0 \<longleftrightarrow> ?i = 0" by (simp add: unat_eq_zero)
  have n: "unat (nextReplaceIndex ?s) = (if ?i = 0 then rr_count s - 1 else ?i - 1)"
    using inv z by (auto simp: rr_inv_def rr_count_last unat_minus_one)
  have "rr_inv ?s"
  proof -
    have "set (take (rr_count s) ((rr_tags s)[?i := Some ?t])) \<subseteq> insert (Some ?t) (set (take (rr_count s) (rr_tags s)))"
      by (simp add: take_update_swap set_update_subset_insert)
    then have "\<forall>p \<in> set (take (rr_count s) ((rr_tags s)[?i := Some ?t])). p \<noteq> None"
      using inv unfolding rr_inv_def by blast
    moreover have "unat (nextReplaceIndex ?s) \<le> unat (tagsLastIndex s)"
      using inv n by (auto simp: rr_inv_def rr_count_last)
    ultimately show ?thesis using inv c unfolding rr_inv_def by simp
  qed
  moreover have "map tag_addr (rr_list ?s) = (map tag_addr (rr_list s))[?i := a]"
    using i at(1) by (simp add: rr_list_def c take_update_swap map_update)
  moreover have "RR_Replace a s = Some (?t, ?s)" using at by (simp add: RR_Replace_def vec_at_int Let_def)
  ultimately show ?thesis using c n by blast
qed

lemma RR_Find_spec:
  assumes inv: "rr_inv s"
  shows "\<exists>r. RR_Find a s = Some (r, s) \<and> (r \<noteq> None \<longleftrightarrow> a \<in> tag_addr ` set (rr_list s))"
proof -
  have "rr_count s \<le> length (rr_tags s)" using inv by (simp add: rr_inv_def rr_count_last)
  from find_down_spec [OF this, of a] inv show ?thesis by (auto simp: RR_Find_def rr_inv_def rr_list_def)
qed

lemma RR_Flush_spec:
  assumes inv: "rr_inv s"
  shows "\<exists>s'. RR_Flush s = Some s' \<and> rr_inv s' \<and> rr_count s' = rr_count s \<and>
    map tag_addr (rr_list s') = replicate (rr_count s) 0"
proof -
  let ?tags = "map (map_option (SetTag 0)) (take (rr_count s) (rr_tags s)) @ drop (rr_count s) (rr_tags s)"
  let ?s = "s\<lparr>rr_tags := ?tags, nextReplaceIndex := tagsLastIndex s\<rparr>"
  have le: "rr_count s \<le> length (rr_tags s)" and all: "\<forall>p \<in> set (take (rr_count s) (rr_tags s)). p \<noteq> None"
    using inv by (simp_all add: rr_inv_def rr_count_last)
  have c: "rr_count ?s = rr_count s" by simp
  have "rr_inv ?s" using inv all le by (auto simp: rr_inv_def c)
  moreover have "map tag_addr (rr_list ?s) = replicate (rr_count s) 0"
    using le all by (intro replicate_eqI) (auto simp: rr_list_def c)
  ultimately show ?thesis using flush_down_spec [OF le all] c by (auto simp: RR_Flush_def)
qed

interpretation rr: cache_set rr_inv "\<lambda>s. tag_addr ` set (rr_list s)" rr_count RR_Find RR_Replace RR_Flush
proof
  fix s :: ROUND_ROBIN and a
  assume inv: "rr_inv s"
  show "\<exists>r s'. RR_Find a s = Some (r, s') \<and> rr_inv s' \<and> tag_addr ` set (rr_list s') = tag_addr ` set (rr_list s) \<and>
      rr_count s' = rr_count s \<and> (r \<noteq> None \<longleftrightarrow> a \<in> tag_addr ` set (rr_list s))"
    using RR_Find_spec [OF inv, of a] inv by blast
  obtain t s' where s': "RR_Replace a s = Some (t, s')" "rr_inv s'" "rr_count s' = rr_count s"
    "map tag_addr (rr_list s') = (map tag_addr (rr_list s))[unat (nextReplaceIndex s) := a]"
    using RR_Replace_spec [OF inv, of a] by blast
  have "unat (nextReplaceIndex s) < length (map tag_addr (rr_list s))"
    using rr_next_below [OF inv] rr_list_length [OF inv] by simp
  from set_update_memI [OF this, of a] set_update_subset_insert [of "map tag_addr (rr_list s)" "unat (nextReplaceIndex s)" a]
  have "a \<in> set (map tag_addr (rr_list s'))" "set (map tag_addr (rr_list s')) \<subseteq> insert a (set (map tag_addr (rr_list s)))"
    unfolding s'(4) by blast+
  with s'(1-3) show "\<exists>t s'. RR_Replace a s = Some (t, s') \<and> rr_inv s' \<and> a \<in> tag_addr ` set (rr_list s') \<and>
      tag_addr ` set (rr_list s') \<subseteq> insert a (tag_addr ` set (rr_list s)) \<and> rr_count s' = rr_count s"
    by (intro exI [of _ t] exI [of _ s']) simp
  obtain s'' where s'': "RR_Flush s = Some s''" "rr_inv s''" "rr_count s'' = rr_count s"
    "map tag_addr (rr_list s'') = replicate (rr_count s) 0" using RR_Flush_spec [OF inv] by blast
  have "rr_count s \<noteq> 0" using rr_next_below [OF inv] by simp
  with s''(4) have "tag_addr ` set (rr_list s'') = {0}" by (simp flip: set_map)
  with s'' show "\<exists>s'. RR_Flush s = Some s' \<and> rr_inv s' \<and> tag_addr ` set (rr_list s') = {0} \<and> rr_count s' = rr_count s"
    by blast
  have "card (tag_addr ` set (rr_list s)) \<le> length (map tag_addr (rr_list s))"
    using card_length [of "map tag_addr (rr_list s)"] by simp
  then show "finite (tag_addr ` set (rr_list s)) \<and> card (tag_addr ` set (rr_list s)) \<le> rr_count s"
    using rr_list_length [OF inv] by simp
qed

lemma erase_tag_spec:
  "case erase_tag a ts of
     Some (t, us) \<Rightarrow> tag_addr t = a \<and> a \<in> set (map tag_addr ts) \<and> map tag_addr us = remove1 a (map tag_addr ts)
   | None \<Rightarrow> a \<notin> set (map tag_addr ts)"
  by (induction ts) (auto simp: tag_is_def split: option.splits)

definition lru_addrs :: "LRU \<Rightarrow> ADDRINT list" where
  "lru_addrs s = map tag_addr (lru_tags s)"

text \<open>\<open>LRU::Find\<close> moves the tag it finds to the front.\<close>

lemma LRU_Find_spec:
  "\<exists>r s'. LRU_Find a s = Some (r, s') \<and> (r \<noteq> None \<longleftrightarrow> a \<in> set (lru_addrs s)) \<and>
     lru_addrs s' = (if a \<in> set (lru_addrs s) then a # remove1 a (lru_addrs s) else lru_addrs s)"
  using erase_tag_spec [of a "lru_tags s"] by (auto simp: LRU_Find_def lru_addrs_def split: option.splits)

lemma LRU_Replace_spec:
  "lru_addrs s \<noteq> [] \<Longrightarrow> \<exists>t s'. LRU_Replace a s = Some (t, s') \<and> lru_addrs s' = a # butlast (lru_addrs s)"
  by (auto simp: LRU_Replace_def lru_addrs_def Let_def map_butlast)

lemma LRU_Flush_spec: "\<exists>s'. LRU_Flush s = Some s' \<and> lru_addrs s' = replicate (length (lru_addrs s)) 0"
  by (auto simp: LRU_Flush_def lru_addrs_def fresh_tags_def)

interpretation lru: cache_set "\<lambda>s. lru_addrs s \<noteq> []" "\<lambda>s. set (lru_addrs s)" "\<lambda>s. length (lru_addrs s)"
    LRU_Find LRU_Replace LRU_Flush
proof
  fix s :: LRU and a
  assume inv: "lru_addrs s \<noteq> []"
  obtain r s' where r: "LRU_Find a s = Some (r, s')" "r \<noteq> None \<longleftrightarrow> a \<in> set (lru_addrs s)"
    "lru_addrs s' = (if a \<in> set (lru_addrs s) then a # remove1 a (lru_addrs s) else lru_addrs s)"
    using LRU_Find_spec by blast
  have "mset (lru_addrs s') = mset (lru_addrs s)" using r(3) by auto
  then have "set (lru_addrs s') = set (lru_addrs s)" "length (lru_addrs s') = length (lru_addrs s)"
    by (metis set_mset_mset, metis size_mset)
  with r inv show "\<exists>r s'. LRU_Find a s = Some (r, s') \<and> lru_addrs s' \<noteq> [] \<and> set (lru_addrs s') = set (lru_addrs s) \<and>
      length (lru_addrs s') = length (lru_addrs s) \<and> (r \<noteq> None \<longleftrightarrow> a \<in> set (lru_addrs s))" by (metis length_0_conv)
  obtain t s' where "LRU_Replace a s = Some (t, s')" "lru_addrs s' = a # butlast (lru_addrs s)"
    using LRU_Replace_spec [OF inv] by blast
  then show "\<exists>t s'. LRU_Replace a s = Some (t, s') \<and> lru_addrs s' \<noteq> [] \<and> a \<in> set (lru_addrs s') \<and>
      set (lru_addrs s') \<subseteq> insert a (set (lru_addrs s)) \<and> length (lru_addrs s') = length (lru_addrs s)"
    using inv by (auto dest: in_set_butlastD)
  show "\<exists>s'. LRU_Flush s = Some s' \<and> lru_addrs s' \<noteq> [] \<and> set (lru_addrs s') = {0} \<and>
      length (lru_addrs s') = length (lru_addrs s)"
    using LRU_Flush_spec [of s] inv by auto
  show "finite (set (lru_addrs s)) \<and> card (set (lru_addrs s)) \<le> length (lru_addrs s)" by (simp add: card_length)
qed

subsection \<open>LRU keeps the most recent tags\<close>

text \<open>The distinct tags of a sequence of accesses, the most recent one first.\<close>

definition recent :: "ADDRINT list \<Rightarrow> ADDRINT list" where
  "recent as = rev (remdups as)"

text \<open>What \<open>w\<close> ways hold: the \<open>w\<close> most recent distinct tags, filled up with the empty mark.\<close>

definition recent_ways :: "nat \<Rightarrow> ADDRINT list \<Rightarrow> ADDRINT list" where
  "recent_ways w as = take w (recent as @ replicate w 0)"

lemma remdups_snoc: "remdups (xs @ [x]) = removeAll x (remdups xs) @ [x]"
proof (induction xs)
  case (Cons y xs)
  then show ?case by (cases "y \<in> set xs"; cases "y = x") auto
qed simp

lemma recent_snoc: "recent (as @ [a]) = a # removeAll a (recent as)"
  by (simp add: recent_def remdups_snoc removeAll_filter_not_eq rev_filter)

lemma remove1_take:
  "distinct xs \<Longrightarrow> x \<in> set (take w xs) \<Longrightarrow> remove1 x (take w (xs @ ys)) = take (w - 1) (removeAll x xs @ ys)"
proof (induction xs arbitrary: w)
  case (Cons y xs)
  obtain v where w: "w = Suc v" using Cons.prems(2) by (cases w) auto
  show ?case
  proof (cases "y = x")
    case True
    with Cons.prems w show ?thesis by (simp add: removeAll_id)
  next
    case False
    with Cons.prems w have x: "x \<in> set (take v xs)" by simp
    then obtain u where "v = Suc u" by (cases v) auto
    with False Cons.IH [OF _ x] Cons.prems(1) w show ?thesis by simp
  qed
qed simp

lemma recent_ways_snoc:
  assumes w: "0 < w"
  shows "recent_ways w (as @ [a]) =
    (if a \<in> set (recent_ways w as) then a # remove1 a (recent_ways w as) else a # butlast (recent_ways w as))"
proof -
  let ?r = "recent as"
  have d: "distinct ?r" by (simp add: recent_def)
  obtain v where v: "w = Suc v" using w by (cases w) auto
  have new: "recent_ways w (as @ [a]) = a # take v (removeAll a ?r @ replicate w 0)"
    by (simp add: recent_ways_def recent_snoc v)
  show ?thesis
  proof (cases "a \<in> set (take w ?r)")
    case True
    then have "remove1 a (recent_ways w as) = take v (removeAll a ?r @ replicate w 0)"
      using remove1_take [OF d True, of "replicate w 0"] v by (simp add: recent_ways_def)
    moreover have "a \<in> set (recent_ways w as)" using True by (simp add: recent_ways_def)
    ultimately show ?thesis using new by simp
  next
    case False
    show ?thesis
    proof (cases "a \<in> set (recent_ways w as)")
      case True
      then have a0: "a = 0" and short: "length ?r < w"
        using False by (auto simp: recent_ways_def in_set_replicate split: if_splits)
      then have notin: "a \<notin> set ?r" using False by simp
      have "recent_ways w as = ?r @ 0 # replicate (w - length ?r - 1) 0"
        using short by (simp add: recent_ways_def min_def flip: replicate_Suc)
      then have "remove1 a (recent_ways w as) = ?r @ replicate (w - length ?r - 1) 0"
        using notin a0 by (simp add: remove1_append)
      also have "\<dots> = take v (removeAll a ?r @ replicate w 0)"
      proof -
        have m: "min (v - length ?r) w = w - length ?r - 1" and l: "length ?r \<le> v" using short v by simp_all
        show ?thesis using notin l by (simp add: removeAll_id m)
      qed
      finally show ?thesis using new True by simp
    next
      case out: False
      have "take v (removeAll a ?r @ replicate w 0) = take v (?r @ replicate w 0)"
      proof (cases "a \<in> set ?r")
        case True
        then obtain p s where ps: "?r = p @ a # s" by (auto simp: in_set_conv_decomp)
        with False have "w \<le> length p" by (cases "w \<le> length p") (auto simp: take_Cons')
        then have "v \<le> length p" using v by simp
        moreover have "removeAll a ?r = p @ s" using d ps by (simp add: removeAll_id)
        ultimately show ?thesis using ps by simp
      qed (simp add: removeAll_id)
      moreover have "butlast (recent_ways w as) = take v (?r @ replicate w 0)"
        using butlast_take [of w "?r @ replicate w 0"] v by (simp add: recent_ways_def del: take_append)
      ultimately show ?thesis using new out by simp
    qed
  qed
qed

lemma lru_touch_addrs:
  assumes "lru_addrs s \<noteq> []"
  shows "\<exists>s'. lru.touch a s = Some (a \<in> set (lru_addrs s), s') \<and>
    lru_addrs s' = (if a \<in> set (lru_addrs s) then a # remove1 a (lru_addrs s) else a # butlast (lru_addrs s))"
proof -
  obtain r s1 where 1: "LRU_Find a s = Some (r, s1)" "r \<noteq> None \<longleftrightarrow> a \<in> set (lru_addrs s)"
    "lru_addrs s1 = (if a \<in> set (lru_addrs s) then a # remove1 a (lru_addrs s) else lru_addrs s)"
    using LRU_Find_spec by blast
  show ?thesis
  proof (cases "a \<in> set (lru_addrs s)")
    case True
    with 1 show ?thesis by (auto simp: lru.touch_def)
  next
    case False
    with 1 assms obtain t s2 where "LRU_Replace a s1 = Some (t, s2)" "lru_addrs s2 = a # butlast (lru_addrs s)"
      using LRU_Replace_spec [of s1 a] by auto
    with 1 False show ?thesis by (auto simp: lru.touch_def)
  qed
qed

lemma lru_touches_recent:
  assumes "lru_addrs s = replicate w 0" and "0 < w"
  shows "\<exists>s'. lru.touches as s = Some s' \<and> lru_addrs s' = recent_ways w as"
proof (induction as rule: rev_induct)
  case Nil
  show ?case using assms by (simp add: lru.touches_def recent_ways_def recent_def)
next
  case (snoc a as)
  then obtain s1 where 1: "lru.touches as s = Some s1" "lru_addrs s1 = recent_ways w as" by blast
  have "lru_addrs s1 \<noteq> []" using 1(2) assms(2) by (auto simp: recent_ways_def)
  from lru_touch_addrs [OF this, of a] 1 recent_ways_snoc [OF assms(2), of as a] show ?case
    by (auto simp: lru.touches_def foldM_append)
qed

text \<open>The accesses to an empty LRU set, as a client sees them: hit or miss.\<close>

lemma lru_hit_recent:
  assumes "new_LRU storage n = Some s" and "0 < unat n"
  shows "\<exists>s' s''. lru.touches as s = Some s' \<and> lru.touch a s' = Some (a \<in> set (recent_ways (unat n) as), s'')"
proof -
  have s: "lru_addrs s = replicate (unat n) 0"
    using assms(1) by (auto simp: new_LRU_def lru_addrs_def fresh_tags_def split: if_splits)
  obtain s' where s': "lru.touches as s = Some s'" "lru_addrs s' = recent_ways (unat n) as"
    using lru_touches_recent [OF s assms(2)] by blast
  have "lru_addrs s' \<noteq> []" using s'(2) assms(2) by (auto simp: recent_ways_def)
  from lru_touch_addrs [OF this, of a] s' show ?thesis by auto
qed

text \<open>The same over the two operations of the class, as a cache calls them.\<close>

definition LRU_access :: "ADDRINT \<Rightarrow> LRU \<Rightarrow> (bool \<times> LRU) option" where
  "LRU_access a s = do {
     (r, s) \<leftarrow> LRU_Find a s;
     if r \<noteq> None then Some (True, s) else do { (t, s) \<leftarrow> LRU_Replace a s; Some (False, s) } }"

definition LRU_accesses :: "ADDRINT list \<Rightarrow> LRU \<Rightarrow> LRU option" where
  "LRU_accesses as s = foldM (\<lambda>a s. do { (h, s) \<leftarrow> LRU_access a s; Some s }) as s"

lemma LRU_access_touch: "LRU_access = lru.touch" "LRU_accesses = lru.touches"
proof -
  show "LRU_access = lru.touch" by (intro ext) (simp add: LRU_access_def lru.touch_def)
  then show "LRU_accesses = lru.touches" by (intro ext) (simp add: LRU_accesses_def lru.touches_def)
qed

text \<open>The stack property: more ways never lose a hit.\<close>

lemma recent_ways_mono: "v \<le> w \<Longrightarrow> set (recent_ways v as) \<subseteq> set (recent_ways w as)"
proof -
  assume "v \<le> w"
  then have "min (v - length (recent as)) w = v - length (recent as)" by simp
  then have "recent_ways v as = take v (recent as @ replicate w 0)" by (simp add: recent_ways_def)
  also have "\<dots> = take v (recent_ways w as)" using \<open>v \<le> w\<close> by (simp add: recent_ways_def min_absorb1)
  finally show ?thesis by (simp add: set_take_subset)
qed

subsection \<open>A round robin set is a queue\<close>

text \<open>The tags in the order in which they will be replaced.\<close>

definition rr_queue :: "ROUND_ROBIN \<Rightarrow> ADDRINT list" where
  "rr_queue s = (let l = map tag_addr (rr_list s); k = Suc (unat (nextReplaceIndex s))
     in rev (take k l) @ rev (drop k l))"

lemma rotate_down:
  assumes "i < length l"
  shows "(let l' = l[i := a]; j = (if i = 0 then length l - 1 else i - 1) in rev (take (Suc j) l') @ rev (drop (Suc j) l')) =
    tl (rev (take (Suc i) l) @ rev (drop (Suc i) l)) @ [a]"
proof (cases i)
  case 0
  with assms obtain x xs where "l = x # xs" by (cases l) auto
  with 0 show ?thesis by simp
next
  case (Suc k)
  have "drop i (l[i := a]) = a # drop (Suc i) l"
    using assms by (simp add: drop_update_swap Cons_nth_drop_Suc [symmetric])
  moreover have "take (Suc i) l = take i l @ [l ! i]" using assms by (rule take_Suc_conv_app_nth)
  ultimately show ?thesis using Suc by simp
qed

lemma RR_Replace_queue:
  assumes "rr_inv s"
  shows "\<exists>t s'. RR_Replace a s = Some (t, s') \<and> rr_inv s' \<and> rr_queue s' = tl (rr_queue s) @ [a]"
proof -
  let ?i = "unat (nextReplaceIndex s)"
  obtain t s' where s': "RR_Replace a s = Some (t, s')" "rr_inv s'" "rr_count s' = rr_count s"
    "map tag_addr (rr_list s') = (map tag_addr (rr_list s))[?i := a]"
    "unat (nextReplaceIndex s') = (if ?i = 0 then rr_count s - 1 else ?i - 1)"
    using RR_Replace_spec [OF assms] by metis
  have len: "length (map tag_addr (rr_list s)) = rr_count s" by (simp add: rr_list_length [OF assms])
  with rr_next_below [OF assms] have "?i < length (map tag_addr (rr_list s))" by simp
  from rotate_down [OF this, of a] have "rr_queue s' = tl (rr_queue s) @ [a]"
    by (simp only: rr_queue_def Let_def s'(4,5) len)
  with s' show ?thesis by blast
qed

subsection \<open>The class CACHE\_SET\<close>

text \<open>The virtual functions dispatch on the policy of the object.\<close>

datatype CACHE_SET = Direct DIRECT_MAPPED | RoundRobin ROUND_ROBIN | Lru LRU

fun Set_Find :: "ADDRINT \<Rightarrow> CACHE_SET \<Rightarrow> (CACHE_TAG option \<times> CACHE_SET) option" where
  "Set_Find a (Direct s) = do { (r, s) \<leftarrow> DM_Find a s; Some (r, Direct s) }"
| "Set_Find a (RoundRobin s) = do { (r, s) \<leftarrow> RR_Find a s; Some (r, RoundRobin s) }"
| "Set_Find a (Lru s) = do { (r, s) \<leftarrow> LRU_Find a s; Some (r, Lru s) }"

fun Set_Replace :: "ADDRINT \<Rightarrow> CACHE_SET \<Rightarrow> (CACHE_TAG \<times> CACHE_SET) option" where
  "Set_Replace a (Direct s) = do { (t, s) \<leftarrow> DM_Replace a s; Some (t, Direct s) }"
| "Set_Replace a (RoundRobin s) = do { (t, s) \<leftarrow> RR_Replace a s; Some (t, RoundRobin s) }"
| "Set_Replace a (Lru s) = do { (t, s) \<leftarrow> LRU_Replace a s; Some (t, Lru s) }"

fun Set_Flush :: "CACHE_SET \<Rightarrow> CACHE_SET option" where
  "Set_Flush (Direct s) = map_option Direct (DM_Flush s)"
| "Set_Flush (RoundRobin s) = map_option RoundRobin (RR_Flush s)"
| "Set_Flush (Lru s) = map_option Lru (LRU_Flush s)"

text \<open>\<open>GetAssociativity\<close>; its argument is not used.\<close>

fun Set_GetAssociativity :: "CACHE_SET \<Rightarrow> u32" where
  "Set_GetAssociativity (Direct s) = 1"
| "Set_GetAssociativity (RoundRobin s) = tagsLastIndex s + 1"
| "Set_GetAssociativity (Lru s) = of_nat (length (lru_tags s))"

fun set_inv :: "CACHE_SET \<Rightarrow> bool" where
  "set_inv (Direct s) = True"
| "set_inv (RoundRobin s) = rr_inv s"
| "set_inv (Lru s) = (lru_addrs s \<noteq> [])"

fun set_resident :: "CACHE_SET \<Rightarrow> ADDRINT set" where
  "set_resident (Direct s) = {tag_addr (dm_tag s)}"
| "set_resident (RoundRobin s) = tag_addr ` set (rr_list s)"
| "set_resident (Lru s) = set (lru_addrs s)"

fun set_ways :: "CACHE_SET \<Rightarrow> nat" where
  "set_ways (Direct s) = 1"
| "set_ways (RoundRobin s) = rr_count s"
| "set_ways (Lru s) = length (lru_addrs s)"

interpretation cs: cache_set set_inv set_resident set_ways Set_Find Set_Replace Set_Flush
proof
  fix s a
  assume inv: "set_inv s"
  show "\<exists>r s'. Set_Find a s = Some (r, s') \<and> set_inv s' \<and> set_resident s' = set_resident s \<and>
      set_ways s' = set_ways s \<and> (r \<noteq> None \<longleftrightarrow> a \<in> set_resident s)"
  proof (cases s)
    case (Direct x)
    then show ?thesis using dm.find_law [OF TrueI, of a x] by (auto simp: dm_find)
  next
    case (RoundRobin x)
    then show ?thesis using RR_Find_spec [of x a] inv by auto
  next
    case (Lru x)
    then show ?thesis using lru.find_law [of x a] inv by auto
  qed
  show "\<exists>t s'. Set_Replace a s = Some (t, s') \<and> set_inv s' \<and> a \<in> set_resident s' \<and>
      set_resident s' \<subseteq> insert a (set_resident s) \<and> set_ways s' = set_ways s"
  proof (cases s)
    case (Direct x)
    then show ?thesis by (simp add: DM_Replace_def Let_def)
  next
    case (RoundRobin x)
    then show ?thesis using rr.replace_law [of x a] inv by fastforce
  next
    case (Lru x)
    then show ?thesis using lru.replace_law [of x a] inv by fastforce
  qed
  show "\<exists>s'. Set_Flush s = Some s' \<and> set_inv s' \<and> set_resident s' = {0} \<and> set_ways s' = set_ways s"
  proof (cases s)
    case (Direct x)
    then show ?thesis by (simp add: DM_Flush_def)
  next
    case (RoundRobin x)
    then show ?thesis using rr.flush_law [of x] inv by fastforce
  next
    case (Lru x)
    then show ?thesis using lru.flush_law [of x] inv by fastforce
  qed
  show "finite (set_resident s) \<and> card (set_resident s) \<le> set_ways s"
    using inv rr.ways_law lru.ways_law by (cases s) simp_all
qed

text \<open>
  The sets of a cache level: constructed for a policy, then \<open>SetAssociativity\<close> is called. An
  unknown policy name stops the constructor of the level.
\<close>

definition new_CACHE_SET :: "string \<Rightarrow> STORAGE_ptr \<Rightarrow> u32 \<Rightarrow> CACHE_SET option" where
  "new_CACHE_SET policy storage associativity =
     (if policy = ''direct_mapped'' then do {
        s \<leftarrow> new_DIRECT_MAPPED storage associativity; map_option Direct (DM_SetAssociativity associativity s) }
      else if policy = ''round_robin'' then do {
        s \<leftarrow> new_ROUND_ROBIN storage associativity; map_option RoundRobin (RR_SetAssociativity associativity s) }
      else if policy = ''lru'' then do {
        s \<leftarrow> new_LRU storage associativity; map_option Lru (LRU_SetAssociativity associativity s) }
      else None)"

lemma new_ROUND_ROBIN_spec:
  assumes "new_ROUND_ROBIN storage n = Some s" and "0 < unat n"
  shows "rr_inv s" and "map tag_addr (rr_list s) = replicate (unat n) 0" and "rr_count s = unat n"
    and "RR_SetAssociativity n s = Some s"
proof -
  have le: "unat n \<le> 32" using assms(1) by (simp add: new_ROUND_ROBIN_def MAX_ASSOCIATIVITY_def split: if_splits)
  have m1: "unat (n - 1) = unat n - 1" using assms(2) by (intro unat_minus_one) auto
  have s: "s = \<lparr>rr_tags = replicate (rr_count s) (Some (new_tag storage 0)) @ replicate (MAX_ASSOCIATIVITY - rr_count s) None,
      tagsLastIndex = n - 1, nextReplaceIndex = n - 1, rr_storage = storage\<rparr>"
    using assms(1) by (auto simp: new_ROUND_ROBIN_def rr_count_def split: if_splits)
  have last: "tagsLastIndex s = n - 1" "nextReplaceIndex s = n - 1" by (subst s, simp)+
  have "rr_count s = Suc (unat (tagsLastIndex s))"
    using le assms(2) m1 last by (intro rr_count_last) (simp add: MAX_ASSOCIATIVITY_def)
  then show c: "rr_count s = unat n" using m1 last assms(2) by simp
  have tags: "rr_tags s = replicate (unat n) (Some (new_tag storage 0)) @ replicate (MAX_ASSOCIATIVITY - unat n) None"
    by (subst s) (simp add: c)
  show "rr_inv s" using le assms(2) m1 last by (auto simp: rr_inv_def tags c MAX_ASSOCIATIVITY_def)
  show "map tag_addr (rr_list s) = replicate (unat n) 0" by (simp add: rr_list_def tags c)
  show "RR_SetAssociativity n s = Some s"
    using le last by (cases s) (simp add: RR_SetAssociativity_def MAX_ASSOCIATIVITY_def)
qed

text \<open>A fresh set satisfies the interface and holds the empty mark only.\<close>

lemma new_CACHE_SET_spec:
  assumes "new_CACHE_SET policy storage n = Some s" and "0 < unat n"
  shows "set_inv s" and "set_resident s = {0}" and "set_ways s = unat n"
proof -
  have "set_inv s \<and> set_resident s = {0} \<and> set_ways s = unat n"
  proof (cases s)
    case (Direct d)
    with assms(1) show ?thesis
      by (auto simp: new_CACHE_SET_def new_DIRECT_MAPPED_def DM_SetAssociativity_def bind_eq_Some_conv split: if_splits)
  next
    case (RoundRobin r)
    with assms(1) obtain r0 where "new_ROUND_ROBIN storage n = Some r0" "RR_SetAssociativity n r0 = Some r"
      by (auto simp: new_CACHE_SET_def bind_eq_Some_conv split: if_splits)
    with new_ROUND_ROBIN_spec [OF _ assms(2)] have "rr_inv r" "map tag_addr (rr_list r) = replicate (unat n) 0" "rr_count r = unat n"
      by auto
    moreover from this(2) have "tag_addr ` set (rr_list r) = {0}" using assms(2) by (simp flip: set_map)
    ultimately show ?thesis using RoundRobin by simp
  next
    case (Lru l)
    with assms show ?thesis
      by (auto simp: new_CACHE_SET_def new_LRU_def LRU_SetAssociativity_def lru_addrs_def fresh_tags_def
          bind_eq_Some_conv split: if_splits)
  qed
  then show "set_inv s" "set_resident s = {0}" "set_ways s = unat n" by simp_all
qed

lemma new_CACHE_SET_defined:
  assumes "0 < unat n" and "unat n \<le> 32" and "policy = ''direct_mapped'' \<and> n = 1 \<or> policy = ''round_robin'' \<or> policy = ''lru''"
  shows "new_CACHE_SET policy storage n \<noteq> None"
  using assms by (auto simp: new_CACHE_SET_def new_DIRECT_MAPPED_def DM_SetAssociativity_def new_ROUND_ROBIN_def
      RR_SetAssociativity_def new_LRU_def LRU_SetAssociativity_def MAX_ASSOCIATIVITY_def)

end
