(* ===== verification/Cache_Levels.thy ===== *)
theory Cache_Levels
  imports Cache_Sets Reuse_Trie
begin

unbundle bit_operations_syntax

text \<open>
  The cache hierarchy of \<open>PIMProfSolver/Storage.h\<close> and \<open>Storage.cpp\<close>: the levels, the split of an
  address, the access to one line through the levels, the access to a range, and the construction
  of the hierarchy from a configuration. These files are not part of the build: the members of
  \<open>CostPackage\<close> they use and the enumeration \<open>StorageLevel\<close> are commented out or missing, so the
  record \<open>CostPackage\<close> holds what \<open>Storage.cpp\<close> names, with the types of the commented
  declarations, and \<open>StorageLevel\<close> has the order that its index arithmetic forces. The parts under
  \<open>PIMPROF_MPKI\<close> and \<open>PIMPROFTRACE\<close> and the printing functions are left out. A pointer to a level
  is its place in the array \<open>_storage\<close>. Operations without a defined result are \<open>None\<close>; so are a
  cost that would be infinite and an access that does not return.
\<close>

subsection \<open>Levels\<close>

datatype StorageLevel = IL1 | DL1 | UL2 | UL3 | MEM

fun level_code :: "StorageLevel \<Rightarrow> nat" where
  "level_code IL1 = 0"
| "level_code DL1 = 1"
| "level_code UL2 = 2"
| "level_code UL3 = 3"
| "level_code MEM = 4"

type_synonym CACHE_STATS = u32

text \<open>A level is below another one when it is closer to the processor.\<close>

instantiation StorageLevel :: linorder
begin

definition less_eq_StorageLevel :: "StorageLevel \<Rightarrow> StorageLevel \<Rightarrow> bool" where
  "less_eq_StorageLevel a b \<longleftrightarrow> level_code a \<le> level_code b"

definition less_StorageLevel :: "StorageLevel \<Rightarrow> StorageLevel \<Rightarrow> bool" where
  "less_StorageLevel a b \<longleftrightarrow> level_code a < level_code b"

instance
proof
  fix a b :: StorageLevel
  assume "a \<le> b" "b \<le> a"
  then show "a = b" by (cases a; cases b) (simp_all add: less_eq_StorageLevel_def)
qed (auto simp: less_eq_StorageLevel_def less_StorageLevel_def)

end

lemma level_less_simps [simp]:
  "IL1 < MEM" "DL1 < MEM" "IL1 < UL2" "DL1 < UL2" "UL2 < UL3" "UL2 < MEM" "UL3 < MEM"
  by (simp_all add: less_StorageLevel_def)

type_synonym level_ptr = "CostSite \<times> StorageLevel"

definition STORE_ALLOCATE :: u32 where "STORE_ALLOCATE = 0"
definition STORE_NO_ALLOCATE :: u32 where "STORE_NO_ALLOCATE = 1"

text \<open>The members of \<open>CACHE_LEVEL\<close>.\<close>

record CACHE_LEVEL =
  cl_sets :: "CACHE_SET list"
  cacheSize :: u32
  lineSize :: u32
  associativity :: u32
  replacement_policy :: string
  STORE_ALLOCATION :: u32
  numberOfFlushes :: CACHE_STATS
  numberOfResets :: CACHE_STATS
  lineShift :: u32
  setIndexMask :: u32

text \<open>A level: the members of the base class, and those of \<open>CACHE_LEVEL\<close> unless it is the memory.\<close>

record STORAGE_LEVEL =
  access_count :: "ACCESS_TYPE \<Rightarrow> bool \<Rightarrow> CACHE_STATS"
  next_level :: "level_ptr option"
  hitcost :: "COST list"
  cost_site :: CostSite
  storage_level :: StorageLevel
  cache_part :: "CACHE_LEVEL option"

definition new_level :: "CostSite \<Rightarrow> StorageLevel \<Rightarrow> COST list \<Rightarrow> CACHE_LEVEL option \<Rightarrow> STORAGE_LEVEL" where
  "new_level site lvl costs part =
     \<lparr>access_count = (\<lambda>_ _. 0), next_level = None, hitcost = costs, cost_site = site,
      storage_level = lvl, cache_part = part\<rparr>"

definition Hits :: "ACCESS_TYPE \<Rightarrow> STORAGE_LEVEL \<Rightarrow> CACHE_STATS" where
  "Hits ty l = access_count l ty True"

definition Misses :: "ACCESS_TYPE \<Rightarrow> STORAGE_LEVEL \<Rightarrow> CACHE_STATS" where
  "Misses ty l = access_count l ty False"

definition Accesses :: "ACCESS_TYPE \<Rightarrow> STORAGE_LEVEL \<Rightarrow> CACHE_STATS" where
  "Accesses ty l = Hits ty l + Misses ty l"

definition SumAccess :: "bool \<Rightarrow> STORAGE_LEVEL \<Rightarrow> CACHE_STATS" where
  "SumAccess hit l = fold (\<lambda>ty sum. sum + access_count l ty hit) [ACCESS_TYPE_LOAD, ACCESS_TYPE_STORE] 0"

definition count_access :: "ACCESS_TYPE \<Rightarrow> bool \<Rightarrow> STORAGE_LEVEL \<Rightarrow> STORAGE_LEVEL" where
  "count_access ty hit l =
     l\<lparr>access_count := (access_count l)(ty := (access_count l ty)(hit := access_count l ty hit + 1))\<rparr>"

definition NumSets :: "CACHE_LEVEL \<Rightarrow> u32" where
  "NumSets c = setIndexMask c + 1"

definition SplitAddress :: "CACHE_LEVEL \<Rightarrow> ADDRINT \<Rightarrow> ADDRINT \<times> u32" where
  "SplitAddress c addr =
     (let tagaddr = drop_bit (unat (lineShift c)) addr
      in (tagaddr, ucast (tagaddr AND ucast (setIndexMask c))))"

definition SplitAddress_line :: "CACHE_LEVEL \<Rightarrow> ADDRINT \<Rightarrow> ADDRINT \<times> u32 \<times> u32" where
  "SplitAddress_line c addr =
     (let (tagaddr, setIndex) = SplitAddress c addr
      in (tagaddr, setIndex, ucast (addr AND ucast (lineSize c - 1))))"

text \<open>
  The constructor. The two counters of flushes and resets are not initialised: \<open>junk\<close>. A division
  by zero, a failed assertion and an unknown policy have no result.
\<close>

definition new_CACHE_LEVEL :: "CACHE_STATS \<Rightarrow> STORAGE_ptr \<Rightarrow> CostSite \<Rightarrow> StorageLevel \<Rightarrow> string \<Rightarrow> u32 \<Rightarrow> u32 \<Rightarrow> u32 \<Rightarrow>
    u32 \<Rightarrow> COST list \<Rightarrow> STORAGE_LEVEL option" where
  "new_CACHE_LEVEL junk storage site lvl policy cachesize linesize assoc allocation costs =
     (if assoc * linesize = 0 then None
      else let mask = cachesize div (assoc * linesize) - 1
       in if IsPower2 linesize \<and> IsPower2 (mask + 1) then do {
            sets \<leftarrow> foldM (\<lambda>_ sets. do { s \<leftarrow> new_CACHE_SET policy storage assoc; Some (sets @ [s]) })
              [0..<unat (mask + 1)] [];
            Some (new_level site lvl costs (Some
              \<lparr>cl_sets = sets, cacheSize = cachesize, lineSize = linesize, associativity = assoc,
               replacement_policy = policy, STORE_ALLOCATION = allocation, numberOfFlushes = junk,
               numberOfResets = junk, lineShift = word_of_int (FloorLog2 linesize), setIndexMask = mask\<rparr>)) }
          else None)"

definition new_MEMORY_LEVEL :: "CostSite \<Rightarrow> StorageLevel \<Rightarrow> COST list \<Rightarrow> STORAGE_LEVEL" where
  "new_MEMORY_LEVEL site lvl costs = new_level site lvl costs None"

subsection \<open>The cost package\<close>

record CostPackage =
  thread_count :: int
  inAcceleratorFunction :: bool
  bbl_parallelizable :: "bool list"
  simd_capability :: "u32 list"
  core_count :: "u32 list"
  bbl_memory_cost :: "COST list list"
  bbl_instruction_memory_cost :: "COST list list"
  tag_seg_map :: "ADDRINT \<rightharpoonup> BBLID DataReuseSegment"
  pkg_data_reuse :: "BBLID DataReuse"

text \<open>\<open>enableglobalbbl()\<close> of the command line always answers yes.\<close>

definition enableglobalbbl :: bool where "enableglobalbbl = True"

definition counts_block :: "BBLID \<Rightarrow> bool" where
  "counts_block b \<longleftrightarrow> b \<noteq> GLOBAL_BBLID \<or> enableglobalbbl"

text \<open>An ordinary instruction in a parallelizable region counts as a vector of length 1.\<close>

definition effective_simd :: "CostPackage \<Rightarrow> BBLID \<Rightarrow> u32 \<Rightarrow> u32 option" where
  "effective_simd pkg b simd_len =
     (if simd_len = 0 then
        (if inAcceleratorFunction pkg then Some 1
         else do { p \<leftarrow> vec_at (bbl_parallelizable pkg) b; Some (if p then 1 else 0) })
      else Some simd_len)"

definition site_cost :: "STORAGE_LEVEL \<Rightarrow> CostPackage \<Rightarrow> u32 \<Rightarrow> int \<Rightarrow> COST option" where
  "site_cost l pkg simd_len i = do {
     h \<leftarrow> vec_at (hitcost l) i;
     let cost = h * of_int (thread_count pkg);
     if simd_len \<noteq> 0 then do {
       cap \<leftarrow> vec_at (simd_capability pkg) i;
       multiplier \<leftarrow> (if cap < simd_len then (if cap = 0 then None else Some (sint (simd_len div cap))) else Some 1);
       cores \<leftarrow> vec_at (core_count pkg) i;
       if cores = 0 then None else Some (cost * of_int multiplier / real (unat cores)) }
     else Some cost }"

definition add_costs :: "STORAGE_LEVEL \<Rightarrow> CostPackage \<Rightarrow> u32 \<Rightarrow> BBLID \<Rightarrow> COST list list \<Rightarrow> COST list list option" where
  "add_costs l pkg simd_len b costs = foldM (\<lambda>i costs. do {
     cost \<leftarrow> site_cost l pkg simd_len i;
     row \<leftarrow> vec_at costs i; old \<leftarrow> vec_at row b; row \<leftarrow> vec_set row b (old + cost);
     vec_set costs i row }) [0, 1] costs"

definition AddMemCost :: "STORAGE_LEVEL \<Rightarrow> BBLID \<Rightarrow> u32 \<Rightarrow> CostPackage \<Rightarrow> CostPackage option" where
  "AddMemCost l b simd_len pkg =
     (if counts_block b then do {
        simd_len \<leftarrow> effective_simd pkg b simd_len;
        costs \<leftarrow> add_costs l pkg simd_len b (bbl_memory_cost pkg);
        Some (pkg\<lparr>bbl_memory_cost := costs\<rparr>) }
      else Some pkg)"

definition AddInstructionMemCost :: "STORAGE_LEVEL \<Rightarrow> BBLID \<Rightarrow> u32 \<Rightarrow> CostPackage \<Rightarrow> CostPackage option" where
  "AddInstructionMemCost l b simd_len pkg =
     (if counts_block b then do {
        simd_len \<leftarrow> effective_simd pkg b simd_len;
        costs \<leftarrow> add_costs l pkg simd_len b (bbl_instruction_memory_cost pkg);
        Some (pkg\<lparr>bbl_instruction_memory_cost := costs\<rparr>) }
      else Some pkg)"

text \<open>The reuse segment of a tag, which exists from the first use on.\<close>

definition tag_seg :: "ADDRINT \<Rightarrow> CostPackage \<Rightarrow> BBLID DataReuseSegment" where
  "tag_seg tag pkg = (case tag_seg_map pkg tag of None \<Rightarrow> new_segment | Some seg \<Rightarrow> seg)"

definition bump_count :: "int \<Rightarrow> BBLID DataReuseSegment \<Rightarrow> BBLID DataReuseSegment" where
  "bump_count threadcount seg =
     (if word_of_int threadcount > seg_count seg then seg_setCount (word_of_int threadcount) seg else seg)"

definition InsertOnHit :: "ADDRINT \<Rightarrow> ACCESS_TYPE \<Rightarrow> BBLID \<Rightarrow> CostPackage \<Rightarrow> CostPackage option" where
  "InsertOnHit tag ty b pkg =
     (if counts_block b then do {
        let seg = bump_count (thread_count pkg) (seg_insert b (tag_seg tag pkg));
        if ty = ACCESS_TYPE_STORE then do {
          dr \<leftarrow> UpdateTrie own_root seg (pkg_data_reuse pkg);
          let seg = bump_count (thread_count pkg) (seg_insert b (seg_clear seg));
          Some (pkg\<lparr>tag_seg_map := (tag_seg_map pkg)(tag \<mapsto> seg), pkg_data_reuse := dr\<rparr>) }
        else Some (pkg\<lparr>tag_seg_map := (tag_seg_map pkg)(tag \<mapsto> seg)\<rparr>) }
      else Some pkg)"

definition SplitOnMiss :: "ADDRINT \<Rightarrow> CostPackage \<Rightarrow> CostPackage option" where
  "SplitOnMiss tag pkg = do {
     let seg = tag_seg tag pkg;
     dr \<leftarrow> UpdateTrie own_root seg (pkg_data_reuse pkg);
     Some (pkg\<lparr>tag_seg_map := (tag_seg_map pkg)(tag \<mapsto> seg_clear seg), pkg_data_reuse := dr\<rparr>) }"

subsection \<open>The access to one line\<close>

record STORAGE =
  levels :: "level_ptr \<rightharpoonup> STORAGE_LEVEL"
  storage_top :: "level_ptr \<rightharpoonup> level_ptr"
  last_icacheline :: "ADDRINT list"
  cost_package :: CostPackage

definition put_level :: "level_ptr \<Rightarrow> STORAGE_LEVEL \<Rightarrow> STORAGE \<Rightarrow> STORAGE" where
  "put_level p l st = st\<lparr>levels := (levels st)(p \<mapsto> l)\<rparr>"

definition put_set :: "u32 \<Rightarrow> CACHE_SET \<Rightarrow> CACHE_LEVEL \<Rightarrow> STORAGE_LEVEL \<Rightarrow> STORAGE_LEVEL" where
  "put_set setIndex s c l = l\<lparr>cache_part := Some (c\<lparr>cl_sets := (cl_sets c)[unat setIndex := s]\<rparr>)\<rparr>"

text \<open>The memory always hits.\<close>

definition MemoryAccess :: "level_ptr \<Rightarrow> STORAGE_LEVEL \<Rightarrow> ACCESS_TYPE \<Rightarrow> BBLID \<Rightarrow> u32 \<Rightarrow> STORAGE \<Rightarrow> (bool \<times> STORAGE) option" where
  "MemoryAccess p l ty b simd_len st = do {
     pkg \<leftarrow> AddMemCost l b simd_len (cost_package st);
     Some (True, put_level p (count_access ty True l) (st\<lparr>cost_package := pkg\<rparr>)) }"

text \<open>The first half of an access to a cache: look the tag up, charge a hit, count.\<close>

definition cache_lookup :: "level_ptr \<Rightarrow> STORAGE_LEVEL \<Rightarrow> CACHE_LEVEL \<Rightarrow> ADDRINT \<Rightarrow> ACCESS_TYPE \<Rightarrow> BBLID \<Rightarrow> u32 \<Rightarrow>
    STORAGE \<Rightarrow> (bool \<times> ADDRINT \<times> STORAGE) option" where
  "cache_lookup p l c addr ty b simd_len st = do {
     let (tagaddr, setIndex) = SplitAddress c addr;
     s \<leftarrow> vec_at (cl_sets c) (int (unat setIndex));
     (tag, s) \<leftarrow> Set_Find tagaddr s;
     let hit = (tag \<noteq> None);
     pkg \<leftarrow> (if hit then do {
         pkg \<leftarrow> AddMemCost l b simd_len (cost_package st);
         if storage_level l = IL1 then AddInstructionMemCost l b simd_len pkg else Some pkg }
       else Some (cost_package st));
     Some (hit, tagaddr, put_level p (count_access ty hit (put_set setIndex s c l)) (st\<lparr>cost_package := pkg\<rparr>)) }"

text \<open>A miss that allocates: bring the tag in, and close the segment of the line before the memory.\<close>

definition cache_fill :: "level_ptr \<Rightarrow> ADDRINT \<Rightarrow> STORAGE \<Rightarrow> (level_ptr \<times> STORAGE) option" where
  "cache_fill p addr st = do {
     l \<leftarrow> levels st p; c \<leftarrow> cache_part l;
     let (tagaddr, setIndex) = SplitAddress c addr;
     s \<leftarrow> vec_at (cl_sets c) (int (unat setIndex));
     (tag, s) \<leftarrow> Set_Replace tagaddr s;
     let st = put_level p (put_set setIndex s c l) st;
     n \<leftarrow> next_level l; ln \<leftarrow> levels st n;
     h \<leftarrow> site_at (hitcost l) CPU;
     if storage_level ln = MEM \<and> h > 0 then do {
       pkg \<leftarrow> SplitOnMiss tagaddr (cost_package st);
       Some (n, st\<lparr>cost_package := pkg\<rparr>) }
     else Some (n, st) }"

definition note_hit :: "STORAGE_LEVEL \<Rightarrow> bool \<Rightarrow> ADDRINT \<Rightarrow> ACCESS_TYPE \<Rightarrow> BBLID \<Rightarrow> STORAGE \<Rightarrow> STORAGE option" where
  "note_hit l hit tagaddr ty b st = do {
     h \<leftarrow> site_at (hitcost l) CPU;
     if hit \<and> h > 0 then do {
       pkg \<leftarrow> InsertOnHit tagaddr ty b (cost_package st);
       Some (st\<lparr>cost_package := pkg\<rparr>) }
     else Some st }"

partial_function (option) AccessSingleLine :: "level_ptr \<Rightarrow> ADDRINT \<Rightarrow> ACCESS_TYPE \<Rightarrow> BBLID \<Rightarrow> u32 \<Rightarrow> STORAGE \<Rightarrow>
    (bool \<times> STORAGE) option" where
  "AccessSingleLine p addr ty b simd_len st = do {
     l \<leftarrow> levels st p;
     case cache_part l of
       None \<Rightarrow> MemoryAccess p l ty b simd_len st
     | Some c \<Rightarrow> do {
         (hit, tagaddr, st) \<leftarrow> cache_lookup p l c addr ty b simd_len st;
         st \<leftarrow> (if \<not> hit \<and> (ty = ACCESS_TYPE_LOAD \<or> STORE_ALLOCATION c = STORE_ALLOCATE) then do {
             (n, st) \<leftarrow> cache_fill p addr st;
             (h, st) \<leftarrow> AccessSingleLine n addr ty b simd_len st;
             Some st }
           else Some st);
         st \<leftarrow> note_hit l hit tagaddr ty b st;
         Some (hit, st) } }"

subsection \<open>Ranges, flushing, the two entry points\<close>

text \<open>The line size a range is cut with: the one of the cache, 64 for the memory.\<close>

definition range_line :: "STORAGE_LEVEL \<Rightarrow> ADDRINT" where
  "range_line l = (case cache_part l of Some c \<Rightarrow> ucast (lineSize c) | None \<Rightarrow> 64)"

partial_function (option) access_loop :: "level_ptr \<Rightarrow> ADDRINT \<Rightarrow> ADDRINT \<Rightarrow> ACCESS_TYPE \<Rightarrow> BBLID \<Rightarrow> u32 \<Rightarrow> ADDRINT \<Rightarrow>
    bool \<Rightarrow> STORAGE \<Rightarrow> (bool \<times> STORAGE) option" where
  "access_loop p line highAddr ty b simd_len addr allHit st = do {
     (hit, st) \<leftarrow> AccessSingleLine p addr ty b simd_len st;
     let addr = (addr AND NOT (line - 1)) + line;
     if addr < highAddr then access_loop p line highAddr ty b simd_len addr (allHit \<and> hit) st
     else Some (allHit \<and> hit, st) }"

definition Access :: "level_ptr \<Rightarrow> ADDRINT \<Rightarrow> u32 \<Rightarrow> ACCESS_TYPE \<Rightarrow> BBLID \<Rightarrow> u32 \<Rightarrow> STORAGE \<Rightarrow> (bool \<times> STORAGE) option" where
  "Access p addr sz ty b simd_len st = do {
     l \<leftarrow> levels st p;
     access_loop p (range_line l) (addr + ucast sz) ty b simd_len addr True st }"

text \<open>The loop over the sets starts at the index \<open>NumSets()\<close>.\<close>

definition CACHE_Flush :: "CACHE_LEVEL \<Rightarrow> CACHE_LEVEL option" where
  "CACHE_Flush c = do {
     sets \<leftarrow> foldM (\<lambda>index sets. do {
         s \<leftarrow> vec_at sets (int index); s \<leftarrow> Set_Flush s; vec_set sets (int index) s })
       (rev [0..<nat (sint (NumSets c) + 1)]) (cl_sets c);
     Some (c\<lparr>cl_sets := sets, numberOfFlushes := numberOfFlushes c + 1\<rparr>) }"

definition ResetStats :: "STORAGE_LEVEL \<Rightarrow> STORAGE_LEVEL" where
  "ResetStats l = l\<lparr>access_count := (\<lambda>_ _. 0),
     cache_part := map_option (\<lambda>c. c\<lparr>numberOfResets := numberOfResets c + 1\<rparr>) (cache_part l)\<rparr>"

definition sites :: "CostSite list" where "sites = [CPU, PIM]"

text \<open>An instruction fetch reads whole lines and skips the line that was read last.\<close>

definition InstrCacheRef_site :: "ADDRINT \<Rightarrow> u32 \<Rightarrow> BBLID \<Rightarrow> u32 \<Rightarrow> CostSite \<Rightarrow> STORAGE \<Rightarrow> STORAGE option" where
  "InstrCacheRef_site addr sz b simd_len i st = do {
     top \<leftarrow> storage_top st (i, IL1);
     l \<leftarrow> levels st top; c \<leftarrow> cache_part l;
     let line = ucast (lineSize c);
     let curLine = addr AND NOT (line - 1);
     let nextLine = curLine + line;
     last_line \<leftarrow> site_at (last_icacheline st) i;
     if curLine = last_line then
       (if addr + ucast sz \<ge> nextLine then do {
          (h, st) \<leftarrow> AccessSingleLine top nextLine ACCESS_TYPE_LOAD b simd_len st;
          lasts \<leftarrow> vec_set (last_icacheline st) (site_code i) nextLine;
          Some (st\<lparr>last_icacheline := lasts\<rparr>) }
        else Some st)
     else if addr + ucast sz \<ge> nextLine then do {
          (h, st) \<leftarrow> AccessSingleLine top curLine ACCESS_TYPE_LOAD b simd_len st;
          (h, st) \<leftarrow> AccessSingleLine top nextLine ACCESS_TYPE_LOAD b simd_len st;
          lasts \<leftarrow> vec_set (last_icacheline st) (site_code i) nextLine;
          Some (st\<lparr>last_icacheline := lasts\<rparr>) }
     else do {
          (h, st) \<leftarrow> AccessSingleLine top curLine ACCESS_TYPE_LOAD b simd_len st;
          lasts \<leftarrow> vec_set (last_icacheline st) (site_code i) curLine;
          Some (st\<lparr>last_icacheline := lasts\<rparr>) } }"

definition InstrCacheRef :: "ADDRINT \<Rightarrow> u32 \<Rightarrow> BBLID \<Rightarrow> u32 \<Rightarrow> STORAGE \<Rightarrow> STORAGE option" where
  "InstrCacheRef addr sz b simd_len st = foldM (InstrCacheRef_site addr sz b simd_len) sites st"

definition DataCacheRef :: "ADDRINT \<Rightarrow> u32 \<Rightarrow> ACCESS_TYPE \<Rightarrow> BBLID \<Rightarrow> u32 \<Rightarrow> STORAGE \<Rightarrow> STORAGE option" where
  "DataCacheRef addr sz ty b simd_len st = foldM (\<lambda>i st. do {
     top \<leftarrow> storage_top st (i, DL1);
     (h, st) \<leftarrow> Access top addr sz ty b simd_len st;
     Some st }) sites st"

subsection \<open>The hierarchy from a configuration\<close>

text \<open>
  What the construction uses of the configuration reader: the sections, and the values with their
  defaults. \<open>level_name\<close> builds the section name from the undeclared arrays of names.
\<close>

record ConfigReader =
  has_section :: "string \<Rightarrow> bool"
  GetInteger :: "string \<Rightarrow> string \<Rightarrow> int \<Rightarrow> int"
  GetString :: "string \<Rightarrow> string \<Rightarrow> string \<Rightarrow> string"
  GetReal :: "string \<Rightarrow> string \<Rightarrow> real \<Rightarrow> real"

definition int32 :: "int \<Rightarrow> int" where
  "int32 n = sint (word_of_int n :: u32)"

definition site_hitcost :: "CostSite \<Rightarrow> COST \<Rightarrow> COST list" where
  "site_hitcost i cost = (if i = CPU then [cost, 0] else [0, cost])"

definition set_next :: "level_ptr \<Rightarrow> level_ptr \<Rightarrow> STORAGE \<Rightarrow> STORAGE option" where
  "set_next p n st = do { l \<leftarrow> levels st p; Some (put_level p (l\<lparr>next_level := Some n\<rparr>) st) }"

definition read_level :: "ConfigReader \<Rightarrow> (CostSite \<Rightarrow> StorageLevel \<Rightarrow> string) \<Rightarrow> CACHE_STATS \<Rightarrow> STORAGE_ptr \<Rightarrow>
    CostSite \<Rightarrow> StorageLevel \<Rightarrow> int \<times> STORAGE \<Rightarrow> (int \<times> STORAGE) option" where
  "read_level reader level_name junk this i j = (\<lambda>(global_linesize, st). do {
     let name = level_name i j;
     let linesize = int32 (GetInteger reader name ''linesize'' (- 1));
     let cachesize = int32 (GetInteger reader name ''cachesize'' (- 1));
     let assoc = int32 (GetInteger reader name ''associativity'' (- 1));
     let allocation = int32 (GetInteger reader name ''allocation'' (- 1));
     let policy = GetString reader name ''policy'' '''';
     let cost = GetReal reader name ''hitcost'' (- 1);
     let g = (if global_linesize = - 1 then linesize else global_linesize);
     if linesize = - 1 \<or> cachesize = - 1 \<or> assoc = - 1 \<or> allocation = - 1 \<or> policy = '''' \<or> linesize \<noteq> g \<or> cost < 0
     then None
     else do {
       l \<leftarrow> new_CACHE_LEVEL junk this i j policy (word_of_int cachesize) (word_of_int linesize) (word_of_int assoc)
         (word_of_int allocation) (site_hitcost i cost);
       let st = put_level (i, j) l st;
       st \<leftarrow> (if j = UL2 then do { st \<leftarrow> set_next (i, IL1) (i, j) st; set_next (i, DL1) (i, j) st }
         else if j = UL3 then set_next (i, UL2) (i, j) st
         else Some st);
       Some (g, st) } })"

text \<open>The levels in order, up to the first one without a section; the last one read is reported.\<close>

fun read_levels :: "ConfigReader \<Rightarrow> (CostSite \<Rightarrow> StorageLevel \<Rightarrow> string) \<Rightarrow> CACHE_STATS \<Rightarrow> STORAGE_ptr \<Rightarrow>
    CostSite \<Rightarrow> StorageLevel list \<Rightarrow> StorageLevel option \<Rightarrow> int \<times> STORAGE \<Rightarrow> (StorageLevel option \<times> int \<times> STORAGE) option" where
  "read_levels reader level_name junk this i [] last_level s = Some (last_level, s)"
| "read_levels reader level_name junk this i (j # js) last_level s =
     (if \<not> has_section reader (level_name i j) then Some (last_level, s)
      else do {
        s \<leftarrow> read_level reader level_name junk this i j s;
        read_levels reader level_name junk this i js (Some j) s })"

definition set_top :: "level_ptr \<Rightarrow> level_ptr \<Rightarrow> STORAGE \<Rightarrow> STORAGE" where
  "set_top p t st = st\<lparr>storage_top := (storage_top st)(p \<mapsto> t)\<rparr>"

definition connect_memory :: "ConfigReader \<Rightarrow> (CostSite \<Rightarrow> StorageLevel \<Rightarrow> string) \<Rightarrow> CostSite \<Rightarrow>
    StorageLevel option \<Rightarrow> STORAGE \<Rightarrow> STORAGE option" where
  "connect_memory reader level_name i last_level st = do {
     let cost = GetReal reader (level_name i MEM) ''hitcost'' (- 1);
     if cost < 0 then None
     else do {
       let st = put_level (i, MEM) (new_MEMORY_LEVEL i MEM (site_hitcost i cost)) st;
       case last_level of
         Some DL1 \<Rightarrow> do {
           st \<leftarrow> set_next (i, IL1) (i, MEM) st; st \<leftarrow> set_next (i, DL1) (i, MEM) st;
           Some (set_top (i, DL1) (i, DL1) (set_top (i, IL1) (i, IL1) st)) }
       | Some IL1 \<Rightarrow> Some (set_top (i, DL1) (i, MEM) (set_top (i, IL1) (i, IL1) st))
       | Some l \<Rightarrow> do {
           st \<leftarrow> set_next (i, l) (i, MEM) st;
           Some (set_top (i, DL1) (i, DL1) (set_top (i, IL1) (i, IL1) st)) }
       | None \<Rightarrow> Some (set_top (i, DL1) (i, MEM) (set_top (i, IL1) (i, MEM) st)) } }"

definition ReadConfig :: "ConfigReader \<Rightarrow> (CostSite \<Rightarrow> StorageLevel \<Rightarrow> string) \<Rightarrow> CACHE_STATS \<Rightarrow> STORAGE_ptr \<Rightarrow>
    STORAGE \<Rightarrow> STORAGE option" where
  "ReadConfig reader level_name junk this st = do {
     (g, st) \<leftarrow> foldM (\<lambda>i (g, st). do {
         (last_level, g, st) \<leftarrow> read_levels reader level_name junk this i [IL1, DL1, UL2, UL3] None (g, st);
         st \<leftarrow> connect_memory reader level_name i last_level st;
         Some (g, st) }) sites (- 1, st);
     Some st }"

text \<open>The constructor of \<open>STORAGE\<close>, and \<open>initialize\<close>.\<close>

definition new_STORAGE :: "CostPackage \<Rightarrow> STORAGE" where
  "new_STORAGE pkg = \<lparr>levels = Map.empty, storage_top = Map.empty, last_icacheline = [0, 0], cost_package = pkg\<rparr>"

definition STORAGE_initialize :: "CostPackage \<Rightarrow> ConfigReader \<Rightarrow> (CostSite \<Rightarrow> StorageLevel \<Rightarrow> string) \<Rightarrow> CACHE_STATS \<Rightarrow>
    STORAGE_ptr \<Rightarrow> STORAGE \<Rightarrow> STORAGE option" where
  "STORAGE_initialize pkg reader level_name junk this st =
     ReadConfig reader level_name junk this (st\<lparr>cost_package := pkg\<rparr>)"

subsection \<open>Splitting an address\<close>

text \<open>What the constructor establishes for a cache level with at least one set.\<close>

definition cache_ok :: "CACHE_LEVEL \<Rightarrow> bool" where
  "cache_ok c \<longleftrightarrow> (\<exists>s k. s < 32 \<and> k < 32 \<and> lineSize c = 2 ^ s \<and> lineShift c = of_nat s \<and>
      setIndexMask c + 1 = 2 ^ k \<and> length (cl_sets c) = 2 ^ k) \<and> (\<forall>s \<in> set (cl_sets c). set_inv s)"

lemma unat_two_power: "k < 32 \<Longrightarrow> unat ((2 :: u32) ^ k) = 2 ^ k"
proof -
  assume "k < 32"
  then have "(2 :: nat) ^ k < 2 ^ 32" by (simp only: power_strict_increasing_iff one_less_numeral_iff semiring_norm)
  then show ?thesis using unat_of_nat [of "2 ^ k", where 'a = 32] by simp
qed

lemma mask_of_power: "k < 32 \<Longrightarrow> m + 1 = 2 ^ k \<Longrightarrow> m = (mask k :: u32)"
  by (simp add: mask_eq_exp_minus_1 eq_diff_eq)

text \<open>The tag is the number of the line, the index its remainder by the number of sets.\<close>

lemma SplitAddress_spec:
  assumes "cache_ok c" and "SplitAddress c addr = (tagaddr, setIndex)"
  shows "unat tagaddr = unat addr div unat (lineSize c)" and "unat setIndex = unat tagaddr mod length (cl_sets c)"
    and "unat setIndex < length (cl_sets c)"
proof -
  obtain s k where sk: "s < 32" "k < 32" "lineSize c = 2 ^ s" "lineShift c = of_nat s" "setIndexMask c + 1 = 2 ^ k"
    "length (cl_sets c) = 2 ^ k" using assms(1) by (auto simp: cache_ok_def)
  have shift: "unat (lineShift c) = s" using sk(1,4) unat_of_nat [of s, where 'a = 32] by simp
  have mask: "setIndexMask c = mask k" using mask_of_power [OF sk(2,5)] .
  have t: "tagaddr = drop_bit s addr" and i: "setIndex = ucast (tagaddr AND ucast (mask k :: u32))"
    using assms(2) by (auto simp: SplitAddress_def shift mask Let_def)
  show "unat tagaddr = unat addr div unat (lineSize c)"
    unfolding t unat_drop_bit_eq using sk(1,3) by (simp add: drop_bit_eq_div unat_two_power)
  have "bit setIndex j \<longleftrightarrow> bit (ucast (take_bit k tagaddr) :: u32) j" for j
    by (auto simp: i bit_ucast_iff bit_and_iff bit_mask_iff bit_take_bit_iff)
  then have "setIndex = ucast (take_bit k tagaddr)" by (simp add: bit_eq_iff)
  moreover have "unat (take_bit k tagaddr) = unat tagaddr mod 2 ^ k" unfolding unsigned_take_bit_eq by (simp add: take_bit_eq_mod)
  moreover have "unat tagaddr mod 2 ^ k < 2 ^ 32"
  proof -
    have "unat tagaddr mod 2 ^ k < 2 ^ k" by simp
    also have "(2 :: nat) ^ k \<le> 2 ^ 32" using sk(2) by (intro power_increasing) auto
    finally show ?thesis .
  qed
  ultimately show "unat setIndex = unat tagaddr mod length (cl_sets c)"
    using sk(6) by (simp add: unsigned_ucast_eq take_bit_nat_eq_self)
  then show "unat setIndex < length (cl_sets c)" using sk(6) by simp
qed

subsection \<open>Constructed levels are well formed\<close>

lemma FloorLog2_power: "s < 32 \<Longrightarrow> FloorLog2 (2 ^ s) = int s"
proof -
  assume s: "s < 32"
  then have u: "unat ((2 :: u32) ^ s) = 2 ^ s" by (rule unat_two_power)
  then have nz: "(2 :: u32) ^ s \<noteq> 0" by (metis power_eq_0_iff unat_0 zero_neq_numeral)
  note spec = FloorLog2_spec [OF nz]
  have "nat (FloorLog2 (2 ^ s)) = s" using spec(2,3) by (intro floor_log_unique [of _ "2 ^ s" s]) (simp_all add: u)
  with spec(1) show ?thesis by simp
qed

lemma new_sets_spec:
  assumes "0 < unat assoc"
    and "foldM (\<lambda>_ sets. do { s \<leftarrow> new_CACHE_SET policy storage assoc; Some (sets @ [s]) }) xs out = Some sets"
  shows "length sets = length out + length xs \<and>
    (\<forall>s \<in> set sets. s \<in> set out \<or> set_inv s \<and> set_resident s = {0} \<and> set_ways s = unat assoc)"
  using assms(2)
proof (induction xs arbitrary: out)
  case (Cons x xs)
  then obtain s where s: "new_CACHE_SET policy storage assoc = Some s"
    "foldM (\<lambda>_ sets. do { s \<leftarrow> new_CACHE_SET policy storage assoc; Some (sets @ [s]) }) xs (out @ [s]) = Some sets"
    by (auto simp: bind_eq_Some_conv)
  from Cons.IH [OF s(2)] new_CACHE_SET_spec [OF s(1) assms(1)] show ?case by auto
qed simp

lemma new_CACHE_LEVEL_spec:
  assumes new: "new_CACHE_LEVEL junk storage site lvl policy cachesize linesize assoc allocation costs = Some l"
    and big: "assoc * linesize \<le> cachesize"
  shows "\<exists>c. cache_part l = Some c \<and> cache_ok c \<and> lineSize c = linesize \<and> STORE_ALLOCATION c = allocation \<and>
      (\<forall>s \<in> set (cl_sets c). set_resident s = {0} \<and> set_ways s = unat assoc)"
    and "hitcost l = costs" and "storage_level l = lvl" and "next_level l = None" and "cost_site l = site"
proof -
  let ?q = "cachesize div (assoc * linesize)"
  have nz: "assoc * linesize \<noteq> 0" and pl: "IsPower2 linesize" and pq: "IsPower2 ?q"
    using new by (auto simp: new_CACHE_LEVEL_def Let_def split: if_splits)
  obtain sets where sets: "foldM (\<lambda>_ sets. do { s \<leftarrow> new_CACHE_SET policy storage assoc; Some (sets @ [s]) })
      [0..<unat ?q] [] = Some sets"
    and l: "l = new_level site lvl costs (Some
        \<lparr>cl_sets = sets, cacheSize = cachesize, lineSize = linesize, associativity = assoc,
         replacement_policy = policy, STORE_ALLOCATION = allocation, numberOfFlushes = junk,
         numberOfResets = junk, lineShift = word_of_int (FloorLog2 linesize), setIndexMask = ?q - 1\<rparr>)"
    using new nz pl pq by (auto simp: new_CACHE_LEVEL_def Let_def bind_eq_Some_conv)
  have "linesize \<noteq> 0" "assoc \<noteq> 0" using nz by auto
  with pl obtain s where s: "s < 32" "linesize = 2 ^ s" by (auto simp: IsPower2_iff)
  have "unat ?q \<noteq> 0"
    using big nz by (simp add: unat_div_distrib div_eq_0_iff unat_eq_zero word_le_nat_alt not_less)
  then have "?q \<noteq> 0" by auto
  with pq obtain k where k: "k < 32" "?q = 2 ^ k" by (auto simp: IsPower2_iff)
  have "0 < unat assoc" using \<open>assoc \<noteq> 0\<close> by (simp add: unat_gt_0)
  from new_sets_spec [OF this sets] have len: "length sets = 2 ^ k"
    and each: "\<forall>s \<in> set sets. set_inv s \<and> set_resident s = {0} \<and> set_ways s = unat assoc"
    using k by (auto simp: unat_two_power)
  have "(word_of_int (FloorLog2 linesize) :: u32) = of_nat s" using s by (simp add: FloorLog2_power)
  with s k len each show "\<exists>c. cache_part l = Some c \<and> cache_ok c \<and> lineSize c = linesize \<and> STORE_ALLOCATION c = allocation \<and>
      (\<forall>s \<in> set (cl_sets c). set_resident s = {0} \<and> set_ways s = unat assoc)"
    by (auto simp: l new_level_def cache_ok_def)
  show "hitcost l = costs" "storage_level l = lvl" "next_level l = None" "cost_site l = site"
    by (simp_all add: l new_level_def)
qed

subsection \<open>The package keeps its shape\<close>

definition reuse_room :: "nat \<Rightarrow> BBLID DataReuse \<Rightarrow> bool" where
  "reuse_room N dr \<longleftrightarrow> (\<exists>t. tries dr own_root = Some t \<and> trie_ok [] t \<and> (\<forall>p n. leaf_at t p = Some n \<longrightarrow> unat n \<le> N))"

lemma reuse_room_mono: "reuse_room N dr \<Longrightarrow> reuse_room (N + k) dr"
  by (meson reuse_room_def trans_le_add1)

lemma UpdateTrie_room:
  assumes room: "reuse_room N dr" and seg: "seg_ok seg" and c: "unat (seg_count seg) \<le> C" and N: "N + C < 2 ^ 64"
  shows "\<exists>dr'. UpdateTrie own_root seg dr = Some dr' \<and> reuse_room (N + C) dr'"
proof (cases "1 < seg_size seg")
  case False
  with room show ?thesis by (force simp: UpdateTrie_def reuse_room_def)
next
  case True
  obtain t where t: "tries dr own_root = Some t" "trie_ok [] t" "\<forall>p n. leaf_at t p = Some n \<longrightarrow> unat n \<le> N"
    using room by (auto simp: reuse_room_def)
  have "seg_set seg \<noteq> []" using True by (auto simp: seg_size_def)
  with seg obtain h where h: "seg_head seg = Some h" by (auto simp: seg_ok_def)
  let ?path = "seg_set seg @ [h]"
  have path: "seg_path ([] @ ?path)" using seg_path_of_seg [OF seg True h] by simp
  let ?old = "case leaf_at t ?path of None \<Rightarrow> 0 | Some n \<Rightarrow> n"
  have old: "unat ?old \<le> N" using t(3) by (auto split: option.splits)
  with c N have fits: "unat ?old + unat (seg_count seg) < 2 ^ 64" by linarith
  obtain t' where t': "trie_update ?path (seg_count seg) t = Some t'"
    using trie_update_defined [OF t(2) path fits] by blast
  have "unat (?old + seg_count seg) = unat ?old + unat (seg_count seg)" using fits by (simp add: unat_word_ariths)
  then have "\<forall>p n. leaf_at t' p = Some n \<longrightarrow> unat n \<le> N + C"
    using t(3) old c leaf_at_update [OF t(2) path t'] by (auto split: if_splits intro: trans_le_add1)
  then have "reuse_room (N + C) (dr\<lparr>tries := (tries dr)(own_root \<mapsto> t'),
      leaves := (if node_at t ?path = None then leaves dr @ [(own_root, ?path)] else leaves dr)\<rparr>)"
    using trie_ok_update [OF t(2) path t'] by (simp add: reuse_room_def)
  with True t(1) h t' show ?thesis by (simp add: UpdateTrie_def Let_def)
qed

text \<open>
  \<open>B\<close> blocks, \<open>T\<close> the larger of 1 and the number of threads, no counter of the reuse trie above
  \<open>N\<close>.
\<close>

definition package_ok :: "nat \<Rightarrow> nat \<Rightarrow> nat \<Rightarrow> CostPackage \<Rightarrow> bool" where
  "package_ok B T N pkg \<longleftrightarrow>
     0 \<le> thread_count pkg \<and> thread_count pkg < 2 ^ 31 \<and> max 1 (nat (thread_count pkg)) \<le> T \<and>
     length (simd_capability pkg) = 2 \<and> 0 \<notin> set (simd_capability pkg) \<and>
     length (core_count pkg) = 2 \<and> 0 \<notin> set (core_count pkg) \<and> length (bbl_parallelizable pkg) = B \<and>
     length (bbl_memory_cost pkg) = 2 \<and> (\<forall>row \<in> set (bbl_memory_cost pkg). length row = B) \<and>
     length (bbl_instruction_memory_cost pkg) = 2 \<and> (\<forall>row \<in> set (bbl_instruction_memory_cost pkg). length row = B) \<and>
     (\<forall>tag seg. tag_seg_map pkg tag = Some seg \<longrightarrow> seg_ok seg \<and> unat (seg_count seg) \<le> T) \<and>
     reuse_room N (pkg_data_reuse pkg)"

lemma two_list: "length xs = 2 \<Longrightarrow> \<exists>a b. xs = [a, b]"
  by (auto simp: numeral_2_eq_2 length_Suc_conv)

lemma site_cost_defined:
  assumes "package_ok B T N pkg" and "length (hitcost l) = 2" and "i \<in> {0, 1}"
  shows "\<exists>c. site_cost l pkg simd_len i = Some c"
proof -
  obtain h1 h2 c1 c2 k1 k2 where "hitcost l = [h1, h2]" "simd_capability pkg = [c1, c2]" "core_count pkg = [k1, k2]"
    using assms two_list unfolding package_ok_def by metis
  moreover from this assms(1) have "c1 \<noteq> 0" "c2 \<noteq> 0" "k1 \<noteq> 0" "k2 \<noteq> 0" by (auto simp: package_ok_def)
  ultimately show ?thesis using assms(3) by (auto simp: site_cost_def vec_at_def Let_def)
qed

lemma add_costs_defined:
  assumes pkg: "package_ok B T N pkg" and l: "length (hitcost l) = 2" and b: "0 \<le> b" "b < int B"
    and costs: "length costs = 2" "\<forall>row \<in> set costs. length row = B"
  shows "\<exists>costs'. add_costs l pkg simd_len b costs = Some costs' \<and> length costs' = 2 \<and> (\<forall>row \<in> set costs'. length row = B)"
  unfolding add_costs_def
proof (rule foldM_defined [where P = "\<lambda>costs. length costs = 2 \<and> (\<forall>row \<in> set costs. length row = B)"], goal_cases)
  case (2 i t)
  then have i: "i \<in> {0, 1}" "0 \<le> i" "i < int (length t)" by auto
  obtain cost where cost: "site_cost l pkg simd_len i = Some cost" using site_cost_defined [OF pkg l i(1)] by blast
  have "nat i < length t" using i(2,3) by (simp add: nat_less_iff)
  then have row: "length (t ! nat i) = B" using 2 nth_mem by blast
  let ?row = "(t ! nat i)[nat b := t ! nat i ! nat b + cost]"
  have sub: "set (t[nat i := ?row]) \<subseteq> insert ?row (set t)" by (rule set_update_subset_insert)
  have all: "\<forall>r \<in> set (t[nat i := ?row]). length r = B"
  proof
    fix r assume "r \<in> set (t[nat i := ?row])"
    with sub consider "r = ?row" | "r \<in> set t" by blast
    then show "length r = B" by cases (simp add: row, use 2 in blast)
  qed
  have "vec_at t i = Some (t ! nat i)" "vec_at (t ! nat i) b = Some (t ! nat i ! nat b)"
    "vec_set (t ! nat i) b (t ! nat i ! nat b + cost) = Some ?row" "vec_set t i ?row = Some (t[nat i := ?row])"
    using i b row by (simp_all add: vec_at_in_range vec_set_in_range)
  with 2 cost all show ?case by simp
qed (use costs in simp)

lemma effective_simd_defined:
  "package_ok B T N pkg \<Longrightarrow> 0 \<le> b \<Longrightarrow> b < int B \<Longrightarrow> \<exists>n. effective_simd pkg b simd_len = Some n"
  by (auto simp: effective_simd_def package_ok_def vec_at_in_range)

lemma AddMemCost_ok:
  assumes "package_ok B T N pkg" and "length (hitcost l) = 2" and "0 \<le> b" "b < int B"
  shows "\<exists>pkg'. AddMemCost l b simd_len pkg = Some pkg' \<and> package_ok B T N pkg'"
    and "\<exists>pkg'. AddInstructionMemCost l b simd_len pkg = Some pkg' \<and> package_ok B T N pkg'"
proof -
  obtain n where n: "effective_simd pkg b simd_len = Some n" using effective_simd_defined [OF assms(1,3,4)] by blast
  obtain c1 where "add_costs l pkg n b (bbl_memory_cost pkg) = Some c1" "length c1 = 2" "\<forall>row \<in> set c1. length row = B"
    using add_costs_defined [OF assms, of "bbl_memory_cost pkg" n] assms(1) by (auto simp: package_ok_def)
  with n assms(1) show "\<exists>pkg'. AddMemCost l b simd_len pkg = Some pkg' \<and> package_ok B T N pkg'"
    by (simp add: AddMemCost_def package_ok_def)
  obtain c2 where "add_costs l pkg n b (bbl_instruction_memory_cost pkg) = Some c2" "length c2 = 2" "\<forall>row \<in> set c2. length row = B"
    using add_costs_defined [OF assms, of "bbl_instruction_memory_cost pkg" n] assms(1) by (auto simp: package_ok_def)
  with n assms(1) show "\<exists>pkg'. AddInstructionMemCost l b simd_len pkg = Some pkg' \<and> package_ok B T N pkg'"
    by (simp add: AddInstructionMemCost_def package_ok_def)
qed

definition small_seg :: "nat \<Rightarrow> BBLID DataReuseSegment \<Rightarrow> bool" where
  "small_seg T seg \<longleftrightarrow> seg_ok seg \<and> unat (seg_count seg) \<le> T"

lemma package_seg:
  "package_ok B T N pkg \<Longrightarrow> small_seg T (tag_seg tag pkg)"
  "package_ok B T N pkg \<Longrightarrow> small_seg T seg \<Longrightarrow> reuse_room M dr \<Longrightarrow>
   package_ok B T M (pkg\<lparr>tag_seg_map := (tag_seg_map pkg)(tag \<mapsto> seg), pkg_data_reuse := dr\<rparr>)"
  by (auto simp: package_ok_def small_seg_def tag_seg_def new_segment_def seg_ok_def split: option.splits)

lemma small_seg_steps:
  assumes "package_ok B T N pkg" and "small_seg T seg"
  shows "small_seg T (bump_count (thread_count pkg) seg)" and "small_seg T (seg_insert b seg)" and "small_seg T (seg_clear seg)"
proof -
  have t: "0 \<le> thread_count pkg" "thread_count pkg < 2 ^ 31" "max 1 (nat (thread_count pkg)) \<le> T"
    using assms(1) by (simp_all add: package_ok_def)
  have "unat (word_of_int (thread_count pkg) :: u64) = nat (thread_count pkg)"
    using t(1,2) by (simp add: unat_eq_nat_uint uint_word_of_int)
  with t(3) assms(2) show "small_seg T (bump_count (thread_count pkg) seg)"
    by (auto simp: bump_count_def small_seg_def) (simp add: seg_setCount_def)
  show "small_seg T (seg_insert b seg)" using assms(2) by (auto simp: small_seg_def seg_insert_def seg_ok_def)
  show "small_seg T (seg_clear seg)" using t(3) by (auto simp: small_seg_def) (auto simp: seg_clear_def)
qed

lemma InsertOnHit_ok:
  assumes pkg: "package_ok B T N pkg" and N: "N + T < 2 ^ 64"
  shows "\<exists>pkg'. InsertOnHit tag ty b pkg = Some pkg' \<and> package_ok B T (N + T) pkg'"
proof -
  let ?seg = "bump_count (thread_count pkg) (seg_insert b (tag_seg tag pkg))"
  note step = small_seg_steps [OF pkg]
  have seg: "small_seg T ?seg" by (rule step(1) [OF step(2) [OF package_seg(1) [OF pkg]]])
  have seg2: "small_seg T (bump_count (thread_count pkg) (seg_insert b (seg_clear ?seg)))"
    by (rule step(1) [OF step(2) [OF step(3) [OF seg]]])
  have room: "reuse_room N (pkg_data_reuse pkg)" using pkg by (simp add: package_ok_def)
  then have more: "reuse_room (N + T) (pkg_data_reuse pkg)" by (rule reuse_room_mono)
  obtain dr where dr: "UpdateTrie own_root ?seg (pkg_data_reuse pkg) = Some dr" "reuse_room (N + T) dr"
    using UpdateTrie_room [OF room _ _ N, of ?seg] seg by (auto simp: small_seg_def)
  have "counts_block b" by (simp add: counts_block_def enableglobalbbl_def)
  with dr package_seg(2) [OF pkg seg2 dr(2)] package_seg(2) [OF pkg seg more] show ?thesis
    by (cases ty) (simp_all add: InsertOnHit_def Let_def)
qed

lemma SplitOnMiss_ok:
  assumes pkg: "package_ok B T N pkg" and N: "N + T < 2 ^ 64"
  shows "\<exists>pkg'. SplitOnMiss tag pkg = Some pkg' \<and> package_ok B T (N + T) pkg'"
proof -
  let ?seg = "tag_seg tag pkg"
  have seg: "small_seg T ?seg" by (rule package_seg [OF pkg])
  have room: "reuse_room N (pkg_data_reuse pkg)" using pkg by (simp add: package_ok_def)
  obtain dr where dr: "UpdateTrie own_root ?seg (pkg_data_reuse pkg) = Some dr" "reuse_room (N + T) dr"
    using UpdateTrie_room [OF room _ _ N, of ?seg] seg by (auto simp: small_seg_def)
  with package_seg(2) [OF pkg small_seg_steps(3) [OF pkg seg] dr(2)] show ?thesis by (simp add: SplitOnMiss_def Let_def)
qed

lemma package_ok_mono: "package_ok B T N pkg \<Longrightarrow> package_ok B T (N + k) pkg"
  using reuse_room_mono by (auto simp: package_ok_def)

subsection \<open>The access to one line, verified\<close>

text \<open>The set of a line in a cache, and whether the line is in it.\<close>

definition set_of :: "CACHE_LEVEL \<Rightarrow> ADDRINT \<Rightarrow> CACHE_SET" where
  "set_of c addr = cl_sets c ! unat (snd (SplitAddress c addr))"

definition line_in :: "CACHE_LEVEL \<Rightarrow> ADDRINT \<Rightarrow> bool" where
  "line_in c addr \<longleftrightarrow> fst (SplitAddress c addr) \<in> set_resident (set_of c addr)"

definition level_ok :: "level_ptr \<Rightarrow> STORAGE_LEVEL \<Rightarrow> bool" where
  "level_ok p l \<longleftrightarrow> length (hitcost l) = 2 \<and> storage_level l = snd p \<and>
     (case cache_part l of None \<Rightarrow> snd p = MEM | Some c \<Rightarrow> snd p \<noteq> MEM \<and> cache_ok c)"

text \<open>Every cache points to a level further down.\<close>

definition points_down :: "STORAGE \<Rightarrow> level_ptr \<Rightarrow> STORAGE_LEVEL \<Rightarrow> bool" where
  "points_down st p l \<longleftrightarrow> (cache_part l \<noteq> None \<longrightarrow>
     (\<exists>n. next_level l = Some n \<and> levels st n \<noteq> None \<and> snd p < snd n))"

definition hierarchy_ok :: "STORAGE \<Rightarrow> bool" where
  "hierarchy_ok st \<longleftrightarrow> (\<forall>p l. levels st p = Some l \<longrightarrow> level_ok p l \<and> points_down st p l)"

lemma hierarchy_put:
  assumes "hierarchy_ok st" and "levels st p = Some l" and "level_ok p l'" and "next_level l' = next_level l"
  shows "hierarchy_ok (put_level p l' st)"
proof -
  have old: "level_ok p l" "points_down st p l" using assms(1,2) unfolding hierarchy_ok_def by blast+
  have none: "cache_part l' = None \<longleftrightarrow> cache_part l = None"
    using assms(3) old(1) by (auto simp: level_ok_def split: option.splits)
  have dom: "levels (put_level p l' st) n \<noteq> None \<longleftrightarrow> levels st n \<noteq> None" for n
    using assms(2) by (simp add: put_level_def)
  have down: "points_down (put_level p l' st) q m = points_down st q m" for q m
    unfolding points_down_def dom ..
  have down': "points_down st p l'" using old(2) unfolding points_down_def none assms(4) .
  show ?thesis
    unfolding hierarchy_ok_def down
  proof (intro allI impI)
    fix q m assume "levels (put_level p l' st) q = Some m"
    then consider "q = p" "m = l'" | "levels st q = Some m"
      unfolding put_level_def by (cases "q = p") simp_all
    then show "level_ok q m \<and> points_down st q m"
    proof cases
      case 1
      with assms(3) down' show ?thesis by simp
    next
      case 2
      with assms(1) show ?thesis unfolding hierarchy_ok_def by blast
    qed
  qed
qed

lemma hitcost_CPU: "length xs = 2 \<Longrightarrow> site_at xs CPU = Some (xs ! 0)"
  by (auto simp: site_at_def vec_at_def)

lemma hierarchy_package [simp]: "hierarchy_ok (st\<lparr>cost_package := pkg\<rparr>) = hierarchy_ok st"
  by (simp add: hierarchy_ok_def points_down_def)

definition write_set :: "CACHE_LEVEL \<Rightarrow> ADDRINT \<Rightarrow> CACHE_SET \<Rightarrow> CACHE_LEVEL" where
  "write_set c addr s = c\<lparr>cl_sets := (cl_sets c)[unat (snd (SplitAddress c addr)) := s]\<rparr>"

lemma write_set_ok:
  assumes "cache_ok c" and "set_inv s"
  shows "cache_ok (write_set c addr s)" and "set_of (write_set c addr s) addr = s"
    and "SplitAddress (write_set c addr s) = SplitAddress c" and "STORE_ALLOCATION (write_set c addr s) = STORE_ALLOCATION c"
proof -
  have i: "unat (snd (SplitAddress c addr)) < length (cl_sets c)"
    using SplitAddress_spec(3) [OF assms(1), of addr] by (metis prod.collapse)
  have "set ((cl_sets c)[unat (snd (SplitAddress c addr)) := s]) \<subseteq> insert s (set (cl_sets c))"
    by (rule set_update_subset_insert)
  with assms show "cache_ok (write_set c addr s)" unfolding cache_ok_def write_set_def by auto
  show split: "SplitAddress (write_set c addr s) = SplitAddress c" by (simp add: fun_eq_iff SplitAddress_def write_set_def)
  show "set_of (write_set c addr s) addr = s" unfolding set_of_def split using i by (simp add: write_set_def)
  show "STORE_ALLOCATION (write_set c addr s) = STORE_ALLOCATION c" by (simp add: write_set_def)
qed

lemma set_of_ok:
  assumes "cache_ok c"
  shows "set_inv (set_of c addr)" and "vec_at (cl_sets c) (int (unat (snd (SplitAddress c addr)))) = Some (set_of c addr)"
proof -
  have i: "unat (snd (SplitAddress c addr)) < length (cl_sets c)"
    using SplitAddress_spec(3) [OF assms, of addr] by (metis prod.collapse)
  then have "set_of c addr \<in> set (cl_sets c)" by (simp add: set_of_def)
  with assms show "set_inv (set_of c addr)" by (simp add: cache_ok_def)
  show "vec_at (cl_sets c) (int (unat (snd (SplitAddress c addr)))) = Some (set_of c addr)"
    using i by (simp add: vec_at_int set_of_def)
qed

lemma cache_lookup_spec:
  assumes h: "hierarchy_ok st" and pkg: "package_ok B T N (cost_package st)" and b: "0 \<le> b" "b < int B"
    and l: "levels st p = Some l" "cache_part l = Some c"
  shows "\<exists>s pkg'. cache_lookup p l c addr ty b simd_len st =
      Some (line_in c addr, fst (SplitAddress c addr),
        put_level p (count_access ty (line_in c addr) (l\<lparr>cache_part := Some (write_set c addr s)\<rparr>)) (st\<lparr>cost_package := pkg'\<rparr>)) \<and>
    set_inv s \<and> set_resident s = set_resident (set_of c addr) \<and> package_ok B T N pkg'"
proof -
  have ok: "cache_ok c" "length (hitcost l) = 2"
    using h l unfolding hierarchy_ok_def level_ok_def by fastforce+
  obtain r s where s: "Set_Find (fst (SplitAddress c addr)) (set_of c addr) = Some (r, s)" "set_inv s"
    "set_resident s = set_resident (set_of c addr)" "r \<noteq> None \<longleftrightarrow> line_in c addr"
    using cs.find_law [OF set_of_ok(1) [OF ok(1)]] unfolding line_in_def by blast
  obtain p1 where p1: "AddMemCost l b simd_len (cost_package st) = Some p1" "package_ok B T N p1"
    using AddMemCost_ok(1) [OF pkg ok(2) b] by blast
  obtain p2 where p2: "AddInstructionMemCost l b simd_len p1 = Some p2" "package_ok B T N p2"
    using AddMemCost_ok(2) [OF p1(2) ok(2) b] by blast
  define pkg' where "pkg' = (if line_in c addr then if storage_level l = IL1 then p2 else p1 else cost_package st)"
  have "package_ok B T N pkg'" using p1 p2 pkg by (simp add: pkg'_def)
  moreover have "cache_lookup p l c addr ty b simd_len st =
      Some (line_in c addr, fst (SplitAddress c addr),
        put_level p (count_access ty (line_in c addr) (l\<lparr>cache_part := Some (write_set c addr s)\<rparr>)) (st\<lparr>cost_package := pkg'\<rparr>))"
    using s p1 p2 set_of_ok(2) [OF ok(1), of addr]
    by (simp add: cache_lookup_def case_prod_beta Let_def pkg'_def put_set_def write_set_def)
  ultimately show ?thesis using s by blast
qed

lemma count_access_simps [simp]:
  "cache_part (count_access ty hit l) = cache_part l" "next_level (count_access ty hit l) = next_level l"
  "hitcost (count_access ty hit l) = hitcost l" "storage_level (count_access ty hit l) = storage_level l"
  "level_ok p (count_access ty hit l) = level_ok p l"
  by (simp_all add: count_access_def level_ok_def)

lemma put_level_simps [simp]:
  "levels (put_level p l st) = (levels st)(p \<mapsto> l)" "cost_package (put_level p l st) = cost_package st"
  "storage_top (put_level p l st) = storage_top st" "last_icacheline (put_level p l st) = last_icacheline st"
  by (simp_all add: put_level_def)

lemma level_ok_write:
  "level_ok p l \<Longrightarrow> cache_part l = Some c \<Longrightarrow> set_inv s \<Longrightarrow> level_ok p (l\<lparr>cache_part := Some (write_set c addr s)\<rparr>)"
  using write_set_ok(1) by (auto simp: level_ok_def)

lemma cache_fill_spec:
  assumes h: "hierarchy_ok st" and pkg: "package_ok B T N (cost_package st)" and N: "N + T < 2 ^ 64"
    and l: "levels st p = Some l" "cache_part l = Some c"
  shows "\<exists>n s pkg' ln. cache_fill p addr st =
      Some (n, put_level p (l\<lparr>cache_part := Some (write_set c addr s)\<rparr>) (st\<lparr>cost_package := pkg'\<rparr>)) \<and>
    set_inv s \<and> fst (SplitAddress c addr) \<in> set_resident s \<and>
    set_resident s \<subseteq> insert (fst (SplitAddress c addr)) (set_resident (set_of c addr)) \<and>
    next_level l = Some n \<and> levels st n = Some ln \<and> snd p < snd n \<and>
    package_ok B T (if storage_level ln = MEM then N + T else N) pkg'"
proof -
  have ok: "cache_ok c" "length (hitcost l) = 2" and down: "points_down st p l"
    using h l unfolding hierarchy_ok_def level_ok_def by fastforce+
  obtain n ln where n: "next_level l = Some n" "levels st n = Some ln" "snd p < snd n"
    using down l(2) by (auto simp: points_down_def)
  then have np: "n \<noteq> p" by auto
  obtain t s where s: "Set_Replace (fst (SplitAddress c addr)) (set_of c addr) = Some (t, s)" "set_inv s"
    "fst (SplitAddress c addr) \<in> set_resident s"
    "set_resident s \<subseteq> insert (fst (SplitAddress c addr)) (set_resident (set_of c addr))"
    using cs.replace_law [OF set_of_ok(1) [OF ok(1)]] by blast
  obtain p1 where p1: "SplitOnMiss (fst (SplitAddress c addr)) (cost_package st) = Some p1" "package_ok B T (N + T) p1"
    using SplitOnMiss_ok [OF pkg N] by blast
  define pkg' where "pkg' = (if storage_level ln = MEM \<and> hitcost l ! 0 > 0 then p1 else cost_package st)"
  have "package_ok B T (if storage_level ln = MEM then N + T else N) pkg'"
    using p1 pkg package_ok_mono [OF pkg] by (simp add: pkg'_def)
  moreover have "cache_fill p addr st =
      Some (n, put_level p (l\<lparr>cache_part := Some (write_set c addr s)\<rparr>) (st\<lparr>cost_package := pkg'\<rparr>))"
    using s(1) p1(1) n np l ok(2) set_of_ok(2) [OF ok(1), of addr]
    by (simp add: cache_fill_def case_prod_beta Let_def pkg'_def put_set_def write_set_def hitcost_CPU put_level_def)
  ultimately show ?thesis using s n by blast
qed

text \<open>The line is present at a level; the memory holds every line.\<close>

definition holds :: "STORAGE \<Rightarrow> level_ptr \<Rightarrow> ADDRINT \<Rightarrow> bool" where
  "holds st p addr \<longleftrightarrow> (\<exists>l. levels st p = Some l \<and>
     (case cache_part l of None \<Rightarrow> True | Some c \<Rightarrow> line_in c addr))"

text \<open>
  What one access does: the hierarchy stays well formed, the levels above and beside are not
  touched, the counter of the outcome grows by one, a hit or an allocating miss leaves the line
  present, and such a miss leaves it present one level further down as well.
\<close>

definition access_post :: "nat \<Rightarrow> nat \<Rightarrow> nat \<Rightarrow> level_ptr \<Rightarrow> ADDRINT \<Rightarrow> ACCESS_TYPE \<Rightarrow> STORAGE_LEVEL \<Rightarrow> STORAGE \<Rightarrow> STORAGE \<Rightarrow> bool" where
  "access_post B T N p addr ty l st st' \<longleftrightarrow>
     hierarchy_ok st' \<and> package_ok B T N (cost_package st') \<and> dom (levels st') = dom (levels st) \<and>
     (\<forall>q. snd q \<le> snd p \<longrightarrow> q \<noteq> p \<longrightarrow> levels st' q = levels st q) \<and>
     storage_top st' = storage_top st \<and> last_icacheline st' = last_icacheline st \<and>
     (\<exists>l'. levels st' p = Some l' \<and> next_level l' = next_level l \<and> range_line l' = range_line l \<and>
        access_count l' = access_count (count_access ty (holds st p addr) l)) \<and>
     (holds st p addr \<or> ty = ACCESS_TYPE_LOAD \<longrightarrow> holds st' p addr) \<and>
     (\<not> holds st p addr \<longrightarrow> ty = ACCESS_TYPE_LOAD \<longrightarrow> (\<forall>n. next_level l = Some n \<longrightarrow> holds st' n addr))"

lemma range_line_write [simp]:
  "cache_part l = Some c \<Longrightarrow> range_line (l\<lparr>cache_part := Some (write_set c addr s)\<rparr>) = range_line l"
  "range_line (count_access ty hit l) = range_line l"
  by (simp_all add: range_line_def write_set_def count_access_def)

lemma MemoryAccess_spec:
  assumes h: "hierarchy_ok st" and pkg: "package_ok B T N (cost_package st)" and b: "0 \<le> b" "b < int B"
    and l: "levels st p = Some l" "cache_part l = None"
  shows "\<exists>st'. MemoryAccess p l ty b simd_len st = Some (True, st') \<and> access_post B T N p addr ty l st st'"
proof -
  have ok: "level_ok p l" using h l(1) unfolding hierarchy_ok_def by blast
  then have "length (hitcost l) = 2" by (simp add: level_ok_def)
  from AddMemCost_ok(1) [OF pkg this b] obtain pkg' where
    pkg': "AddMemCost l b simd_len (cost_package st) = Some pkg'" "package_ok B T N pkg'" by blast
  let ?st = "put_level p (count_access ty True l) (st\<lparr>cost_package := pkg'\<rparr>)"
  have "hierarchy_ok ?st" by (rule hierarchy_put [where l = l]) (use h l ok in simp_all)
  then have "access_post B T N p addr ty l st ?st"
    using l pkg'(2) by (auto simp: access_post_def holds_def)
  with pkg' show ?thesis by (simp add: MemoryAccess_def)
qed

lemma note_hit_spec:
  assumes pkg: "package_ok B T N (cost_package st)" and N: "N + T < 2 ^ 64" and l: "length (hitcost l) = 2"
  shows "\<exists>pkg'. note_hit l hit tagaddr ty b st = Some (st\<lparr>cost_package := pkg'\<rparr>) \<and> package_ok B T (N + T) pkg' \<and>
    (\<not> hit \<longrightarrow> pkg' = cost_package st)"
proof (cases "hit \<and> hitcost l ! 0 > 0")
  case True
  then show ?thesis using InsertOnHit_ok [OF pkg N, of tagaddr ty b] by (auto simp: note_hit_def hitcost_CPU [OF l])
next
  case False
  then have "note_hit l hit tagaddr ty b st = Some (st\<lparr>cost_package := cost_package st\<rparr>)"
    by (auto simp: note_hit_def hitcost_CPU [OF l])
  then show ?thesis using package_ok_mono [OF pkg, of T] by blast
qed

lemma note_hit_miss: "length (hitcost l) = 2 \<Longrightarrow> note_hit l False tagaddr ty b st = Some st"
  by (simp add: note_hit_def hitcost_CPU)

lemma holds_cache: "levels st p = Some l \<Longrightarrow> cache_part l = Some c \<Longrightarrow> holds st p addr = line_in c addr"
  by (simp add: holds_def)

lemma line_in_write:
  "cache_ok c \<Longrightarrow> set_inv s \<Longrightarrow> line_in (write_set c addr s) addr \<longleftrightarrow> fst (SplitAddress c addr) \<in> set_resident s"
  by (simp add: line_in_def write_set_ok)

lemma holds_package [simp]: "holds (st\<lparr>cost_package := pkg\<rparr>) p addr = holds st p addr"
  by (simp add: holds_def)

lemma holds_levels: "levels st p = levels st' p \<Longrightarrow> holds st p addr = holds st' p addr"
  by (simp add: holds_def)

text \<open>One level has been rewritten in place, with the same line to the next level.\<close>

definition replaced :: "level_ptr \<Rightarrow> STORAGE_LEVEL \<Rightarrow> STORAGE_LEVEL \<Rightarrow> STORAGE \<Rightarrow> STORAGE \<Rightarrow> bool" where
  "replaced p l l' st st' \<longleftrightarrow> hierarchy_ok st' \<and> levels st' = (levels st)(p \<mapsto> l') \<and>
     storage_top st' = storage_top st \<and> last_icacheline st' = last_icacheline st \<and>
     level_ok p l' \<and> next_level l' = next_level l \<and> range_line l' = range_line l \<and> hitcost l' = hitcost l"

lemma replaced_put:
  assumes "hierarchy_ok st" and "levels st p = Some l" and "level_ok p l'" and "next_level l' = next_level l"
    and "range_line l' = range_line l" and "hitcost l' = hitcost l"
  shows "replaced p l l' st (put_level p l' (st\<lparr>cost_package := pkg\<rparr>))"
  unfolding replaced_def by (intro conjI hierarchy_put [where l = l]) (use assms in simp_all)

lemma replaced_trans: "replaced p l l1 st st1 \<Longrightarrow> replaced p l1 l2 st1 st2 \<Longrightarrow> replaced p l l2 st st2"
  by (simp add: replaced_def)

lemma lookup_replaced:
  assumes h: "hierarchy_ok st" and pkg: "package_ok B T N (cost_package st)" and b: "0 \<le> b" "b < int B"
    and l: "levels st p = Some l" "cache_part l = Some c"
  obtains l1 c1 st1 where "cache_lookup p l c addr ty b simd_len st = Some (line_in c addr, fst (SplitAddress c addr), st1)"
    "replaced p l l1 st st1" "package_ok B T N (cost_package st1)" "cache_part l1 = Some c1" "line_in c1 addr = line_in c addr"
    "access_count l1 = access_count (count_access ty (line_in c addr) l)"
proof -
  have ok: "level_ok p l" using h l unfolding hierarchy_ok_def by blast
  then have c: "cache_ok c" using l(2) by (auto simp: level_ok_def)
  obtain s pkg1 where look: "cache_lookup p l c addr ty b simd_len st =
      Some (line_in c addr, fst (SplitAddress c addr),
        put_level p (count_access ty (line_in c addr) (l\<lparr>cache_part := Some (write_set c addr s)\<rparr>)) (st\<lparr>cost_package := pkg1\<rparr>))"
    "set_inv s" "set_resident s = set_resident (set_of c addr)" "package_ok B T N pkg1"
    using cache_lookup_spec [OF h pkg b l] by blast
  let ?l1 = "count_access ty (line_in c addr) (l\<lparr>cache_part := Some (write_set c addr s)\<rparr>)"
  have l1: "level_ok p ?l1" "next_level ?l1 = next_level l" "range_line ?l1 = range_line l" "hitcost ?l1 = hitcost l"
    using level_ok_write [OF ok l(2) look(2)] l(2) by simp_all
  have "line_in (write_set c addr s) addr = line_in c addr"
    using look(3) line_in_write [OF c look(2), of addr] by (simp add: line_in_def)
  moreover note replaced_put [OF h l(1) l1, of pkg1]
  ultimately show thesis using that [OF look(1)] look(4) by (simp add: count_access_def)
qed

lemma fill_replaced:
  assumes h: "hierarchy_ok st" and pkg: "package_ok B T N (cost_package st)" and N: "N + T < 2 ^ 64"
    and l: "levels st p = Some l" "cache_part l = Some c"
  obtains n nl l1 c1 st1 where "cache_fill p addr st = Some (n, st1)" "replaced p l l1 st st1" "cache_part l1 = Some c1"
    "line_in c1 addr" "access_count l1 = access_count l" "next_level l = Some n" "levels st1 n = Some nl" "snd p < snd n"
    "package_ok B T (if cache_part nl = None then N + T else N) (cost_package st1)"
proof -
  have ok: "level_ok p l" using h l unfolding hierarchy_ok_def by blast
  then have c: "cache_ok c" using l(2) by (auto simp: level_ok_def)
  obtain n s pkg1 nl where fill: "cache_fill p addr st =
      Some (n, put_level p (l\<lparr>cache_part := Some (write_set c addr s)\<rparr>) (st\<lparr>cost_package := pkg1\<rparr>))"
    "set_inv s" "fst (SplitAddress c addr) \<in> set_resident s" "next_level l = Some n" "levels st n = Some nl" "snd p < snd n"
    "package_ok B T (if storage_level nl = MEM then N + T else N) pkg1"
    using cache_fill_spec [OF h pkg N l, of addr] by blast
  let ?l1 = "l\<lparr>cache_part := Some (write_set c addr s)\<rparr>"
  have "level_ok n nl" using h fill(5) unfolding hierarchy_ok_def by blast
  then have "storage_level nl = MEM \<longleftrightarrow> cache_part nl = None" by (auto simp: level_ok_def split: option.splits)
  moreover have "level_ok p ?l1" "next_level ?l1 = next_level l" "range_line ?l1 = range_line l" "hitcost ?l1 = hitcost l"
    using level_ok_write [OF ok l(2) fill(2)] l(2) by (simp_all add: range_line_def write_set_def)
  moreover from this have "replaced p l ?l1 st (put_level p ?l1 (st\<lparr>cost_package := pkg1\<rparr>))"
    by (rule replaced_put [OF h l(1)])
  moreover have "line_in (write_set c addr s) addr" using fill(3) line_in_write [OF c fill(2)] by simp
  moreover have "n \<noteq> p" using fill(6) by auto
  ultimately show thesis using that [OF fill(1)] fill(4-7) by simp
qed

text \<open>Without going on to the next level, and with it.\<close>

lemma access_post_stop:
  assumes "replaced p l l1 st st1" and "levels st p = Some l" "cache_part l = Some c" "cache_part l1 = Some c1"
    and "line_in c1 addr = line_in c addr" and "access_count l1 = access_count (count_access ty (line_in c addr) l)"
    and "\<not> (\<not> line_in c addr \<and> ty = ACCESS_TYPE_LOAD)" and "package_ok B T N pkg"
  shows "access_post B T N p addr ty l st (st1\<lparr>cost_package := pkg\<rparr>)"
proof -
  have "hierarchy_ok (st1\<lparr>cost_package := pkg\<rparr>)" using assms(1) by (simp add: replaced_def)
  moreover have "levels st1 p = Some l1" using assms(1) by (simp add: replaced_def)
  ultimately show ?thesis
    using assms unfolding access_post_def by (auto simp: replaced_def holds_cache holds_def)
qed

lemma access_post_next:
  assumes rep: "replaced p l l2 st st2" and l: "levels st p = Some l" "cache_part l2 = Some c2" "line_in c2 addr"
    and cnt: "access_count l2 = access_count (count_access ty (holds st p addr) l)"
    and n: "next_level l = Some n" "snd p < snd n" "levels st2 n = Some nl"
    and rec: "access_post B T N n addr ty nl st2 st3" and pkg: "package_ok B T N' (cost_package st3)"
  shows "access_post B T N' p addr ty l st st3"
proof -
  have up: "levels st3 q = levels st2 q" if "snd q \<le> snd p" for q
    using rec that n(2) unfolding access_post_def by (metis le_less_trans less_imp_le less_irrefl)
  have l3: "levels st3 p = Some l2" using up [of p] rep by (simp add: replaced_def)
  show ?thesis
    unfolding access_post_def
  proof (intro conjI allI impI)
    show "hierarchy_ok st3" "storage_top st3 = storage_top st" "last_icacheline st3 = last_icacheline st"
      using rec rep by (simp_all add: access_post_def replaced_def)
    show "dom (levels st3) = dom (levels st)" using rec rep l(1) by (auto simp: access_post_def replaced_def)
    show "levels st3 q = levels st q" if "snd q \<le> snd p" "q \<noteq> p" for q
      using up [OF that(1)] that(2) rep by (simp add: replaced_def)
    show "\<exists>l'. levels st3 p = Some l' \<and> next_level l' = next_level l \<and> range_line l' = range_line l \<and>
        access_count l' = access_count (count_access ty (holds st p addr) l)"
      using l3 rep cnt by (simp add: replaced_def)
    show "holds st3 p addr" using holds_cache [OF l3 l(2)] l(3) by simp
    show "holds st3 m addr" if "ty = ACCESS_TYPE_LOAD" "next_level l = Some m" for m
      using rec that n(1) by (simp add: access_post_def)
  qed (rule pkg)
qed

lemma AccessSingleLine_spec:
  "hierarchy_ok st \<Longrightarrow> package_ok B T N (cost_package st) \<Longrightarrow> (cache_part l \<noteq> None \<Longrightarrow> N + T < 2 ^ 64) \<Longrightarrow>
   0 \<le> b \<Longrightarrow> b < int B \<Longrightarrow> levels st p = Some l \<Longrightarrow>
   \<exists>st'. AccessSingleLine p addr ty b simd_len st = Some (holds st p addr, st') \<and>
     access_post B T (if cache_part l = None then N else N + T) p addr ty l st st'"
proof (induction "4 - level_code (snd p)" arbitrary: p l st N rule: less_induct)
  case less
  note h = less.prems(1) and pkg = less.prems(2) and b = less.prems(4,5) and l = less.prems(6)
  show ?case
  proof (cases "cache_part l")
    case None
    from MemoryAccess_spec [OF h pkg b l None] show ?thesis
      using None l by (subst AccessSingleLine.simps) (auto simp: holds_def)
  next
    case (Some c)
    have N: "N + T < 2 ^ 64" using less.prems(3) Some by simp
    have hc: "length (hitcost l) = 2" using h l unfolding hierarchy_ok_def level_ok_def by blast
    have hold: "holds st p addr = line_in c addr" by (rule holds_cache [OF l Some])
    obtain l1 c1 st1 where 1: "cache_lookup p l c addr ty b simd_len st = Some (line_in c addr, fst (SplitAddress c addr), st1)"
      "replaced p l l1 st st1" "package_ok B T N (cost_package st1)" "cache_part l1 = Some c1" "line_in c1 addr = line_in c addr"
      "access_count l1 = access_count (count_access ty (line_in c addr) l)"
      by (rule lookup_replaced [OF h pkg b l Some])
    show ?thesis
    proof (cases "\<not> line_in c addr \<and> (ty = ACCESS_TYPE_LOAD \<or> STORE_ALLOCATION c = STORE_ALLOCATE)")
      case False
      obtain pkg2 where nh: "note_hit l (line_in c addr) (fst (SplitAddress c addr)) ty b st1 = Some (st1\<lparr>cost_package := pkg2\<rparr>)"
        "package_ok B T (N + T) pkg2" using note_hit_spec [OF 1(3) N hc] by blast
      have "AccessSingleLine p addr ty b simd_len st = Some (line_in c addr, st1\<lparr>cost_package := pkg2\<rparr>)"
        using 1(1) nh(1) False l Some by (subst AccessSingleLine.simps) auto
      moreover have "access_post B T (N + T) p addr ty l st (st1\<lparr>cost_package := pkg2\<rparr>)"
        by (rule access_post_stop [OF 1(2) l Some 1(4-6) _ nh(2)]) (use False in blast)
      ultimately show ?thesis using Some hold by auto
    next
      case True
      have l1: "hierarchy_ok st1" "levels st1 p = Some l1" using 1(2) by (simp_all add: replaced_def)
      obtain n nl l2 c2 st2 where 2: "cache_fill p addr st1 = Some (n, st2)" "replaced p l1 l2 st1 st2" "cache_part l2 = Some c2"
        "line_in c2 addr" "access_count l2 = access_count l1" "next_level l1 = Some n" "levels st2 n = Some nl" "snd p < snd n"
        "package_ok B T (if cache_part nl = None then N + T else N) (cost_package st2)"
        by (rule fill_replaced [OF l1(1) 1(3) N l1(2) 1(4)])
      have h2: "hierarchy_ok st2" and n: "next_level l = Some n" using 1(2) 2(2,6) by (simp_all add: replaced_def)
      have dec: "4 - level_code (snd n) < 4 - level_code (snd p)"
        using 2(8) by (cases "snd n"; cases "snd p") (simp_all add: less_StorageLevel_def)
      obtain st3 where rec: "AccessSingleLine n addr ty b simd_len st2 = Some (holds st2 n addr, st3)"
        "access_post B T (N + T) n addr ty nl st2 st3"
        using less.hyps [OF dec h2 2(9) _ b 2(7)] N by (cases "cache_part nl = None") fastforce+
      have "AccessSingleLine p addr ty b simd_len st = Some (line_in c addr, st3)"
        using 1(1) 2(1) rec(1) True l Some note_hit_miss [OF hc] by (subst AccessSingleLine.simps) simp
      moreover have "access_post B T (N + T) p addr ty l st st3"
        by (rule access_post_next [OF replaced_trans [OF 1(2) 2(2)] l 2(3,4) _ n 2(8,7) rec(2)])
          (use 1(6) 2(5) hold rec(2) in \<open>simp_all add: access_post_def\<close>)
      ultimately show ?thesis using Some hold by auto
    qed
  qed
qed

end
