(* ===== verification/Cache_Access.thy ===== *)
theory Cache_Access
  imports Cache_Levels
begin

text \<open>
  Facts on the cache hierarchy of \<open>Cache_Levels\<close>: a range access is the sequence of the accesses
  to its lines and returns unless the range reaches the last line of the address space; the
  hierarchy built from a configuration is well formed; and flushing a cache reads past its sets.
\<close>

unbundle bit_operations_syntax

subsection \<open>The lines of a range\<close>

definition next_line :: "ADDRINT \<Rightarrow> ADDRINT \<Rightarrow> ADDRINT" where
  "next_line line addr = (addr AND NOT (line - 1)) + line"

text \<open>The addresses a range is accessed at: its own, and the start of every later line below its end.\<close>

definition range_addresses :: "ADDRINT \<Rightarrow> ADDRINT \<Rightarrow> ADDRINT \<Rightarrow> ADDRINT list" where
  "range_addresses line addr high =
     addr # map (\<lambda>k. of_nat (k * unat line))
       [unat (next_line line addr) div unat line ..< (unat high + unat line - 1) div unat line]"

definition visit :: "level_ptr \<Rightarrow> ACCESS_TYPE \<Rightarrow> BBLID \<Rightarrow> u32 \<Rightarrow> ADDRINT list \<Rightarrow> bool \<times> STORAGE \<Rightarrow> (bool \<times> STORAGE) option" where
  "visit p ty b simd_len = foldM (\<lambda>addr (allHit, st). do {
     (hit, st) \<leftarrow> AccessSingleLine p addr ty b simd_len st;
     Some (allHit \<and> hit, st) })"

lemma unat_line: "s < 64 \<Longrightarrow> unat ((2 :: u64) ^ s) = 2 ^ s"
proof -
  assume "s < 64"
  then have "(2 :: nat) ^ s < 2 ^ 64" by (simp only: power_strict_increasing_iff one_less_numeral_iff semiring_norm)
  then show ?thesis using unat_of_nat [of "2 ^ s", where 'a = 64] by simp
qed

lemma next_line_unat:
  assumes "s < 64"
  shows "unat (next_line (2 ^ s) addr) = (unat addr div 2 ^ s + 1) * 2 ^ s mod 2 ^ 64"
proof -
  note p = unat_line [OF assms]
  have "addr AND NOT ((2 :: u64) ^ s - 1) = push_bit s (drop_bit s addr)"
    by (rule bit_eqI) (auto simp: bit_simps simp flip: mask_eq_exp_minus_1)
  moreover have "unat (push_bit s (drop_bit s addr)) = unat addr div 2 ^ s * 2 ^ s"
  proof -
    have "unat addr div 2 ^ s * 2 ^ s < 2 ^ 64"
      by (rule le_less_trans [OF div_times_less_eq_dividend]) (use unsigned_less [of addr, where ?'a = nat] in simp)
    then show ?thesis
      by (simp only: unsigned_push_bit_eq unat_drop_bit_eq) (simp add: push_bit_eq_mult drop_bit_eq_div take_bit_nat_eq_self mult.commute)
  qed
  ultimately show ?thesis unfolding next_line_def unat_word_ariths p by simp (metis add.commute)
qed

text \<open>The start of a line is a multiple of the line size, also when the address space wraps.\<close>

lemma next_line_multiple:
  assumes "s < 64"
  shows "unat (next_line (2 ^ s) addr) div 2 ^ s * 2 ^ s = unat (next_line (2 ^ s) addr)"
proof -
  have "(2 :: nat) ^ 64 = 2 ^ s * 2 ^ (64 - s)" using assms by (simp flip: power_add)
  then have "unat (next_line (2 ^ s) addr) = 2 ^ s * ((unat addr div 2 ^ s + 1) mod 2 ^ (64 - s))"
    using next_line_unat [OF assms, of addr] by (simp only: mult.commute mult_mod_right)
  then show ?thesis by simp
qed

lemma range_addresses_step:
  assumes s: "s < 64" and high: "unat high + 2 ^ s \<le> 2 ^ 64"
  shows "next_line (2 ^ s) addr < high \<Longrightarrow>
      range_addresses (2 ^ s) addr high = addr # range_addresses (2 ^ s) (next_line (2 ^ s) addr) high"
    and "\<not> next_line (2 ^ s) addr < high \<Longrightarrow> range_addresses (2 ^ s) addr high = [addr]"
    and "next_line (2 ^ s) addr < high \<Longrightarrow>
      unat (next_line (2 ^ s) addr) < unat (next_line (2 ^ s) (next_line (2 ^ s) addr))"
proof -
  let ?n = "next_line (2 ^ s) addr" and ?L = "(2 :: nat) ^ s"
  define k where "k = unat ?n div ?L"
  have n: "unat ?n = k * ?L" using next_line_multiple [OF s] by (simp add: k_def)
  define m where "m = (unat high + ?L - 1) div ?L"
  have "k < m \<longleftrightarrow> Suc k * ?L \<le> unat high + ?L - 1"
    unfolding m_def using less_eq_div_iff_mult_less_eq [of ?L "Suc k" "unat high + ?L - 1"] by (simp only: Suc_le_eq) simp
  also have "... \<longleftrightarrow> k * ?L < unat high" using zero_less_power [OF pos2, of s] by (simp only: mult_Suc) linarith
  finally have below: "k * ?L < unat high \<longleftrightarrow> k < m" ..
  have nx: "unat ?n < unat (next_line (2 ^ s) ?n)" "unat (next_line (2 ^ s) ?n) = Suc k * ?L" if "?n < high"
  proof -
    have "k * ?L < unat high" using that n by (simp add: word_less_nat_alt)
    then have "Suc k * ?L < 2 ^ 64" using high by simp
    then show "unat (next_line (2 ^ s) ?n) = Suc k * ?L" by (simp add: next_line_unat [OF s] k_def)
    then show "unat ?n < unat (next_line (2 ^ s) ?n)" by (simp add: n)
  qed
  have range: "range_addresses (2 ^ s) addr high = addr # map (\<lambda>k. of_nat (k * ?L)) [k..<m]"
    unfolding range_addresses_def unat_line [OF s] k_def m_def ..
  show "?n < high \<Longrightarrow> unat ?n < unat (next_line (2 ^ s) ?n)" by (rule nx(1))
  show "range_addresses (2 ^ s) addr high = addr # range_addresses (2 ^ s) ?n high" if "?n < high"
  proof -
    have "k < m" using that n below by (simp add: word_less_nat_alt)
    then have "[k..<m] = k # [Suc k..<m]" by (rule upt_conv_Cons)
    moreover have "of_nat (k * ?L) = ?n" unfolding n [symmetric] by (simp add: of_nat_unat)
    ultimately show ?thesis
      unfolding range unfolding range_addresses_def unat_line [OF s] nx(2) [OF that] m_def [symmetric] by simp
  qed
  show "range_addresses (2 ^ s) addr high = [addr]" if "\<not> ?n < high"
  proof -
    have "m \<le> k" using that n below by (simp add: word_less_nat_alt)
    then show ?thesis unfolding range by simp
  qed
qed

text \<open>The loop of a range access is the sequence of the accesses to its lines.\<close>

lemma access_loop_visit:
  assumes s: "s < 64" and high: "unat high + 2 ^ s \<le> 2 ^ 64"
  shows "access_loop p (2 ^ s) high ty b simd_len addr allHit st =
    visit p ty b simd_len (range_addresses (2 ^ s) addr high) (allHit, st)"
proof (induction "unat high - unat (next_line (2 ^ s) addr)" arbitrary: addr allHit st rule: less_induct)
  case less
  show ?case
  proof (cases "next_line (2 ^ s) addr < high")
    case True
    note step = range_addresses_step [OF s high]
    have "unat high - unat (next_line (2 ^ s) (next_line (2 ^ s) addr)) < unat high - unat (next_line (2 ^ s) addr)"
      using step(3) [OF True] True by (simp add: word_less_nat_alt)
    note IH = less [OF this]
    show ?thesis
      unfolding step(1) [OF True]
      by (subst access_loop.simps) (simp add: IH True visit_def next_line_def [symmetric] case_prod_beta split: Option.bind_split)
  next
    case False
    then show ?thesis
      unfolding range_addresses_step(2) [OF s high False]
      by (subst access_loop.simps) (simp add: visit_def next_line_def [symmetric] case_prod_beta split: Option.bind_split)
  qed
qed

text \<open>When the end of the range is in the last line of the address space, the loop does not return.\<close>

lemma access_loop_endless:
  assumes s: "s < 64" and high: "2 ^ 64 < unat high + 2 ^ s"
  shows "access_loop p (2 ^ s) high ty b simd_len addr allHit st = None"
proof -
  have more: "next_line (2 ^ s) a < high" for a
  proof -
    let ?n = "unat (next_line (2 ^ s) a)"
    have "?n < 2 ^ s * 2 ^ (64 - s)" using unsigned_less [of "next_line (2 ^ s) a", where ?'a = nat] s by (simp flip: power_add)
    then have "?n div 2 ^ s < 2 ^ (64 - s)" by (simp add: less_mult_imp_div_less mult.commute)
    then have "(?n div 2 ^ s + 1) * 2 ^ s \<le> 2 ^ (64 - s) * 2 ^ s" by (intro mult_right_mono) simp_all
    then have "?n + 2 ^ s \<le> 2 ^ 64" using next_line_multiple [OF s, of a] s by (simp flip: power_add)
    with high show ?thesis by (simp add: word_less_nat_alt)
  qed
  have "False" if ret: "access_loop p (2 ^ s) high ty b simd_len addr allHit st = Some r" for r
  proof -
    have "(2 :: ADDRINT) ^ s = 2 ^ s \<longrightarrow> high = high \<longrightarrow> False"
    proof (rule access_loop.raw_induct [where P = "\<lambda>p l h ty b n a all st r. l = 2 ^ s \<longrightarrow> h = high \<longrightarrow> False",
        OF _ ret], intro impI)
      fix f p l h ty b n a all st r
      assume IH: "\<And>p l h ty b n a all st r. f p l h ty b n a all st = Some r \<Longrightarrow> l = 2 ^ s \<longrightarrow> h = high \<longrightarrow> False"
        and body: "(do {
          (hit, st) \<leftarrow> AccessSingleLine p a ty b n st;
          let addr = (a AND NOT (l - 1)) + l;
          if addr < h then f p l h ty b n addr (all \<and> hit) st else Some (all \<and> hit, st) }) = Some r"
        and eq: "l = 2 ^ s" "h = high"
      from body more [of a] show False
        by (auto simp: eq next_line_def [symmetric] bind_eq_Some_conv dest!: IH)
    qed
    then show False by simp
  qed
  then show ?thesis by (cases "access_loop p (2 ^ s) high ty b simd_len addr allHit st") simp_all
qed

lemma unat_ucast_up: "unat (ucast (w :: u32) :: u64) = unat w"
proof -
  have "unat w < 2 ^ 64" using unsigned_less [of w, where ?'a = nat] by simp
  then have "take_bit 64 (unat w) = unat w" by (rule take_bit_nat_eq_self)
  then show ?thesis by (simp only: unsigned_ucast_eq) simp
qed

lemma ucast_power: "s < 32 \<Longrightarrow> ucast ((2 :: u32) ^ s) = (2 :: u64) ^ s"
  by (simp only: word_unat_eq_iff unat_ucast_up unat_two_power) (simp add: unat_line)

lemma range_line_power: "level_ok p l \<Longrightarrow> \<exists>s < 64. range_line l = 2 ^ s \<and> unat (range_line l) = 2 ^ s"
proof (cases "cache_part l")
  case None
  then have "range_line l = 2 ^ 6" by (simp add: range_line_def)
  then show ?thesis using unat_line [of 6] by (intro exI [of _ 6]) simp
next
  case (Some c)
  assume "level_ok p l"
  with Some obtain s where "s < 32" "lineSize c = 2 ^ s" by (auto simp: level_ok_def cache_ok_def)
  then have "s < 64" "range_line l = 2 ^ s"
    using Some by (simp_all add: range_line_def ucast_power)
  then show ?thesis using unat_line [of s] by (intro exI [of _ s]) simp
qed


lemma AccessSingleLine_post:
  assumes "hierarchy_ok st" and "package_ok B T N (cost_package st)" and "N + T < 2 ^ 64"
    and "0 \<le> b" and "b < int B" and "levels st p = Some l"
  shows "\<exists>st' l'. AccessSingleLine p addr ty b simd_len st = Some (holds st p addr, st') \<and>
    hierarchy_ok st' \<and> package_ok B T (N + T) (cost_package st') \<and>
    levels st' p = Some l' \<and> access_count l' = access_count (count_access ty (holds st p addr) l) \<and>
    (holds st p addr \<or> ty = ACCESS_TYPE_LOAD \<longrightarrow> holds st' p addr) \<and>
    (\<not> holds st p addr \<and> ty = ACCESS_TYPE_LOAD \<longrightarrow> (\<forall>n. next_level l = Some n \<longrightarrow> holds st' n addr))"
proof -
  obtain st' where st': "AccessSingleLine p addr ty b simd_len st = Some (holds st p addr, st')"
    "access_post B T (if cache_part l = None then N else N + T) p addr ty l st st'"
    using AccessSingleLine_spec [OF assms(1,2,3,4,5,6)] by blast
  have "package_ok B T (N + T) (cost_package st')"
    using st'(2) package_ok_mono [of B T N _ T] by (auto simp: access_post_def split: if_splits)
  with st' show ?thesis unfolding access_post_def by blast
qed

text \<open>A sequence of accesses to one level: it counts every line once, as a hit or as a miss.\<close>

definition Count :: "ACCESS_TYPE \<Rightarrow> (ACCESS_TYPE \<Rightarrow> bool \<Rightarrow> CACHE_STATS) \<Rightarrow> CACHE_STATS" where
  "Count ty acc = acc ty True + acc ty False"

lemma Accesses_Count: "Accesses ty l = Count ty (access_count l)"
  by (simp add: Accesses_def Hits_def Misses_def Count_def)

lemma Count_access: "Count ty (access_count (count_access ty hit l)) = Count ty (access_count l) + 1"
  by (cases hit) (simp_all add: Count_def count_access_def)

lemma visit_spec:
  assumes "hierarchy_ok st" and "package_ok B T N (cost_package st)" and "N + T * length addrs < 2 ^ 64"
    and "0 \<le> b" "b < int B" and "levels st p = Some l"
  shows "\<exists>hit st' l'. visit p ty b simd_len addrs (allHit, st) = Some (hit, st') \<and>
    hierarchy_ok st' \<and> package_ok B T (N + T * length addrs) (cost_package st') \<and>
    dom (levels st') = dom (levels st) \<and> storage_top st' = storage_top st \<and> last_icacheline st' = last_icacheline st \<and>
    levels st' p = Some l' \<and> Accesses ty l' = Accesses ty l + of_nat (length addrs)"
  using assms
proof (induction addrs arbitrary: allHit st N l)
  case Nil
  then show ?case by (simp add: visit_def)
next
  case (Cons addr addrs)
  let ?N = "if cache_part l = None then N else N + T"
  have room: "cache_part l \<noteq> None \<Longrightarrow> N + T < 2 ^ 64" using Cons.prems(3) by simp
  obtain st1 where st1: "AccessSingleLine p addr ty b simd_len st = Some (holds st p addr, st1)"
    "access_post B T ?N p addr ty l st st1"
    using AccessSingleLine_spec [OF Cons.prems(1,2) room Cons.prems(4-6)] by blast
  then obtain l1 where l1: "levels st1 p = Some l1" "access_count l1 = access_count (count_access ty (holds st p addr) l)"
    by (auto simp: access_post_def)
  have ok: "hierarchy_ok st1" "package_ok B T (N + T) (cost_package st1)" "dom (levels st1) = dom (levels st)"
    "storage_top st1 = storage_top st" "last_icacheline st1 = last_icacheline st"
    using st1(2) package_ok_mono [of B T N _ T] by (auto simp: access_post_def split: if_splits)
  have more: "N + T + T * length addrs < 2 ^ 64" using Cons.prems(3) by simp
  obtain hit st' l' where rest: "visit p ty b simd_len addrs (allHit \<and> holds st p addr, st1) = Some (hit, st')"
    "hierarchy_ok st'" "package_ok B T (N + T + T * length addrs) (cost_package st')" "dom (levels st') = dom (levels st1)"
    "storage_top st' = storage_top st1" "last_icacheline st' = last_icacheline st1" "levels st' p = Some l'"
    "Accesses ty l' = Accesses ty l1 + of_nat (length addrs)"
    using Cons.IH [OF ok(1,2) more Cons.prems(4,5) l1(1)] by blast
  have "Accesses ty l1 = Accesses ty l + 1" by (simp add: Accesses_Count l1(2) Count_access)
  with rest ok show ?case by (simp add: visit_def st1(1) algebra_simps)
qed

text \<open>A range access returns unless the range reaches the last line of the address space.\<close>

lemma Access_spec:
  assumes h: "hierarchy_ok st" and pkg: "package_ok B T N (cost_package st)" and b: "0 \<le> b" "b < int B"
    and l: "levels st p = Some l"
    and room: "N + T * length (range_addresses (range_line l) addr (addr + ucast sz)) < 2 ^ 64"
  shows "(Access p addr sz ty b simd_len st \<noteq> None) = (unat (addr + ucast sz) + unat (range_line l) \<le> 2 ^ 64)"
    and "unat (addr + ucast sz) + unat (range_line l) \<le> 2 ^ 64 \<Longrightarrow>
      Access p addr sz ty b simd_len st =
        visit p ty b simd_len (range_addresses (range_line l) addr (addr + ucast sz)) (True, st)"
proof -
  obtain s where s: "s < 64" "range_line l = 2 ^ s" "unat (range_line l) = 2 ^ s"
    using range_line_power h l unfolding hierarchy_ok_def by blast
  show eq: "Access p addr sz ty b simd_len st =
        visit p ty b simd_len (range_addresses (range_line l) addr (addr + ucast sz)) (True, st)"
    if "unat (addr + ucast sz) + unat (range_line l) \<le> 2 ^ 64"
    using access_loop_visit [OF s(1)] that l unfolding s(3) unfolding s(2) by (simp add: Access_def s(2))
  show "(Access p addr sz ty b simd_len st \<noteq> None) = (unat (addr + ucast sz) + unat (range_line l) \<le> 2 ^ 64)"
  proof (cases "unat (addr + ucast sz) + unat (range_line l) \<le> 2 ^ 64")
    case True
    then show ?thesis using eq [OF True] visit_spec [OF h pkg room b l, of ty simd_len True] by auto
  next
    case False
    then have "2 ^ 64 < unat (addr + ucast sz) + 2 ^ s" unfolding s(3) by simp
    from access_loop_endless [OF s(1) this] False show ?thesis using l by (simp add: Access_def s(2))
  qed
qed


subsection \<open>The hierarchy that is built from a configuration\<close>

text \<open>Well formed but for the levels \<open>P\<close>, whose next level is not set yet.\<close>

definition ok_but :: "level_ptr set \<Rightarrow> STORAGE \<Rightarrow> bool" where
  "ok_but P st \<longleftrightarrow> (\<forall>p l. levels st p = Some l \<longrightarrow> level_ok p l \<and> (p \<in> P \<or> points_down st p l))"

lemma hierarchy_ok_but: "hierarchy_ok st = ok_but {} st"
  by (simp add: hierarchy_ok_def ok_but_def)

lemma points_down_grow:
  "points_down st p l \<Longrightarrow> dom (levels st) \<subseteq> dom (levels st') \<Longrightarrow> points_down st' p l"
  unfolding points_down_def by blast

lemma ok_but_put:
  assumes "ok_but P st" and "level_ok p l" and "p \<in> Q \<or> snd p = MEM" and "P \<subseteq> Q"
  shows "ok_but Q (put_level p l st)"
proof -
  have grow: "dom (levels st) \<subseteq> dom (levels (put_level p l st))" by auto
  have mem: "snd p = MEM \<Longrightarrow> points_down (put_level p l st) p l"
    using assms(2) by (auto simp: level_ok_def points_down_def split: option.splits)
  show ?thesis
    unfolding ok_but_def
  proof (intro allI impI)
    fix q m assume "levels (put_level p l st) q = Some m"
    then consider "q = p" "m = l" | "levels st q = Some m" by (cases "q = p") simp_all
    then show "level_ok q m \<and> (q \<in> Q \<or> points_down (put_level p l st) q m)"
    proof cases
      case 1
      with assms(2,3) mem show ?thesis by blast
    next
      case 2
      with assms(1,4) points_down_grow [OF _ grow] show ?thesis unfolding ok_but_def by blast
    qed
  qed
qed

lemma ok_but_next:
  assumes ok: "ok_but P st" and run: "set_next p n st = Some st'"
    and n: "levels st n \<noteq> None" "snd p < snd n"
  shows "ok_but (P - {p}) st'" and "dom (levels st') = dom (levels st)" and "cost_package st' = cost_package st"
    and "storage_top st' = storage_top st" and "last_icacheline st' = last_icacheline st" and "p \<in> dom (levels st)"
proof -
  obtain l where l: "levels st p = Some l" and st': "st' = put_level p (l\<lparr>next_level := Some n\<rparr>) st"
    using run by (auto simp: set_next_def bind_eq_Some_conv)
  show dom: "dom (levels st') = dom (levels st)" using l by (auto simp: st')
  show "p \<in> dom (levels st)" using l by blast
  show "cost_package st' = cost_package st" "storage_top st' = storage_top st" "last_icacheline st' = last_icacheline st"
    by (simp_all add: st')
  have "levels st' n \<noteq> None" using n(1) dom by (metis domD domI domIff)
  then have down: "points_down st' p (l\<lparr>next_level := Some n\<rparr>)" using n(2) by (simp add: points_down_def)
  show "ok_but (P - {p}) st'"
    unfolding ok_but_def
  proof (intro allI impI)
    fix q m assume "levels st' q = Some m"
    then consider "q = p" "m = l\<lparr>next_level := Some n\<rparr>" | "q \<noteq> p" "levels st q = Some m"
      unfolding st' by (cases "q = p") simp_all
    then show "level_ok q m \<and> (q \<in> P - {p} \<or> points_down st' q m)"
    proof cases
      case 1
      have "level_ok p l" using ok l unfolding ok_but_def by blast
      then have "level_ok q m" using 1 by (simp add: level_ok_def)
      with 1 down show ?thesis by simp
    next
      case 2
      with ok have "level_ok q m" "q \<in> P \<or> points_down st q m" unfolding ok_but_def by blast+
      with 2 points_down_grow [of st q m st'] dom show ?thesis by blast
    qed
  qed
qed

text \<open>The requirement on a section: the cache holds at least one set.\<close>

definition has_a_set :: "ConfigReader \<Rightarrow> string \<Rightarrow> bool" where
  "has_a_set reader name \<longleftrightarrow>
     (word_of_int (int32 (GetInteger reader name ''associativity'' (- 1))) :: u32) *
       word_of_int (int32 (GetInteger reader name ''linesize'' (- 1)))
     \<le> word_of_int (int32 (GetInteger reader name ''cachesize'' (- 1)))"

text \<open>The caches whose next level is open after the levels up to \<open>last\<close> have been read.\<close>

fun open_levels :: "CostSite \<Rightarrow> StorageLevel option \<Rightarrow> level_ptr set" where
  "open_levels i None = {}"
| "open_levels i (Some DL1) = {(i, IL1), (i, DL1)}"
| "open_levels i (Some j) = {(i, j)}"

lemma level_ok_new:
  assumes "new_CACHE_LEVEL junk this i j policy c n a al (site_hitcost i cost) = Some l" and "a * n \<le> c" and "j \<noteq> MEM"
  shows "level_ok (i, j) l"
  using new_CACHE_LEVEL_spec [OF assms(1,2)] assms(3) by (auto simp: level_ok_def site_hitcost_def)

lemma read_level_spec:
  assumes run: "read_level reader nm junk this i j (g, st) = Some (g', st')" and room: "has_a_set reader (nm i j)"
    and ok: "ok_but (open_levels i prev) st"
    and seq: "(prev, j) \<in> {(None, IL1), (Some IL1, DL1), (Some DL1, UL2), (Some UL2, UL3)}"
  shows "ok_but (open_levels i (Some j)) st' \<and> dom (levels st') = insert (i, j) (dom (levels st)) \<and>
    cost_package st' = cost_package st \<and> storage_top st' = storage_top st \<and> last_icacheline st' = last_icacheline st"
proof -
  obtain l where new: "new_CACHE_LEVEL junk this i j (GetString reader (nm i j) ''policy'' '''')
        (word_of_int (int32 (GetInteger reader (nm i j) ''cachesize'' (- 1))))
        (word_of_int (int32 (GetInteger reader (nm i j) ''linesize'' (- 1))))
        (word_of_int (int32 (GetInteger reader (nm i j) ''associativity'' (- 1))))
        (word_of_int (int32 (GetInteger reader (nm i j) ''allocation'' (- 1))))
        (site_hitcost i (GetReal reader (nm i j) ''hitcost'' (- 1))) = Some l"
    and link: "(if j = UL2 then do { st \<leftarrow> set_next (i, IL1) (i, j) (put_level (i, j) l st); set_next (i, DL1) (i, j) st }
         else if j = UL3 then set_next (i, UL2) (i, j) (put_level (i, j) l st)
         else Some (put_level (i, j) l st)) = Some st'"
    using run by (auto simp: read_level_def Let_def bind_eq_Some_conv split: if_splits)
  have j: "j \<noteq> MEM" using seq by auto
  note lok = level_ok_new [OF new room [unfolded has_a_set_def] j]
  have put: "ok_but (insert (i, j) (open_levels i prev)) (put_level (i, j) l st)"
    by (rule ok_but_put [OF ok lok]) auto
  have at: "levels (put_level (i, j) l st) (i, j) \<noteq> None" by simp
  consider "prev = None" "j = IL1" | "prev = Some IL1" "j = DL1" | "prev = Some DL1" "j = UL2" | "prev = Some UL2" "j = UL3"
    using seq by auto
  then show ?thesis
  proof cases
    case 3
    obtain st1 where st1: "set_next (i, IL1) (i, UL2) (put_level (i, UL2) l st) = Some st1"
      "set_next (i, DL1) (i, UL2) st1 = Some st'"
      using link 3 by (auto simp: bind_eq_Some_conv)
    note a = ok_but_next [OF put [unfolded 3] st1(1)]
    have n1: "levels st1 (i, UL2) \<noteq> None" using a(2) by (auto simp: domIff)
    note b = ok_but_next [OF a(1) st1(2) n1]
    have "insert (i, UL2) (open_levels i (Some DL1)) - {(i, IL1)} - {(i, DL1)} = {(i, UL2)}" by auto
    with a b 3 show ?thesis by auto
  next
    case 4
    have "insert (i, UL3) (open_levels i (Some UL2)) - {(i, UL2)} = {(i, UL3)}" by auto
    then show ?thesis using ok_but_next [OF put [unfolded 4], of "(i, UL2)" "(i, UL3)" st'] link 4 by auto
  qed (use put link in \<open>auto simp: insert_commute\<close>)
qed


definition same_rest :: "STORAGE \<Rightarrow> STORAGE \<Rightarrow> bool" where
  "same_rest st st' \<longleftrightarrow> cost_package st' = cost_package st \<and> storage_top st' = storage_top st \<and>
     last_icacheline st' = last_icacheline st"

fun levels_upto :: "StorageLevel option \<Rightarrow> StorageLevel set" where
  "levels_upto None = {}"
| "levels_upto (Some IL1) = {IL1}"
| "levels_upto (Some DL1) = {IL1, DL1}"
| "levels_upto (Some UL2) = {IL1, DL1, UL2}"
| "levels_upto (Some _) = {IL1, DL1, UL2, UL3}"

lemma levels_upto_step:
  "(prev, j) \<in> {(None, IL1), (Some IL1, DL1), (Some DL1, UL2), (Some UL2, UL3)} \<Longrightarrow>
   levels_upto (Some j) = insert j (levels_upto prev)"
  by auto

text \<open>The levels that remain to be read after the last one.\<close>

fun remaining :: "StorageLevel option \<Rightarrow> StorageLevel list" where
  "remaining None = [IL1, DL1, UL2, UL3]"
| "remaining (Some IL1) = [DL1, UL2, UL3]"
| "remaining (Some DL1) = [UL2, UL3]"
| "remaining (Some UL2) = [UL3]"
| "remaining (Some _) = []"

lemma read_levels_spec:
  assumes "read_levels reader nm junk this i js prev (g, st) = Some (prev', g', st')" and "js = remaining prev"
    and "\<forall>j. has_section reader (nm i j) \<longrightarrow> j \<noteq> MEM \<longrightarrow> has_a_set reader (nm i j)"
    and "ok_but (open_levels i prev) st" and "prev \<noteq> Some MEM" and "dom (levels st) = D \<union> Pair i ` levels_upto prev"
  shows "ok_but (open_levels i prev') st' \<and> same_rest st st' \<and> prev' \<noteq> Some MEM \<and>
    dom (levels st') = D \<union> Pair i ` levels_upto prev'"
  using assms
proof (induction js arbitrary: prev g st)
  case Nil
  then show ?case by (auto simp: same_rest_def)
next
  case (Cons j js)
  show ?case
  proof (cases "has_section reader (nm i j)")
    case False
    then have "read_levels reader nm junk this i (j # js) prev (g, st) = Some (prev, g, st)" by simp
    with Cons.prems(1,4,5,6) show ?thesis by (simp add: same_rest_def)
  next
    case True
    then obtain g1 st1 where run: "read_level reader nm junk this i j (g, st) = Some (g1, st1)"
      "read_levels reader nm junk this i js (Some j) (g1, st1) = Some (prev', g', st')"
      using Cons.prems(1) by (auto simp: bind_eq_Some_conv)
    have seq: "(prev, j) \<in> {(None, IL1), (Some IL1, DL1), (Some DL1, UL2), (Some UL2, UL3)}" "js = remaining (Some j)" "j \<noteq> MEM"
      using Cons.prems(2,5) by (cases prev rule: remaining.cases; auto)+
    have "has_a_set reader (nm i j)" using Cons.prems(3) True seq(3) by blast
    note st1 = read_level_spec [OF run(1) this Cons.prems(4) seq(1)]
    have "ok_but (open_levels i prev') st' \<and> same_rest st1 st' \<and> prev' \<noteq> Some MEM \<and>
      dom (levels st') = D \<union> Pair i ` levels_upto prev'"
      by (rule Cons.IH [OF run(2) seq(2) Cons.prems(3)])
        (use st1 seq(3) Cons.prems(6) levels_upto_step [OF seq(1)] in auto)
    with st1 show ?thesis by (simp add: same_rest_def)
  qed
qed


lemma read_levels_IL1_only:
  assumes "read_levels reader nm junk this i [IL1, DL1, UL2, UL3] None s = Some (Some IL1, s')"
  shows "has_section reader (nm i IL1)" and "\<not> has_section reader (nm i DL1)"
proof -
  show "has_section reader (nm i IL1)" using assms by (auto split: if_splits)
  have later: "read_levels reader nm junk this i js (Some j) s = Some (Some IL1, s') \<Longrightarrow> j = IL1 \<or> IL1 \<in> set js" for js j s s'
    by (induction js arbitrary: j s) (auto simp: bind_eq_Some_conv split: if_splits)
  show "\<not> has_section reader (nm i DL1)"
    using assms later [of "[UL2, UL3]" DL1] by (auto simp: bind_eq_Some_conv split: if_splits simp del: read_levels.simps(2))
      (auto simp: bind_eq_Some_conv split: if_splits)
qed

text \<open>Where the references of a site start: at the two first-level caches, or at the memory.\<close>

definition top_of :: "StorageLevel option \<Rightarrow> StorageLevel \<Rightarrow> StorageLevel" where
  "top_of prev j = (if prev = None then MEM else j)"

lemma set_top_simps [simp]:
  "levels (set_top p t st) = levels st" "cost_package (set_top p t st) = cost_package st"
  "last_icacheline (set_top p t st) = last_icacheline st" "storage_top (set_top p t st) = (storage_top st)(p \<mapsto> t)"
  "ok_but P (set_top p t st) = ok_but P st"
  by (simp_all add: set_top_def ok_but_def points_down_def)

lemma connect_memory_spec:
  assumes run: "connect_memory reader nm i prev st = Some st'" and ok: "ok_but (open_levels i prev) st"
    and prev: "prev \<noteq> Some MEM" "prev \<noteq> Some IL1"
  shows "hierarchy_ok st' \<and> dom (levels st') = insert (i, MEM) (dom (levels st)) \<and>
    cost_package st' = cost_package st \<and> last_icacheline st' = last_icacheline st \<and>
    storage_top st' = (storage_top st)((i, IL1) \<mapsto> (i, top_of prev IL1), (i, DL1) \<mapsto> (i, top_of prev DL1))"
proof -
  let ?l = "new_MEMORY_LEVEL i MEM (site_hitcost i (GetReal reader (nm i MEM) ''hitcost'' (- 1)))"
  let ?st = "put_level (i, MEM) ?l st"
  have "level_ok (i, MEM) ?l" by (simp add: level_ok_def new_MEMORY_LEVEL_def new_level_def site_hitcost_def)
  then have put: "ok_but (open_levels i prev) ?st" by (rule ok_but_put [OF ok]) simp_all
  have at: "levels ?st (i, MEM) \<noteq> None" by simp
  consider "prev = None" | "prev = Some DL1" | "prev = Some UL2" | "prev = Some UL3"
    using prev by (cases prev rule: levels_upto.cases) auto
  then show ?thesis
  proof cases
    case 1
    with run put show ?thesis
      by (auto simp: connect_memory_def Let_def top_of_def hierarchy_ok_but split: if_splits)
  next
    case 2
    then obtain st1 st2 where st1: "set_next (i, IL1) (i, MEM) ?st = Some st1" and st2: "set_next (i, DL1) (i, MEM) st1 = Some st2"
      and st': "st' = set_top (i, DL1) (i, DL1) (set_top (i, IL1) (i, IL1) st2)"
      using run by (auto simp: connect_memory_def Let_def bind_eq_Some_conv split: if_splits)
    note a = ok_but_next [OF put [unfolded 2] st1 at]
    have "levels st1 (i, MEM) \<noteq> None" using a(2) by (auto simp: domIff)
    note b = ok_but_next [OF a(1) st2 this]
    have "open_levels i (Some DL1) - {(i, IL1)} - {(i, DL1)} = {}" by auto
    with a b 2 show ?thesis by (auto simp: st' top_of_def hierarchy_ok_but)
  next
    case 3
    then obtain st1 where st1: "set_next (i, UL2) (i, MEM) ?st = Some st1"
      and st': "st' = set_top (i, DL1) (i, DL1) (set_top (i, IL1) (i, IL1) st1)"
      using run by (auto simp: connect_memory_def Let_def bind_eq_Some_conv split: if_splits)
    from ok_but_next [OF put [unfolded 3] st1 at] 3 show ?thesis by (auto simp: st' top_of_def hierarchy_ok_but)
  next
    case 4
    then obtain st1 where st1: "set_next (i, UL3) (i, MEM) ?st = Some st1"
      and st': "st' = set_top (i, DL1) (i, DL1) (set_top (i, IL1) (i, IL1) st1)"
      using run by (auto simp: connect_memory_def Let_def bind_eq_Some_conv split: if_splits)
    from ok_but_next [OF put [unfolded 4] st1 at] 4 show ?thesis by (auto simp: st' top_of_def hierarchy_ok_but)
  qed
qed

text \<open>A configuration the simulator can use: every cache holds a set, and an L1I comes with an L1D.\<close>

definition usable :: "ConfigReader \<Rightarrow> (CostSite \<Rightarrow> StorageLevel \<Rightarrow> string) \<Rightarrow> bool" where
  "usable reader nm \<longleftrightarrow> (\<forall>i \<in> set sites.
     (\<forall>j. has_section reader (nm i j) \<longrightarrow> j \<noteq> MEM \<longrightarrow> has_a_set reader (nm i j)) \<and>
     (has_section reader (nm i IL1) \<longrightarrow> has_section reader (nm i DL1)))"

text \<open>The references of a site reach an existing level of that site.\<close>

definition site_ready :: "STORAGE \<Rightarrow> CostSite \<Rightarrow> bool" where
  "site_ready st i \<longleftrightarrow> (\<forall>j \<in> {IL1, DL1}. \<exists>t. storage_top st (i, j) = Some t \<and> fst t = i \<and> levels st t \<noteq> None)"

lemma read_site:
  assumes "read_levels reader nm junk this i [IL1, DL1, UL2, UL3] None (g, st) = Some (prev, g', st1)"
    and "connect_memory reader nm i prev st1 = Some st'" and "usable reader nm" and "i \<in> set sites" and "hierarchy_ok st"
  shows "hierarchy_ok st' \<and> site_ready st' i \<and> cost_package st' = cost_package st \<and> last_icacheline st' = last_icacheline st \<and>
    (\<forall>k. k \<noteq> i \<longrightarrow> site_ready st k \<longrightarrow> site_ready st' k)"
proof -
  have use: "\<forall>j. has_section reader (nm i j) \<longrightarrow> j \<noteq> MEM \<longrightarrow> has_a_set reader (nm i j)"
    "has_section reader (nm i IL1) \<longrightarrow> has_section reader (nm i DL1)"
    using assms(3,4) unfolding usable_def by blast+
  have r: "ok_but (open_levels i prev) st1" "same_rest st st1" "prev \<noteq> Some MEM"
    "dom (levels st1) = dom (levels st) \<union> Pair i ` levels_upto prev"
    using read_levels_spec [OF assms(1) _ use(1), of "dom (levels st)"] assms(5) by (simp_all add: hierarchy_ok_but)
  have "prev \<noteq> Some IL1" using read_levels_IL1_only [of reader nm junk this i "(g, st)"] assms(1) use(2) by blast
  note c = connect_memory_spec [OF assms(2) r(1,3) this]
  have "site_ready st' i"
  proof -
    have "(i, MEM) \<in> dom (levels st')" using c by blast
    moreover have "prev \<noteq> None \<Longrightarrow> j \<in> {IL1, DL1} \<Longrightarrow> (i, j) \<in> dom (levels st')" for j
      using c r(4) \<open>prev \<noteq> Some IL1\<close> r(3) by (cases prev rule: levels_upto.cases) auto
    ultimately show ?thesis using c by (auto simp: site_ready_def top_of_def domIff)
  qed
  moreover have "site_ready st' k" if "k \<noteq> i" "site_ready st k" for k
  proof -
    have "levels st t \<noteq> None \<Longrightarrow> levels st' t \<noteq> None" for t using c r(4) by (metis Un_iff domIff insert_iff)
    moreover have "storage_top st' (k, j) = storage_top st (k, j)" for j using c r(2) that(1) by (simp add: same_rest_def)
    ultimately show ?thesis using that(2) unfolding site_ready_def by metis
  qed
  ultimately show ?thesis using c r(2) by (simp add: same_rest_def)
qed

lemma ReadConfig_spec:
  assumes run: "ReadConfig reader nm junk this (new_STORAGE pkg) = Some st" and use: "usable reader nm"
  shows "hierarchy_ok st \<and> site_ready st CPU \<and> site_ready st PIM \<and> cost_package st = pkg \<and> last_icacheline st = [0, 0]"
proof -
  obtain p1 g1 s1 t1 p2 g2 s2 where
    cpu: "read_levels reader nm junk this CPU [IL1, DL1, UL2, UL3] None (- 1, new_STORAGE pkg) = Some (p1, g1, s1)"
    "connect_memory reader nm CPU p1 s1 = Some t1"
    and pim: "read_levels reader nm junk this PIM [IL1, DL1, UL2, UL3] None (g1, t1) = Some (p2, g2, s2)"
    "connect_memory reader nm PIM p2 s2 = Some st"
    using run by (auto simp: ReadConfig_def sites_def bind_eq_Some_conv simp del: read_levels.simps)
  have "hierarchy_ok (new_STORAGE pkg)" by (simp add: hierarchy_ok_def new_STORAGE_def)
  from read_site [OF cpu use _ this]
  have a: "hierarchy_ok t1" "site_ready t1 CPU" "cost_package t1 = pkg" "last_icacheline t1 = [0, 0]"
    by (simp_all add: sites_def new_STORAGE_def)
  from read_site [OF pim use _ a(1)] a show ?thesis by (simp add: sites_def)
qed


subsection \<open>References\<close>

lemma range_addresses_short:
  fixes sz :: u32
  assumes s: "s < 32" and far: "unat (addr + ucast sz) + 2 ^ 31 < 2 ^ 64"
  shows "length (range_addresses (2 ^ s) addr (addr + ucast sz)) \<le> unat sz + 1"
proof -
  let ?L = "(2 :: nat) ^ s" and ?H = "unat (addr + ucast sz)" and ?n = "unat (next_line (2 ^ s) addr)"
  have s64: "s < 64" using s by simp
  have L: "0 < ?L" "?L \<le> 2 ^ 31" using s by (simp, intro power_increasing) simp_all
  define k where "k = ?n div ?L"
  have n: "?n = k * ?L" using next_line_multiple [OF s64] by (simp add: k_def)
  define m where "m = (?H + ?L - 1) div ?L"
  have len: "length (range_addresses (2 ^ s) addr (addr + ucast sz)) = 1 + (m - k)"
    unfolding range_addresses_def unat_line [OF s64] k_def m_def by simp
  have H: "?H = (unat addr + unat sz) mod 2 ^ 64" by (simp add: unat_word_ariths unat_ucast_up)
  have a: "unat addr < 2 ^ 64" using unsigned_less [of addr, where ?'a = nat] by simp
  have start: "?H \<le> ?n + unat sz"
  proof (cases "?n \<le> unat addr")
    case False
    have "?H \<le> unat addr + unat sz" unfolding H by (rule mod_less_eq_dividend)
    with False show ?thesis by linarith
  next
    case True
    let ?q = "unat addr div ?L"
    have above: "unat addr < (?q + 1) * ?L" using L(1) by (simp add: dividend_less_div_times)
    have wrap: "2 ^ 64 \<le> (?q + 1) * ?L"
    proof (rule ccontr)
      assume "\<not> ?thesis"
      then have "?n = (?q + 1) * ?L" unfolding next_line_unat [OF s64] by simp
      with True above show False by simp
    qed
    then have top: "2 ^ 64 \<le> unat addr + ?L"
      using wrap div_times_less_eq_dividend [of "unat addr" ?L] unfolding add_mult_distrib by linarith
    have "2 ^ 64 \<le> unat addr + unat sz"
    proof (rule ccontr)
      assume "\<not> ?thesis"
      then have "?H = unat addr + unat sz" unfolding H by simp
      with far top L(2) show False by linarith
    qed
    then have "?H = (unat addr + unat sz - 2 ^ 64) mod 2 ^ 64" unfolding H by (rule le_mod_geq)
    also have "... \<le> unat addr + unat sz - 2 ^ 64" by (rule mod_less_eq_dividend)
    finally have "?H \<le> unat sz" using a by linarith
    then show ?thesis by simp
  qed
  have "m - k \<le> unat sz"
  proof (rule ccontr)
    assume "\<not> ?thesis"
    then have "(unat sz + 1) * ?L \<le> (m - k) * ?L" by (intro mult_right_mono) simp_all
    moreover have "m * ?L \<le> ?H + ?L - 1" unfolding m_def by (rule div_times_less_eq_dividend)
    moreover have "unat sz * 1 \<le> unat sz * ?L" using L(1) by (intro mult_left_mono) simp_all
    ultimately show False using start n L(1) unfolding diff_mult_distrib add_mult_distrib by linarith
  qed
  with len show ?thesis by simp
qed


text \<open>The state the references are made in: built, connected, with room for the reuse counters.\<close>

definition storage_ok :: "nat \<Rightarrow> nat \<Rightarrow> nat \<Rightarrow> STORAGE \<Rightarrow> bool" where
  "storage_ok B T N st \<longleftrightarrow> hierarchy_ok st \<and> package_ok B T N (cost_package st) \<and>
     site_ready st CPU \<and> site_ready st PIM \<and> length (last_icacheline st) = 2"

lemma storage_ok_mono: "storage_ok B T N st \<Longrightarrow> N \<le> M \<Longrightarrow> storage_ok B T M st"
  using package_ok_mono [of B T N _ "M - N"] by (auto simp: storage_ok_def)

lemma site_ready_cong:
  "dom (levels st') = dom (levels st) \<Longrightarrow> storage_top st' = storage_top st \<Longrightarrow> site_ready st' i = site_ready st i"
  unfolding site_ready_def by (metis domIff)

lemma site_top:
  assumes "storage_ok B T N st" and "i \<in> set sites" and "j \<in> {IL1, DL1}"
  shows "\<exists>t l. storage_top st (i, j) = Some t \<and> levels st t = Some l"
  using assms by (auto simp: storage_ok_def sites_def site_ready_def)

lemma Access_ready:
  assumes ok: "storage_ok B T N st" and b: "0 \<le> b" "b < int B" and l: "levels st t = Some l"
    and far: "unat (addr + ucast sz) + 2 ^ 31 < 2 ^ 64" and room: "N + T * (unat sz + 1) < 2 ^ 64"
  shows "\<exists>hit st'. Access t addr sz ty b simd_len st = Some (hit, st') \<and> storage_ok B T (N + T * (unat sz + 1)) st' \<and>
    storage_top st' = storage_top st"
proof -
  have h: "hierarchy_ok st" and pkg: "package_ok B T N (cost_package st)" using ok by (simp_all add: storage_ok_def)
  then have lok: "level_ok t l" using l unfolding hierarchy_ok_def by blast
  obtain s where s: "s < 32" "range_line l = 2 ^ s"
  proof (cases "cache_part l")
    case None
    then show ?thesis by (intro that [of 6]) (simp_all add: range_line_def)
  next
    case (Some c)
    with lok obtain s where "s < 32" "lineSize c = 2 ^ s" by (auto simp: level_ok_def cache_ok_def)
    with Some show ?thesis by (intro that [of s]) (simp_all add: range_line_def ucast_power)
  qed
  then have line: "unat (range_line l) = 2 ^ s" by (simp add: unat_line)
  let ?as = "range_addresses (range_line l) addr (addr + ucast sz)"
  have len: "length ?as \<le> unat sz + 1" using range_addresses_short [OF s(1) far] s(2) by simp
  then have budget: "N + T * length ?as \<le> N + T * (unat sz + 1)" by (intro add_left_mono mult_left_mono) simp_all
  with room have room': "N + T * length ?as < 2 ^ 64" by linarith
  have "(2 :: nat) ^ s \<le> 2 ^ 31" using s(1) by (intro power_increasing) simp_all
  then have "unat (addr + ucast sz) + unat (range_line l) \<le> 2 ^ 64" using far line by simp
  from Access_spec(2) [OF h pkg b l room' this]
  obtain hit st' where st': "Access t addr sz ty b simd_len st = Some (hit, st')" "hierarchy_ok st'"
    "package_ok B T (N + T * length ?as) (cost_package st')" "dom (levels st') = dom (levels st)"
    "storage_top st' = storage_top st" "last_icacheline st' = last_icacheline st"
    using visit_spec [OF h pkg room' b l, of ty simd_len True] by auto
  then have "storage_ok B T (N + T * length ?as) st'"
    using ok site_ready_cong [OF st'(4,5)] by (simp add: storage_ok_def)
  with st'(1,5) storage_ok_mono [OF _ budget] show ?thesis by blast
qed

lemma DataCacheRef_ready:
  assumes ok: "storage_ok B T N st" and b: "0 \<le> b" "b < int B"
    and far: "unat (addr + ucast sz) + 2 ^ 31 < 2 ^ 64" and room: "N + 2 * T * (unat sz + 1) < 2 ^ 64"
  shows "\<exists>st'. DataCacheRef addr sz ty b simd_len st = Some st' \<and> storage_ok B T (N + 2 * T * (unat sz + 1)) st' \<and>
    storage_top st' = storage_top st"
proof -
  let ?k = "T * (unat sz + 1)"
  have room1: "N + ?k < 2 ^ 64" and room2: "N + ?k + ?k < 2 ^ 64" and sum: "N + ?k + ?k = N + 2 * T * (unat sz + 1)"
    using room by (simp_all add: algebra_simps)
  obtain t1 l1 where t1: "storage_top st (CPU, DL1) = Some t1" "levels st t1 = Some l1"
    using site_top [OF ok, of CPU DL1] by (auto simp: sites_def)
  obtain h1 st1 where st1: "Access t1 addr sz ty b simd_len st = Some (h1, st1)" "storage_ok B T (N + ?k) st1"
    "storage_top st1 = storage_top st"
    using Access_ready [OF ok b t1(2) far room1] by blast
  obtain t2 l2 where t2: "storage_top st1 (PIM, DL1) = Some t2" "levels st1 t2 = Some l2"
    using site_top [OF st1(2), of PIM DL1] by (auto simp: sites_def)
  obtain h2 st2 where "Access t2 addr sz ty b simd_len st1 = Some (h2, st2)" "storage_ok B T (N + ?k + ?k) st2"
    "storage_top st2 = storage_top st1"
    using Access_ready [OF st1(2) b t2(2) far room2] by blast
  with t1 st1 t2 show ?thesis unfolding sum by (simp add: DataCacheRef_def sites_def)
qed

text \<open>An instruction fetch needs a first-level instruction cache on both sites.\<close>

lemma line_ready:
  assumes ok: "storage_ok B T N st" and b: "0 \<le> b" "b < int B" and l: "levels st t = Some l" and room: "N + T < 2 ^ 64"
  shows "\<exists>hit st'. AccessSingleLine t addr ty b simd_len st = Some (hit, st') \<and> storage_ok B T (N + T) st' \<and>
    storage_top st' = storage_top st \<and> last_icacheline st' = last_icacheline st \<and> dom (levels st') = dom (levels st)"
proof -
  obtain st' where st': "AccessSingleLine t addr ty b simd_len st = Some (holds st t addr, st')"
    "access_post B T (if cache_part l = None then N else N + T) t addr ty l st st'"
    using AccessSingleLine_spec [where B = B and T = T and N = N, OF _ _ _ b l] ok room unfolding storage_ok_def by blast
  have same: "hierarchy_ok st'" "dom (levels st') = dom (levels st)" "storage_top st' = storage_top st"
    "last_icacheline st' = last_icacheline st" "package_ok B T (N + T) (cost_package st')"
    using st'(2) package_ok_mono [of B T N _ T] by (auto simp: access_post_def split: if_splits)
  with ok site_ready_cong [OF same(2,3)] have "storage_ok B T (N + T) st'" by (simp add: storage_ok_def)
  with st'(1) same show ?thesis by blast
qed

definition fetch_ready :: "STORAGE \<Rightarrow> bool" where
  "fetch_ready st \<longleftrightarrow> (\<forall>i \<in> set sites. \<exists>t. storage_top st (i, IL1) = Some t \<and> snd t \<noteq> MEM)"

lemma InstrCacheRef_step:
  assumes ok: "storage_ok B T N st" and fetch: "fetch_ready st" and b: "0 \<le> b" "b < int B" and room: "N + 2 * T < 2 ^ 64"
    and i: "i \<in> set sites"
  shows "\<exists>st'. InstrCacheRef_site addr sz b simd_len i st = Some st' \<and> storage_ok B T (N + 2 * T) st' \<and> fetch_ready st'"
proof -
  have N: "N + T < 2 ^ 64" "N + T + T < 2 ^ 64" "N + T + T = N + 2 * T" using room by simp_all
  obtain t where t: "storage_top st (i, IL1) = Some t" "snd t \<noteq> MEM" using fetch i unfolding fetch_ready_def by blast
  obtain l where l: "levels st t = Some l" using site_top [OF ok i, of IL1] t(1) by auto
  then have "level_ok t l" using ok unfolding storage_ok_def hierarchy_ok_def by blast
  with t(2) obtain c where c: "cache_part l = Some c" by (auto simp: level_ok_def split: option.splits)
  obtain a1 a2 where lasts: "last_icacheline st = [a1, a2]" using ok by (auto simp: storage_ok_def dest!: two_list)
  then obtain x where x: "site_at (last_icacheline st) i = Some x"
    using i by (auto simp: sites_def site_at_def vec_at_def)
  have wr: "\<exists>ls. vec_set (last_icacheline s) (site_code i) w = Some ls \<and> length ls = 2" if "last_icacheline s = [a1, a2]" for s w
    using i that by (auto simp: sites_def vec_set_def)
  have stored: "storage_ok B T M (s\<lparr>last_icacheline := ls\<rparr>) \<and> fetch_ready (s\<lparr>last_icacheline := ls\<rparr>)"
    if "storage_ok B T M s" "storage_top s = storage_top st" "length ls = 2" for M s ls
    using that fetch by (simp add: storage_ok_def hierarchy_ok_def points_down_def site_ready_def fetch_ready_def)
  have one: "\<exists>st'. (do { (h, s) \<leftarrow> AccessSingleLine t a ACCESS_TYPE_LOAD b simd_len s;
        lasts \<leftarrow> vec_set (last_icacheline s) (site_code i) w; Some (s\<lparr>last_icacheline := lasts\<rparr>) }) = Some st' \<and>
      storage_ok B T (M + T) st' \<and> fetch_ready st'"
    if s: "storage_ok B T M s" "levels s t = Some k" "M + T < 2 ^ 64" "storage_top s = storage_top st" "last_icacheline s = [a1, a2]"
    for a w s k M
    using line_ready [OF s(1) b s(2,3), of a ACCESS_TYPE_LOAD simd_len] wr [of _ w] stored s(4,5) by fastforce
  let ?cur = "addr AND NOT (ucast (lineSize c) - 1)" and ?nx = "(addr AND NOT (ucast (lineSize c) - 1)) + ucast (lineSize c)"
  have mono: "storage_ok B T (N + T) s \<Longrightarrow> storage_ok B T (N + 2 * T) s" for s by (erule storage_ok_mono) simp
  obtain h1 st1 where st1: "AccessSingleLine t ?cur ACCESS_TYPE_LOAD b simd_len st = Some (h1, st1)" "storage_ok B T (N + T) st1"
    "storage_top st1 = storage_top st" "last_icacheline st1 = last_icacheline st" "dom (levels st1) = dom (levels st)"
    using line_ready [OF ok b l N(1)] by blast
  obtain l1 where l1: "levels st1 t = Some l1" using st1(5) l by (metis domD domI)
  consider "?cur = x" "addr + ucast sz \<ge> ?nx" | "?cur = x" "\<not> addr + ucast sz \<ge> ?nx"
    | "?cur \<noteq> x" "addr + ucast sz \<ge> ?nx" | "?cur \<noteq> x" "\<not> addr + ucast sz \<ge> ?nx" by blast
  then show ?thesis
  proof cases
    case 1
    then show ?thesis using one [OF ok l N(1) refl lasts, of ?nx ?nx] mono t(1) l c x
      by (auto simp: InstrCacheRef_site_def Let_def)
  next
    case 2
    then show ?thesis using storage_ok_mono [OF ok, of "N + 2 * T"] fetch t(1) l c x
      by (simp add: InstrCacheRef_site_def Let_def)
  next
    case 3
    then show ?thesis using one [OF st1(2) l1 N(2) st1(3), of ?nx ?nx] st1(1,4) lasts t(1) l c x N(3)
      by (simp add: InstrCacheRef_site_def Let_def)
  next
    case 4
    then show ?thesis using one [OF ok l N(1) refl lasts, of ?cur ?cur] mono t(1) l c x
      by (auto simp: InstrCacheRef_site_def Let_def)
  qed
qed

lemma InstrCacheRef_ready:
  assumes ok: "storage_ok B T N st" and fetch: "fetch_ready st" and b: "0 \<le> b" "b < int B" and room: "N + 4 * T < 2 ^ 64"
  shows "\<exists>st'. InstrCacheRef addr sz b simd_len st = Some st' \<and> storage_ok B T (N + 4 * T) st' \<and> fetch_ready st'"
proof -
  obtain s1 where s1: "InstrCacheRef_site addr sz b simd_len CPU st = Some s1" "storage_ok B T (N + 2 * T) s1" "fetch_ready s1"
    using InstrCacheRef_step [OF ok fetch b, of CPU addr sz simd_len] room by (auto simp: sites_def)
  have "N + 2 * T + 2 * T = N + 4 * T" by simp
  with InstrCacheRef_step [OF s1(2,3) b, of PIM addr sz simd_len] s1(1) room show ?thesis
    by (auto simp: InstrCacheRef_def sites_def)
qed

subsection \<open>Flushing\<close>

text \<open>The loop starts at the index \<open>NumSets()\<close>, one past the last set.\<close>

lemma CACHE_Flush_undefined:
  assumes c: "cache_ok c" and small: "NumSets c < 2 ^ 31"
  shows "CACHE_Flush c = None"
proof -
  obtain k where k: "k < 32" "NumSets c = 2 ^ k" "length (cl_sets c) = 2 ^ k"
    using c by (auto simp: cache_ok_def NumSets_def)
  have "(2 :: nat) ^ k < 2 ^ 31" using small k(1,2) by (simp add: word_less_nat_alt unat_two_power)
  then have "k < 31" by (simp only: power_strict_increasing_iff one_less_numeral_iff semiring_norm)
  then have "(2 :: int) ^ k < 2 ^ 31" by (simp only: power_strict_increasing_iff one_less_numeral_iff semiring_norm)
  then have "signed_take_bit 31 ((2 :: int) ^ k) = 2 ^ k" by (intro signed_take_bit_int_eq_self) (simp_all add: order_trans [of _ 0])
  then have "sint (NumSets c) = 2 ^ k" using k(1,2) by (simp add: sint_uint uint_nat unat_two_power)
  then have "rev [0..<nat (sint (NumSets c) + 1)] = 2 ^ k # rev [0..<2 ^ k]"
    by (simp add: nat_add_distrib nat_power_eq)
  moreover have "vec_at (cl_sets c) (int (2 ^ k)) = None" using k(3) by (simp add: vec_at_def)
  ultimately show ?thesis by (simp add: CACHE_Flush_def)
qed

end
