(* ===== verification/Pin_Tool.thy ===== *)
theory Pin_Tool
  imports Cache_Access "HOL-Library.AList"
begin

text \<open>
  The Pin tool (\<open>PIMProfSolver/PinInstrument.cpp\<close>, \<open>Simulation.cpp\<close>, \<open>BBLScope\<close> in \<open>Util.h\<close>): which
  analysis calls are inserted for an instruction, and the handlers those calls run. The members of
  \<open>CostPackage\<close> that are commented out in \<open>CostPackage.h\<close> are restored: those the cache simulation
  uses are in its record, the others are fields of \<open>PinTool\<close>. The command line flags the handlers
  ask for (\<open>enableroi\<close>, \<open>enableroidecision\<close>) do not exist in \<open>Util.h\<close> and are fields as well. A
  handler is one step of the model. In the code the handlers hold the lock only as readers, which
  keeps them apart from the start and the end of a thread but not from each other: the model covers
  the runs in which the bodies of two handlers do not overlap. Messages and the parts for \<open>PIMPROF_MPKI\<close> and \<open>PIMPROFTRACE\<close> are left out.
\<close>

subsection \<open>The scope of a thread\<close>

text \<open>A stack of block identifiers with \<open>top()\<close> first.\<close>

type_synonym BBLScope = "BBLID list"

definition new_BBLScope :: BBLScope where "new_BBLScope = [GLOBAL_BBLID]"

definition scope_push :: "BBLID \<Rightarrow> BBLScope \<Rightarrow> BBLScope" where "scope_push b s = b # s"

definition scope_pop :: "BBLScope \<Rightarrow> BBLScope option" where
  "scope_pop s = (case s of [] \<Rightarrow> None | b # r \<Rightarrow> Some r)"

definition scope_top :: "BBLScope \<Rightarrow> BBLID option" where
  "scope_top s = (case s of [] \<Rightarrow> None | b # r \<Rightarrow> Some b)"

subsection \<open>The state\<close>

record PinTool =
  pin_storage :: STORAGE
  bbl_hash :: "(UUID \<times> u32) list"
  bbl_size :: BBLID
  in_omp_parallel :: int
  thread_bbl_scope :: "BBLScope list"
  thread_in_roi :: "bool list"
  thread_in_roidecision :: "bool list"
  previous_instr :: "int list"
  enter_roi_cnt :: u64
  exit_roi_cnt :: u64
  instruction_latency :: "COST list list"
  bbl_instruction_cost :: "COST list list"
  roi_decision :: "CostSite list"
  enableroi :: bool
  enableroidecision :: bool

abbreviation pin_package :: "PinTool \<Rightarrow> CostPackage" where "pin_package st \<equiv> cost_package (pin_storage st)"

definition with_package :: "(CostPackage \<Rightarrow> CostPackage) \<Rightarrow> PinTool \<Rightarrow> PinTool" where
  "with_package f st = st\<lparr>pin_storage := (pin_storage st)\<lparr>cost_package := f (pin_package st)\<rparr>\<rparr>"

text \<open>A new block gets the next identifier and an entry in every table.\<close>

definition initializeNewBBL :: "UUID \<Rightarrow> PinTool \<Rightarrow> PinTool" where
  "initializeNewBBL bblhash st =
     (let st = st\<lparr>bbl_hash := AList.update bblhash (word_of_int (bbl_size st)) (bbl_hash st), bbl_size := bbl_size st + 1\<rparr>;
          st = with_package (\<lambda>pkg. pkg\<lparr>bbl_parallelizable := bbl_parallelizable pkg @ [enableroi st]\<rparr>) st;
          st = st\<lparr>bbl_instruction_cost := map (\<lambda>row. row @ [0]) (bbl_instruction_cost st)\<rparr>;
          st = with_package (\<lambda>pkg. pkg\<lparr>bbl_memory_cost := map (\<lambda>row. row @ [0]) (bbl_memory_cost pkg)\<rparr>) st;
          st = (if enableroidecision st then st\<lparr>roi_decision := roi_decision st @ [CPU]\<rparr> else st)
      in with_package (\<lambda>pkg. pkg\<lparr>bbl_instruction_memory_cost := map (\<lambda>row. row @ [0]) (bbl_instruction_memory_cost pkg)\<rparr>) st)"

definition set_parallelizable :: "BBLID \<Rightarrow> bool \<Rightarrow> PinTool \<Rightarrow> PinTool option" where
  "set_parallelizable b p st = do {
     ps \<leftarrow> vec_set (bbl_parallelizable (pin_package st)) b p;
     Some (with_package (\<lambda>pkg. pkg\<lparr>bbl_parallelizable := ps\<rparr>) st) }"

subsection \<open>The handlers of the magic instructions\<close>

definition DoAtAnnotationHead :: "u64 \<Rightarrow> u64 \<Rightarrow> u64 \<Rightarrow> nat \<Rightarrow> PinTool \<Rightarrow> PinTool option" where
  "DoAtAnnotationHead bblhash_hi bblhash_lo isomp threadid st = do {
     let bblhash = (bblhash_hi, bblhash_lo);
     let st = (if map_of (bbl_hash st) bblhash = None then initializeNewBBL bblhash st else st);
     i \<leftarrow> map_of (bbl_hash st) bblhash;
     let b = uint i;
     let st = (if isomp \<noteq> 0 then st\<lparr>in_omp_parallel := in_omp_parallel st + 1\<rparr> else st);
     p \<leftarrow> vec_at (bbl_parallelizable (pin_package st)) b;
     st \<leftarrow> set_parallelizable b (p \<or> in_omp_parallel st > 0) st;
     st \<leftarrow> (if threadid = 1 then set_parallelizable b True st else Some st);
     st \<leftarrow> (if enableroidecision st then do {
         r \<leftarrow> vec_at (thread_in_roidecision st) (int threadid);
         if r then do {
           ds \<leftarrow> vec_set (roi_decision st) b PIM;
           set_parallelizable b True (st\<lparr>roi_decision := ds\<rparr>) }
         else Some st }
       else Some st);
     s \<leftarrow> vec_at (thread_bbl_scope st) (int threadid);
     ss \<leftarrow> vec_set (thread_bbl_scope st) (int threadid) (scope_push b s);
     Some (st\<lparr>thread_bbl_scope := ss\<rparr>) }"

text \<open>\<open>_bbl_hash[bblhash]\<close> enters the value 0 for a hash that is not there; then the assertion.\<close>

definition DoAtAnnotationTail :: "u64 \<Rightarrow> u64 \<Rightarrow> u64 \<Rightarrow> nat \<Rightarrow> PinTool \<Rightarrow> PinTool option" where
  "DoAtAnnotationTail bblhash_hi bblhash_lo isomp threadid st = do {
     let bblhash = (bblhash_hi, bblhash_lo);
     let st = (if isomp \<noteq> 0 then st\<lparr>in_omp_parallel := in_omp_parallel st - 1\<rparr> else st);
     s \<leftarrow> vec_at (thread_bbl_scope st) (int threadid);
     t \<leftarrow> scope_top s;
     let (i, hashes) = (case map_of (bbl_hash st) bblhash of
         Some i \<Rightarrow> (i, bbl_hash st)
       | None \<Rightarrow> (0, AList.update bblhash 0 (bbl_hash st)));
     if t = uint i then do {
       s \<leftarrow> scope_pop s;
       ss \<leftarrow> vec_set (thread_bbl_scope st) (int threadid) s;
       Some (st\<lparr>bbl_hash := hashes, thread_bbl_scope := ss\<rparr>) }
     else None }"

definition set_in_roi :: "nat \<Rightarrow> bool \<Rightarrow> PinTool \<Rightarrow> PinTool option" where
  "set_in_roi threadid v st =
     (if enableroi st then do { rs \<leftarrow> vec_set (thread_in_roi st) (int threadid) v; Some (st\<lparr>thread_in_roi := rs\<rparr>) }
      else Some st)"

definition DoAtROIHead :: "nat \<Rightarrow> PinTool \<Rightarrow> PinTool option" where
  "DoAtROIHead threadid st = set_in_roi threadid True st"

definition DoAtROITail :: "nat \<Rightarrow> PinTool \<Rightarrow> PinTool option" where
  "DoAtROITail threadid st = set_in_roi threadid False st"

definition DoAtROIDecisionHead :: "nat \<Rightarrow> PinTool \<Rightarrow> PinTool option" where
  "DoAtROIDecisionHead threadid st =
     (if enableroidecision st then do {
        r \<leftarrow> vec_at (thread_in_roidecision st) (int threadid);
        let st = (if \<not> r then st\<lparr>enter_roi_cnt := enter_roi_cnt st + 1\<rparr> else st);
        rs \<leftarrow> vec_set (thread_in_roidecision st) (int threadid) True;
        Some (st\<lparr>thread_in_roidecision := rs\<rparr>) }
      else Some st)"

definition DoAtROIDecisionTail :: "nat \<Rightarrow> PinTool \<Rightarrow> PinTool option" where
  "DoAtROIDecisionTail threadid st =
     (if enableroidecision st then do {
        r \<leftarrow> vec_at (thread_in_roidecision st) (int threadid);
        let st = (if r then st\<lparr>exit_roi_cnt := exit_roi_cnt st + 1\<rparr> else st);
        rs \<leftarrow> vec_set (thread_in_roidecision st) (int threadid) False;
        Some (st\<lparr>thread_in_roidecision := rs\<rparr>) }
      else Some st)"

definition HandleMagic :: "u64 \<Rightarrow> u64 \<Rightarrow> u64 \<Rightarrow> nat \<Rightarrow> PinTool \<Rightarrow> PinTool option" where
  "HandleMagic bblhash_hi bblhash_lo control_value threadid st =
     (let op = GetOpType control_value; isomp = GetIsOpenMP control_value
      in if op = magic_code MAGIC_OP_ANNOTATIONHEAD then DoAtAnnotationHead bblhash_hi bblhash_lo isomp threadid st
         else if op = magic_code MAGIC_OP_ANNOTATIONTAIL then DoAtAnnotationTail bblhash_hi bblhash_lo isomp threadid st
         else if op = magic_code MAGIC_OP_ROIBEGIN then DoAtROIHead threadid st
         else if op = magic_code MAGIC_OP_ROIEND then DoAtROITail threadid st
         else if op = magic_code MAGIC_OP_ROIDECISIONBEGIN then DoAtROIDecisionHead threadid st
         else if op = magic_code MAGIC_OP_ROIDECISIONEND then DoAtROIDecisionTail threadid st
         else None)"

definition DoAtAcceleratorHead :: "PinTool \<Rightarrow> PinTool" where
  "DoAtAcceleratorHead = with_package (\<lambda>pkg. pkg\<lparr>inAcceleratorFunction := True\<rparr>)"

definition DoAtAcceleratorTail :: "PinTool \<Rightarrow> PinTool" where
  "DoAtAcceleratorTail = with_package (\<lambda>pkg. pkg\<lparr>inAcceleratorFunction := False\<rparr>)"

subsection \<open>Threads\<close>

definition ThreadStart :: "PinTool \<Rightarrow> PinTool" where
  "ThreadStart st =
     (let st = st\<lparr>thread_bbl_scope := thread_bbl_scope st @ [new_BBLScope],
            thread_in_roi := thread_in_roi st @ [\<not> enableroi st],
            thread_in_roidecision := thread_in_roidecision st @ [\<not> enableroidecision st],
            previous_instr := previous_instr st @ [0]\<rparr>
      in with_package (\<lambda>pkg. pkg\<lparr>thread_count := thread_count pkg + 1\<rparr>) st)"

definition ThreadFinish :: "PinTool \<Rightarrow> PinTool" where
  "ThreadFinish = with_package (\<lambda>pkg. pkg\<lparr>thread_count := thread_count pkg - 1\<rparr>)"

subsection \<open>The handlers of ordinary instructions\<close>

text \<open>The guards: outside the region of interest nothing is counted, and one thread stands for all.\<close>

definition outside_roi :: "nat \<Rightarrow> PinTool \<Rightarrow> bool option" where
  "outside_roi threadid st = do {
     r \<leftarrow> vec_at (thread_in_roi st) (int threadid);
     Some (\<not> r \<and> roi_decision st = []) }"

definition representative :: "nat \<Rightarrow> PinTool \<Rightarrow> bool" where
  "representative threadid st \<longleftrightarrow>
     (let n = thread_count (pin_package st) in n = 1 \<and> threadid = 0 \<or> n \<ge> 2 \<and> threadid = 1)"

definition latency_cost :: "PinTool \<Rightarrow> u32 \<Rightarrow> u32 \<Rightarrow> int \<Rightarrow> COST option" where
  "latency_cost st opcode simd_len i = do {
     row \<leftarrow> vec_at (instruction_latency st) i; latency \<leftarrow> vec_at row (uint opcode);
     let pkg = pin_package st;
     let cost = latency * of_int (thread_count pkg);
     if simd_len \<noteq> 0 then do {
       cap \<leftarrow> vec_at (simd_capability pkg) i;
       multiplier \<leftarrow> (if cap < simd_len then (if cap = 0 then None else Some (sint (simd_len div cap))) else Some 1);
       cores \<leftarrow> vec_at (core_count pkg) i;
       if cores = 0 then None else Some (cost * of_int multiplier / real (unat cores)) }
     else Some cost }"

definition InstructionCount :: "u32 \<Rightarrow> bool \<Rightarrow> u32 \<Rightarrow> nat \<Rightarrow> PinTool \<Rightarrow> PinTool option" where
  "InstructionCount opcode ismem simd_len threadid st = do {
     s \<leftarrow> vec_at (thread_bbl_scope st) (int threadid);
     b \<leftarrow> scope_top s;
     out \<leftarrow> outside_roi threadid st;
     if out \<or> \<not> representative threadid st \<or> \<not> counts_block b then Some st
     else do {
       simd_len \<leftarrow> effective_simd (pin_package st) b simd_len;
       if ismem then Some st
       else do {
         costs \<leftarrow> foldM (\<lambda>i costs. do {
           cost \<leftarrow> latency_cost st opcode simd_len i;
           row \<leftarrow> vec_at costs i; old \<leftarrow> vec_at row b; row \<leftarrow> vec_set row b (old + cost);
           vec_set costs i row }) [0, 1] (bbl_instruction_cost st);
         Some (st\<lparr>bbl_instruction_cost := costs\<rparr>) } } }"

definition MemoryLatency_InstrCacheRef :: "ADDRINT \<Rightarrow> u32 \<Rightarrow> u32 \<Rightarrow> nat \<Rightarrow> PinTool \<Rightarrow> PinTool option" where
  "MemoryLatency_InstrCacheRef addr sz simd_len threadid st = do {
     s \<leftarrow> vec_at (thread_bbl_scope st) (int threadid);
     b \<leftarrow> scope_top s;
     out \<leftarrow> outside_roi threadid st;
     if out then Some st
     else do {
       n \<leftarrow> vec_at (previous_instr st) (int threadid);
       ns \<leftarrow> vec_set (previous_instr st) (int threadid) (n + 1);
       let st = st\<lparr>previous_instr := ns\<rparr>;
       if representative threadid st then do {
         storage \<leftarrow> InstrCacheRef addr sz b simd_len (pin_storage st);
         Some (st\<lparr>pin_storage := storage\<rparr>) }
       else Some st } }"

definition MemoryLatency_DataCacheRef :: "ADDRINT \<Rightarrow> u32 \<Rightarrow> ACCESS_TYPE \<Rightarrow> u32 \<Rightarrow> nat \<Rightarrow> PinTool \<Rightarrow> PinTool option" where
  "MemoryLatency_DataCacheRef addr sz ty simd_len threadid st = do {
     s \<leftarrow> vec_at (thread_bbl_scope st) (int threadid);
     b \<leftarrow> scope_top s;
     out \<leftarrow> outside_roi threadid st;
     if out then Some st
     else do {
       ns \<leftarrow> vec_set (previous_instr st) (int threadid) 0;
       let st = st\<lparr>previous_instr := ns\<rparr>;
       if representative threadid st then do {
         storage \<leftarrow> DataCacheRef addr sz ty b simd_len (pin_storage st);
         Some (st\<lparr>pin_storage := storage\<rparr>) }
       else Some st } }"

subsection \<open>Latencies\<close>

definition MAX_INDEX :: nat where "MAX_INDEX = 4096"

text \<open>Reading the latencies: \<open>section\<close> and \<open>opcode_name\<close> stand for the names of the sites and of Pin.\<close>

definition InstructionLatency_initialize :: "PinTool \<Rightarrow> PinTool" where
  "InstructionLatency_initialize st = st\<lparr>instruction_latency := replicate 2 (replicate MAX_INDEX 1)\<rparr>"

definition read_latency :: "ConfigReader \<Rightarrow> (nat \<Rightarrow> string) \<Rightarrow> (nat \<Rightarrow> string) \<Rightarrow> nat \<Rightarrow> nat \<Rightarrow> PinTool \<Rightarrow> PinTool option" where
  "read_latency reader section_name opcode_name i j st =
     (if opcode_name j \<noteq> ''LAST'' then do {
        let latency = GetReal reader (section_name i) (opcode_name j) (- 1);
        row \<leftarrow> vec_at (instruction_latency st) (int i);
        row \<leftarrow> vec_set row (int j) (if latency \<ge> 0 then latency else 1);
        rows \<leftarrow> vec_set (instruction_latency st) (int i) row;
        Some (st\<lparr>instruction_latency := rows\<rparr>) }
      else Some st)"

definition InstructionLatency_ReadConfig :: "ConfigReader \<Rightarrow> (nat \<Rightarrow> string) \<Rightarrow> (nat \<Rightarrow> string) \<Rightarrow> PinTool \<Rightarrow> PinTool option" where
  "InstructionLatency_ReadConfig reader section_name opcode_name st =
     foldM (\<lambda>i. foldM (read_latency reader section_name opcode_name i) [0..<MAX_INDEX]) [0, 1] st"

subsection \<open>Instrumentation\<close>

text \<open>What Pin is asked about an instruction, and the calls that are inserted for it.\<close>

record INS =
  is_xchg_rcx :: bool
  INS_IsMov :: bool
  INS_Opcode :: u32
  INS_IsMemoryRead :: bool
  INS_HasMemoryRead2 :: bool
  INS_IsMemoryWrite :: bool
  INS_IsStandardMemop :: bool
  classify_sse :: bool
  classify_avx :: bool
  classify_avx512 :: bool
  SIMD_SCALAR :: bool
  vector_length_bits :: u32
  ins_length :: u32

datatype InsertedCall =
    CallHandleMagic
  | CallInstructionCount u32 bool u32
  | CallInstrCacheRef u32 u32
  | CallDataRead u32
  | CallDataRead2 u32
  | CallDataWrite u32

definition simd_length :: "INS \<Rightarrow> u32" where
  "simd_length ins =
     (if \<not> classify_sse ins \<and> \<not> classify_avx ins \<and> \<not> classify_avx512 ins then 0
      else if SIMD_SCALAR ins then 0
      else if classify_sse ins then 2
      else vector_length_bits ins div 64)"

text \<open>The global \<open>ins_to_skip\<close> is the state.\<close>

definition InstructionInstrument :: "INS \<Rightarrow> int \<Rightarrow> (InsertedCall list \<times> int) option" where
  "InstructionInstrument ins ins_to_skip =
     (if is_xchg_rcx ins then Some ([], 2)
      else if ins_to_skip > 0 then (if INS_IsMov ins then Some ([], ins_to_skip - 1) else None)
      else if ins_to_skip = 0 then (if INS_IsMov ins then Some ([CallHandleMagic], - 1) else None)
      else
        (let simd_len = simd_length ins;
             ismem = INS_IsMemoryRead ins \<or> INS_IsMemoryWrite ins
         in Some (CallInstructionCount (INS_Opcode ins) ismem simd_len #
              CallInstrCacheRef (ins_length ins) simd_len #
              (if INS_IsMemoryRead ins \<and> INS_IsStandardMemop ins then [CallDataRead simd_len] else []) @
              (if INS_HasMemoryRead2 ins \<and> INS_IsStandardMemop ins then [CallDataRead2 simd_len] else []) @
              (if INS_IsMemoryWrite ins \<and> INS_IsStandardMemop ins then [CallDataWrite simd_len] else []), ins_to_skip)))"

end
