(* ===== verification/Config_File.thy ===== *)
theory Config_File
  imports INI_Roundtrip Pin_Tool
begin

text \<open>
  The configuration of the Pin tool as a file: the \<open>ConfigReader\<close> of \<open>PIMProfSolver/Util.h\<close> that the
  cache simulation and the latencies are read with, and the writer of the latencies
  (\<open>InstructionLatency::WriteConfig\<close> in \<open>Simulation.cpp\<close>). The names of the sites, the names of the
  opcodes and \<open>ljstr\<close> come from Pin and are parameters, as is the formatting of a \<open>double\<close>.
\<close>

subsection \<open>The reader\<close>

text \<open>The questions \<open>ReadConfig\<close> asks, answered by the reader of a file; a parse error is not looked at.\<close>

definition config_reader :: "INIReader \<Rightarrow> ConfigReader" where
  "config_reader r = \<lparr>has_section = (\<lambda>name. name \<in> set (Sections r)), GetInteger = INI_GetInteger r,
     GetString = INI_Get r, GetReal = INI_GetReal r\<rparr>"

definition open_config :: "int \<Rightarrow> (string \<Rightarrow> string option) \<Rightarrow> string \<Rightarrow> ConfigReader" where
  "open_config e files filename = config_reader (new_INIReader e files filename)"

subsection \<open>The writer\<close>

definition write_latency :: "(string \<Rightarrow> nat \<Rightarrow> string) \<Rightarrow> (COST \<Rightarrow> string) \<Rightarrow> (nat \<Rightarrow> string) \<Rightarrow> PinTool \<Rightarrow> nat \<Rightarrow> nat \<Rightarrow>
    string \<Rightarrow> string option" where
  "write_latency ljstr show_cost opcode_name st i j out =
     (if opcode_name j \<noteq> ''LAST'' then do {
        row \<leftarrow> vec_at (instruction_latency st) (int i);
        latency \<leftarrow> vec_at row (int j);
        Some (out @ ljstr (opcode_name j) 15 @ ''= '' @ show_cost latency @ [newline]) }
      else Some out)"

definition InstructionLatency_WriteConfig :: "(string \<Rightarrow> nat \<Rightarrow> string) \<Rightarrow> (COST \<Rightarrow> string) \<Rightarrow> (nat \<Rightarrow> string) \<Rightarrow>
    (nat \<Rightarrow> string) \<Rightarrow> PinTool \<Rightarrow> string option" where
  "InstructionLatency_WriteConfig ljstr show_cost section_name opcode_name st =
     foldM (\<lambda>i out. do {
       let out = out @ ''['' @ section_name i @ '']'' @ [newline] @ ''; <Instuction Name> = <Instruction Latency>'' @ [newline];
       out \<leftarrow> foldM (write_latency ljstr show_cost opcode_name st i) [0..<MAX_INDEX] out;
       Some (out @ [newline]) }) [0, 1] []"

subsection \<open>What is written is a configuration file\<close>

definition real_opcodes :: "(nat \<Rightarrow> string) \<Rightarrow> nat list" where
  "real_opcodes opcode_name = filter (\<lambda>j. opcode_name j \<noteq> ''LAST'') [0..<MAX_INDEX]"

definition latency_lines :: "(COST \<Rightarrow> string) \<Rightarrow> (nat \<Rightarrow> string) \<Rightarrow> (nat \<Rightarrow> string) \<Rightarrow> PinTool \<Rightarrow> nat \<Rightarrow> INI_Line list" where
  "latency_lines show_cost section_name opcode_name st i =
     [Section (section_name i), Comment False '' <Instuction Name> = <Instruction Latency>''] @
     map (\<lambda>j. Assign (opcode_name j) (15 - length (opcode_name j)) (show_cost (instruction_latency st ! i ! j)) None)
       (real_opcodes opcode_name) @ [Blank]"

definition table_ok :: "PinTool \<Rightarrow> bool" where
  "table_ok st \<longleftrightarrow> length (instruction_latency st) = 2 \<and> (\<forall>row \<in> set (instruction_latency st). length row = MAX_INDEX)"

text \<open>\<open>ljstr\<close> fills a string with blanks up to a width.\<close>

definition left_justifies :: "(string \<Rightarrow> nat \<Rightarrow> string) \<Rightarrow> bool" where
  "left_justifies ljstr \<longleftrightarrow> (\<forall>s w. ljstr s w = s @ replicate (w - length s) CHR '' '')"

lemma table_row: "table_ok st \<Longrightarrow> i < 2 \<Longrightarrow> length (instruction_latency st ! i) = MAX_INDEX"
  by (simp add: table_ok_def)

lemma write_latencies:
  assumes "left_justifies ljstr" and "table_ok st" and "i < 2" and "\<forall>j \<in> set js. j < MAX_INDEX"
  shows "foldM (write_latency ljstr show_cost opcode_name st i) js out = Some (out @ ini_text
    (map (\<lambda>j. Assign (opcode_name j) (15 - length (opcode_name j)) (show_cost (instruction_latency st ! i ! j)) None)
      (filter (\<lambda>j. opcode_name j \<noteq> ''LAST'') js)))"
  using assms(4)
proof (induction js arbitrary: out)
  case Nil
  then show ?case by (simp add: ini_text_def)
next
  case (Cons j js)
  have "vec_at (instruction_latency st) (int i) = Some (instruction_latency st ! i)"
    using assms(2,3) by (simp add: vec_at_def table_ok_def)
  moreover have "vec_at (instruction_latency st ! i) (int j) = Some (instruction_latency st ! i ! j)"
    using table_row [OF assms(2,3)] Cons.prems by (simp add: vec_at_def)
  ultimately have "write_latency ljstr show_cost opcode_name st i j out = Some (out @ (if opcode_name j = ''LAST'' then []
      else show_line (Assign (opcode_name j) (15 - length (opcode_name j)) (show_cost (instruction_latency st ! i ! j)) None) @ [newline]))"
    using assms(1) by (simp add: write_latency_def left_justifies_def trail_def)
  then show ?case using Cons by (simp add: ini_text_Cons)
qed

lemma ini_text_append: "ini_text (a @ b) = ini_text a @ ini_text b"
  by (simp add: ini_text_def)

lemma WriteConfig_lines:
  assumes "left_justifies ljstr" and "table_ok st"
  shows "InstructionLatency_WriteConfig ljstr show_cost section_name opcode_name st =
    Some (ini_text (latency_lines show_cost section_name opcode_name st 0 @ latency_lines show_cost section_name opcode_name st 1))"
proof -
  have w: "foldM (write_latency ljstr show_cost opcode_name st i) [0..<MAX_INDEX] out = Some (out @ ini_text
    (map (\<lambda>j. Assign (opcode_name j) (15 - length (opcode_name j)) (show_cost (instruction_latency st ! i ! j)) None)
      (real_opcodes opcode_name)))" if "i < 2" for i out
    using write_latencies [OF assms that, of "[0..<MAX_INDEX]"] by (simp add: real_opcodes_def)
  show ?thesis
    by (simp add: InstructionLatency_WriteConfig_def w latency_lines_def ini_text_append ini_text_Cons Let_def)
      (simp add: ini_text_def)
qed

subsection \<open>Names that can be written\<close>

text \<open>
  What the names of the sections and of the opcodes must be like: the limits of the parser, and no
  two alike once they are lower case. A cost is legible when \<open>strtod\<close> reads back what was written.
\<close>

definition legible :: "(COST \<Rightarrow> string) \<Rightarrow> COST \<Rightarrow> bool" where
  "legible show_cost x \<longleftrightarrow> value_ok (show_cost x) \<and> length (show_cost x) < 100 \<and> stod (show_cost x) = Some x"

definition names_ok :: "(nat \<Rightarrow> string) \<Rightarrow> (nat \<Rightarrow> string) \<Rightarrow> bool" where
  "names_ok section_name opcode_name \<longleftrightarrow>
     (\<forall>i < 2. line_ok False (Section (section_name i))) \<and> (\<forall>j \<in> set (real_opcodes opcode_name). name_ok (opcode_name j)) \<and>
     inj_on (\<lambda>(i, j). MakeKey (section_name i) (opcode_name j)) ({0, 1} \<times> set (real_opcodes opcode_name))"

definition legible_table :: "(COST \<Rightarrow> string) \<Rightarrow> (nat \<Rightarrow> string) \<Rightarrow> PinTool \<Rightarrow> bool" where
  "legible_table show_cost opcode_name st \<longleftrightarrow> (\<forall>i < 2. \<forall>j \<in> set (real_opcodes opcode_name).
     legible show_cost (instruction_latency st ! i ! j) \<and> 0 \<le> instruction_latency st ! i ! j)"

lemma pair_lines_ok:
  assumes "\<forall>j \<in> set js. name_ok (nm j) \<and> value_ok (val j) \<and> length (val j) < 100"
  shows "lines_ok named (map (\<lambda>j. Assign (nm j) (15 - length (nm j)) (val j) None) js @ [Blank])"
  using assms
proof (induction js arbitrary: named)
  case (Cons j js)
  have "length (nm j) < 50" "length (val j) < 100" using Cons.prems by (simp_all add: name_ok_def MAX_NAME_def)
  then have "length (show_line (Assign (nm j) (15 - length (nm j)) (val j) None)) + 1 < INI_MAX_LINE"
    by (simp add: trail_def INI_MAX_LINE_def)
  then show ?case using Cons by (simp add: comment_ok_def)
qed (simp add: INI_MAX_LINE_def)

lemma lines_ok_append: "lines_ok named (a @ b) \<longleftrightarrow> lines_ok named a \<and> lines_ok (foldl still_named named a) b"
  by (induction a arbitrary: named) auto

lemma line_ok_Section: "line_ok named (Section s) = line_ok False (Section s)"
  by simp

lemma latency_lines_ok:
  assumes "names_ok section_name opcode_name" and "legible_table show_cost opcode_name st" and "i < 2"
  shows "lines_ok named (latency_lines show_cost section_name opcode_name st i)"
proof -
  have s: "line_ok False (Section (section_name i))" using assms(1,3) by (simp add: names_ok_def)
  then have "length (show_line (Section (section_name i))) + 1 < INI_MAX_LINE"
    by (simp add: INI_MAX_LINE_def MAX_SECTION_def)
  moreover have "lines_ok False (map (\<lambda>j. Assign (opcode_name j) (15 - length (opcode_name j)) (show_cost (instruction_latency st ! i ! j)) None)
      (real_opcodes opcode_name) @ [Blank])"
    by (rule pair_lines_ok) (use assms in \<open>auto simp: names_ok_def legible_table_def legible_def\<close>)
  moreover have "line_chars '' <Instuction Name> = <Instruction Latency>''" by (simp add: line_chars_def newline_def)
  ultimately show ?thesis using s by (simp add: latency_lines_def INI_MAX_LINE_def)
qed


subsection \<open>Reading the latencies\<close>

text \<open>The table after the first \<open>k\<close> opcodes of a site were read into it.\<close>

definition latency_of :: "ConfigReader \<Rightarrow> (nat \<Rightarrow> string) \<Rightarrow> (nat \<Rightarrow> string) \<Rightarrow> nat \<Rightarrow> nat \<Rightarrow> COST" where
  "latency_of reader section_name opcode_name i j =
     (let l = GetReal reader (section_name i) (opcode_name j) (- 1) in if l \<ge> 0 then l else 1)"

definition row_read :: "ConfigReader \<Rightarrow> (nat \<Rightarrow> string) \<Rightarrow> (nat \<Rightarrow> string) \<Rightarrow> nat \<Rightarrow> PinTool \<Rightarrow> nat \<Rightarrow> PinTool \<Rightarrow> bool" where
  "row_read reader section_name opcode_name i st k st' \<longleftrightarrow>
     table_ok st' \<and> st' = st\<lparr>instruction_latency := instruction_latency st'\<rparr> \<and>
     (\<forall>a < 2. \<forall>b < MAX_INDEX. instruction_latency st' ! a ! b =
        (if a = i \<and> b < k \<and> opcode_name b \<noteq> ''LAST'' then latency_of reader section_name opcode_name i b
         else instruction_latency st ! a ! b))"

lemma read_latency_step:
  assumes "table_ok t" and "i < 2" and "k < MAX_INDEX" and "opcode_name k \<noteq> ''LAST''"
  shows "read_latency reader section_name opcode_name i k t = Some (t\<lparr>instruction_latency := (instruction_latency t)
    [i := (instruction_latency t ! i)[k := latency_of reader section_name opcode_name i k]]\<rparr>)"
proof -
  have len: "length (instruction_latency t ! i) = MAX_INDEX" "length (instruction_latency t) = 2"
    using table_row [OF assms(1,2)] assms(1) by (simp_all add: table_ok_def)
  have "vec_at (instruction_latency t) (int i) = Some (instruction_latency t ! i)"
    "\<And>x. vec_set (instruction_latency t ! i) (int k) x = Some ((instruction_latency t ! i)[k := x])"
    "\<And>x. vec_set (instruction_latency t) (int i) x = Some ((instruction_latency t)[i := x])"
    using len assms(2,3) by (simp_all add: vec_at_def vec_set_def)
  then show ?thesis using assms(4) by (simp add: read_latency_def latency_of_def Let_def)
qed

lemma row_read_step:
  assumes t: "row_read reader section_name opcode_name i st k t"
    and "i < 2" and "k < MAX_INDEX" and "opcode_name k \<noteq> ''LAST''"
  shows "row_read reader section_name opcode_name i st (Suc k) (t\<lparr>instruction_latency := (instruction_latency t)
    [i := (instruction_latency t ! i)[k := latency_of reader section_name opcode_name i k]]\<rparr>)" (is "row_read _ _ _ _ _ _ ?t")
proof -
  have ok: "table_ok t" using t by (simp add: row_read_def)
  have len: "length (instruction_latency t ! i) = MAX_INDEX" "length (instruction_latency t) = 2"
    using table_row [OF ok assms(2)] ok by (simp_all add: table_ok_def)
  have "table_ok ?t" using table_row [OF ok] ok len assms(2,3) by (auto simp: table_ok_def in_set_conv_nth nth_list_update)
  moreover obtain lat where "t = st\<lparr>instruction_latency := lat\<rparr>" using t unfolding row_read_def by blast
  then have "?t = st\<lparr>instruction_latency := instruction_latency ?t\<rparr>" by simp
  moreover have "\<forall>a < 2. \<forall>b < MAX_INDEX. instruction_latency ?t ! a ! b =
      (if a = i \<and> b < Suc k \<and> opcode_name b \<noteq> ''LAST'' then latency_of reader section_name opcode_name i b
       else instruction_latency st ! a ! b)"
  proof (intro allI impI)
    fix a b :: nat assume ab: "a < 2" "b < MAX_INDEX"
    then have "instruction_latency t ! a ! b = (if a = i \<and> b < k \<and> opcode_name b \<noteq> ''LAST''
        then latency_of reader section_name opcode_name i b else instruction_latency st ! a ! b)"
      using t by (simp add: row_read_def)
    then show "instruction_latency ?t ! a ! b =
      (if a = i \<and> b < Suc k \<and> opcode_name b \<noteq> ''LAST'' then latency_of reader section_name opcode_name i b
       else instruction_latency st ! a ! b)"
      using ab assms(2-4) len by (cases "a = i"; cases "b = k") (auto simp: less_Suc_eq)
  qed
  ultimately show ?thesis unfolding row_read_def by blast
qed

lemma row_read_skip:
  assumes "row_read reader section_name opcode_name i st k t" and "opcode_name k = ''LAST''"
  shows "row_read reader section_name opcode_name i st (Suc k) t"
proof -
  have "b < Suc k \<and> opcode_name b \<noteq> ''LAST'' \<longleftrightarrow> b < k \<and> opcode_name b \<noteq> ''LAST''" for b
    using assms(2) by (auto simp: less_Suc_eq)
  then show ?thesis using assms(1) unfolding row_read_def by simp
qed

lemma read_row:
  assumes "table_ok st" and "i < 2"
  shows "\<exists>st'. foldM (read_latency reader section_name opcode_name i) [0..<MAX_INDEX] st = Some st' \<and>
    row_read reader section_name opcode_name i st MAX_INDEX st'"
proof (rule foldM_upt)
  show "row_read reader section_name opcode_name i st 0 st" using assms by (simp add: row_read_def)
next
  fix k t
  assume k: "k < MAX_INDEX" and t: "row_read reader section_name opcode_name i st k t"
  show "\<exists>t'. read_latency reader section_name opcode_name i k t = Some t' \<and> row_read reader section_name opcode_name i st (Suc k) t'"
  proof (cases "opcode_name k = ''LAST''")
    case True
    then show ?thesis using row_read_skip [OF t] by (simp add: read_latency_def)
  next
    case False
    have "table_ok t" using t by (simp add: row_read_def)
    then show ?thesis
      using read_latency_step [of t i k opcode_name reader section_name] row_read_step [OF t assms(2) k False] assms(2) k False by blast
  qed
qed

lemma ReadConfig_table:
  assumes "table_ok st"
  shows "\<exists>st'. InstructionLatency_ReadConfig reader section_name opcode_name st = Some st' \<and>
    st' = st\<lparr>instruction_latency := instruction_latency st'\<rparr> \<and>
    (\<forall>i < 2. \<forall>j < MAX_INDEX. instruction_latency st' ! i ! j =
       (if opcode_name j = ''LAST'' then instruction_latency st ! i ! j else latency_of reader section_name opcode_name i j))"
proof -
  obtain s1 where s1: "row_read reader section_name opcode_name 0 st MAX_INDEX s1"
    and run1: "foldM (read_latency reader section_name opcode_name 0) [0..<MAX_INDEX] st = Some s1"
    using read_row [OF assms, of 0] by (metis zero_less_numeral)
  have "table_ok s1" using s1 by (simp add: row_read_def)
  then obtain s2 where s2: "row_read reader section_name opcode_name 1 s1 MAX_INDEX s2"
    and run2: "foldM (read_latency reader section_name opcode_name 1) [0..<MAX_INDEX] s1 = Some s2"
    using read_row [of s1 1] by (metis one_less_numeral_iff semiring_norm(76))
  have "InstructionLatency_ReadConfig reader section_name opcode_name st = Some s2"
    using run1 run2 by (simp add: InstructionLatency_ReadConfig_def)
  moreover obtain l1 l2 where "s1 = st\<lparr>instruction_latency := l1\<rparr>" "s2 = s1\<lparr>instruction_latency := l2\<rparr>"
    using s1 s2 unfolding row_read_def by blast
  then have "s2 = st\<lparr>instruction_latency := instruction_latency s2\<rparr>" by simp
  moreover have "instruction_latency s2 ! i ! j =
       (if opcode_name j = ''LAST'' then instruction_latency st ! i ! j else latency_of reader section_name opcode_name i j)"
    if "i < 2" "j < MAX_INDEX" for i j
  proof -
    have "i = 0 \<or> i = 1" using that by auto
    then show ?thesis using s1 s2 that by (auto simp: row_read_def)
  qed
  ultimately show ?thesis by blast
qed


subsection \<open>The latencies of a file\<close>

lemma assignments_pairs:
  "\<exists>n'. assignments s n (map (\<lambda>j. Assign (nm j) (k j) (val j) None) js @ ls) = map (\<lambda>j. (s, nm j, val j)) js @ assignments s n' ls"
  by (induction js arbitrary: n) auto

lemma assignments_latency_lines:
  "\<exists>n'. assignments s n (latency_lines show_cost section_name opcode_name st i @ ls) =
     map (\<lambda>j. (section_name i, opcode_name j, show_cost (instruction_latency st ! i ! j))) (real_opcodes opcode_name) @
     assignments (section_name i) n' ls"
  using assignments_pairs [of "section_name i" "[]" opcode_name "\<lambda>j. 15 - length (opcode_name j)"
      "\<lambda>j. show_cost (instruction_latency st ! i ! j)" "real_opcodes opcode_name" "Blank # ls"]
  by (simp add: latency_lines_def)

lemma assignments_latencies:
  "assignments [] [] (latency_lines show_cost section_name opcode_name st 0 @ latency_lines show_cost section_name opcode_name st 1) =
     map (\<lambda>(i, j). (section_name i, opcode_name j, show_cost (instruction_latency st ! i ! j)))
       (List.product [0, 1] (real_opcodes opcode_name))"
  using assignments_latency_lines [of "[]" "[]" show_cost section_name opcode_name st 0 "latency_lines show_cost section_name opcode_name st 1"]
    assignments_latency_lines [of "section_name 0" _ show_cost section_name opcode_name st 1 "[]"]
  by (auto simp: o_def)

lemma filter_inj_key:
  "distinct xs \<Longrightarrow> inj_on key (set xs) \<Longrightarrow> x \<in> set xs \<Longrightarrow> filter (\<lambda>y. key y = key x) xs = [x]"
proof (induction xs)
  case (Cons y xs)
  have "filter (\<lambda>y. key y = key x) xs = []" if "x = y"
    using Cons.prems(1,2) that by (auto simp: filter_empty_conv image_iff)
  moreover have "key y \<noteq> key x" if "x \<noteq> y" using Cons.prems(2,3) that by (auto dest: inj_onD)
  ultimately show ?case using Cons by auto
qed simp

lemma values_at_map:
  "values_at (map (\<lambda>(i, j). (s i, n j, val i j)) L) k =
     map (\<lambda>(i, j). val i j) (filter (\<lambda>y. (case y of (i, j) \<Rightarrow> MakeKey (s i) (n j)) = k) L)"
  by (simp add: values_at_def filter_map o_def case_prod_beta)

lemma value_of_latency:
  assumes "names_ok section_name opcode_name" and "i < 2" and "j \<in> set (real_opcodes opcode_name)"
  shows "values_at (map (\<lambda>(i, j). (section_name i, opcode_name j, val i j)) (List.product [0, 1] (real_opcodes opcode_name)))
    (MakeKey (section_name i) (opcode_name j)) = [val i j]"
proof -
  let ?L = "List.product [0::nat, 1] (real_opcodes opcode_name)"
  let ?key = "\<lambda>(i, j). MakeKey (section_name i) (opcode_name j)"
  have "distinct (real_opcodes opcode_name)" by (simp add: real_opcodes_def)
  then have dist: "distinct ?L" by (intro distinct_product) simp_all
  have L: "set ?L = {0, 1} \<times> set (real_opcodes opcode_name)" by (simp only: set_product list.set)
  then have inj: "inj_on ?key (set ?L)" using assms(1) by (simp only: names_ok_def)
  have "(i, j) \<in> set ?L" unfolding L using assms(2,3) by auto
  with dist inj have "filter (\<lambda>y. ?key y = ?key (i, j)) ?L = [(i, j)]" by (rule filter_inj_key)
  then show ?thesis by (simp only: values_at_map prod.case list.map)
qed

lemma latency_in_file:
  assumes "left_justifies ljstr" and "table_ok st" and "names_ok section_name opcode_name"
    and "legible_table show_cost opcode_name st"
    and "InstructionLatency_WriteConfig ljstr show_cost section_name opcode_name st = files filename"
    and "i < 2" and "j \<in> set (real_opcodes opcode_name)"
  shows "GetReal (open_config e files filename) (section_name i) (opcode_name j) d = instruction_latency st ! i ! j"
proof -
  let ?ls = "latency_lines show_cost section_name opcode_name st 0 @ latency_lines show_cost section_name opcode_name st 1"
  have written: "files filename = Some (ini_text ?ls)" using WriteConfig_lines [OF assms(1,2)] assms(5) by simp
  have ok: "lines_ok False ?ls" using latency_lines_ok [OF assms(3,4)] by (simp add: lines_ok_append)
  have "take 3 (ini_text ?ls) \<noteq> BOM" by (simp add: latency_lines_def ini_text_Cons BOM_def)
  from INIReader_file(2) [of files filename ?ls e, OF written ok this]
  have holds: "reader_holds (map (\<lambda>(i, j). (section_name i, opcode_name j, show_cost (instruction_latency st ! i ! j)))
       (List.product [0, 1] (real_opcodes opcode_name))) (new_INIReader e files filename)"
    unfolding assignments_latencies .
  have "INI_Get (new_INIReader e files filename) (section_name i) (opcode_name j) [] = show_cost (instruction_latency st ! i ! j)"
    using reader_holds_Get [OF holds] value_of_latency [OF assms(3,6,7)] by (simp add: join_values_def)
  moreover have "stod (show_cost (instruction_latency st ! i ! j)) = Some (instruction_latency st ! i ! j)"
    using assms(4,6,7) by (auto simp: legible_table_def legible_def)
  ultimately show ?thesis by (simp add: open_config_def config_reader_def INI_GetReal_def)
qed


subsection \<open>The section of a cache\<close>

lemma written_integer:
  assumes "reader_holds as r" and "values_at as (MakeKey s n) = [show_int v]" and "- (2 ^ 31) \<le> v" and "v < 2 ^ 31"
  shows "int32 (INI_GetInteger r s n d) = v"
proof -
  have "INI_GetInteger r s n d = v"
    using reader_holds_Get [OF assms(1), of s n "[]"] strtol_show [of v] assms(2-4)
    by (simp add: INI_GetInteger_def join_values_def)
  then show ?thesis using assms(3,4) by (simp add: int32_def sint_sbintrunc' signed_take_bit_int_eq_self)
qed

text \<open>What the lines of a file say about one cache level.\<close>

definition cache_section :: "(string \<times> string \<times> string) list \<Rightarrow> string \<Rightarrow> int \<Rightarrow> int \<Rightarrow> int \<Rightarrow> int \<Rightarrow> string \<Rightarrow> string \<Rightarrow> bool" where
  "cache_section as name linesize cachesize assoc allocation policy cost_text \<longleftrightarrow>
     values_at as (MakeKey name ''linesize'') = [show_int linesize] \<and>
     values_at as (MakeKey name ''cachesize'') = [show_int cachesize] \<and>
     values_at as (MakeKey name ''associativity'') = [show_int assoc] \<and>
     values_at as (MakeKey name ''allocation'') = [show_int allocation] \<and>
     values_at as (MakeKey name ''policy'') = [policy] \<and> values_at as (MakeKey name ''hitcost'') = [cost_text] \<and> policy \<noteq> [] \<and>
     (\<forall>v \<in> {linesize, cachesize, assoc, allocation}. 0 \<le> v \<and> v < 2 ^ 31)"

lemma read_level_section:
  assumes holds: "reader_holds as r"
    and "cache_section as (level_name i j) linesize cachesize assoc allocation policy cost_text"
    and "stod cost_text = Some x" and "0 \<le> x" and "g = - 1 \<or> g = linesize" and "j = IL1 \<or> j = DL1"
  shows "read_level (config_reader r) level_name junk this i j (g, st) =
    map_option (\<lambda>c. (linesize, put_level (i, j) c st))
      (new_CACHE_LEVEL junk this i j policy (word_of_int cachesize) (word_of_int linesize) (word_of_int assoc)
         (word_of_int allocation) (site_hitcost i x))"
proof -
  note sec = assms(2) [unfolded cache_section_def]
  have "int32 (INI_GetInteger r (level_name i j) ''linesize'' d) = linesize"
    "int32 (INI_GetInteger r (level_name i j) ''cachesize'' d) = cachesize"
    "int32 (INI_GetInteger r (level_name i j) ''associativity'' d) = assoc"
    "int32 (INI_GetInteger r (level_name i j) ''allocation'' d) = allocation" for d
    using sec by (auto intro!: written_integer [OF holds])
  moreover have "INI_Get r (level_name i j) ''policy'' [] = policy"
    using reader_holds_Get [OF holds] sec by (simp add: join_values_def)
  moreover have "INI_GetReal r (level_name i j) ''hitcost'' d = x" for d
    using reader_holds_Get [OF holds] sec assms(3) by (simp add: join_values_def INI_GetReal_def)
  moreover have "linesize \<noteq> - 1" "cachesize \<noteq> - 1" "assoc \<noteq> - 1" "allocation \<noteq> - 1" "policy \<noteq> []" using sec by auto
  ultimately show ?thesis
    using assms(4-6) by (auto simp: read_level_def config_reader_def Let_def map_conv_bind_option comp_def)
qed

end
