(* ===== verification/Pin_Trace.thy ===== *)
theory Pin_Trace
  imports Pin_Tool
begin

text \<open>
  The Pin tool as a machine over the events of all threads, in the order Pin delivers them, and its
  specification: one stack of block hashes per thread. An interleaving that the specification
  accepts is processed without a failed assertion and without an access out of range, and the
  scopes of the tool are the stacks of the specification with every hash replaced by its identifier.
\<close>

subsection \<open>Events\<close>

datatype PinEvent =
    Magic nat u64 u64 u64
  | Instr nat u32 bool u32
  | Fetch nat ADDRINT u32 u32
  | Data nat ADDRINT u32 ACCESS_TYPE u32
  | NewThread
  | EndThread

fun pin_step :: "PinEvent \<Rightarrow> PinTool \<Rightarrow> PinTool option" where
  "pin_step (Magic t hi lo c) st = HandleMagic hi lo c t st"
| "pin_step (Instr t opcode ismem simd_len) st = InstructionCount opcode ismem simd_len t st"
| "pin_step (Fetch t addr sz simd_len) st = MemoryLatency_InstrCacheRef addr sz simd_len t st"
| "pin_step (Data t addr sz ty simd_len) st = MemoryLatency_DataCacheRef addr sz ty simd_len t st"
| "pin_step NewThread st = Some (ThreadStart st)"
| "pin_step EndThread st = Some (ThreadFinish st)"

definition pin_run :: "PinEvent list \<Rightarrow> PinTool \<Rightarrow> PinTool option" where
  "pin_run es st = foldM pin_step es st"

text \<open>The specification: the open blocks of every thread, and how many threads are running.\<close>

type_synonym nesting = "UUID list list \<times> nat"

definition nest_magic :: "nat \<Rightarrow> UUID \<Rightarrow> u64 \<Rightarrow> UUID list list \<Rightarrow> UUID list list option" where
  "nest_magic t h op sh =
     (if length sh \<le> t then None
      else if op = magic_code MAGIC_OP_ANNOTATIONHEAD then Some (sh[t := h # sh ! t])
      else if op = magic_code MAGIC_OP_ANNOTATIONTAIL then
        (case sh ! t of [] \<Rightarrow> None | k # r \<Rightarrow> if k = h then Some (sh[t := r]) else None)
      else if op \<le> magic_code MAGIC_OP_ROIDECISIONEND then Some sh else None)"

definition nest_plain :: "nat \<Rightarrow> UUID list list \<Rightarrow> UUID list list option" where
  "nest_plain t sh = (if t < length sh \<and> sh ! t \<noteq> [] then Some sh else None)"

fun nest_step :: "PinEvent \<Rightarrow> nesting \<Rightarrow> nesting option" where
  "nest_step (Magic t hi lo c) (sh, n) = map_option (\<lambda>sh. (sh, n)) (nest_magic t (hi, lo) (GetOpType c) sh)"
| "nest_step (Instr t opcode ismem simd_len) (sh, n) = map_option (\<lambda>sh. (sh, n)) (nest_plain t sh)"
| "nest_step (Fetch t addr sz simd_len) (sh, n) = map_option (\<lambda>sh. (sh, n)) (nest_plain t sh)"
| "nest_step (Data t addr sz ty simd_len) (sh, n) = map_option (\<lambda>sh. (sh, n)) (nest_plain t sh)"
| "nest_step NewThread (sh, n) = Some (sh @ [[GLOBAL_BBLHASH]], Suc n)"
| "nest_step EndThread (sh, n) = (if n = 0 then None else Some (sh, n - 1))"

definition nest_run :: "PinEvent list \<Rightarrow> nesting \<Rightarrow> nesting option" where
  "nest_run es s = foldM nest_step es s"

subsection \<open>The invariant\<close>

definition known :: "PinTool \<Rightarrow> UUID \<Rightarrow> bool" where
  "known st h \<longleftrightarrow> map_of (bbl_hash st) h \<noteq> None"

definition ident :: "PinTool \<Rightarrow> UUID \<Rightarrow> BBLID" where
  "ident st h = uint (the (map_of (bbl_hash st) h))"

text \<open>Tables have a row per block, the per-thread vectors an entry per thread, identifiers are unique.\<close>

definition pin_ok :: "nat \<Rightarrow> nat \<Rightarrow> nat \<Rightarrow> PinTool \<Rightarrow> bool" where
  "pin_ok B T N st \<longleftrightarrow>
     storage_ok B T N (pin_storage st) \<and> fetch_ready (pin_storage st) \<and> bbl_size st = int B \<and>
     (\<forall>h. known st h \<longrightarrow> ident st h < int B) \<and> inj_on (ident st) (Collect (known st)) \<and>
     known st GLOBAL_BBLHASH \<and> ident st GLOBAL_BBLHASH = GLOBAL_BBLID \<and>
     length (bbl_instruction_cost st) = 2 \<and> (\<forall>row \<in> set (bbl_instruction_cost st). length row = B) \<and>
     length (instruction_latency st) = 2 \<and> (\<forall>row \<in> set (instruction_latency st). length row = MAX_INDEX) \<and>
     (enableroidecision st \<longrightarrow> length (roi_decision st) = B) \<and>
     length (thread_in_roi st) = length (thread_bbl_scope st) \<and>
     length (thread_in_roidecision st) = length (thread_bbl_scope st) \<and>
     length (previous_instr st) = length (thread_bbl_scope st)"

definition nested :: "UUID list list \<Rightarrow> PinTool \<Rightarrow> bool" where
  "nested sh st \<longleftrightarrow> thread_bbl_scope st = map (map (ident st)) sh \<and> (\<forall>us \<in> set sh. \<forall>h \<in> set us. known st h)"

subsection \<open>The storage leaves the number of threads alone\<close>

abbreviation threads :: "STORAGE \<Rightarrow> int" where "threads st \<equiv> thread_count (cost_package st)"

lemma cost_threads:
  "AddMemCost l b n pkg = Some pkg' \<Longrightarrow> thread_count pkg' = thread_count pkg"
  "AddInstructionMemCost l b n pkg = Some pkg' \<Longrightarrow> thread_count pkg' = thread_count pkg"
  "InsertOnHit tag ty b pkg = Some pkg' \<Longrightarrow> thread_count pkg' = thread_count pkg"
  "SplitOnMiss tag pkg = Some pkg' \<Longrightarrow> thread_count pkg' = thread_count pkg"
  by (auto simp: AddMemCost_def AddInstructionMemCost_def InsertOnHit_def SplitOnMiss_def Let_def bind_eq_Some_conv split: if_splits)

lemma line_threads:
  "MemoryAccess p l ty b n st = Some r \<Longrightarrow> threads (snd r) = threads st"
  "cache_lookup p l c addr ty b n st = Some (hit, tag, st') \<Longrightarrow> threads st' = threads st"
  "cache_fill p addr st = Some (q, st') \<Longrightarrow> threads st' = threads st"
  "note_hit l hit tag ty b st = Some st' \<Longrightarrow> threads st' = threads st"
  by (auto simp: MemoryAccess_def cache_lookup_def cache_fill_def note_hit_def bind_eq_Some_conv Let_def case_prod_beta
      simp del: put_level_simps(1) dest!: cost_threads split: if_splits)

lemma AccessSingleLine_threads:
  "AccessSingleLine p addr ty b n st = Some r \<Longrightarrow> threads (snd r) = threads st"
proof (rule AccessSingleLine.raw_induct [where P = "\<lambda>p addr ty b n st r. threads (snd r) = threads st"], goal_cases)
  case (1 rec p addr ty b n st r)
  from 1(3) show ?case
    by (auto simp: bind_eq_Some_conv dest!: line_threads 1(2) split: option.splits if_splits)
qed

lemma access_loop_threads:
  "access_loop p line high ty b n addr allHit st = Some r \<Longrightarrow> threads (snd r) = threads st"
proof (rule access_loop.raw_induct [where P = "\<lambda>p line high ty b n addr allHit st r. threads (snd r) = threads st"], goal_cases)
  case (1 rec p line high ty b n addr allHit st r)
  from 1(3) show ?case
    by (auto simp: bind_eq_Some_conv Let_def dest!: AccessSingleLine_threads 1(2) split: if_splits)
qed

lemma cache_ref_threads:
  "DataCacheRef addr sz ty b n st = Some st' \<Longrightarrow> threads st' = threads st"
  "InstrCacheRef addr sz b n st = Some st' \<Longrightarrow> threads st' = threads st"
proof -
  have access: "Access p addr sz ty b n s = Some (h, s') \<Longrightarrow> threads s' = threads s" for p h s s'
    using access_loop_threads by (fastforce simp: Access_def bind_eq_Some_conv)
  assume "DataCacheRef addr sz ty b n st = Some st'"
  then show "threads st' = threads st"
    unfolding DataCacheRef_def by (rule foldM_invariant [where P = "\<lambda>s. threads s = threads st"])
      (auto simp: bind_eq_Some_conv dest!: access)
next
  assume "InstrCacheRef addr sz b n st = Some st'"
  then show "threads st' = threads st"
    unfolding InstrCacheRef_def by (rule foldM_invariant [where P = "\<lambda>s. threads s = threads st"])
      (auto simp: InstrCacheRef_site_def bind_eq_Some_conv Let_def dest!: AccessSingleLine_threads split: if_splits)
qed

subsection \<open>Changes of the package\<close>

lemma storage_ok_package:
  "storage_ok B T N s \<Longrightarrow> package_ok B' T' N' pkg \<Longrightarrow> storage_ok B' T' N' (s\<lparr>cost_package := pkg\<rparr>)"
  by (auto simp: storage_ok_def hierarchy_ok_def site_ready_def points_down_def)

lemma fetch_ready_package [simp]: "fetch_ready (s\<lparr>cost_package := pkg\<rparr>) = fetch_ready s"
  by (simp add: fetch_ready_def)

lemma with_package_fields [simp]:
  "pin_storage (with_package f st) = (pin_storage st)\<lparr>cost_package := f (pin_package st)\<rparr>"
  "bbl_hash (with_package f st) = bbl_hash st" "bbl_size (with_package f st) = bbl_size st"
  "in_omp_parallel (with_package f st) = in_omp_parallel st" "thread_bbl_scope (with_package f st) = thread_bbl_scope st"
  "thread_in_roi (with_package f st) = thread_in_roi st" "thread_in_roidecision (with_package f st) = thread_in_roidecision st"
  "previous_instr (with_package f st) = previous_instr st" "instruction_latency (with_package f st) = instruction_latency st"
  "bbl_instruction_cost (with_package f st) = bbl_instruction_cost st" "roi_decision (with_package f st) = roi_decision st"
  "enableroi (with_package f st) = enableroi st" "enableroidecision (with_package f st) = enableroidecision st"
  by (simp_all add: with_package_def)

lemma known_with_package [simp]: "known (with_package f st) = known st" "ident (with_package f st) = ident st"
  by (simp_all add: known_def ident_def fun_eq_iff)

lemma nested_with_package [simp]: "nested sh (with_package f st) = nested sh st"
  by (simp add: nested_def)

lemma pin_ok_storage:
  "pin_ok B T N st \<Longrightarrow> storage_ok B T N' s \<Longrightarrow> fetch_ready s \<Longrightarrow> pin_ok B T N' (st\<lparr>pin_storage := s\<rparr>)"
  by (simp add: pin_ok_def known_def ident_def inj_on_def)

lemma pin_ok_package:
  assumes "pin_ok B T N st" and "package_ok B T N' (f (pin_package st))"
  shows "pin_ok B T N' (with_package f st)"
  unfolding with_package_def
  using assms by (intro pin_ok_storage) (auto simp: pin_ok_def intro: storage_ok_package)

lemma pin_ok_pkg: "pin_ok B T N st \<Longrightarrow> package_ok B T N (pin_package st)"
  by (simp add: pin_ok_def storage_ok_def)

text \<open>Fields the tool's invariant does not mention.\<close>

lemma pin_ok_frame [simp]:
  "pin_ok B T N (st\<lparr>in_omp_parallel := x\<rparr>) = pin_ok B T N st"
  "pin_ok B T N (st\<lparr>enter_roi_cnt := y\<rparr>) = pin_ok B T N st"
  "pin_ok B T N (st\<lparr>exit_roi_cnt := y\<rparr>) = pin_ok B T N st"
  by (simp_all add: pin_ok_def known_def ident_def inj_on_def)

lemma nested_frame [simp]:
  "nested sh (st\<lparr>in_omp_parallel := x\<rparr>) = nested sh st" "nested sh (st\<lparr>roi_decision := d\<rparr>) = nested sh st"
  "nested sh (st\<lparr>enter_roi_cnt := y\<rparr>) = nested sh st" "nested sh (st\<lparr>exit_roi_cnt := y\<rparr>) = nested sh st"
  "nested sh (st\<lparr>thread_in_roi := r\<rparr>) = nested sh st" "nested sh (st\<lparr>thread_in_roidecision := r\<rparr>) = nested sh st"
  "nested sh (st\<lparr>previous_instr := p\<rparr>) = nested sh st" "nested sh (st\<lparr>pin_storage := s\<rparr>) = nested sh st"
  "nested sh (st\<lparr>bbl_instruction_cost := c\<rparr>) = nested sh st"
  by (simp_all add: nested_def known_def [abs_def] ident_def [abs_def])

lemma ident_nonneg [simp]: "0 \<le> ident st h"
  by (simp add: ident_def)

lemma nested_threads: "nested sh st \<Longrightarrow> length (thread_bbl_scope st) = length sh"
  by (simp add: nested_def)

lemma set_parallelizable_ok:
  assumes ok: "pin_ok B T N st" and b: "0 \<le> b" "b < int B"
  shows "\<exists>st'. set_parallelizable b p st = Some st' \<and> pin_ok B T N st' \<and>
    (\<exists>f. st' = with_package f st)"
proof -
  have len: "length (bbl_parallelizable (pin_package st)) = B" using pin_ok_pkg [OF ok] by (simp add: package_ok_def)
  let ?f = "\<lambda>pkg. pkg\<lparr>bbl_parallelizable := (bbl_parallelizable (pin_package st))[nat b := p]\<rparr>"
  have "set_parallelizable b p st = Some (with_package ?f st)"
    using b len by (simp add: set_parallelizable_def vec_set_in_range)
  moreover have "package_ok B T N (?f (pin_package st))" using pin_ok_pkg [OF ok] by (simp add: package_ok_def)
  ultimately show ?thesis using pin_ok_package [OF ok, of N ?f] by blast
qed

subsection \<open>New blocks\<close>

lemma initializeNewBBL_eq:
  "initializeNewBBL h st = st\<lparr>bbl_hash := AList.update h (word_of_int (bbl_size st)) (bbl_hash st), bbl_size := bbl_size st + 1,
     bbl_instruction_cost := map (\<lambda>row. row @ [0]) (bbl_instruction_cost st),
     roi_decision := (if enableroidecision st then roi_decision st @ [CPU] else roi_decision st),
     pin_storage := (pin_storage st)\<lparr>cost_package := (pin_package st)
       \<lparr>bbl_parallelizable := bbl_parallelizable (pin_package st) @ [enableroi st],
        bbl_memory_cost := map (\<lambda>row. row @ [0]) (bbl_memory_cost (pin_package st)),
        bbl_instruction_memory_cost := map (\<lambda>row. row @ [0]) (bbl_instruction_memory_cost (pin_package st))\<rparr>\<rparr>\<rparr>"
  by (cases "enableroidecision st") (simp_all add: initializeNewBBL_def with_package_def)

lemma initializeNewBBL_fields:
  "bbl_hash (initializeNewBBL h st) = AList.update h (word_of_int (bbl_size st)) (bbl_hash st)"
  "bbl_size (initializeNewBBL h st) = bbl_size st + 1" "thread_bbl_scope (initializeNewBBL h st) = thread_bbl_scope st"
  "thread_in_roi (initializeNewBBL h st) = thread_in_roi st"
  "thread_in_roidecision (initializeNewBBL h st) = thread_in_roidecision st"
  "previous_instr (initializeNewBBL h st) = previous_instr st"
  "bbl_instruction_cost (initializeNewBBL h st) = map (\<lambda>row. row @ [0]) (bbl_instruction_cost st)"
  "instruction_latency (initializeNewBBL h st) = instruction_latency st"
  "roi_decision (initializeNewBBL h st) = (if enableroidecision st then roi_decision st @ [CPU] else roi_decision st)"
  "enableroidecision (initializeNewBBL h st) = enableroidecision st"
  "pin_storage (initializeNewBBL h st) = (pin_storage st)\<lparr>cost_package := (pin_package st)
     \<lparr>bbl_parallelizable := bbl_parallelizable (pin_package st) @ [enableroi st],
      bbl_memory_cost := map (\<lambda>row. row @ [0]) (bbl_memory_cost (pin_package st)),
      bbl_instruction_memory_cost := map (\<lambda>row. row @ [0]) (bbl_instruction_memory_cost (pin_package st))\<rparr>\<rparr>"
  by (simp_all add: initializeNewBBL_eq)

lemma initializeNewBBL_hashes:
  assumes ok: "pin_ok B T N st" and B: "B < 2 ^ 32" and new: "\<not> known st h"
  shows "known (initializeNewBBL h st) k \<longleftrightarrow> k = h \<or> known st k"
    and "ident (initializeNewBBL h st) k = (if k = h then int B else ident st k)"
proof -
  have "uint (word_of_int (bbl_size st) :: u32) = int B"
    using ok B by (simp add: pin_ok_def unsigned_of_nat take_bit_nat_eq_self)
  then show "known (initializeNewBBL h st) k \<longleftrightarrow> k = h \<or> known st k"
    and "ident (initializeNewBBL h st) k = (if k = h then int B else ident st k)"
    by (auto simp: known_def ident_def initializeNewBBL_fields AList.update_conv')
qed

lemma ident_range: "pin_ok B T N st \<Longrightarrow> known st h \<Longrightarrow> ident st h < int B"
  unfolding pin_ok_def by blast

lemma initializeNewBBL_ok:
  assumes ok: "pin_ok B T N st" and B: "B < 2 ^ 32" and new: "\<not> known st h"
  shows "pin_ok (Suc B) T N (initializeNewBBL h st)"
proof -
  note hashes = initializeNewBBL_hashes [OF ok B new]
  let ?st = "initializeNewBBL h st"
  have inj: "inj_on (ident st) (Collect (known st))" using ok by (simp add: pin_ok_def)
  have "package_ok (Suc B) T N (pin_package ?st)"
    using pin_ok_pkg [OF ok] by (auto simp: package_ok_def initializeNewBBL_fields)
  then have "storage_ok (Suc B) T N (pin_storage ?st)"
    using ok storage_ok_package [of B T N "pin_storage st"] by (simp add: pin_ok_def initializeNewBBL_fields)
  moreover have "ident ?st k < int (Suc B)" if "known ?st k" for k
    using ident_range [OF ok, of k] that by (cases "k = h") (simp_all add: hashes)
  then have "\<forall>k. known ?st k \<longrightarrow> ident ?st k < int (Suc B)" by blast
  moreover have "k = k'" if "known ?st k" "known ?st k'" "ident ?st k = ident ?st k'" for k k'
    using inj_onD [OF inj, of k k'] ident_range [OF ok, of k] ident_range [OF ok, of k'] that
    by (cases "k = h"; cases "k' = h") (simp_all add: hashes)
  then have "inj_on (ident ?st) (Collect (known ?st))" unfolding inj_on_def by blast
  moreover have "known ?st GLOBAL_BBLHASH" "ident ?st GLOBAL_BBLHASH = GLOBAL_BBLID"
    using ok new by (auto simp: pin_ok_def hashes)
  ultimately show ?thesis
    using ok unfolding pin_ok_def initializeNewBBL_fields by simp
qed

lemma initializeNewBBL_nested:
  assumes ok: "pin_ok B T N st" and B: "B < 2 ^ 32" and new: "\<not> known st h" and sh: "nested sh st"
  shows "nested sh (initializeNewBBL h st)"
proof -
  note hashes = initializeNewBBL_hashes [OF ok B new]
  have "map (ident (initializeNewBBL h st)) us = map (ident st) us" if "us \<in> set sh" for us
    using sh that new by (auto simp: nested_def hashes)
  then show ?thesis using sh by (auto simp: nested_def hashes initializeNewBBL_fields)
qed

subsection \<open>Magic instructions\<close>

lemma nested_update:
  assumes sh: "nested sh st" and t: "t < length sh" and us: "\<forall>h \<in> set us. known st h"
  shows "nested (sh[t := us]) (st\<lparr>thread_bbl_scope := (thread_bbl_scope st)[t := map (ident st) us]\<rparr>)"
proof -
  have "\<forall>vs \<in> set (sh[t := us]). \<forall>h \<in> set vs. known st h"
    using sh us set_update_subset_insert [of sh t us] by (auto simp: nested_def)
  then show ?thesis using sh by (simp add: nested_def known_def [abs_def] ident_def [abs_def] map_update)
qed

lemma nested_nth: "nested sh st \<Longrightarrow> t < length sh \<Longrightarrow> thread_bbl_scope st ! t = map (ident st) (sh ! t)"
  by (simp add: nested_def)

lemma nested_known: "nested sh st \<Longrightarrow> t < length sh \<Longrightarrow> h \<in> set (sh ! t) \<Longrightarrow> known st h"
  by (auto simp: nested_def)

lemma pin_ok_scope:
  "pin_ok B T N st \<Longrightarrow> length ss = length (thread_bbl_scope st) \<Longrightarrow> pin_ok B T N (st\<lparr>thread_bbl_scope := ss\<rparr>)"
  by (simp add: pin_ok_def known_def [abs_def] ident_def [abs_def])

lemma push_scope:
  assumes ok: "pin_ok B T N st" and sh: "nested sh st" and t: "t < length sh" and h: "known st h"
  shows "\<exists>st'. (do {
      s \<leftarrow> vec_at (thread_bbl_scope st) (int t);
      ss \<leftarrow> vec_set (thread_bbl_scope st) (int t) (scope_push (ident st h) s);
      Some (st\<lparr>thread_bbl_scope := ss\<rparr>) }) = Some st' \<and> pin_ok B T N st' \<and> nested (sh[t := h # sh ! t]) st'"
proof -
  have "\<forall>k \<in> set (h # sh ! t). known st k" using nested_known [OF sh t] h by auto
  from nested_update [OF sh t this]
  have "nested (sh[t := h # sh ! t]) (st\<lparr>thread_bbl_scope := (thread_bbl_scope st)[t := scope_push (ident st h) (thread_bbl_scope st ! t)]\<rparr>)"
    using nested_nth [OF sh t] by (simp add: scope_push_def)
  then show ?thesis using t nested_threads [OF sh] ok by (simp add: vec_at_int vec_set_in_range pin_ok_scope)
qed

text \<open>The steps of \<open>DoAtAnnotationHead\<close>: the identifier, the spawned worker, the region decided by hand.\<close>

lemma enter_hash:
  assumes "pin_ok B T N st" and "nested sh st" and "B < 2 ^ 32"
  shows "\<exists>B' st'. (if map_of (bbl_hash st) h = None then initializeNewBBL h st else st) = st' \<and>
    pin_ok B' T N st' \<and> nested sh st' \<and> known st' h \<and> B' \<le> Suc B"
proof (cases "known st h")
  case True
  with assms show ?thesis by (intro exI [of _ B]) (auto simp: known_def)
next
  case False
  then show ?thesis
    using initializeNewBBL_ok [OF assms(1,3) False] initializeNewBBL_nested [OF assms(1,3) False assms(2)]
      initializeNewBBL_hashes [OF assms(1,3) False]
    by (intro exI [of _ "Suc B"]) (auto simp: known_def)
qed

lemma worker_parallelizable:
  assumes "pin_ok B T N st" and "0 \<le> b" "b < int B"
  shows "\<exists>st'. (if t = (1 :: nat) then set_parallelizable b True st else Some st) = Some st' \<and> pin_ok B T N st' \<and>
    (\<exists>f. st' = with_package f st)"
proof (cases "t = 1")
  case True
  then show ?thesis using set_parallelizable_ok [OF assms] by simp
next
  case False
  moreover have "st = with_package (\<lambda>pkg. pkg) st" by (simp add: with_package_def)
  ultimately show ?thesis using assms(1) by auto
qed

lemma decide_region:
  assumes ok: "pin_ok B T N st" and sh: "nested sh st" and t: "t < length sh" and b: "0 \<le> b" "b < int B"
  shows "\<exists>st'. (if enableroidecision st then do {
         r \<leftarrow> vec_at (thread_in_roidecision st) (int t);
         if r then do { ds \<leftarrow> vec_set (roi_decision st) b PIM; set_parallelizable b True (st\<lparr>roi_decision := ds\<rparr>) }
         else Some st } else Some st) = Some st' \<and>
    pin_ok B T N st' \<and> nested sh st' \<and> bbl_hash st' = bbl_hash st"
proof (cases "enableroidecision st \<and> thread_in_roidecision st ! t")
  case True
  have len: "length (thread_in_roidecision st) = length sh" "length (roi_decision st) = B"
    using True ok nested_threads [OF sh] by (simp_all add: pin_ok_def)
  let ?st = "st\<lparr>roi_decision := (roi_decision st)[nat b := PIM]\<rparr>"
  have "pin_ok B T N ?st" using ok by (simp add: pin_ok_def known_def [abs_def] ident_def [abs_def])
  from set_parallelizable_ok [OF this b, of True] obtain st5 f where
    "set_parallelizable b True ?st = Some st5" "pin_ok B T N st5" "st5 = with_package f ?st" by blast
  then show ?thesis using True len t b sh by (intro exI [of _ st5]) (simp add: vec_at_int vec_set_in_range)
next
  case False
  then show ?thesis using t sh ok nested_threads [OF sh] by (auto simp: pin_ok_def vec_at_int)
qed

text \<open>A block is entered.\<close>

lemma head_ok:
  assumes ok: "pin_ok B T N st" and sh: "nested sh st" and t: "t < length sh" and B: "B < 2 ^ 32"
  shows "\<exists>st' B'. DoAtAnnotationHead hi lo isomp t st = Some st' \<and> pin_ok B' T N st' \<and> B' \<le> Suc B \<and>
    nested (sh[t := (hi, lo) # sh ! t]) st'"
proof -
  let ?h = "(hi, lo)"
  obtain B1 st1 where 1: "(if map_of (bbl_hash st) ?h = None then initializeNewBBL ?h st else st) = st1"
    "pin_ok B1 T N st1" "nested sh st1" "known st1 ?h" "B1 \<le> Suc B"
    using enter_hash [OF ok sh B] by blast
  obtain st2 where 2: "(if isomp \<noteq> 0 then st1\<lparr>in_omp_parallel := in_omp_parallel st1 + 1\<rparr> else st1) = st2"
    "pin_ok B1 T N st2" "nested sh st2" "bbl_hash st2 = bbl_hash st1"
    using 1 by simp
  obtain i where i: "map_of (bbl_hash st1) ?h = Some i" using 1(4) by (auto simp: known_def)
  have b: "0 \<le> uint i" "uint i < int B1" using ident_range [OF 1(2,4)] i by (simp_all add: ident_def)
  obtain p where p: "vec_at (bbl_parallelizable (pin_package st2)) (uint i) = Some p"
    using pin_ok_pkg [OF 2(2)] b by (simp add: package_ok_def vec_at_in_range)
  obtain st3 f3 where 3: "set_parallelizable (uint i) (p \<or> in_omp_parallel st2 > 0) st2 = Some st3" "pin_ok B1 T N st3"
    "st3 = with_package f3 st2"
    using set_parallelizable_ok [OF 2(2) b] by metis
  obtain st4 f4 where 4: "(if t = 1 then set_parallelizable (uint i) True st3 else Some st3) = Some st4" "pin_ok B1 T N st4"
    "st4 = with_package f4 st3"
    using worker_parallelizable [OF 3(2) b] by blast
  have n4: "nested sh st4" "bbl_hash st4 = bbl_hash st1" using 2 3(3) 4(3) by simp_all
  obtain st5 where 5: "(if enableroidecision st4 then do {
         r \<leftarrow> vec_at (thread_in_roidecision st4) (int t);
         if r then do { ds \<leftarrow> vec_set (roi_decision st4) (uint i) PIM; set_parallelizable (uint i) True (st4\<lparr>roi_decision := ds\<rparr>) }
         else Some st4 } else Some st4) = Some st5" "pin_ok B1 T N st5" "nested sh st5" "bbl_hash st5 = bbl_hash st4"
    using decide_region [OF 4(2) n4(1) t b] by blast
  have "known st5 ?h" "ident st5 ?h = uint i" using 5(4) n4(2) i by (simp_all add: known_def ident_def)
  with push_scope [OF 5(2,3) t, of ?h] obtain st6 where 6: "(do {
      s \<leftarrow> vec_at (thread_bbl_scope st5) (int t);
      ss \<leftarrow> vec_set (thread_bbl_scope st5) (int t) (scope_push (uint i) s);
      Some (st5\<lparr>thread_bbl_scope := ss\<rparr>) }) = Some st6" "pin_ok B1 T N st6" "nested (sh[t := ?h # sh ! t]) st6"
    by auto
  have "DoAtAnnotationHead hi lo isomp t st = Some st6"
    unfolding DoAtAnnotationHead_def Let_def 1(1) by (simp only: i bind.bind_lunit 2(1) p 3(1) 4(1) 5(1) 6(1))
  with 6(2,3) 1(5) show ?thesis by blast
qed

text \<open>A block is left: the assertion holds exactly when it is the innermost open block of the thread.\<close>

lemma tail_step:
  assumes ok: "pin_ok B T N st" and sh: "nested sh st" and t: "t < length sh" and h: "known st (hi, lo)"
  shows "case sh ! t of [] \<Rightarrow> DoAtAnnotationTail hi lo isomp t st = None
    | k # r \<Rightarrow> if k = (hi, lo) then \<exists>st'. DoAtAnnotationTail hi lo isomp t st = Some st' \<and> pin_ok B T N st' \<and> nested (sh[t := r]) st'
        else DoAtAnnotationTail hi lo isomp t st = None"
proof -
  let ?h = "(hi, lo)"
  define st1 where "st1 = (if isomp \<noteq> 0 then st\<lparr>in_omp_parallel := in_omp_parallel st - 1\<rparr> else st)"
  have 1: "pin_ok B T N st1" "nested sh st1" "bbl_hash st1 = bbl_hash st" "known st1 = known st" "ident st1 = ident st"
    using ok sh by (simp_all add: st1_def known_def [abs_def] ident_def [abs_def])
  obtain i where i: "map_of (bbl_hash st) ?h = Some i" using h by (auto simp: known_def)
  have inj: "inj_on (ident st) (Collect (known st))" using ok by (simp add: pin_ok_def)
  have scope: "vec_at (thread_bbl_scope st1) (int t) = Some (map (ident st) (sh ! t))"
    using nested_nth [OF 1(2) t] nested_threads [OF 1(2)] t 1(5) by (simp add: vec_at_int)
  have same: "st1\<lparr>bbl_hash := bbl_hash st, thread_bbl_scope := ss\<rparr> = st1\<lparr>thread_bbl_scope := ss\<rparr>" for ss
    by (simp flip: 1(3))
  have tail: "DoAtAnnotationTail hi lo isomp t st = do {
      s \<leftarrow> vec_at (thread_bbl_scope st1) (int t); b \<leftarrow> scope_top s;
      if b = uint i then do { s \<leftarrow> scope_pop s; ss \<leftarrow> vec_set (thread_bbl_scope st1) (int t) s;
        Some (st1\<lparr>thread_bbl_scope := ss\<rparr>) } else None }"
    using i by (simp add: DoAtAnnotationTail_def Let_def st1_def [symmetric] 1(3) same cong: if_cong)
  show ?thesis
  proof (cases "sh ! t")
    case Nil
    then show ?thesis using scope by (simp add: tail scope_top_def)
  next
    case (Cons k r)
    have open_blocks: "\<forall>k \<in> set (sh ! t). known st k" using nested_known [OF sh t] by blast
    have "ident st k = uint i \<longleftrightarrow> k = ?h"
      using inj_onD [OF inj, of k ?h] h open_blocks i Cons by (auto simp: ident_def)
    moreover have "nested (sh[t := r]) (st1\<lparr>thread_bbl_scope := (thread_bbl_scope st1)[t := map (ident st) r]\<rparr>)"
      using nested_update [OF 1(2) t, of r] open_blocks Cons 1(4,5) by simp
    ultimately show ?thesis
      using Cons scope t nested_threads [OF 1(2)] 1(1)
      by (auto simp: tail scope_top_def scope_pop_def vec_set_in_range pin_ok_scope)
  qed
qed

text \<open>The region markers.\<close>

lemma roi_ok:
  assumes ok: "pin_ok B T N st" and sh: "nested sh st" and t: "t < length sh"
  shows "\<exists>st'. DoAtROIHead t st = Some st' \<and> pin_ok B T N st' \<and> nested sh st'"
    and "\<exists>st'. DoAtROITail t st = Some st' \<and> pin_ok B T N st' \<and> nested sh st'"
    and "\<exists>st'. DoAtROIDecisionHead t st = Some st' \<and> pin_ok B T N st' \<and> nested sh st'"
    and "\<exists>st'. DoAtROIDecisionTail t st = Some st' \<and> pin_ok B T N st' \<and> nested sh st'"
proof -
  have len: "length (thread_in_roi st) = length sh" "length (thread_in_roidecision st) = length sh"
    using ok nested_threads [OF sh] by (simp_all add: pin_ok_def)
  have roi: "pin_ok B T N (st\<lparr>thread_in_roi := (thread_in_roi st)[t := v]\<rparr>)" for v
    using ok by (simp add: pin_ok_def known_def [abs_def] ident_def [abs_def])
  have decision: "pin_ok B T N (st'\<lparr>thread_in_roidecision := (thread_in_roidecision st)[t := v]\<rparr>)"
    if "pin_ok B T N st'" "thread_bbl_scope st' = thread_bbl_scope st" for st' v
    using that ok by (simp add: pin_ok_def known_def [abs_def] ident_def [abs_def])
  show "\<exists>st'. DoAtROIHead t st = Some st' \<and> pin_ok B T N st' \<and> nested sh st'"
    "\<exists>st'. DoAtROITail t st = Some st' \<and> pin_ok B T N st' \<and> nested sh st'"
    using t len sh ok roi by (simp_all add: DoAtROIHead_def DoAtROITail_def set_in_roi_def vec_set_in_range)
  show "\<exists>st'. DoAtROIDecisionHead t st = Some st' \<and> pin_ok B T N st' \<and> nested sh st'"
    "\<exists>st'. DoAtROIDecisionTail t st = Some st' \<and> pin_ok B T N st' \<and> nested sh st'"
    using t len sh ok decision by (simp_all add: DoAtROIDecisionHead_def DoAtROIDecisionTail_def vec_at_int vec_set_in_range)
qed

subsection \<open>Ordinary instructions\<close>

lemma top_of_thread:
  assumes ok: "pin_ok B T N st" and sh: "nested sh st" and t: "t < length sh" and ne: "sh ! t \<noteq> []"
  shows "\<exists>s b. vec_at (thread_bbl_scope st) (int t) = Some s \<and> scope_top s = Some b \<and> 0 \<le> b \<and> b < int B"
proof -
  obtain h r where h: "sh ! t = h # r" using ne by (cases "sh ! t") auto
  then have "known st h" using nested_known [OF sh t, of h] by simp
  with ident_range [OF ok this] h show ?thesis
    using nested_nth [OF sh t] nested_threads [OF sh] t by (simp add: vec_at_int scope_top_def)
qed

lemma outside_roi_defined: "pin_ok B T N st \<Longrightarrow> nested sh st \<Longrightarrow> t < length sh \<Longrightarrow> \<exists>out. outside_roi t st = Some out"
  using nested_threads [of sh st] by (simp add: outside_roi_def pin_ok_def vec_at_int)

lemma latency_defined:
  assumes ok: "pin_ok B T N st" and op: "unat opcode < MAX_INDEX" and i: "i \<in> {0, 1}"
  shows "\<exists>c. latency_cost st opcode simd_len i = Some c"
proof -
  have pkg: "length (simd_capability (pin_package st)) = 2" "0 \<notin> set (simd_capability (pin_package st))"
    "length (core_count (pin_package st)) = 2" "0 \<notin> set (core_count (pin_package st))"
    using pin_ok_pkg [OF ok] by (simp_all add: package_ok_def)
  have nz: "simd_capability (pin_package st) ! nat i \<noteq> 0" "core_count (pin_package st) ! nat i \<noteq> 0"
    using pkg i by (metis insertE nat_0 nat_one_as_int nth_mem one_less_numeral_iff semiring_norm(76) singletonD zero_less_numeral)+
  have "length (instruction_latency st ! nat i) = MAX_INDEX" "nat i < length (instruction_latency st)"
    using ok i by (auto simp: pin_ok_def)
  then show ?thesis
    using op i pkg nz by (auto simp: latency_cost_def vec_at_def Let_def)
qed

lemma add_to_row:
  assumes "length costs = 2" and "\<forall>row \<in> set costs. length row = B" and "0 \<le> b" "b < int B" and "i \<in> {0, 1 :: int}"
  shows "\<exists>costs'. (do { row \<leftarrow> vec_at costs i; old \<leftarrow> vec_at row b; row \<leftarrow> vec_set row b (old + (c :: COST));
      vec_set costs i row }) = Some costs' \<and> length costs' = 2 \<and> (\<forall>row \<in> set costs'. length row = B)"
proof -
  have i: "nat i < length costs" "0 \<le> i" using assms(1,5) by auto
  then have row: "length (costs ! nat i) = B" using assms(2) by simp
  let ?row = "(costs ! nat i)[nat b := costs ! nat i ! nat b + c]"
  have "\<forall>r \<in> set (costs[nat i := ?row]). length r = B"
    using assms(2) row set_update_subset_insert [of costs "nat i" ?row] by auto
  then show ?thesis using i row assms(1,3,4) by (simp add: vec_at_def vec_set_def nat_less_iff)
qed

lemma count_ok:
  assumes ok: "pin_ok B T N st" and sh: "nested sh st" and t: "t < length sh" "sh ! t \<noteq> []" and op: "unat opcode < MAX_INDEX"
  shows "\<exists>st'. InstructionCount opcode ismem simd_len t st = Some st' \<and> pin_ok B T N st' \<and> nested sh st'"
proof -
  obtain s b where s: "vec_at (thread_bbl_scope st) (int t) = Some s" "scope_top s = Some b" "0 \<le> b" "b < int B"
    using top_of_thread [OF ok sh t] by blast
  obtain out where out: "outside_roi t st = Some out" using outside_roi_defined [OF ok sh t(1)] by blast
  obtain n where n: "effective_simd (pin_package st) b simd_len = Some n"
    using effective_simd_defined [OF pin_ok_pkg [OF ok] s(3,4)] by blast
  let ?step = "\<lambda>i costs. do { cost \<leftarrow> latency_cost st opcode n i;
      row \<leftarrow> vec_at costs i; old \<leftarrow> vec_at row b; row \<leftarrow> vec_set row b (old + cost); vec_set costs i row }"
  have "\<exists>costs. foldM ?step [0, 1] (bbl_instruction_cost st) = Some costs \<and> length costs = 2 \<and> (\<forall>row \<in> set costs. length row = B)"
  proof (rule foldM_defined)
    fix i :: int and costs :: "COST list list"
    assume i: "i \<in> set [0, 1]" and P: "length costs = 2 \<and> (\<forall>row \<in> set costs. length row = B)"
    obtain c where "latency_cost st opcode n i = Some c" using latency_defined [OF ok op] i by auto
    then show "\<exists>t'. ?step i costs = Some t' \<and> length t' = 2 \<and> (\<forall>row \<in> set t'. length row = B)"
      using add_to_row [of costs B b i c] P i s(3,4) by simp
  qed (use ok in \<open>simp add: pin_ok_def\<close>)
  then obtain costs where costs: "foldM ?step [0, 1] (bbl_instruction_cost st) = Some costs" "length costs = 2"
    "\<forall>row \<in> set costs. length row = B" by blast
  have "pin_ok B T N (st\<lparr>bbl_instruction_cost := costs\<rparr>)"
    using ok costs(2,3) by (simp add: pin_ok_def known_def [abs_def] ident_def [abs_def])
  then show ?thesis using ok sh s(1,2) out n costs(1) by (auto simp: InstructionCount_def)
qed

lemma fetch_ok:
  assumes ok: "pin_ok B T N st" and sh: "nested sh st" and t: "t < length sh" "sh ! t \<noteq> []" and room: "N + 4 * T < 2 ^ 64"
  shows "\<exists>st'. MemoryLatency_InstrCacheRef addr sz simd_len t st = Some st' \<and> pin_ok B T (N + 4 * T) st' \<and> nested sh st'"
proof -
  obtain s b where s: "vec_at (thread_bbl_scope st) (int t) = Some s" "scope_top s = Some b" "0 \<le> b" "b < int B"
    using top_of_thread [OF ok sh t] by blast
  obtain out where out: "outside_roi t st = Some out" using outside_roi_defined [OF ok sh t(1)] by blast
  have len: "length (previous_instr st) = length sh" using ok nested_threads [OF sh] by (simp add: pin_ok_def)
  have more: "pin_ok B T (N + 4 * T) st"
    using ok storage_ok_mono [of B T N "pin_storage st"] by (simp add: pin_ok_def)
  let ?st = "st\<lparr>previous_instr := (previous_instr st)[t := previous_instr st ! t + 1]\<rparr>"
  have "pin_ok B T (N + 4 * T) ?st" using more by (simp add: pin_ok_def known_def [abs_def] ident_def [abs_def])
  moreover obtain storage where "InstrCacheRef addr sz b simd_len (pin_storage st) = Some storage"
    "storage_ok B T (N + 4 * T) storage" "fetch_ready storage"
    using InstrCacheRef_ready [of B T N "pin_storage st" b addr sz simd_len] ok s(3,4) room by (auto simp: pin_ok_def)
  moreover from this have "pin_ok B T (N + 4 * T) (?st\<lparr>pin_storage := storage\<rparr>)"
    using pin_ok_storage [OF calculation(1)] by blast
  ultimately show ?thesis
    using s(1,2) out len t(1) more sh by (auto simp: MemoryLatency_InstrCacheRef_def vec_at_int vec_set_in_range Let_def)
qed

lemma data_ok:
  assumes ok: "pin_ok B T N st" and sh: "nested sh st" and t: "t < length sh" "sh ! t \<noteq> []"
    and far: "unat (addr + ucast sz) + 2 ^ 31 < 2 ^ 64" and room: "N + 2 * T * (unat sz + 1) < 2 ^ 64"
  shows "\<exists>st'. MemoryLatency_DataCacheRef addr sz ty simd_len t st = Some st' \<and>
    pin_ok B T (N + 2 * T * (unat sz + 1)) st' \<and> nested sh st'"
proof -
  let ?N = "N + 2 * T * (unat sz + 1)"
  obtain s b where s: "vec_at (thread_bbl_scope st) (int t) = Some s" "scope_top s = Some b" "0 \<le> b" "b < int B"
    using top_of_thread [OF ok sh t] by blast
  obtain out where out: "outside_roi t st = Some out" using outside_roi_defined [OF ok sh t(1)] by blast
  have len: "length (previous_instr st) = length sh" using ok nested_threads [OF sh] by (simp add: pin_ok_def)
  have more: "pin_ok B T ?N st" using ok storage_ok_mono [of B T N "pin_storage st"] by (simp add: pin_ok_def)
  let ?st = "st\<lparr>previous_instr := (previous_instr st)[t := 0]\<rparr>"
  have "pin_ok B T ?N ?st" using more by (simp add: pin_ok_def known_def [abs_def] ident_def [abs_def])
  moreover obtain storage where "DataCacheRef addr sz ty b simd_len (pin_storage st) = Some storage" "storage_ok B T ?N storage"
    "storage_top storage = storage_top (pin_storage st)"
    using DataCacheRef_ready [of B T N "pin_storage st" b addr sz ty simd_len] ok s(3,4) room far by (auto simp: pin_ok_def)
  moreover from this have "fetch_ready storage" using ok by (simp add: pin_ok_def fetch_ready_def)
  moreover from calculation have "pin_ok B T ?N (?st\<lparr>pin_storage := storage\<rparr>)"
    using pin_ok_storage [OF calculation(1)] by blast
  ultimately show ?thesis
    using s(1,2) out len t(1) more sh by (auto simp: MemoryLatency_DataCacheRef_def vec_set_in_range Let_def)
qed

subsection \<open>Threads\<close>

lemma ThreadStart_ok:
  assumes ok: "pin_ok B T N st" and sh: "nested sh st" and n: "thread_count (pin_package st) = int n" "Suc n \<le> T" "T < 2 ^ 31"
  shows "pin_ok B T N (ThreadStart st)" and "nested (sh @ [[GLOBAL_BBLHASH]]) (ThreadStart st)"
    and "thread_count (pin_package (ThreadStart st)) = int (Suc n)"
proof -
  let ?f = "\<lambda>pkg :: CostPackage. pkg\<lparr>thread_count := thread_count pkg + 1\<rparr>"
  define st1 where "st1 = st\<lparr>thread_bbl_scope := thread_bbl_scope st @ [new_BBLScope],
      thread_in_roi := thread_in_roi st @ [\<not> enableroi st],
      thread_in_roidecision := thread_in_roidecision st @ [\<not> enableroidecision st], previous_instr := previous_instr st @ [0]\<rparr>"
  have start: "ThreadStart st = with_package ?f st1" by (simp add: ThreadStart_def st1_def Let_def)
  have 1: "pin_ok B T N st1"
    using ok by (simp add: st1_def pin_ok_def known_def [abs_def] ident_def [abs_def])
  have pkg1: "pin_package st1 = pin_package st" by (simp add: st1_def)
  have "package_ok B T N (?f (pin_package st1))"
    using pin_ok_pkg [OF ok] n unfolding pkg1 package_ok_def by simp
  then show "pin_ok B T N (ThreadStart st)" unfolding start by (rule pin_ok_package [OF 1])
  have "known st GLOBAL_BBLHASH" "ident st GLOBAL_BBLHASH = GLOBAL_BBLID" using ok by (simp_all add: pin_ok_def)
  then have "nested (sh @ [[GLOBAL_BBLHASH]]) st1"
    using sh by (auto simp: st1_def nested_def known_def [abs_def] ident_def [abs_def] new_BBLScope_def)
  then show "nested (sh @ [[GLOBAL_BBLHASH]]) (ThreadStart st)" by (simp add: start)
  show "thread_count (pin_package (ThreadStart st)) = int (Suc n)" using n(1) by (simp add: start pkg1)
qed

lemma ThreadFinish_ok:
  assumes ok: "pin_ok B T N st" and sh: "nested sh st" and n: "thread_count (pin_package st) = int n" "n \<noteq> 0"
  shows "pin_ok B T N (ThreadFinish st)" and "nested sh (ThreadFinish st)"
    and "thread_count (pin_package (ThreadFinish st)) = int (n - 1)"
proof -
  have "package_ok B T N ((pin_package st)\<lparr>thread_count := thread_count (pin_package st) - 1\<rparr>)"
    using pin_ok_pkg [OF ok] n unfolding package_ok_def by auto
  then show "pin_ok B T N (ThreadFinish st)" unfolding ThreadFinish_def by (rule pin_ok_package [OF ok])
  show "nested sh (ThreadFinish st)" "thread_count (pin_package (ThreadFinish st)) = int (n - 1)"
    using sh n by (simp_all add: ThreadFinish_def of_nat_diff)
qed

subsection \<open>Interleavings\<close>

text \<open>What the other events need: a known opcode, an address clear of the top of the address space.\<close>

fun event_ok :: "PinEvent \<Rightarrow> bool" where
  "event_ok (Instr t opcode ismem simd_len) = (unat opcode < MAX_INDEX)"
| "event_ok (Data t addr sz ty simd_len) = (unat (addr + ucast sz) + 2 ^ 31 < 2 ^ 64)"
| "event_ok e = True"

text \<open>How much an event may add to the counters of the trie.\<close>

fun event_room :: "nat \<Rightarrow> PinEvent \<Rightarrow> nat" where
  "event_room T (Fetch t addr sz simd_len) = 4 * T"
| "event_room T (Data t addr sz ty simd_len) = 2 * T * (unat sz + 1)"
| "event_room T e = 0"

text \<open>Every block that is left has been entered before, so its hash is known.\<close>

lemma HandleMagic_ok:
  assumes ok: "pin_ok B T N st" and sh: "nested sh st" and B: "B < 2 ^ 32"
    and e: "nest_magic t (hi, lo) (GetOpType c) sh = Some sh'"
  shows "\<exists>st' B'. HandleMagic hi lo c t st = Some st' \<and> pin_ok B' T N st' \<and> B' \<le> Suc B \<and> nested sh' st'"
proof -
  have t: "t < length sh" using e by (auto simp: nest_magic_def split: if_splits)
  let ?op = "GetOpType c"
  consider (head) "?op = 0" "sh' = sh[t := (hi, lo) # sh ! t]" | (tail) r where "?op = 1" "sh ! t = (hi, lo) # r" "sh' = sh[t := r]"
    | (roi) "?op \<noteq> 0" "?op \<noteq> 1" "?op \<le> 5" "sh' = sh"
    using e t by (auto simp: nest_magic_def split: if_splits list.splits)
  then show ?thesis
  proof cases
    case head
    then show ?thesis using head_ok [OF ok sh t B, of hi lo "GetIsOpenMP c"] by (simp add: HandleMagic_def)
  next
    case (tail r)
    have "known st (hi, lo)" using nested_known [OF sh t, of "(hi, lo)"] tail(2) by simp
    from tail_step [OF ok sh t this, of "GetIsOpenMP c"] tail
    have "\<exists>st'. HandleMagic hi lo c t st = Some st' \<and> pin_ok B T N st' \<and> nested sh' st'" by (simp add: HandleMagic_def)
    then show ?thesis using le_SucI by blast
  next
    case roi
    have "?op = 2 \<or> ?op = 3 \<or> ?op = 4 \<or> ?op = 5"
    proof -
      have "unat ?op \<le> 5" "unat ?op \<noteq> 0" "unat ?op \<noteq> 1"
        using roi(1-3) word_unat_eq_iff [of ?op 0] word_unat_eq_iff [of ?op 1] by (simp_all add: word_le_nat_alt)
      then have "unat ?op = unat (2 :: u64) \<or> unat ?op = unat (3 :: u64) \<or> unat ?op = unat (4 :: u64) \<or> unat ?op = unat (5 :: u64)"
        by simp presburger
      then show ?thesis by (simp only: word_unat_eq_iff)
    qed
    then have "\<exists>st'. HandleMagic hi lo c t st = Some st' \<and> pin_ok B T N st' \<and> nested sh' st'"
      using roi_ok [OF ok sh t] roi(4) by (auto simp: HandleMagic_def)
    then show ?thesis using le_SucI by blast
  qed
qed

text \<open>Only starting and finishing change the number of threads.\<close>

lemma set_parallelizable_threads: "set_parallelizable b p st = Some st' \<Longrightarrow> thread_count (pin_package st') = thread_count (pin_package st)"
  by (auto simp: set_parallelizable_def bind_eq_Some_conv)

lemma initializeNewBBL_threads: "thread_count (pin_package (initializeNewBBL h st)) = thread_count (pin_package st)"
  by (simp add: initializeNewBBL_eq)

lemma head_threads: "DoAtAnnotationHead hi lo isomp t st = Some st' \<Longrightarrow> thread_count (pin_package st') = thread_count (pin_package st)"
proof -
  let ?th = "\<lambda>st. thread_count (pin_package st)"
  define st1 where "st1 = (if map_of (bbl_hash st) (hi, lo) = None then initializeNewBBL (hi, lo) st else st)"
  define st2 where "st2 = (if isomp \<noteq> 0 then st1\<lparr>in_omp_parallel := in_omp_parallel st1 + 1\<rparr> else st1)"
  assume "DoAtAnnotationHead hi lo isomp t st = Some st'"
  then obtain b p st3 st4 st5 ss where 3: "set_parallelizable b p st2 = Some st3"
    and 4: "(if t = 1 then set_parallelizable b True st3 else Some st3) = Some st4"
    and 5: "(if enableroidecision st4 then do {
         r \<leftarrow> vec_at (thread_in_roidecision st4) (int t);
         if r then do { ds \<leftarrow> vec_set (roi_decision st4) b PIM; set_parallelizable b True (st4\<lparr>roi_decision := ds\<rparr>) }
         else Some st4 } else Some st4) = Some st5"
    and "st' = st5\<lparr>thread_bbl_scope := ss\<rparr>"
    unfolding DoAtAnnotationHead_def Let_def st1_def [symmetric] st2_def [symmetric] bind_eq_Some_conv option.inject by blast
  moreover have "?th st2 = ?th st" by (simp add: st2_def st1_def initializeNewBBL_threads)
  moreover have "?th st3 = ?th st2" using set_parallelizable_threads [OF 3] .
  moreover have "?th st4 = ?th st3" using 4 by (auto dest!: set_parallelizable_threads split: if_splits)
  moreover have "?th st5 = ?th st4" using 5 by (auto simp: bind_eq_Some_conv dest!: set_parallelizable_threads split: if_splits)
  ultimately show ?thesis by simp
qed

lemma tail_threads: "DoAtAnnotationTail hi lo isomp t st = Some st' \<Longrightarrow> thread_count (pin_package st') = thread_count (pin_package st)"
  by (auto simp: DoAtAnnotationTail_def Let_def bind_eq_Some_conv case_prod_beta split: if_splits)

lemma pin_step_threads:
  assumes "pin_step e st = Some st'" and "nest_step e (sh, n) = Some (sh', n')" and "thread_count (pin_package st) = int n"
  shows "thread_count (pin_package st') = int n'"
proof (cases e)
  case (Magic t hi lo c)
  with assms show ?thesis
    by (auto simp: HandleMagic_def Let_def DoAtROIHead_def DoAtROITail_def set_in_roi_def DoAtROIDecisionHead_def
        DoAtROIDecisionTail_def bind_eq_Some_conv dest!: head_threads tail_threads split: if_splits)
next
  case (Instr t opcode ismem simd_len)
  with assms show ?thesis by (auto simp: InstructionCount_def bind_eq_Some_conv split: if_splits)
next
  case (Fetch t addr sz simd_len)
  with assms show ?thesis
    by (auto simp: MemoryLatency_InstrCacheRef_def Let_def bind_eq_Some_conv dest!: cache_ref_threads split: if_splits)
next
  case (Data t addr sz ty simd_len)
  with assms show ?thesis
    by (auto simp: MemoryLatency_DataCacheRef_def Let_def bind_eq_Some_conv dest!: cache_ref_threads split: if_splits)
next
  case NewThread
  with assms show ?thesis by (auto simp: ThreadStart_def Let_def)
next
  case EndThread
  with assms show ?thesis by (auto simp: ThreadFinish_def of_nat_diff split: if_splits)
qed

text \<open>One event, whichever thread it belongs to.\<close>

lemma event_runs:
  assumes ok: "pin_ok B T N st" and sh: "nested sh st" and n: "thread_count (pin_package st) = int n"
    and e: "nest_step e (sh, n) = Some (sh', n')" "event_ok e"
    and B: "B < 2 ^ 32" and T: "Suc n \<le> T" "T < 2 ^ 31" and room: "N + event_room T e < 2 ^ 64"
  shows "\<exists>st' B'. pin_step e st = Some st' \<and> pin_ok B' T (N + event_room T e) st' \<and> B' \<le> Suc B \<and> nested sh' st'"
proof (cases e)
  case (Magic t hi lo c)
  then show ?thesis using HandleMagic_ok [OF ok sh B] e(1) by auto
next
  case (Instr t opcode ismem simd_len)
  then have "t < length sh" "sh ! t \<noteq> []" "sh' = sh" "unat opcode < MAX_INDEX"
    using e by (auto simp: nest_plain_def split: if_splits)
  with count_ok [OF ok sh] Instr le_SucI show ?thesis by (metis add.right_neutral event_room.simps(4) le_refl pin_step.simps(2))
next
  case (Fetch t addr sz simd_len)
  then have "t < length sh" "sh ! t \<noteq> []" "sh' = sh" using e by (auto simp: nest_plain_def split: if_splits)
  with fetch_ok [OF ok sh, of t] Fetch room le_SucI show ?thesis by fastforce
next
  case (Data t addr sz ty simd_len)
  then have "t < length sh" "sh ! t \<noteq> []" "sh' = sh" "unat (addr + ucast sz) + 2 ^ 31 < 2 ^ 64"
    using e by (auto simp: nest_plain_def split: if_splits)
  with data_ok [OF ok sh, of t addr sz] Data room le_SucI show ?thesis by fastforce
next
  case NewThread
  then show ?thesis using ThreadStart_ok [OF ok sh n T] e(1) le_SucI by fastforce
next
  case EndThread
  then show ?thesis using ThreadFinish_ok [OF ok sh n] e(1) le_SucI by (fastforce split: if_splits)
qed

text \<open>An interleaving that the specification accepts.\<close>

lemma nest_threads: "nest_step e (sh, n) = Some (sh', n') \<Longrightarrow> n' \<le> Suc n"
  by (cases e) (auto split: if_splits)

theorem interleaving_runs:
  assumes "pin_ok B T N st" and "nested sh st" and "thread_count (pin_package st) = int n"
    and "nest_run es (sh, n) = Some (sh', n')" and "list_all event_ok es"
    and "B + length es \<le> 2 ^ 32" and "n + length es \<le> T" and "T < 2 ^ 31"
    and "N + (\<Sum>e\<leftarrow>es. event_room T e) < 2 ^ 64"
  shows "\<exists>st' B'. pin_run es st = Some st' \<and> pin_ok B' T (N + (\<Sum>e\<leftarrow>es. event_room T e)) st' \<and> nested sh' st' \<and>
    thread_count (pin_package st') = int n'"
  using assms
proof (induction es arbitrary: B N st sh n)
  case Nil
  then show ?case by (auto simp: pin_run_def nest_run_def)
next
  case (Cons e es)
  obtain sh1 n1 where 1: "nest_step e (sh, n) = Some (sh1, n1)" "nest_run es (sh1, n1) = Some (sh', n')"
    using Cons.prems(4) by (auto simp: nest_run_def bind_eq_Some_conv)
  obtain st1 B1 where st1: "pin_step e st = Some st1" "pin_ok B1 T (N + event_room T e) st1" "B1 \<le> Suc B" "nested sh1 st1"
    using event_runs [OF Cons.prems(1-3) 1(1)] Cons.prems(5-9) by auto
  have "n1 + length es \<le> T" using nest_threads [OF 1(1)] Cons.prems(7) by simp
  with Cons.IH [OF st1(2,4) pin_step_threads [OF st1(1) 1(1) Cons.prems(3)] 1(2)] st1(1,3) Cons.prems(5-9)
  show ?case by (simp add: pin_run_def add.assoc)
qed

lemma package_ok_threads: "package_ok B T N pkg \<Longrightarrow> T \<le> T' \<Longrightarrow> package_ok B T' N pkg"
  unfolding package_ok_def by (meson le_trans)

subsection \<open>Instrumentation\<close>

definition instrument_all :: "INS list \<Rightarrow> int \<Rightarrow> (InsertedCall list list \<times> int) option" where
  "instrument_all inss skip = foldM (\<lambda>ins (out, skip). do {
     (calls, skip) \<leftarrow> InstructionInstrument ins skip; Some (out @ [calls], skip) }) inss ([], skip)"

text \<open>
  The four instructions of the template of \<open>InjectPIMProfMagic\<close>: whatever the state was, the only
  call that is inserted is the handler behind the last one, and the next instruction is ordinary.
\<close>

lemma magic_instrumented:
  assumes "is_xchg_rcx x" and "\<forall>m \<in> {m1, m2, m3}. INS_IsMov m \<and> \<not> is_xchg_rcx m"
  shows "instrument_all [x, m1, m2, m3] skip = Some ([[], [], [], [CallHandleMagic]], - 1)"
proof -
  have "INS_IsMov m1" "INS_IsMov m2" "INS_IsMov m3" "\<not> is_xchg_rcx m1" "\<not> is_xchg_rcx m2" "\<not> is_xchg_rcx m3"
    using assms(2) by blast+
  then have "InstructionInstrument x skip = Some ([], 2)" "InstructionInstrument m1 2 = Some ([], 1)"
    "InstructionInstrument m2 1 = Some ([], 0)" "InstructionInstrument m3 0 = Some ([CallHandleMagic], - 1)"
    using assms(1) by (simp_all add: InstructionInstrument_def)
  then show ?thesis unfolding instrument_all_def by simp
qed

text \<open>An ordinary instruction is counted and fetched once, and each of its accesses is simulated.\<close>

lemma ordinary_instrumented:
  assumes "\<not> is_xchg_rcx ins" and "INS_IsStandardMemop ins"
  shows "\<exists>calls. InstructionInstrument ins (- 1) = Some (calls, - 1) \<and>
    length (filter (\<lambda>c. \<exists>op m n. c = CallInstructionCount op m n) calls) = 1 \<and>
    length (filter (\<lambda>c. \<exists>l n. c = CallInstrCacheRef l n) calls) = 1 \<and>
    length (filter (\<lambda>c. \<exists>n. c \<in> {CallDataRead n, CallDataRead2 n, CallDataWrite n}) calls) =
      of_bool (INS_IsMemoryRead ins) + of_bool (INS_HasMemoryRead2 ins) + of_bool (INS_IsMemoryWrite ins) \<and>
    CallHandleMagic \<notin> set calls"
  using assms
  by (cases "INS_IsMemoryRead ins"; cases "INS_HasMemoryRead2 ins"; cases "INS_IsMemoryWrite ins")
    (auto simp: InstructionInstrument_def Let_def)

end
