(* ===== verification/Cache_Demo.thy ===== *)
theory Cache_Demo
  imports Cache_Access
begin

text \<open>
  A small hierarchy on which the properties of the cache simulation are applied: on both sites an
  instruction cache and a data cache of one set with two lines of 64 bytes, and the memory; one
  block, one thread.
\<close>

definition demo_names :: "CostSite \<Rightarrow> StorageLevel \<Rightarrow> string" where
  "demo_names i j = (if i = CPU then ''CPU/'' else ''PIM/'') @
     (case j of IL1 \<Rightarrow> ''IL1'' | DL1 \<Rightarrow> ''DL1'' | UL2 \<Rightarrow> ''UL2'' | UL3 \<Rightarrow> ''UL3'' | MEM \<Rightarrow> ''MEM'')"

definition demo_reader :: ConfigReader where
  "demo_reader = \<lparr>has_section = (\<lambda>s. s \<in> {''CPU/IL1'', ''CPU/DL1'', ''CPU/MEM'', ''PIM/IL1'', ''PIM/DL1'', ''PIM/MEM''}),
     GetInteger = (\<lambda>s k d. if k = ''linesize'' then 64 else if k = ''cachesize'' then 128
       else if k = ''associativity'' then 2 else if k = ''allocation'' then 0 else d),
     GetString = (\<lambda>s k d. if k = ''policy'' then ''lru'' else d),
     GetReal = (\<lambda>s k d. if s = ''CPU/MEM'' then 100 else if s = ''PIM/MEM'' then 40 else 4)\<rparr>"

definition demo_package :: CostPackage where
  "demo_package = \<lparr>thread_count = 1, inAcceleratorFunction = False, bbl_parallelizable = [False],
     simd_capability = [4, 8], core_count = [2, 16], bbl_memory_cost = [[0], [0]],
     bbl_instruction_memory_cost = [[0], [0]], tag_seg_map = Map.empty, pkg_data_reuse = new_DataReuse\<rparr>"

definition demo_cache :: "CostSite \<Rightarrow> StorageLevel \<Rightarrow> STORAGE_LEVEL" where
  "demo_cache i j = new_level i j (site_hitcost i 4) (Some
     \<lparr>cl_sets = [Lru \<lparr>lru_tags = fresh_tags 0 2, lru_storage = 0\<rparr>], cacheSize = 128, lineSize = 64, associativity = 2,
      replacement_policy = ''lru'', STORE_ALLOCATION = 0, numberOfFlushes = 0, numberOfResets = 0, lineShift = 6,
      setIndexMask = 0\<rparr>)"

lemma demo_level: "new_CACHE_LEVEL 0 0 i j ''lru'' 128 64 2 0 (site_hitcost i 4) = Some (demo_cache i j)"
  by (simp add: new_CACHE_LEVEL_def IsPower2_def Let_def new_CACHE_SET_def new_LRU_def LRU_SetAssociativity_def
      MAX_ASSOCIATIVITY_def fresh_tags_def FloorLog2_def log_step_def demo_cache_def)

definition demo_levels :: "CostSite \<Rightarrow> STORAGE \<Rightarrow> STORAGE" where
  "demo_levels i st = (let st = put_level (i, MEM) (new_MEMORY_LEVEL i MEM (site_hitcost i (if i = CPU then 100 else 40)))
       (put_level (i, DL1) (demo_cache i DL1) (put_level (i, IL1) (demo_cache i IL1) st));
     st = put_level (i, DL1) ((demo_cache i DL1)\<lparr>next_level := Some (i, MEM)\<rparr>)
       (put_level (i, IL1) ((demo_cache i IL1)\<lparr>next_level := Some (i, MEM)\<rparr>) st)
   in set_top (i, DL1) (i, DL1) (set_top (i, IL1) (i, IL1) st))"

definition demo_storage :: STORAGE where
  "demo_storage = demo_levels PIM (demo_levels CPU (new_STORAGE demo_package))"

lemma demo_read:
  "i = CPU \<or> i = PIM \<Longrightarrow> j = IL1 \<or> j = DL1 \<Longrightarrow> g = - 1 \<or> g = 64 \<Longrightarrow>
   read_level demo_reader demo_names 0 0 i j (g, st) = Some (64, put_level (i, j) (demo_cache i j) st)"
  using demo_level by (auto simp: read_level_def demo_reader_def demo_names_def int32_def Let_def)

lemma demo_sections:
  "has_section demo_reader (demo_names CPU j) \<longleftrightarrow> j \<in> {IL1, DL1, MEM}" "has_section demo_reader (demo_names PIM j) \<longleftrightarrow> j \<in> {IL1, DL1, MEM}"
  by (cases j; simp add: demo_reader_def demo_names_def)+

lemma demo_site:
  "i = CPU \<or> i = PIM \<Longrightarrow> g = - 1 \<or> g = 64 \<Longrightarrow>
   read_levels demo_reader demo_names 0 0 i [IL1, DL1, UL2, UL3] None (g, st) =
     Some (Some DL1, 64, put_level (i, DL1) (demo_cache i DL1) (put_level (i, IL1) (demo_cache i IL1) st))"
  "i = CPU \<or> i = PIM \<Longrightarrow>
   connect_memory demo_reader demo_names i (Some DL1) (put_level (i, DL1) (demo_cache i DL1) (put_level (i, IL1) (demo_cache i IL1) st)) =
     Some (demo_levels i st)"
  by (auto simp: demo_read demo_sections)
    (auto simp: connect_memory_def set_next_def demo_reader_def demo_names_def demo_levels_def Let_def)

lemma demo_config: "ReadConfig demo_reader demo_names 0 0 (new_STORAGE demo_package) = Some demo_storage"
  by (simp add: ReadConfig_def sites_def demo_site demo_storage_def del: read_levels.simps)

lemma demo_usable: "usable demo_reader demo_names"
  by (auto simp: usable_def sites_def demo_sections has_a_set_def int32_def) (simp_all add: demo_reader_def)

lemma demo_package_ok: "package_ok 1 1 0 demo_package"
proof -
  have "trie_ok [] (new_node None)" "\<And>p. leaf_at (new_node None) p = None"
    by (simp add: new_node_def, simp)
  then show ?thesis by (simp add: package_ok_def demo_package_def reuse_room_def new_DataReuse_def)
qed

lemma demo_storage_ok: "storage_ok 1 1 0 demo_storage"
  using ReadConfig_spec [OF demo_config demo_usable] demo_package_ok by (simp add: storage_ok_def)

lemma demo_fetch: "fetch_ready demo_storage"
  by (simp add: fetch_ready_def sites_def demo_storage_def demo_levels_def Let_def)

text \<open>The data cache of the CPU, and its levels.\<close>

lemma demo_CPU:
  "levels demo_storage (CPU, DL1) = Some ((demo_cache CPU DL1)\<lparr>next_level := Some (CPU, MEM)\<rparr>)"
  "range_line ((demo_cache CPU DL1)\<lparr>next_level := Some (CPU, MEM)\<rparr>) = 64"
  "hierarchy_ok demo_storage" "package_ok 1 1 0 (cost_package demo_storage)"
  using demo_storage_ok
  by (simp_all add: demo_storage_def demo_levels_def Let_def storage_ok_def range_line_def demo_cache_def new_level_def)

lemma demo_miss: "\<not> holds demo_storage (CPU, DL1) 1000"
  by (simp add: holds_def demo_CPU(1)) (simp add: demo_cache_def new_level_def line_in_def set_of_def SplitAddress_def
      lru_addrs_def fresh_tags_def)

lemma demo_cache_part: "\<exists>c. cache_part (demo_cache i j) = Some c \<and> cache_ok c \<and> NumSets c = 1"
  using level_ok_new [OF demo_level, of DL1] by (auto simp: level_ok_def demo_cache_def new_level_def NumSets_def cache_ok_def)

text \<open>A range of four bytes in the last line of the address space, and one over three lines.\<close>

lemma demo_ranges:
  "length (range_addresses 64 (- 8) (- 8 + ucast (4 :: u32))) < 2 ^ 60" "unat (- 8 + ucast (4 :: u32) :: u64) + 64 > 2 ^ 64"
  "length (range_addresses 64 100 (100 + ucast (100 :: u32))) = 3"
  by (simp_all add: range_addresses_def next_line_def)

lemma demo_counts: "Accesses ty ((demo_cache i j)\<lparr>next_level := n\<rparr>) = 0"
  by (simp add: Accesses_def Hits_def Misses_def demo_cache_def new_level_def)

text \<open>A round robin set of two ways.\<close>

definition demo_rr :: ROUND_ROBIN where
  "demo_rr = the (new_ROUND_ROBIN 0 2)"

lemma demo_rr: "rr_inv demo_rr" "rr_queue demo_rr = [0, 0]"
proof -
  obtain s where s: "new_ROUND_ROBIN 0 2 = Some s" by (simp add: new_ROUND_ROBIN_def MAX_ASSOCIATIVITY_def)
  note spec = new_ROUND_ROBIN_spec [OF s]
  show "rr_inv demo_rr" using spec by (simp add: demo_rr_def s)
  have l: "map tag_addr (rr_list demo_rr) = [0, 0]" using spec by (simp add: demo_rr_def s, simp add: eval_nat_numeral)
  have "length (rev (take k l) @ rev (drop k l)) = length l" for k and l :: "ADDRINT list" by simp
  moreover have "set (rev (take k l) @ rev (drop k l)) = set l" for k and l :: "ADDRINT list"
    by (metis append_take_drop_id set_append set_rev)
  ultimately have q: "length (rr_queue demo_rr) = 2" "set (rr_queue demo_rr) = {0}"
    unfolding rr_queue_def Let_def l by (simp, metis empty_set insert_absorb2 list.simps(15))
  then show "rr_queue demo_rr = [0, 0]" by (auto dest!: two_list)
qed

end
