(* ===== verification/Pin_Demo.thy ===== *)
theory Pin_Demo
  imports Pin_Trace Cache_Demo
begin

text \<open>The Pin tool on the concrete storage with one running thread, and an interleaving of two threads.\<close>

definition demo_tool :: PinTool where
  "demo_tool = \<lparr>pin_storage = demo_storage, bbl_hash = [(GLOBAL_BBLHASH, 0)], bbl_size = 1, in_omp_parallel = 0,
     thread_bbl_scope = [new_BBLScope], thread_in_roi = [True], thread_in_roidecision = [True], previous_instr = [0],
     enter_roi_cnt = 0, exit_roi_cnt = 0, instruction_latency = replicate 2 (replicate MAX_INDEX 1),
     bbl_instruction_cost = [[0], [0]], roi_decision = [], enableroi = False, enableroidecision = False\<rparr>"

lemma demo_threads: "thread_count (pin_package demo_tool) = 1"
  by (simp add: demo_tool_def demo_storage_def demo_levels_def Let_def demo_package_def new_STORAGE_def)

lemma demo_tool_ok: "1 \<le> T \<Longrightarrow> pin_ok 1 T 0 demo_tool"
proof -
  assume "1 \<le> T"
  then have "storage_ok 1 T 0 demo_storage"
    using demo_storage_ok package_ok_threads [of 1 1 0 "cost_package demo_storage" T] by (simp add: storage_ok_def)
  then show ?thesis
    using demo_fetch
    by (simp add: pin_ok_def demo_tool_def known_def ident_def GLOBAL_BBLHASH_def GLOBAL_BBLID_def inj_on_def)
qed

lemma demo_nested: "nested [[GLOBAL_BBLHASH]] demo_tool"
  by (simp add: nested_def demo_tool_def known_def ident_def new_BBLScope_def GLOBAL_BBLID_def)

definition demo_interleaving :: "PinEvent list" where
  "demo_interleaving = [Magic 0 7 9 0, NewThread, Magic 1 7 9 0, Fetch 1 100 4 0, Magic 0 7 9 1,
     Data 1 100 8 ACCESS_TYPE_STORE 0, Instr 1 5 False 0, Magic 1 7 9 1, EndThread]"

lemma demo_interleaving_ok:
  "nest_run demo_interleaving ([[GLOBAL_BBLHASH]], 1) = Some ([[GLOBAL_BBLHASH], [GLOBAL_BBLHASH]], 1)"
  "list_all event_ok demo_interleaving" "length demo_interleaving = 9"
  "(\<Sum>e\<leftarrow>demo_interleaving. event_room 20 e) = 440"
  by (simp_all add: demo_interleaving_def nest_run_def nest_magic_def nest_plain_def GetOpType_take_bit MAX_INDEX_def)

definition demo_ins :: "bool \<Rightarrow> bool \<Rightarrow> INS" where
  "demo_ins xchg mov = \<lparr>is_xchg_rcx = xchg, INS_IsMov = mov, INS_Opcode = 1, INS_IsMemoryRead = False,
     INS_HasMemoryRead2 = False, INS_IsMemoryWrite = False, INS_IsStandardMemop = True, classify_sse = False,
     classify_avx = False, classify_avx512 = False, SIMD_SCALAR = False, vector_length_bits = 0, ins_length = 3\<rparr>"

end
