(* ===== verification/Config_Demo.thy ===== *)
theory Config_Demo
  imports Config_File Pin_Demo
begin

text \<open>
  A configuration file in the style of the shipped ones, with a value that goes on over two lines,
  and a small table of latencies.
\<close>

definition demo_ini :: "INI_Line list" where
  "demo_ini = [Comment False '' small caches'', Section ''CPU/IL1'', Assign ''linesize'' 1 ''64'' None,
     Assign ''cachesize'' 1 ''128'' None, Assign ''associativity'' 1 ''2'' None,
     Assign ''allocation'' 1 ''0'' (Some ''store_allocate''), Assign ''policy'' 1 ''lru'' None, Assign ''hitcost'' 1 ''4'' None,
     Blank, Section ''about'', Assign ''text'' 0 ''first'' None, More ''second'' None]"

definition demo_files :: "string \<Rightarrow> string option" where
  "demo_files name = (if name = ''small.ini'' then Some (ini_text demo_ini) else None)"

lemmas ini_checks = name_ok_def value_ok_def comment_ok_def trimmed_def line_chars_def newline_def MAX_NAME_def
  MAX_SECTION_def INI_MAX_LINE_def trail_def

lemma demo_ini_ok: "lines_ok False demo_ini" "take 3 (ini_text demo_ini) \<noteq> BOM" "demo_files ''small.ini'' = Some (ini_text demo_ini)"
  by (simp add: demo_ini_def ini_checks is_space_def) (simp add: demo_ini_def ini_text_Cons BOM_def, simp add: demo_files_def)

lemma demo_ini_assignments:
  "assignments [] [] demo_ini = [(''CPU/IL1'', ''linesize'', ''64''), (''CPU/IL1'', ''cachesize'', ''128''),
     (''CPU/IL1'', ''associativity'', ''2''), (''CPU/IL1'', ''allocation'', ''0''), (''CPU/IL1'', ''policy'', ''lru''),
     (''CPU/IL1'', ''hitcost'', ''4''), (''about'', ''text'', ''first''), (''about'', ''text'', ''second'')]"
  by (simp add: demo_ini_def)

lemma show_demo: "show_int 64 = ''64''" "show_int 128 = ''128''" "show_int 2 = ''2''" "show_int 0 = ''0''" "stod ''4'' = Some 4"
  by (simp_all add: show_int_def show_nat_def show_base.simps digit_char_def char_of_def bit_0 stod_def scan_real_def
      scan_sign_def is_space_def is_digit_def digit_val_def digits_value_def)

lemma demo_section: "cache_section (assignments [] [] demo_ini) ''CPU/IL1'' 64 128 2 0 ''lru'' ''4''"
  by (simp add: cache_section_def demo_ini_assignments values_at_def MakeKey_def to_lower_def show_demo Let_def)


text \<open>Two opcodes on two sites, one of them slower on the first site.\<close>

definition demo_opcodes :: "nat \<Rightarrow> string" where
  "demo_opcodes j = (if j = 0 then ''ADD'' else if j = 1 then ''MUL'' else ''LAST'')"

definition latency_sections :: "nat \<Rightarrow> string" where
  "latency_sections i = (if i = 0 then ''CPU/InstructionLatency'' else ''PIM/InstructionLatency'')"

definition pad_right :: "string \<Rightarrow> nat \<Rightarrow> string" where
  "pad_right s w = s @ replicate (w - length s) CHR '' ''"

definition demo_digit :: "COST \<Rightarrow> string" where "demo_digit x = (if x = 3 then ''3'' else ''1'')"

definition slow_tool :: PinTool where
  "slow_tool = demo_tool\<lparr>instruction_latency := [(replicate MAX_INDEX 1)[0 := 3], replicate MAX_INDEX 1]\<rparr>"

lemma demo_real_opcodes: "real_opcodes demo_opcodes = [0, 1]"
proof -
  have "(0::nat) < MAX_INDEX" "Suc 0 < MAX_INDEX" by (simp_all add: MAX_INDEX_def)
  then have "[0..<MAX_INDEX] = 0 # 1 # [2..<MAX_INDEX]" by (simp add: upt_conv_Cons numeral_2_eq_2)
  moreover have "filter (\<lambda>j. demo_opcodes j \<noteq> ''LAST'') [2..<MAX_INDEX] = []" by (auto simp: demo_opcodes_def filter_empty_conv)
  ultimately show ?thesis by (simp add: real_opcodes_def demo_opcodes_def)
qed

lemma slow_table: "table_ok slow_tool" "instruction_latency slow_tool ! 0 ! 0 = 3" "instruction_latency slow_tool ! 0 ! 1 = 1"
    "instruction_latency slow_tool ! 1 ! 0 = 1" "instruction_latency slow_tool ! 1 ! 1 = 1"
  by (auto simp: table_ok_def slow_tool_def MAX_INDEX_def)

lemma demo_names_ok: "names_ok latency_sections demo_opcodes"
proof -
  have "inj_on (\<lambda>(i, j). MakeKey (latency_sections i) (demo_opcodes j)) ({0, 1} \<times> {0, 1})"
    by (auto simp: inj_on_def MakeKey_def latency_sections_def demo_opcodes_def to_lower_def Let_def)
  then show ?thesis
    by (simp add: names_ok_def demo_real_opcodes) (auto simp: latency_sections_def demo_opcodes_def ini_checks is_space_def)
qed

lemma demo_legible: "legible_table demo_digit demo_opcodes slow_tool"
proof -
  have "legible demo_digit 3" "legible demo_digit 1"
    by (simp_all add: legible_def demo_digit_def ini_checks is_space_def stod_def scan_real_def
      scan_sign_def is_digit_def digit_val_def digits_value_def)
  then show ?thesis using slow_table by (auto simp: legible_table_def demo_real_opcodes less_2_cases_iff)
qed

lemma demo_justifies: "left_justifies pad_right"
  by (simp add: left_justifies_def pad_right_def)


lemma demo_values:
  "values_at (assignments [] [] demo_ini) (MakeKey ''About'' ''TEXT'') = [''first'', ''second'']"
  "values_at (assignments [] [] demo_ini) (MakeKey ''CPU/IL1'' ''allocation'') = [''0'']"
  unfolding demo_ini_assignments by code_simp+

end
