(* ===== verification/Command_Line.thy ===== *)
theory Command_Line
  imports Solver_Report Stats_File
begin

text \<open>
  The command line of the solver (\<open>CommandLineParser\<close> in \<open>PIMProfSolver/Util.h\<close> and \<open>Util.cpp\<close>)
  and its \<open>main\<close>. \<open>getopt_long\<close> of the C library is modelled as the code uses it: no flag pointers,
  an option string without prefix, the words that are no options are stepped over; it delivers the
  options with their arguments, a null argument is \<open>None\<close>. \<open>Usage\<close> ends the program and is the left
  summand; a failed assertion, an exception and a string built from a null pointer are \<open>None\<close>.
\<close>

subsection \<open>The C library\<close>

type_synonym parsed_option = "char \<times> string option"

text \<open>The character returned for an option that is unknown, ambiguous or lacks its argument.\<close>

definition BAD_OPTION :: char where "BAD_OPTION = CHR ''?''"

text \<open>
  A word of short options: those without an argument, then perhaps one with an argument, which is
  the rest of the word or, when that is empty, the next word. The result is the options found and
  the character that still waits for its argument.
\<close>

fun short_options :: "(char \<times> bool) list \<Rightarrow> string \<Rightarrow> parsed_option list \<times> char option" where
  "short_options short_opt [] = ([], None)"
| "short_options short_opt (c # cs) =
     (case map_of short_opt c of
        None \<Rightarrow> (let (os, w) = short_options short_opt cs in ((BAD_OPTION, None) # os, w))
      | Some False \<Rightarrow> (let (os, w) = short_options short_opt cs in ((c, None) # os, w))
      | Some True \<Rightarrow> if cs = [] then ([], Some c) else ([(c, Some cs)], None))"

text \<open>A long option: an exact name, or else a prefix of exactly one name.\<close>

definition find_long :: "(string \<times> bool \<times> char) list \<Rightarrow> string \<Rightarrow> (bool \<times> char) option" where
  "find_long long_opt name =
     (case map_of long_opt name of Some o' \<Rightarrow> Some o'
      | None \<Rightarrow> (case filter (\<lambda>(n, _). prefix name n) long_opt of [(n, o')] \<Rightarrow> Some o' | _ \<Rightarrow> None))"

definition long_option :: "(string \<times> bool \<times> char) list \<Rightarrow> string \<Rightarrow> parsed_option list \<times> char option" where
  "long_option long_opt w =
     (let name = takeWhile (\<lambda>c. c \<noteq> CHR ''='') w; arg = dropWhile (\<lambda>c. c \<noteq> CHR ''='') w
      in case find_long long_opt name of
           None \<Rightarrow> ([(BAD_OPTION, None)], None)
         | Some (False, c) \<Rightarrow> (if arg = [] then ([(c, None)], None) else ([(BAD_OPTION, None)], None))
         | Some (True, c) \<Rightarrow> (if arg = [] then ([], Some c) else ([(c, Some (tl arg))], None)))"

fun getopt_long :: "(char \<times> bool) list \<Rightarrow> (string \<times> bool \<times> char) list \<Rightarrow> string list \<Rightarrow> parsed_option list" where
  "getopt_long short_opt long_opt [] = []"
| "getopt_long short_opt long_opt (w # ws) =
     (if w = ''--'' then []
      else if w = ''-'' \<or> take 1 w \<noteq> ''-'' then getopt_long short_opt long_opt ws
      else (case if take 2 w = ''--'' then long_option long_opt (drop 2 w) else short_options short_opt (tl w) of
              (os, None) \<Rightarrow> os @ getopt_long short_opt long_opt ws
            | (os, Some c) \<Rightarrow> os @ (case ws of [] \<Rightarrow> [(BAD_OPTION, None)]
                | v # ws' \<Rightarrow> (c, Some v) # getopt_long short_opt long_opt ws')))"

subsection \<open>The parser\<close>

record CommandLineParser =
  dataMove_threshold :: real
  decisionFile :: string
  scaDecisionFile :: string
  cpustatsfile :: string
  pimstatsfile :: string
  reusefile :: string
  outputfile :: string
  parser_mode :: "Mode option"

definition new_CommandLineParser :: CommandLineParser where
  "new_CommandLineParser = \<lparr>dataMove_threshold = 1 / 100, decisionFile = [], scaDecisionFile = [], cpustatsfile = [],
     pimstatsfile = [], reusefile = [], outputfile = [], parser_mode = None\<rparr>"

datatype Exit = Usage

definition set_option :: "parsed_option \<Rightarrow> CommandLineParser \<Rightarrow> (Exit + CommandLineParser) option" where
  "set_option opt p = (case opt of (c, optarg) \<Rightarrow>
     if c = CHR ''t'' then do { a \<leftarrow> optarg; Some (Inr (p\<lparr>decisionFile := a\<rparr>)) }
     else if c = CHR ''s'' then do { a \<leftarrow> optarg; Some (Inr (p\<lparr>scaDecisionFile := a\<rparr>)) }
     else if c = CHR ''c'' then do { a \<leftarrow> optarg; Some (Inr (p\<lparr>cpustatsfile := a\<rparr>)) }
     else if c = CHR ''p'' then do { a \<leftarrow> optarg; Some (Inr (p\<lparr>pimstatsfile := a\<rparr>)) }
     else if c = CHR ''r'' then do { a \<leftarrow> optarg; Some (Inr (p\<lparr>reusefile := a\<rparr>)) }
     else if c = CHR ''o'' then do { a \<leftarrow> optarg; Some (Inr (p\<lparr>outputfile := a\<rparr>)) }
     else if c = CHR ''d'' then do { a \<leftarrow> optarg; x \<leftarrow> stod a; Some (Inr (p\<lparr>dataMove_threshold := x\<rparr>)) }
     else Some (Inl Usage))"

fun set_options :: "parsed_option list \<Rightarrow> CommandLineParser \<Rightarrow> (Exit + CommandLineParser) option" where
  "set_options [] p = Some (Inr p)"
| "set_options (opt # opts) p = do {
     r \<leftarrow> set_option opt p;
     case r of Inl e \<Rightarrow> Some (Inl e) | Inr p \<Rightarrow> set_options opts p }"

definition mpki_short :: "(char \<times> bool) list" where
  "mpki_short = [(CHR ''c'', True), (CHR ''p'', True), (CHR ''r'', True), (CHR ''o'', True), (CHR ''h'', False)]"

definition mpki_long :: "(string \<times> bool \<times> char) list" where
  "mpki_long = [(''cpu'', True, CHR ''c''), (''pim'', True, CHR ''p''), (''reuse'', True, CHR ''r''),
     (''output'', True, CHR ''o''), (''help'', False, CHR ''h'')]"

definition reuse_short :: "(char \<times> bool) list" where
  "reuse_short = [(CHR ''t'', True), (CHR ''s'', True), (CHR ''c'', True), (CHR ''p'', True), (CHR ''r'', True),
     (CHR ''o'', True), (CHR ''d'', True), (CHR ''h'', False)]"

definition reuse_long :: "(string \<times> bool \<times> char) list" where
  "reuse_long = [(''cts'', True, CHR ''t''), (''sca'', True, CHR ''s''), (''cpu'', True, CHR ''c''), (''pim'', True, CHR ''p''),
     (''reuse'', True, CHR ''r''), (''output'', True, CHR ''o''), (''data'', False, CHR ''d''), (''help'', False, CHR ''h'')]"

text \<open>After the options of a mode: the files it cannot do without.\<close>

definition required_files :: "Mode \<Rightarrow> CommandLineParser \<Rightarrow> string list" where
  "required_files mode p = (case mode of
     MPKI \<Rightarrow> [cpustatsfile p, pimstatsfile p, outputfile p]
   | PARA \<Rightarrow> []
   | REUSE \<Rightarrow> [cpustatsfile p, pimstatsfile p, reusefile p, outputfile p, scaDecisionFile p, decisionFile p]
   | DEBUG \<Rightarrow> [cpustatsfile p, pimstatsfile p, reusefile p, outputfile p])"

definition parse_mode :: "Mode \<Rightarrow> (char \<times> bool) list \<Rightarrow> (string \<times> bool \<times> char) list \<Rightarrow> string list \<Rightarrow>
    CommandLineParser \<Rightarrow> (Exit + CommandLineParser) option" where
  "parse_mode mode short_opt long_opt argv p = do {
     r \<leftarrow> set_options (getopt_long short_opt long_opt argv) (p\<lparr>parser_mode := Some mode\<rparr>);
     case r of Inl e \<Rightarrow> Some (Inl e)
     | Inr p \<Rightarrow> Some (if [] \<in> set (required_files mode p) then Inl Usage else Inr p) }"

definition CommandLineParser_initialize :: "string list \<Rightarrow> CommandLineParser \<Rightarrow> (Exit + CommandLineParser) option" where
  "CommandLineParser_initialize argv p =
     (if length argv \<le> 1 then Some (Inl Usage)
      else let mode_string = argv ! 1; rest = drop 2 argv
        in if mode_string = ''mpki'' then parse_mode MPKI mpki_short mpki_long rest p
           else if mode_string = ''para'' then None
           else if mode_string = ''reuse'' then parse_mode REUSE reuse_short reuse_long rest p
           else if mode_string = ''debug'' then parse_mode DEBUG mpki_short mpki_long rest p
           else Some (Inl Usage))"

subsection \<open>The program\<close>

text \<open>
  \<open>main\<close>: \<open>files\<close> gives the text of a file that can be opened, \<open>ord\<close>, \<open>grid\<close> and \<open>start\<close> are those of
  \<open>PrintSolution\<close>. The mode is read after a branch has set it.
\<close>

definition solver_main :: "(string \<Rightarrow> string option) \<Rightarrow> ((BBLID \<times> u64) list \<Rightarrow> (BBLID \<times> u64) list) \<Rightarrow> real list \<Rightarrow>
    bestSCAResult \<Rightarrow> string list \<Rightarrow> (Exit + DECISION \<times> ((nat \<times> string) list + DecisionReport)) option" where
  "solver_main files ord grid start argv = do {
     r \<leftarrow> CommandLineParser_initialize argv new_CommandLineParser;
     case r of Inl e \<Rightarrow> Some (Inl e)
     | Inr p \<Rightarrow> do {
         S \<leftarrow> initialize (dataMove_threshold p) (files (scaDecisionFile p)) (files (decisionFile p))
           (files (cpustatsfile p)) (files (pimstatsfile p)) (files (reusefile p)) empty_solver;
         mode \<leftarrow> parser_mode p;
         d \<leftarrow> PrintSolution ord grid start mode S;
         Some (Inr d) } }"

subsection \<open>Options that are written are read\<close>

text \<open>The spellings of an option with an argument.\<close>

datatype Spelling = Short | Attached | Long | LongEq

definition file_options :: "(char \<times> string) list" where
  "file_options = [(CHR ''t'', ''cts''), (CHR ''s'', ''sca''), (CHR ''c'', ''cpu''), (CHR ''p'', ''pim''),
     (CHR ''r'', ''reuse''), (CHR ''o'', ''output'')]"

fun spell :: "Spelling \<times> char \<times> string \<Rightarrow> string list" where
  "spell (Short, c, v) = [''-'' @ [c], v]"
| "spell (Attached, c, v) = [''-'' @ [c] @ v]"
| "spell (Long, c, v) = [''--'' @ the (map_of file_options c), v]"
| "spell (LongEq, c, v) = [''--'' @ the (map_of file_options c) @ ''='' @ v]"

definition spelled_ok :: "Spelling \<times> char \<times> string \<Rightarrow> bool" where
  "spelled_ok x = (case x of (sp, c, v) \<Rightarrow> c \<in> fst ` set file_options \<and> (sp = Attached \<longrightarrow> v \<noteq> []))"

text \<open>The value of an option: the one given last.\<close>

fun last_value :: "(Spelling \<times> char \<times> string) list \<Rightarrow> char \<Rightarrow> string \<Rightarrow> string" where
  "last_value [] c v = v"
| "last_value ((sp, c', v') # xs) c v = last_value xs c (if c' = c then v' else v)"

lemma spelled_read:
  "spelled_ok (sp, c, v) \<Longrightarrow> getopt_long reuse_short reuse_long (spell (sp, c, v) @ ws) = (c, Some v) # getopt_long reuse_short reuse_long ws"
  by (cases sp) (auto simp: spelled_ok_def file_options_def reuse_short_def reuse_long_def long_option_def find_long_def)

lemma options_read:
  "list_all spelled_ok xs \<Longrightarrow> getopt_long reuse_short reuse_long (concat (map spell xs)) = map (\<lambda>(sp, c, v). (c, Some v)) xs"
proof (induction xs)
  case (Cons x xs)
  then show ?case using spelled_read by (cases x) simp
qed simp

lemma options_set:
  "list_all spelled_ok xs \<Longrightarrow> set_options (map (\<lambda>(sp, c, v). (c, Some v)) xs) p =
    Some (Inr (p\<lparr>decisionFile := last_value xs CHR ''t'' (decisionFile p), scaDecisionFile := last_value xs CHR ''s'' (scaDecisionFile p),
      cpustatsfile := last_value xs CHR ''c'' (cpustatsfile p), pimstatsfile := last_value xs CHR ''p'' (pimstatsfile p),
      reusefile := last_value xs CHR ''r'' (reusefile p), outputfile := last_value xs CHR ''o'' (outputfile p)\<rparr>))"
proof (induction xs arbitrary: p)
  case Nil
  then show ?case by (cases p) simp
next
  case (Cons x xs)
  obtain sp c v where x: "x = (sp, c, v)" by (cases x) simp
  then have "c \<in> {CHR ''t'', CHR ''s'', CHR ''c'', CHR ''p'', CHR ''r'', CHR ''o''}"
    using Cons.prems by (auto simp: spelled_ok_def file_options_def)
  then show ?case using Cons x by (auto simp: set_option_def)
qed

theorem reuse_parsed:
  assumes "list_all spelled_ok xs"
  shows "CommandLineParser_initialize (program # ''reuse'' # concat (map spell xs)) new_CommandLineParser =
    Some (if \<exists>c \<in> fst ` set file_options. last_value xs c [] = [] then Inl Usage
      else Inr \<lparr>dataMove_threshold = 1 / 100, decisionFile = last_value xs CHR ''t'' [], scaDecisionFile = last_value xs CHR ''s'' [],
        cpustatsfile = last_value xs CHR ''c'' [], pimstatsfile = last_value xs CHR ''p'' [], reusefile = last_value xs CHR ''r'' [],
        outputfile = last_value xs CHR ''o'' [], parser_mode = Some REUSE\<rparr>)"
  using options_read [OF assms] options_set [OF assms]
  by (auto simp: CommandLineParser_initialize_def parse_mode_def new_CommandLineParser_def required_files_def file_options_def)

theorem reuse_main:
  assumes "list_all spelled_ok xs" and "\<forall>c \<in> fst ` set file_options. last_value xs c [] \<noteq> []"
  shows "solver_main files ord grid start (program # ''reuse'' # concat (map spell xs)) = do {
    S \<leftarrow> initialize (1 / 100) (files (last_value xs CHR ''s'' [])) (files (last_value xs CHR ''t'' []))
      (files (last_value xs CHR ''c'' [])) (files (last_value xs CHR ''p'' [])) (files (last_value xs CHR ''r'' [])) empty_solver;
    d \<leftarrow> PrintSolution ord grid start REUSE S;
    Some (Inr d) }"
  using reuse_parsed [OF assms(1), of program] assms(2) by (simp add: solver_main_def)

text \<open>Without the two decision files, which the documentation does not mention, the program only prints its usage.\<close>

theorem documented_call_rejected:
  "solver_main files ord grid start [program, ''reuse'', ''-c'', c, ''-p'', p, ''-r'', r, ''-o'', out] = Some (Inl Usage)"
proof -
  let ?xs = "[(Short, CHR ''c'', c), (Short, CHR ''p'', p), (Short, CHR ''r'', r), (Short, CHR ''o'', out)]"
  have "list_all spelled_ok ?xs" by (simp add: spelled_ok_def file_options_def)
  from reuse_parsed [OF this, of program] show ?thesis by (simp add: solver_main_def file_options_def)
qed

text \<open>The mode \<open>mpki\<close> accepts a call without a reuse file, which \<open>initialize\<close> then asserts to be open.\<close>

lemma mpki_without_reuse:
  assumes "files [] = None"
  shows "solver_main files ord grid start [program, ''mpki'', ''-c'', c, ''-p'', p, ''-o'', out] = 
    (if [] \<in> {c, p, out} then Some (Inl Usage) else None)"
  using assms
  by (auto simp: solver_main_def CommandLineParser_initialize_def parse_mode_def mpki_short_def mpki_long_def new_CommandLineParser_def
      set_option_def required_files_def initialize_def bind_eq_None_conv split: bind_splits)

text \<open>The long option \<open>data\<close> is declared without an argument, but its argument is converted.\<close>

lemma data_option_undefined:
  "solver_main files ord grid start (program # ''reuse'' # ''--data'' # ws) = None"
  by (simp add: solver_main_def CommandLineParser_initialize_def parse_mode_def reuse_short_def reuse_long_def long_option_def
      find_long_def set_option_def)

lemma para_undefined: "solver_main files ord grid start (program # ''para'' # ws) = None"
  by (simp add: solver_main_def CommandLineParser_initialize_def)

end
