(* ===== verification/Solver_Run.thy ===== *)
theory Solver_Run
  imports Command_Line
begin

text \<open>
  The whole run of the solver in the mode \<open>reuse\<close>: on an instance whose files describe a solvable
  problem every driver is defined, the decision is the one of the reuse search, and the program
  ends exactly when the placement of the CTS file, which the tables report on, puts some block on
  its slower side.
\<close>

subsection \<open>The files fix the sites they may name\<close>

lemma set_omap_update_subset: "set (omap_update k v m) \<subseteq> insert (k, v) (set m)"
  by (induction m) (auto split: if_splits)

lemma parse_decisions_sites:
  assumes "parse_decisions value_of ifs m = Some m'" and "\<forall>(h, s) \<in> set m. s \<in> A" and "\<And>v s. value_of v = Some s \<Longrightarrow> s \<in> A"
  shows "\<forall>(h, s) \<in> set m'. s \<in> A"
  using assms(1) unfolding parse_decisions_def
proof (rule foldM_invariant [where P = "\<lambda>m. \<forall>(h, s) \<in> set m. s \<in> A"])
  show "\<forall>(h, s) \<in> set m. s \<in> A" by (rule assms(2))
next
  fix line m0 m1
  assume m0: "\<forall>(h, s) \<in> set m0. s \<in> A"
    and "(do { let (key, value) = parse_keyed line; site \<leftarrow> value_of value; Some (omap_update key site m0) }) = Some m1"
  then obtain key site where "m1 = omap_update key site m0" "site \<in> A"
    using assms(3) by (auto simp: bind_eq_Some_conv split: prod.splits)
  then show "\<forall>(h, s) \<in> set m1. s \<in> A" using m0 set_omap_update_subset by fastforce
qed

text \<open>Reading the reuse file leaves the statistics and the two decision maps alone.\<close>

definition same_stats :: "CostSolver \<Rightarrow> CostSolver \<Rightarrow> bool" where
  "same_stats S S' \<longleftrightarrow> scaDecision S' = scaDecision S \<and> ctsDecision S' = ctsDecision S \<and>
     hash2stats_CPU S' = hash2stats_CPU S \<and> hash2stats_PIM S' = hash2stats_PIM S \<and>
     sorted_CPU S' = sorted_CPU S \<and> sorted_PIM S' = sorted_PIM S \<and> stale S' = stale S"

lemma same_stats_refl: "same_stats S S"
  by (simp add: same_stats_def)

lemma same_stats_trans: "same_stats S S' \<Longrightarrow> same_stats S' S'' \<Longrightarrow> same_stats S S''"
  by (simp add: same_stats_def)

lemma parse_part_keeps:
  "parse_segment line (token, S) = Some (token', S') \<Longrightarrow> same_stats S S'"
  "parse_switch line (token, S) = Some (token', S') \<Longrightarrow> same_stats S S'"
  by (auto simp: parse_segment_def parse_switch_def same_stats_def bind_eq_Some_conv Let_def case_prod_beta split: if_splits)

lemma parse_lines_keeps: "parse_lines ls isreuse st = Some st' \<Longrightarrow> same_stats (snd st) (snd st')"
proof (induction ls isreuse st arbitrary: st' rule: parse_lines.induct)
  case (1 isreuse st)
  then show ?case by (simp add: same_stats_def)
next
  case (2 line isreuse st)
  then show ?case
    by (cases st; cases st') (auto simp: bind_eq_Some_conv same_stats_refl split: if_splits dest: parse_part_keeps)
next
  case (3 line next' rest isreuse st)
  show ?case
  proof (cases "contains line HORIZONTAL_LINE")
    case True
    then show ?thesis using 3 by (cases st') (auto simp: bind_eq_Some_conv)
  next
    case False
    then obtain st1 where st1: "(if isreuse then parse_segment line st else parse_switch line st) = Some st1"
      "parse_lines (next' # rest) isreuse st1 = Some st'" using 3(3) by (auto simp: bind_eq_Some_conv split: if_splits)
    have "same_stats (snd st) (snd st1)"
      using st1(1) parse_part_keeps by (cases st; cases st1) (auto split: if_splits)
    then show ?thesis using same_stats_trans 3(2) [OF False st1] by blast
  qed
qed

text \<open>What \<open>initialize\<close> leaves behind: a solver whose statistics are waiting to be aligned.\<close>

lemma add_stats_ok:
  assumes "add_stats tid r m = Some m'" and m: "stats_map_ok m"
  shows "stats_map_ok m'"
proof -
  have tid: "0 \<le> tid" if "set_thread_time tid x s = Some s'" for x s s'
    using that by (auto simp: set_thread_time_def vec_set_def bind_eq_Some_conv Let_def split: if_splits)
  show ?thesis
  proof (cases "map_of m (bblhash r)")
    case None
    then obtain p where p: "new_ThreadRunStats tid r = Some p" "m' = m @ [(bblhash r, p)]"
      using assms(1) by (auto simp: add_stats_def bind_eq_Some_conv split: if_splits)
    moreover have "0 \<le> tid" using p(1) tid by (auto simp: new_ThreadRunStats_def)
    ultimately have "fresh_threads p" "bblhash p = bblhash r" using new_ThreadRunStats_fresh [of tid r] by auto
    moreover have "bblhash r \<notin> fst ` set m" using None by (simp add: map_of_eq_None_iff)
    ultimately show ?thesis using m p(2) by (auto simp: stats_map_ok_def)
  next
    case (Some q)
    then obtain p where p: "MergeStats_tid tid r q = Some p" "m' = AList.update (bblhash r) p m"
      using assms(1) by (auto simp: add_stats_def bind_eq_Some_conv split: if_splits)
    have q: "bblhash q = bblhash r" "fresh_threads q"
      using m map_of_SomeD [OF Some] by (auto simp: stats_map_ok_def)
    have "0 \<le> tid" using p(1) tid by (auto simp: MergeStats_tid_def)
    then have "fresh_threads p" "bblhash p = bblhash r" using MergeStats_tid_fresh [OF _ q(2), of tid r] p(1) q(1) by auto
    moreover have "set (AList.update (bblhash r) p m) \<subseteq> insert (bblhash r, p) (set m)" by (induction m) auto
    ultimately show ?thesis using m p(2) by (auto simp: stats_map_ok_def distinct_update)
  qed
qed

lemma ParseStats_ok:
  assumes "ParseStats ifs [] = Some m"
  shows "stats_map_ok m"
  using assms unfolding ParseStats_def parse_stats_entries
  by (rule foldM_invariant [where P = stats_map_ok]) (auto simp: stats_map_ok_def [of "[]"] intro: add_stats_ok)

lemma initialize_solver:
  assumes "initialize threshold sca decision cpustats pimstats reuse empty_solver = Some S"
  shows "\<forall>(h, s) \<in> set (ctsDecision S). s \<in> {CPU, PIM}" "\<forall>(h, s) \<in> set (scaDecision S). s \<in> {CPU, PIM, Follower}"
    "stale S" "sorted_PIM S = []" "stats_map_ok (hash2stats_CPU S)" "stats_map_ok (hash2stats_PIM S)"
    "length (flush_cost S) = 2" "length (fetch_cost S) = 2" "length (switch_cost S) = 2" "batch_size S = 10"
proof -
  obtain c s ct pt S0 where cts: "parse_decisions cts_value (stream_text decision) [] = Some c"
    and sca: "parse_decisions sca_value (stream_text sca) [] = Some s"
    and stats: "stats_map_ok ct" "stats_map_ok pt"
    and keep: "same_stats (empty_solver\<lparr>ctsDecision := c, scaDecision := s, hash2stats_CPU := ct, hash2stats_PIM := pt\<rparr>) S0"
    and S: "S = set_costs threshold (S0\<lparr>bbl_switch_count := List_Sort (bbl_switch_count S0)\<rparr>)"
    using assms
    by (auto simp: initialize_def ParseDecision_def ParseSCADecision_def ParseReuse_def empty_solver_def
        bind_eq_Some_conv Let_def dest!: parse_lines_keeps ParseStats_ok)
  note k = keep [unfolded same_stats_def]
  have c: "\<forall>(h, s) \<in> set c. s \<in> {CPU, PIM}" by (rule parse_decisions_sites [OF cts]) (auto simp: cts_value_def split: if_splits)
  have s: "\<forall>(h, s) \<in> set s. s \<in> {CPU, PIM, Follower}" by (rule parse_decisions_sites [OF sca]) (auto simp: sca_value_def split: if_splits)
  show "\<forall>(h, s) \<in> set (ctsDecision S). s \<in> {CPU, PIM}" "\<forall>(h, s) \<in> set (scaDecision S). s \<in> {CPU, PIM, Follower}"
    "stale S" "sorted_PIM S = []" "stats_map_ok (hash2stats_CPU S)" "stats_map_ok (hash2stats_PIM S)"
    "length (flush_cost S) = 2" "length (fetch_cost S) = 2" "length (switch_cost S) = 2" "batch_size S = 10"
    using k stats c s by (simp_all add: S set_costs_def empty_solver_def)
qed

text \<open>Aligning such a solver succeeds and makes it one the drivers work on.\<close>

lemma aligned_solver:
  assumes "stale S" "sorted_PIM S = []" "stats_map_ok (hash2stats_CPU S)" "stats_map_ok (hash2stats_PIM S)"
    and "length (flush_cost S) = 2" "length (fetch_cost S) = 2" "length (switch_cost S) = 2"
  obtains S' where "getBBLSortedStats S = Some S'" "solver_ok S'" "length (hash2stats_CPU S') = block_count S'"
    "ctsDecision S' = ctsDecision S" "scaDecision S' = scaDecision S" "bbl_switch_count S' = bbl_switch_count S"
    "bbl_data_reuse S' = bbl_data_reuse S" "batch_size S' = batch_size S"
proof -
  obtain S' where S': "getBBLSortedStats S = Some S'" "\<not> stale S'" "sorted_CPU S' = SortStatsMap (hash2stats_CPU S)"
    "aligned (sorted_CPU S') (sorted_PIM S')" "\<forall>s \<in> set (sorted_CPU S') \<union> set (sorted_PIM S'). fresh_threads s"
    using getBBLSortedStats_spec [OF assms(1-4)] by blast
  have frame: "hash2stats_CPU S' = hash2stats_CPU S" "flush_cost S' = flush_cost S" "fetch_cost S' = fetch_cost S"
    "switch_cost S' = switch_cost S" "ctsDecision S' = ctsDecision S" "scaDecision S' = scaDecision S"
    "bbl_switch_count S' = bbl_switch_count S" "bbl_data_reuse S' = bbl_data_reuse S" "batch_size S' = batch_size S"
    using S'(1) by (auto simp: getBBLSortedStats_def bind_eq_Some_conv Let_def split: if_splits)
  have "max_time s \<noteq> None" if "s \<in> set (sorted_CPU S') \<union> set (sorted_PIM S')" for s
    using S'(5) that max_time_fresh by blast
  then have "solver_ok S'" using S'(2,4) frame assms(5-7) by (simp add: solver_ok_def)
  moreover have "length (hash2stats_CPU S') = block_count S'"
    using S'(3) frame(1) by (simp add: block_count_def SortStatsMap_def)
  ultimately show thesis using that S'(1) frame by blast
qed

subsection \<open>The mode reuse\<close>

text \<open>
  What the reuse file has to describe: identifiers below the number of blocks, a row of switches
  for every block, a leaf below the importance threshold, costs in the range of a \<open>float\<close>, and some
  movement of data between blocks.
\<close>

definition solvable :: "CostSolver \<Rightarrow> BBLID TrieNode \<Rightarrow> BBLID list list \<Rightarrow> bool" where
  "solvable S t ls \<longleftrightarrow>
     block_count S \<le> length (bbl_switch_count S) \<and> (\<forall>row \<in> set (bbl_switch_count S). row_ok (block_count S) row) \<and>
     own_ok S t ls \<and> tries (bbl_data_reuse S) own_root = Some t \<and> leaves (bbl_data_reuse S) = map (Pair own_root) ls \<and>
     (\<forall>em rm. elapsed_min S = Some em \<longrightarrow> SingleSegMaxReuseCost S = Some rm \<longrightarrow>
        (\<exists>p \<in> set ls. unimportant S rm em (the (leaf_at t p)))) \<and>
     (\<forall>d. complete d \<longrightarrow> length d = block_count S \<longrightarrow> cost_spec S d t (bbl_switch_count S) < FLT_MAX) \<and> moves_ok S"

text \<open>The placement that the CTS file describes.\<close>

definition cts_placement :: "CostSolver \<Rightarrow> DECISION" where
  "cts_placement S = map (\<lambda>i. if bblhash (sorted_CPU S ! i) = MAIN_BBLHASH then faster S i
     else case map_of (ctsDecision S) (bblhash (sorted_CPU S ! i)) of Some s \<Rightarrow> s | None \<Rightarrow> CPU) [0..<block_count S]"

lemma stale_solution:
  assumes "getBBLSortedStats S = Some S'"
  shows "PrintSolution ord grid start REUSE S = PrintSolution ord grid start REUSE S'"
proof -
  have "\<not> stale S'" using assms by (auto simp: getBBLSortedStats_def bind_eq_Some_conv Let_def split: if_splits)
  then show ?thesis using assms by (simp add: PrintSolution_def ElapsedTime_site_def PrintMPKIStats_def)
qed

lemma reuse_solution:
  assumes S: "solver_ok S" "length (hash2stats_CPU S) = block_count S" "batch_size S = 10" and inst: "solvable S t ls"
    and ord: "\<And>m. set (ord m) = set m"
    and files: "\<forall>(h, s) \<in> set (ctsDecision S). s \<in> {CPU, PIM}" "\<forall>(h, s) \<in> set (scaDecision S). s \<in> {CPU, PIM, Follower}"
  shows "\<exists>d r S'. PrintReuseStats ord S = Some (d, cost_spec S d t (bbl_switch_count S), S') \<and> complete d \<and> length d = block_count S \<and>
    PrintSolution ord grid start REUSE S =
      (if \<exists>i < block_count S. wrong S (cts_placement S) 0 i then Some (d, Inr r) else None)"
proof -
  note inst = inst [unfolded solvable_def]
  have sok: "search_ok S" using S inst by (simp add: search_ok_def)
  have own: "own_ok S t ls" and dr: "tries (bbl_data_reuse S) own_root = Some t" "leaves (bbl_data_reuse S) = map (Pair own_root) ls"
    and moves: "moves_ok S"
    using inst by simp_all
  have rep: "report_ok S t" using own_instance [OF sok own] dr(1) by (simp add: report_ok_def)
  obtain em rm where th: "elapsed_min S = Some em" "SingleSegMaxReuseCost S = Some rm" using thresholds_defined [OF S(1)] by blast
  have ex: "\<exists>p \<in> set ls. unimportant S rm em (the (leaf_at t p))" using inst th by simp
  have small: "cost_spec S d t (bbl_switch_count S) < FLT_MAX" if "complete d" "length d = block_count S" for d
    using inst that by simp
  obtain d S' dr' where d: "PrintReuseStats ord S = Some (d, cost_spec S d t (bbl_switch_count S), S')" "complete d" "length d = block_count S"
    "S' = S\<lparr>bbl_data_reuse := dr'\<rparr>" "tries dr' own_root = Some t"
    by (rule PrintReuseStats_spec [OF sok own dr ord th ex small])
  have S': "report_ok S' t" "moves_ok S'" "block_count S' = block_count S" "ctsDecision S' = ctsDecision S" "scaDecision S' = scaDecision S"
    "faster S' = faster S" "sorted_CPU S' = sorted_CPU S" "wrong S' = wrong S"
    using rep moves d(4,5)
    by (simp_all add: report_ok_def instance_ok_def solver_ok_def block_count_def moves_ok_def interBBTotalCost_def
        faster_def [abs_def] wrong_def [abs_def] cpu_wrong_def pim_wrong_def gap_def)
  obtain s where s: "PrintCTSStatsFromfile S' (ctsDecision S') = Some (s, cost_spec S' s t (bbl_switch_count S'), S')" "complete s"
    "length s = block_count S'" "\<forall>i < block_count S'. s ! i =
       (if bblhash (sorted_CPU S' ! i) = MAIN_BBLHASH then faster S' i
        else case map_of (ctsDecision S') (bblhash (sorted_CPU S' ! i)) of Some s \<Rightarrow> s | None \<Rightarrow> CPU)"
    using PrintCTSStatsFromfile_spec [OF S'(1), of "ctsDecision S'"] files(1) S'(4) by auto
  have cts: "s = cts_placement S"
    using s(3,4) S'(3,4,6,7) by (intro nth_equalityI) (simp_all add: cts_placement_def)
  obtain sd where sd: "PrintSCAStatsFromfile S' (scaDecision S') = Some (sd, cost_spec S' sd t (bbl_switch_count S'), S')"
    using PrintSCAStatsFromfile_spec [OF S'(1,2), of "scaDecision S'"] files(2) S' by auto
  obtain best where best: "sca_sweep S' grid (start\<lparr>sca_total_time := of_int INT_MAX\<rparr>) = Some best"
    using sca_sweep_spec [OF S'(1)] by blast
  obtain c p where cp: "ElapsedTime_site S CPU = Some c" "ElapsedTime_site S PIM = Some p"
    using ElapsedTime_site_defined [OF S(1)] by blast
  have "sites_ok (scaDecision S')"
    using files(2) S'(5) by (fastforce simp: sites_ok_def getCostSiteString_def CostSiteString_def vec_at_def)
  then have ok: "decisions_ok S' t d s" using S'(1,3) d(2,3) s(2,3) by (simp add: decisions_ok_def)
  have run: "PrintSolution ord grid start REUSE S = do { (r, S) \<leftarrow> PrintDecision S' d s False; Some (d, r) }"
    using cp d(1) s(1) sd best PrintMPKIStats_spec [OF rep] PrintGreedyStats_spec [OF rep] by (simp add: PrintSolution_def)
  show ?thesis
  proof (cases "\<exists>i < block_count S. wrong S (cts_placement S) 0 i")
    case True
    then obtain i where "i < block_count S'" "wrong S' s 0 i" using cts S'(3,8) by auto
    from PrintDecision_reports_spec [OF ok this] obtain r S'' where "PrintDecision S' d s False = Some (Inr r, S'')" by blast
    then have "PrintSolution ord grid start REUSE S = Some (d, Inr r)" using run by simp
    with True d(1-3) show ?thesis by auto
  next
    case False
    then have "\<forall>i < block_count S'. \<not> wrong S' s 0 i" using cts S'(3,8) by auto
    from PrintDecision_hangs [OF ok this] have "PrintSolution ord grid start REUSE S = None" using run by simp
    with False d(1-3) show ?thesis by auto
  qed
qed

text \<open>The run of the program: the files fix everything the drivers need apart from \<open>solvable\<close>.\<close>

theorem reuse_run:
  assumes args: "list_all spelled_ok xs" "\<forall>c \<in> fst ` set file_options. last_value xs c [] \<noteq> []"
    and files: "initialize (1 / 100) (files (last_value xs CHR ''s'' [])) (files (last_value xs CHR ''t'' []))
      (files (last_value xs CHR ''c'' [])) (files (last_value xs CHR ''p'' [])) (files (last_value xs CHR ''r'' [])) empty_solver = Some S0"
    and S: "getBBLSortedStats S0 = Some S" and inst: "solvable S t ls" and ord: "\<And>m. set (ord m) = set m"
  shows "\<exists>d r S'. PrintReuseStats ord S = Some (d, cost_spec S d t (bbl_switch_count S), S') \<and> complete d \<and> length d = block_count S \<and>
    solver_main files ord grid start (program # ''reuse'' # concat (map spell xs)) =
      (if \<exists>i < block_count S. wrong S (cts_placement S) 0 i then Some (Inr (d, Inr r)) else None)"
proof -
  note init = initialize_solver [OF files]
  have S': "solver_ok S" "length (hash2stats_CPU S) = block_count S" "batch_size S = 10"
    "ctsDecision S = ctsDecision S0" "scaDecision S = scaDecision S0"
    using aligned_solver [OF init(3-9)] S init(10) by auto
  have "\<forall>(h, s) \<in> set (ctsDecision S). s \<in> {CPU, PIM}" "\<forall>(h, s) \<in> set (scaDecision S). s \<in> {CPU, PIM, Follower}"
    using init(1,2) S'(4,5) by simp_all
  from reuse_solution [OF S'(1-3) inst ord this, of grid start] obtain d r S' where
    "PrintReuseStats ord S = Some (d, cost_spec S d t (bbl_switch_count S), S')" "complete d" "length d = block_count S"
    "PrintSolution ord grid start REUSE S =
      (if \<exists>i < block_count S. wrong S (cts_placement S) 0 i then Some (d, Inr r) else None)" by blast
  moreover have "solver_main files ord grid start (program # ''reuse'' # concat (map spell xs)) =
      map_option Inr (PrintSolution ord grid start REUSE S)"
    using reuse_main [OF args, of files ord grid start program] files stale_solution [OF S, of ord grid start]
    by (cases "PrintSolution ord grid start REUSE S") simp_all
  ultimately show ?thesis by (intro exI [of _ d] exI [of _ r] exI [of _ S']) simp
qed

end
