(* ===== verification/Run_Demo.thy ===== *)
theory Run_Demo
  imports Solver_Run Demo_Instance
begin

text \<open>
  A complete input of the solver: two statistics files, a reuse file and two decision files, what
  \<open>initialize\<close> makes of them, and a command line that names them.
\<close>

definition run_stats_text :: "string list \<Rightarrow> string" where
  "run_stats_text ls = concat (map (\<lambda>l. l @ [newline]) ([HORIZONTAL_LINE, ''Thread 0'', ''BBLID Time''] @ ls))"

definition run_cpu :: "string list" where "run_cpu = [''0 1000000 4000 100 1 1'', ''1 3000000 4000 100 2 2'']"
definition run_pim :: "string list" where "run_pim = [''0 2000000 4000 100 1 1'', ''1 1000000 4000 100 2 2'']"

definition run_reuse :: string where
  "run_reuse = reuse_text 0 0 [(0, 100, [0, 1]), (1, 1, [0, 1])] [(0, [(1, 10)]), (1, [(0, 5)])]"

definition run_files :: "string \<Rightarrow> string option" where
  "run_files = map_of [(''cpu.out'', run_stats_text run_cpu), (''pim.out'', run_stats_text run_pim), (''reuse.out'', run_reuse),
     (''cts.out'', ''1 1 CPU'' @ [newline]), (''sca.out'', [])]"

definition run_options :: "(Spelling \<times> char \<times> string) list" where
  "run_options = [(Short, CHR ''c'', ''cpu.out''), (LongEq, CHR ''p'', ''pim.out''), (Long, CHR ''r'', ''reuse.out''),
     (Attached, CHR ''o'', ''decision.out''), (Short, CHR ''t'', ''cts.out''), (Short, CHR ''s'', ''sca.out'')]"

definition read_stats :: "BBLID \<Rightarrow> u64 \<Rightarrow> COST \<Rightarrow> ThreadRunStats" where
  "read_stats i h t = (demo_stats i h t)\<lparr>dirty := True\<rparr>"

lemma run_lines:
  assumes "ls \<in> {run_cpu, run_pim}"
  shows "lines_of (run_stats_text ls) = [HORIZONTAL_LINE, ''Thread 0'', ''BBLID Time''] @ ls"
  unfolding run_stats_text_def
proof (rule lines_of_concat)
  show "\<forall>l \<in> set ([HORIZONTAL_LINE, ''Thread 0'', ''BBLID Time''] @ ls). newline \<notin> set l"
    using texts_lines(3) assms by (auto simp: newline_def run_cpu_def run_pim_def)
qed

lemma run_tid: "title_tid ''Thread 0'' t = 0"
  by (simp add: title_tid_def ext_tok_def ext_int_def is_space_def scan_num_def scan_sign_def skip_0x_def is_digit_def
      digit_val_def digits_value_def)

lemma run_parse:
  "parse_stats ''0 1000000 4000 100 1 1'' = \<lparr>bblid = 0, bblhash = (1, 1), elapsed_time = 1000000, instruction_count = 4000, memory_access = 100\<rparr>"
  "parse_stats ''1 3000000 4000 100 2 2'' = \<lparr>bblid = 1, bblhash = (2, 2), elapsed_time = 3000000, instruction_count = 4000, memory_access = 100\<rparr>"
  "parse_stats ''0 2000000 4000 100 1 1'' = \<lparr>bblid = 0, bblhash = (1, 1), elapsed_time = 2000000, instruction_count = 4000, memory_access = 100\<rparr>"
  "parse_stats ''1 1000000 4000 100 2 2'' = \<lparr>bblid = 1, bblhash = (2, 2), elapsed_time = 1000000, instruction_count = 4000, memory_access = 100\<rparr>"
  by (simp_all add: parse_stats_def new_RunStats_def ext_int_def ext_real_def ext_u64_def scan_num_def scan_sign_def skip_0x_def
      scan_real_def is_space_def is_digit_def digit_val_def digits_value_def)

lemma run_plain: "l \<in> set run_cpu \<union> set run_pim \<Longrightarrow> \<not> contains l HORIZONTAL_LINE"
  by (auto simp: run_cpu_def run_pim_def intro!: no_separator)

lemma run_ParseStats:
  "ParseStats (run_stats_text run_cpu) [] = Some [((1, 1), read_stats 0 1 1000000), ((2, 2), read_stats 1 2 3000000)]"
  "ParseStats (run_stats_text run_pim) [] = Some [((1, 1), read_stats 0 1 2000000), ((2, 2), read_stats 1 2 1000000)]"
proof -
  have plain: "\<not> contains ''0 1000000 4000 100 1 1'' HORIZONTAL_LINE" "\<not> contains ''1 3000000 4000 100 2 2'' HORIZONTAL_LINE"
    "\<not> contains ''0 2000000 4000 100 1 1'' HORIZONTAL_LINE" "\<not> contains ''1 1000000 4000 100 2 2'' HORIZONTAL_LINE"
    using run_plain by (simp_all add: run_cpu_def run_pim_def)
  show "ParseStats (run_stats_text run_cpu) [] = Some [((1, 1), read_stats 0 1 1000000), ((2, 2), read_stats 1 2 3000000)]"
    using run_lines [of run_cpu] plain
    by (simp add: ParseStats_def run_cpu_def contains_self run_tid run_parse add_stats_def new_ThreadRunStats_def set_thread_time_def
        vec_grow_def vec_set_def RunStats.defs read_stats_def demo_stats_def)
  show "ParseStats (run_stats_text run_pim) [] = Some [((1, 1), read_stats 0 1 2000000), ((2, 2), read_stats 1 2 1000000)]"
    using run_lines [of run_pim] plain
    by (simp add: ParseStats_def run_pim_def contains_self run_tid run_parse add_stats_def new_ThreadRunStats_def set_thread_time_def
        vec_grow_def vec_set_def RunStats.defs read_stats_def demo_stats_def)
qed

lemma run_cts: "parse_decisions cts_value (''1 1 CPU'' @ [newline]) [] = Some [((1, 1), CPU)]"
proof -
  have "lines_of (''1 1 CPU'' @ [newline]) = [''1 1 CPU'']" by (simp add: newline_def)
  moreover have "parse_keyed ''1 1 CPU'' = ((1, 1), ''CPU'')"
    by (simp add: parse_keyed_def parse_uuid_def ext_u64_def ext_tok_def scan_num_def scan_sign_def skip_0x_def is_space_def
        is_digit_def digit_val_def digits_value_def)
  ultimately show ?thesis by (simp add: parse_decisions_def cts_value_def)
qed

definition run_trie_data :: "BBLID DataReuse" where
  "run_trie_data = \<lparr>tries = [own_root \<mapsto> demo_trie], leaves = [(own_root, [0, 1, 0]), (own_root, [0, 1, 1])]\<rparr>"

lemma run_segments: "insert_segs own_root (read_segs [(0, 100, [0, 1]), (1, 1, [0, 1])]) new_DataReuse = Some run_trie_data"
  by (simp add: insert_segs_def read_segs_def read_seg_def UpdateTrie_def new_DataReuse_def new_node_def run_trie_data_def demo_trie_def
      own_root_def seg_size_def)

definition run_rows :: SwitchCountList where
  "run_rows = [\<lparr>row_fromidx = 0, toidxvec = [(1, 10)]\<rparr>, \<lparr>row_fromidx = 1, toidxvec = [(0, 5)]\<rparr>]"

definition run_read :: CostSolver where
  "run_read = set_costs (1 / 100) (empty_solver
     \<lparr>ctsDecision := [((1, 1), CPU)],
      hash2stats_CPU := [((1, 1), read_stats 0 1 1000000), ((2, 2), read_stats 1 2 3000000)],
      hash2stats_PIM := [((1, 1), read_stats 0 1 2000000), ((2, 2), read_stats 1 2 1000000)],
      interBB_CL_DM := [((0, 0), 100), ((0, 1), 102)], interBB_REG_DM := [((0, 1), 15)],
      bbl_data_reuse := run_trie_data, bbl_switch_count := run_rows\<rparr>)"

lemma run_ParseReuse:
  assumes "bbl_data_reuse S = new_DataReuse" "bbl_switch_count S = []" "interBB_CL_DM S = []" "interBB_REG_DM S = []"
  shows "ParseReuse run_reuse S = Some (S\<lparr>interBB_CL_DM := [((0, 0), 100), ((0, 1), 102)], bbl_data_reuse := run_trie_data,
    interBB_REG_DM := [((0, 1), 15)], bbl_switch_count := run_rows\<rparr>)"
proof -
  have rows: "RowInsert 0 [(1, 10)] [] = Some (take 1 run_rows)" "RowInsert 1 [(0, 5)] (take 1 run_rows) = Some run_rows"
    by (simp_all add: RowInsert_def vec_set_def run_rows_def numeral_2_eq_2)
  have "List_Sort run_rows = run_rows" by (simp add: List_Sort_def Row_Sort_def run_rows_def)
  moreover have "fold (\<lambda>(h, c, ids). add_moves (moves h ids) (real c)) [(0, 100, [0, 1]), (1, 1, [0, 1])] [] = [((0, 0), 100), ((0, 1), 102)]"
    by (simp add: moves_def add_moves_def bb_pair_def omap_add_def)
  moreover have "fold (\<lambda>(i, vec). add_row i vec) [(0, [(1, 10)]), (1, [(0, 5)])] [] = [((0, 1), 15)]"
    by (simp add: add_row_def bb_pair_def omap_add_def)
  ultimately show ?thesis
    using ParseReuse_text [of "[(0, 100, [0, 1]), (1, 1, [0, 1])]" "[(0, [(1, 10)]), (1, [(0, 5)])]" 0 0 S] rows run_segments assms
    by (simp add: run_reuse_def seg_line_ok_def row_line_ok_def id32_def)
qed

lemma run_initialize:
  "initialize (1 / 100) (run_files ''sca.out'') (run_files ''cts.out'') (run_files ''cpu.out'') (run_files ''pim.out'')
    (run_files ''reuse.out'') empty_solver = Some run_read"
  using run_ParseStats run_cts
  by (simp add: initialize_def run_files_def ParseDecision_def ParseSCADecision_def stream_text_def run_ParseReuse empty_solver_def run_read_def
      parse_decisions_def [of sca_value])

definition run_solver :: CostSolver where
  "run_solver = run_read\<lparr>sorted_CPU := [read_stats 0 1 1000000, read_stats 1 2 3000000],
     sorted_PIM := [read_stats 0 1 2000000, read_stats 1 2 1000000], stale := False\<rparr>"

lemma read_time [simp]: "max_time (read_stats i h t) = Some t"
  by (simp add: max_time_fresh fresh_threads_def read_stats_def demo_stats_def)

lemma read_hash [simp]: "bblhash (read_stats i h t) = (h, h)" "bblid (read_stats i h t) = i" "(read_stats i h t)\<lparr>bblid := i\<rparr> = read_stats i h t"
  by (simp_all add: read_stats_def demo_stats_def)

lemma run_aligned: "getBBLSortedStats run_read = Some run_solver"
proof -
  have "SortStatsMap (hash2stats_CPU run_read) = [read_stats 0 1 1000000, read_stats 1 2 3000000]"
    by (simp add: SortStatsMap_def run_read_def set_costs_def)
  then show ?thesis
    by (simp add: getBBLSortedStats_def align_step_def)
      (simp add: run_read_def set_costs_def empty_solver_def run_solver_def Let_def)
qed

lemma run_fields [simp]:
  "sorted_CPU run_solver = [read_stats 0 1 1000000, read_stats 1 2 3000000]"
  "sorted_PIM run_solver = [read_stats 0 1 2000000, read_stats 1 2 1000000]"
  "bbl_switch_count run_solver = run_rows" "bbl_data_reuse run_solver = run_trie_data" "block_count run_solver = 2"
  "flush_cost run_solver = [60, 30]" "fetch_cost run_solver = [60, 30]" "switch_cost run_solver = [800, 800]"
  "batch_threshold run_solver = 1 / 1000" "\<not> stale run_solver" "ctsDecision run_solver = [((1, 1), CPU)]"
  by (simp_all add: run_solver_def run_read_def set_costs_def block_count_def)

lemma run_cost:
  "d \<in> {[CPU, CPU], [CPU, PIM], [PIM, CPU], [PIM, PIM]} \<Longrightarrow> cost_spec run_solver d demo_trie run_rows < FLT_MAX"
  by (auto simp: cost_spec_def reuse_spec_def switch_spec_def elapsed_spec_def demo_trie_def seg_cost_def
      uniform_def row_cost_spec_def crosses_def time_of_def lessThan_Suc run_rows_def FLT_MAX_def)

lemma run_solvable: "solvable run_solver demo_trie [[0, 1, 0], [0, 1, 1]]"
proof -
  have "elapsed_min run_solver = Some 3000000" "SingleSegMaxReuseCost run_solver = Some 90"
    by (simp_all add: elapsed_min_def ElapsedTime_site_def SingleSegMaxReuseCost_def)
  moreover have "the (leaf_at demo_trie [0, 1, 1]) = 1" by (simp add: demo_trie_def)
  ultimately have low: "\<forall>em rm. elapsed_min run_solver = Some em \<longrightarrow> SingleSegMaxReuseCost run_solver = Some rm \<longrightarrow>
      (\<exists>p \<in> set [[0, 1, 0], [0, 1, 1]]. unimportant run_solver rm em (the (leaf_at demo_trie p)))"
    by (simp add: unimportant_def)
  have "own_ok run_solver demo_trie [[0, 1, 0], [0, 1, 1]]"
    using demo_trie_ok by (simp add: own_ok_def) (simp add: demo_trie_def)
  moreover have "\<forall>row \<in> set run_rows. row_ok 2 row" using demo_rows_ok by (simp add: run_rows_def)
  moreover have "moves_ok run_solver"
    by (simp add: moves_ok_def interBBTotalCost_def omap_add_def) (simp add: run_solver_def run_read_def set_costs_def omap_add_def)
  moreover have "\<forall>d. complete d \<longrightarrow> length d = 2 \<longrightarrow> cost_spec run_solver d demo_trie run_rows < FLT_MAX"
    using demo_decisions run_cost by blast
  ultimately show ?thesis
    unfolding solvable_def using low by (simp add: run_trie_data_def) (simp add: run_rows_def)
qed

lemma run_options_ok: "list_all spelled_ok run_options" "\<forall>c \<in> fst ` set file_options. last_value run_options c [] \<noteq> []"
  by (simp_all add: run_options_def spelled_ok_def file_options_def)

definition run_start :: bestSCAResult where
  "run_start = \<lparr>sca_total_time = 0, sca_elapsed_time = (0, 0), sca_reuse_cost = 0, sca_switch_cost = 0,
     sca_mpki_threshold = 0, sca_parallelism_threshold = 0, instr_threshold_percentage = 0\<rparr>"

end
