(* ===== verification/VTune_Calls.thy ===== *)
theory VTune_Calls
  imports LLVM_Inject "HOL-Library.AList"
begin

text \<open>
  What the annotations for VTune do at run time (\<open>LLVMAnalysis/PIMProfAnnotation.cpp\<close>). The global
  variables are the record \<open>VTune\<close>, the calls of the ITT library are collected in a list. The
  library is a parameter: \<open>create\<close> is the pointer \<open>__itt_domain_create\<close> returns for a name, \<open>None\<close>
  for the null pointer. Writing the flags through a null pointer has no defined result; the
  messages are left out. The property: a call is passed on unless it repeats the call before it.
\<close>

subsection \<open>The annotation\<close>

datatype 'd IttCall = FrameBegin "'d option" | FrameEnd "'d option" | Resume | Pause | Detach

record 'd VTune =
  prev_mode :: int
  prev_uuid_hi :: u64
  prev_uuid_lo :: u64
  PIMProfDomain :: "(UUID \<times> 'd option) list"
  flagged :: "'d list"
  itt_calls :: "'d IttCall list"

definition new_VTune :: "'d VTune" where
  "new_VTune = \<lparr>prev_mode = - 1, prev_uuid_hi = - 1, prev_uuid_lo = - 1, PIMProfDomain = [], flagged = [], itt_calls = []\<rparr>"

definition domain_name :: "u64 \<Rightarrow> u64 \<Rightarrow> string" where
  "domain_name uuid_hi uuid_lo = ''PIMProf.'' @ show_nat (unat uuid_hi) @ ''.'' @ show_nat (unat uuid_lo)"

definition remember :: "int \<Rightarrow> u64 \<Rightarrow> u64 \<Rightarrow> 'd VTune \<Rightarrow> 'd VTune" where
  "remember mode uuid_hi uuid_lo st = st\<lparr>prev_mode := mode, prev_uuid_hi := uuid_hi, prev_uuid_lo := uuid_lo\<rparr>"

definition emit :: "'d IttCall \<Rightarrow> 'd VTune \<Rightarrow> 'd VTune" where
  "emit c st = st\<lparr>itt_calls := itt_calls st @ [c]\<rparr>"

definition mode_int :: "VTUNE_MODE \<Rightarrow> int" where "mode_int m = uint (vtune_code m)"

definition PIMProfVTuneAnnotation :: "(string \<Rightarrow> 'd option) \<Rightarrow> int \<Rightarrow> u64 \<Rightarrow> u64 \<Rightarrow> 'd VTune \<Rightarrow> 'd VTune option" where
  "PIMProfVTuneAnnotation create mode uuid_hi uuid_lo st =
     (if prev_mode st = mode \<and> prev_uuid_hi st = uuid_hi \<and> prev_uuid_lo st = uuid_lo then Some st
      else if mode = mode_int VTUNE_MODE_FRAME_BEGIN then do {
        let st = remember mode uuid_hi uuid_lo st;
        let bblhash = (uuid_hi, uuid_lo);
        (p, st) \<leftarrow> (case map_of (PIMProfDomain st) bblhash of
            Some p \<Rightarrow> Some (p, st)
          | None \<Rightarrow> do {
              let temp = create (domain_name uuid_hi uuid_lo);
              d \<leftarrow> temp;
              Some (temp, st\<lparr>PIMProfDomain := AList.update bblhash temp (PIMProfDomain st), flagged := d # flagged st\<rparr>) });
        Some (emit (FrameBegin p) st) }
      else if mode = mode_int VTUNE_MODE_FRAME_END then do {
        let st = remember mode uuid_hi uuid_lo st;
        let bblhash = (uuid_hi, uuid_lo);
        let (p, st) = (case map_of (PIMProfDomain st) bblhash of
            Some p \<Rightarrow> (p, st)
          | None \<Rightarrow> (let temp = create (domain_name uuid_hi uuid_lo)
                     in (temp, st\<lparr>PIMProfDomain := AList.update bblhash temp (PIMProfDomain st)\<rparr>)));
        Some (emit (FrameEnd p) st) }
      else if mode = mode_int VTUNE_MODE_RESUME then Some (emit Resume (remember mode uuid_hi uuid_lo st))
      else if mode = mode_int VTUNE_MODE_PAUSE then Some (emit Pause (remember mode uuid_hi uuid_lo st))
      else if mode = mode_int VTUNE_MODE_DETACH then Some (emit Detach (remember mode uuid_hi uuid_lo st))
      else Some st)"

type_synonym annotation = "int \<times> u64 \<times> u64"

definition vtune_run :: "(string \<Rightarrow> 'd option) \<Rightarrow> annotation list \<Rightarrow> 'd VTune \<Rightarrow> 'd VTune option" where
  "vtune_run create calls st = foldM (\<lambda>(mode, hi, lo) st. PIMProfVTuneAnnotation create mode hi lo st) calls st"

subsection \<open>The specification\<close>

definition passed_mode :: "int \<Rightarrow> bool" where
  "passed_mode mode \<longleftrightarrow> mode \<in> mode_int ` {VTUNE_MODE_RESUME, VTUNE_MODE_PAUSE, VTUNE_MODE_DETACH, VTUNE_MODE_FRAME_BEGIN, VTUNE_MODE_FRAME_END}"

definition itt_of :: "(string \<Rightarrow> 'd option) \<Rightarrow> annotation \<Rightarrow> 'd IttCall" where
  "itt_of create a = (case a of (mode, hi, lo) \<Rightarrow>
     let d = create (domain_name hi lo)
     in if mode = mode_int VTUNE_MODE_FRAME_BEGIN then FrameBegin d
        else if mode = mode_int VTUNE_MODE_FRAME_END then FrameEnd d
        else if mode = mode_int VTUNE_MODE_RESUME then Resume
        else if mode = mode_int VTUNE_MODE_PAUSE then Pause else Detach)"

definition prev_call :: "'d VTune \<Rightarrow> annotation" where
  "prev_call st = (prev_mode st, prev_uuid_hi st, prev_uuid_lo st)"

text \<open>The domains in the map are those the library returned for the name of their block.\<close>

definition domains_ok :: "(string \<Rightarrow> 'd option) \<Rightarrow> 'd VTune \<Rightarrow> bool" where
  "domains_ok create st \<longleftrightarrow> (\<forall>hi lo p. map_of (PIMProfDomain st) (hi, lo) = Some p \<longrightarrow> p = create (domain_name hi lo))"

definition passed :: "annotation \<Rightarrow> annotation list \<Rightarrow> annotation list" where
  "passed prev calls = tl (remdups_adj (prev # filter (\<lambda>(mode, _). passed_mode mode) calls))"

subsection \<open>Correctness\<close>

lemma mode_ints [simp]:
  "mode_int VTUNE_MODE_CREATE_DOMAIN = 0" "mode_int VTUNE_MODE_RESUME = 1" "mode_int VTUNE_MODE_PAUSE = 2"
  "mode_int VTUNE_MODE_DETACH = 3" "mode_int VTUNE_MODE_FRAME_BEGIN = 4" "mode_int VTUNE_MODE_FRAME_END = 5"
  by (simp_all add: mode_int_def)

lemma passed_mode_iff: "passed_mode mode \<longleftrightarrow> mode \<in> {1, 2, 3, 4, 5}"
  by (auto simp: passed_mode_def)

text \<open>A call that is passed on, one that repeats the call before it, and one of another mode.\<close>

lemma annotation_passed:
  assumes "domains_ok create st" and "passed_mode mode" and "(mode, hi, lo) \<noteq> prev_call st"
    and "mode = mode_int VTUNE_MODE_FRAME_BEGIN \<Longrightarrow> create (domain_name hi lo) \<noteq> None"
  shows "\<exists>st'. PIMProfVTuneAnnotation create mode hi lo st = Some st' \<and> prev_call st' = (mode, hi, lo) \<and>
    itt_calls st' = itt_calls st @ [itt_of create (mode, hi, lo)] \<and> domains_ok create st'"
proof -
  have new: "\<not> (prev_mode st = mode \<and> prev_uuid_hi st = hi \<and> prev_uuid_lo st = lo)"
    using assms(3) by (auto simp: prev_call_def)
  have dom: "map_of (PIMProfDomain st) (hi, lo) \<in> {None, Some (create (domain_name hi lo))}"
    using assms(1) by (cases "map_of (PIMProfDomain st) (hi, lo)") (simp_all add: domains_ok_def)
  have grown: "domains_ok create (remember mode hi lo st\<lparr>PIMProfDomain := AList.update (hi, lo) (create (domain_name hi lo)) (PIMProfDomain st), flagged := fl, itt_calls := cs\<rparr>)" for cs fl
    using assms(1) by (simp add: domains_ok_def update_conv')
  have same: "domains_ok create (remember mode hi lo st\<lparr>itt_calls := cs\<rparr>)" for cs
    using assms(1) by (simp add: domains_ok_def remember_def)
  consider "mode = 4" | "mode = 5" | "mode \<in> {1, 2, 3}" using assms(2) by (auto simp: passed_mode_iff)
  then show ?thesis
  proof cases
    case 1
    then obtain d where "create (domain_name hi lo) = Some d" using assms(4) by auto
    then show ?thesis
      using new 1 dom grown [of _ "d # flagged st"] same
      by (auto simp: PIMProfVTuneAnnotation_def Let_def remember_def emit_def prev_call_def itt_of_def)
  next
    case 2
    then show ?thesis
      using new dom grown [of _ "flagged st"] same
      by (auto simp: PIMProfVTuneAnnotation_def Let_def remember_def emit_def prev_call_def itt_of_def)
  next
    case 3
    then show ?thesis
      using new same
      by (auto simp: PIMProfVTuneAnnotation_def remember_def emit_def prev_call_def itt_of_def)
  qed
qed

lemma annotation_ignored:
  "(mode, hi, lo) = prev_call st \<or> \<not> passed_mode mode \<Longrightarrow> PIMProfVTuneAnnotation create mode hi lo st = Some st"
  by (auto simp: PIMProfVTuneAnnotation_def prev_call_def passed_mode_iff)

theorem vtune_run_passes:
  assumes "domains_ok create st" and "\<forall>(mode, hi, lo) \<in> set calls. mode = mode_int VTUNE_MODE_FRAME_BEGIN \<longrightarrow> create (domain_name hi lo) \<noteq> None"
  shows "\<exists>st'. vtune_run create calls st = Some st' \<and> domains_ok create st' \<and>
    itt_calls st' = itt_calls st @ map (itt_of create) (passed (prev_call st) calls)"
  using assms
proof (induction calls arbitrary: st)
  case Nil
  then show ?case by (simp add: vtune_run_def passed_def)
next
  case (Cons a calls)
  obtain mode hi lo where a: "a = (mode, hi, lo)" by (cases a) simp
  show ?case
  proof (cases "a = prev_call st \<or> \<not> passed_mode mode")
    case True
    then have "PIMProfVTuneAnnotation create mode hi lo st = Some st" by (intro annotation_ignored) (simp add: a)
    moreover have "passed (prev_call st) (a # calls) = passed (prev_call st) calls" using True a by (auto simp: passed_def)
    ultimately show ?thesis using Cons a by (simp add: vtune_run_def)
  next
    case False
    have "\<exists>st'. PIMProfVTuneAnnotation create mode hi lo st = Some st' \<and> prev_call st' = (mode, hi, lo) \<and>
        itt_calls st' = itt_calls st @ [itt_of create (mode, hi, lo)] \<and> domains_ok create st'"
      by (rule annotation_passed) (use Cons.prems False a in auto)
    then obtain st' where st': "PIMProfVTuneAnnotation create mode hi lo st = Some st'" "prev_call st' = a"
        "itt_calls st' = itt_calls st @ [itt_of create a]" "domains_ok create st'" using a by blast
    have "passed (prev_call st) (a # calls) = a # passed a calls"
      using False a by (auto simp: passed_def)
    then show ?thesis using Cons.IH [OF st'(4)] Cons.prems(2) a st' by (simp add: vtune_run_def)
  qed
qed

text \<open>Different blocks have domains of different names.\<close>

lemma show_nat_inj: "show_nat m = show_nat n \<longleftrightarrow> m = n"
  using show_nat_value by metis

lemma domain_name_inj: "domain_name hi lo = domain_name hi' lo' \<longleftrightarrow> hi = hi' \<and> lo = lo'"
proof
  have dot: "\<not> is_digit 10 (CHR ''.'')" by (simp add: is_digit_def digit_val_def)
  assume eq: "domain_name hi lo = domain_name hi' lo'"
  have parts: "takeWhile (is_digit 10) (show_nat n @ CHR ''.'' # s) = show_nat n"
    "dropWhile (is_digit 10) (show_nat n @ CHR ''.'' # s) = CHR ''.'' # s" for n s
    using scan_digits [of "CHR ''.'' # s" n] dot by simp_all
  let ?h = "show_nat (unat hi) @ CHR ''.'' # show_nat (unat lo)" and ?h' = "show_nat (unat hi') @ CHR ''.'' # show_nat (unat lo')"
  have same: "?h = ?h'" using eq by (simp add: domain_name_def)
  then have "show_nat (unat hi) = show_nat (unat hi')" using parts(1) by metis
  moreover have "show_nat (unat lo) = show_nat (unat lo')" using same parts(2) by (metis list.inject)
  ultimately show "hi = hi' \<and> lo = lo'" by (simp add: show_nat_inj word_unat_eq_iff)
qed simp

text \<open>Nested activations of one block: only the outermost begin and the innermost end come through.\<close>

lemma remdups_adj_replicates:
  "a \<noteq> b \<Longrightarrow> p \<noteq> a \<Longrightarrow> tl (remdups_adj (p # replicate (Suc n) a @ replicate (Suc m) b)) = [a, b]"
proof -
  assume "a \<noteq> b" "p \<noteq> a"
  moreover have "remdups_adj (replicate (Suc m) b) = [b]" by (induction m) simp_all
  moreover have "remdups_adj (replicate (Suc n) a @ replicate (Suc m) b) = [a, b]"
    using \<open>a \<noteq> b\<close> calculation by (induction n) simp_all
  ultimately show ?thesis by (simp add: remdups_adj_Cons)
qed

lemma recursion_passed:
  fixes hi lo :: u64
  assumes "prev \<noteq> (mode_int VTUNE_MODE_FRAME_BEGIN, hi, lo)"
  shows "passed prev (replicate (Suc n) (mode_int VTUNE_MODE_FRAME_BEGIN, hi, lo) @ replicate (Suc n) (mode_int VTUNE_MODE_FRAME_END, hi, lo)) =
    [(mode_int VTUNE_MODE_FRAME_BEGIN, hi, lo), (mode_int VTUNE_MODE_FRAME_END, hi, lo)]"
proof -
  have "filter (\<lambda>(mode, _). passed_mode mode) (replicate (Suc n) (4 :: int, hi, lo) @ replicate (Suc n) (5, hi, lo)) =
      replicate (Suc n) (4, hi, lo) @ replicate (Suc n) (5, hi, lo)"
    by (simp add: passed_mode_iff)
  then show ?thesis using assms remdups_adj_replicates [of "(4, hi, lo)" "(5, hi, lo)" prev n n] by (simp add: passed_def)
qed

end
