(* ===== verification/Trie_Print.thy ===== *)
theory Trie_Print
  imports Reuse_Roundtrip
begin

text \<open>
  The trie as a picture and as a table (\<open>PrintDotGraph\<close>, \<open>PrintBBLOccurrence\<close> of
  \<open>PIMProfSolver/DataReuse.h\<close>, \<open>PrintAllDotGraph\<close>, \<open>PrintAllBBLOccurrence\<close> of \<open>Stats.h\<close>). The graph
  numbers the nodes in preorder; the specification lists the nodes with their paths in that order and
  finds the parent of a vertex by its path. An \<open>int\<close> counter of nodes that would overflow is \<open>None\<close>.
\<close>

subsection \<open>The graph of the trie\<close>

definition vertex :: "nat \<Rightarrow> string" where
  "vertex i = ''V_'' @ show_nat i"

definition edge_line :: "nat \<Rightarrow> nat \<Rightarrow> string" where
  "edge_line parent num = ''    '' @ vertex parent @ '' -> '' @ vertex num @ '';'' @ [newline]"

definition leaf_line :: "nat \<Rightarrow> BBLID \<Rightarrow> u64 \<Rightarrow> string" where
  "leaf_line num cur n =
     ''    '' @ vertex num @ '' [shape=box, label='' @ [CHR 0x22] @ ''head = '' @ show_int cur @ [newline] @
     '' cnt = '' @ show_nat (unat n) @ [CHR 0x22] @ ''];'' @ [newline]"

definition inner_line :: "nat \<Rightarrow> BBLID \<Rightarrow> string" where
  "inner_line num cur =
     ''    '' @ vertex num @ '' [label='' @ [CHR 0x22] @ show_int cur @ [CHR 0x22] @ ''];'' @ [newline]"

definition next_count :: "nat \<Rightarrow> nat option" where
  "next_count num = (if Suc num < 2 ^ 31 then Some (Suc num) else None)"

fun PrintDotGraphHelper :: "('a \<Rightarrow> BBLID option) \<Rightarrow> 'a TrieNode \<Rightarrow> nat \<Rightarrow> string \<times> nat \<Rightarrow> (string \<times> nat) option" where
  "PrintDotGraphHelper get_id (TrieNode l k n ch) parent (out, num) = do {
     k \<leftarrow> k;
     cur \<leftarrow> get_id k;
     let out = out @ [newline];
     if l then do {
       c \<leftarrow> next_count num;
       Some (out @ leaf_line num cur n @ edge_line parent num, c) }
     else do {
       c \<leftarrow> next_count num;
       foldM (\<lambda>(x, t) st. PrintDotGraphHelper get_id t num st) ch
         (out @ inner_line num cur @ edge_line parent num, c) } }"

definition PrintDotGraph :: "('a \<Rightarrow> BBLID option) \<Rightarrow> 'a DataReuse \<Rightarrow> string option" where
  "PrintDotGraph get_id dr = do {
     root \<leftarrow> tries dr own_root;
     (out, num) \<leftarrow> foldM (\<lambda>(x, t) st. PrintDotGraphHelper get_id t 0 st) (node_children root)
       (''digraph trie {'' @ [newline] @ ''    V_0'' @ '' [label='' @ [CHR 0x22] @ ''root'' @ [CHR 0x22] @ ''];'' @ [newline], 1);
     Some (out @ ''}'' @ [newline]) }"

definition PrintAllDotGraph :: "int \<Rightarrow> ('a \<Rightarrow> BBLID option) \<Rightarrow> 'a DataReuse \<Rightarrow> string option" where
  "PrintAllDotGraph tid get_id dr = do {
     s \<leftarrow> PrintDotGraph get_id dr;
     Some (HORIZONTAL_LINE @ [newline] @ ''DotGraph - Thread '' @ show_int tid @ [newline] @ s) }"

subsection \<open>The nodes in preorder\<close>

text \<open>Every node with the path to it, parents before children, children in the order of their keys.\<close>

fun preorder :: "'a list \<Rightarrow> 'a TrieNode \<Rightarrow> ('a list \<times> 'a TrieNode) list" where
  "preorder pre (TrieNode l k n ch) =
     (pre, TrieNode l k n ch) # (if l then [] else concat (map (\<lambda>(x, t). preorder (pre @ [x]) t) ch))"

definition below :: "'a list \<Rightarrow> ('a \<times> 'a TrieNode) list \<Rightarrow> ('a list \<times> 'a TrieNode) list" where
  "below pre ch = concat (map (\<lambda>(x, t). preorder (pre @ [x]) t) ch)"

lemma below_simps [simp]:
  "below pre [] = []" "below pre ((x, t) # ch) = preorder (pre @ [x]) t @ below pre ch"
  by (simp_all add: below_def)

lemma preorder_node [simp]:
  "preorder pre (TrieNode l k n ch) = (pre, TrieNode l k n ch) # (if l then [] else below pre ch)"
  by (simp add: below_def)

declare preorder.simps [simp del]

text \<open>The list is the trie: the nodes at their paths, each once.\<close>

lemma mem_below:
  "(q, u) \<in> set (below pre ch) \<longleftrightarrow> (\<exists>x t. (x, t) \<in> set ch \<and> (q, u) \<in> set (preorder (pre @ [x]) t))"
  by (force simp: below_def)

lemma mem_preorder:
  "trie_ok pre t \<Longrightarrow> (q, u) \<in> set (preorder pre t) \<longleftrightarrow> (\<exists>p. q = pre @ p \<and> node_at t p = Some u)"
proof (induction pre t arbitrary: q u rule: preorder.induct)
  case (1 pre l k n ch)
  show ?case
  proof (cases l)
    case True
    with "1.prems" have "node_at (TrieNode l k n ch) p = Some u \<longleftrightarrow> p = [] \<and> u = TrieNode l k n ch" for p
      by (cases p) auto
    with True show ?thesis by auto
  next
    case False
    have "(q, u) \<in> set (preorder (pre @ [x]) t) \<longleftrightarrow> (\<exists>p. q = (pre @ [x]) @ p \<and> node_at t p = Some u)"
      if "(x, t) \<in> set ch" for x t
      using "1.IH" [OF False that] "1.prems" that by auto
    then have *: "(q, u) \<in> set (below pre ch) \<longleftrightarrow>
        (\<exists>x t p. (x, t) \<in> set ch \<and> q = pre @ x # p \<and> node_at t p = Some u)"
      unfolding mem_below by fastforce
    have "(\<exists>p. q = pre @ p \<and> node_at (TrieNode l k n ch) p = Some u) \<longleftrightarrow>
        q = pre \<and> u = TrieNode l k n ch \<or>
        (\<exists>x t p. (x, t) \<in> set ch \<and> q = pre @ x # p \<and> node_at t p = Some u)" (is "(\<exists>p. ?P p) \<longleftrightarrow> ?R")
    proof
      assume "\<exists>p. ?P p"
      then obtain p where "?P p" ..
      with "1.prems" show ?R by (cases p) (auto simp: map_of_in split: option.splits)
    next
      assume ?R
      with "1.prems" show "\<exists>p. ?P p"
        by (auto simp: map_of_in [symmetric] intro: exI [of _ "[]"] exI [of _ "_ # _"])
    qed
    with * False show ?thesis by auto
  qed
qed

lemma distinct_preorder: "trie_ok pre t \<Longrightarrow> distinct (map fst (preorder pre t))"
proof (induction pre t rule: preorder.induct)
  case (1 pre l k n ch)
  have sub: "trie_ok (pre @ [x]) t" if "(x, t) \<in> set ch" for x t using "1.prems" that by auto
  have fst: "\<exists>p. q = pre @ x # p" if "(x, t) \<in> set ch" "q \<in> fst ` set (preorder (pre @ [x]) t)" for x t q
    using mem_preorder [OF sub [OF that(1)]] that(2) by force
  have "distinct (map fst (below pre ch))" if "\<not> l"
  proof -
    have "distinct (map fst ch)" using "1.prems" omap_ok_distinct by auto
    moreover have "\<forall>(x, t) \<in> set ch. distinct (map fst (preorder (pre @ [x]) t))"
      using "1.IH" [OF that] sub by blast
    ultimately show ?thesis using fst
    proof (induction ch)
      case (Cons y ch)
      obtain x t where y: "y = (x, t)" by (cases y)
      have "fst ` set (preorder (pre @ [x]) t) \<inter> fst ` set (below pre ch) = {}"
      proof (rule ccontr)
        assume "\<not> ?thesis"
        then obtain q z u where q: "q \<in> fst ` set (preorder (pre @ [x]) t)" "(z, u) \<in> set ch"
          "q \<in> fst ` set (preorder (pre @ [z]) u)" by (force simp: below_def)
        then obtain p p' where "q = pre @ x # p" "q = pre @ z # p'"
          using Cons.prems(3) [of x t q] Cons.prems(3) [of z u q] y by auto
        with q(2) Cons.prems(1) y show False by (force simp: image_iff)
      qed
      moreover have "distinct (map fst (below pre ch))" 
        using Cons.prems(1,2) Cons.prems(3) [OF list.set_intros(2)] by (intro Cons.IH) auto
      ultimately show ?case using Cons.prems y by auto
    qed simp
  qed
  moreover have "pre \<notin> fst ` set (below pre ch)" using fst by (force simp: below_def)
  ultimately show ?case by auto
qed


subsection \<open>The graph is the trie\<close>

text \<open>The place of a path in the list is the number of its vertex.\<close>

definition place :: "'a list \<Rightarrow> ('a list \<times> 'a TrieNode) list \<Rightarrow> nat" where
  "place p vs = length (takeWhile (\<lambda>v. fst v \<noteq> p) vs)"

definition vertex_text :: "('a \<Rightarrow> BBLID option) \<Rightarrow> ('a list \<times> 'a TrieNode) list \<Rightarrow> nat \<Rightarrow> string" where
  "vertex_text get_id vs i =
     (let (p, node) = vs ! i; cur = the (get_id (last p))
      in newline # (if isLeaf node then leaf_line i cur (node_count node) else inner_line i cur) @
         edge_line (place (butlast p) vs) i)"

definition vertices_text :: "('a \<Rightarrow> BBLID option) \<Rightarrow> ('a list \<times> 'a TrieNode) list \<Rightarrow> nat \<Rightarrow> nat \<Rightarrow> string" where
  "vertices_text get_id vs i j = concat (map (vertex_text get_id vs) [i..<j])"

lemma place_nth:
  assumes "distinct (map fst vs)" and "i < length vs"
  shows "place (fst (vs ! i)) vs = i"
proof -
  have "takeWhile (\<lambda>v. fst v \<noteq> fst (vs ! i)) vs = take i vs"
    using assms by (intro takeWhile_eq_take_P_nth) (auto simp: distinct_conv_nth)
  with assms(2) show ?thesis by (simp add: place_def)
qed

lemma vertices_text_split:
  "i \<le> j \<Longrightarrow> j \<le> k \<Longrightarrow> vertices_text get_id vs i k = vertices_text get_id vs i j @ vertices_text get_id vs j k"
  using upt_add_eq_append [of i j "k - j"] by (simp add: vertices_text_def)

lemma vertices_text_first:
  "i < k \<Longrightarrow> vertices_text get_id vs i k = vertex_text get_id vs i @ vertices_text get_id vs (Suc i) k"
  by (simp add: vertices_text_def upt_conv_Cons)

text \<open>What the helper writes for a subtree whose nodes stand in the list from \<open>length xs\<close> on.\<close>

definition draws :: "('a \<Rightarrow> BBLID option) \<Rightarrow> ('a list \<times> 'a TrieNode) list \<Rightarrow> 'a list \<Rightarrow> 'a TrieNode \<Rightarrow> bool" where
  "draws get_id vs pre t \<longleftrightarrow> (\<forall>xs ys out. vs = xs @ preorder pre t @ ys \<longrightarrow>
     PrintDotGraphHelper get_id t (place (butlast pre) vs) (out, length xs) =
       Some (out @ vertices_text get_id vs (length xs) (length xs + length (preorder pre t)),
             length xs + length (preorder pre t)))"

lemma draw_children:
  assumes "\<And>x t. (x, t) \<in> set ch \<Longrightarrow> draws get_id vs (pre @ [x]) t" and "vs = xs @ below pre ch @ ys"
  shows "foldM (\<lambda>(x, t) st. PrintDotGraphHelper get_id t (place pre vs) st) ch (out, length xs) =
    Some (out @ vertices_text get_id vs (length xs) (length xs + length (below pre ch)),
          length xs + length (below pre ch))"
  using assms
proof (induction ch arbitrary: xs out)
  case (Cons y ch)
  obtain x t where y: "y = (x, t)" by (cases y)
  let ?n = "length (preorder (pre @ [x]) t)"
  have "PrintDotGraphHelper get_id t (place pre vs) (out, length xs) =
      Some (out @ vertices_text get_id vs (length xs) (length xs + ?n), length (xs @ preorder (pre @ [x]) t))"
    using Cons.prems(1) [of x t] Cons.prems(2) y by (simp add: draws_def)
  moreover note Cons.IH [of "xs @ preorder (pre @ [x]) t" "out @ vertices_text get_id vs (length xs) (length xs + ?n)"]
  ultimately show ?case
    using Cons.prems y
    by (simp add: vertices_text_split [of "length xs" "length xs + ?n" "length xs + (?n + length (below pre ch))"] add.assoc)
qed (simp add: vertices_text_def)


lemma draws_subtree:
  assumes "distinct (map fst vs)" and "length vs < 2 ^ 31"
  shows "trie_ok pre t \<Longrightarrow> node_cur t = Some (last pre) \<Longrightarrow>
    (\<And>p u. (p, u) \<in> set (preorder pre t) \<Longrightarrow> get_id (last p) \<noteq> None) \<Longrightarrow> draws get_id vs pre t"
proof (induction pre t rule: preorder.induct)
  case (1 pre l k n ch)
  obtain cur where cur: "get_id (last pre) = Some cur" using "1.prems"(3) [of pre] by auto
  have k: "k = Some (last pre)" using "1.prems"(2) by simp
  show ?case
    unfolding draws_def
  proof (intro allI impI)
    fix xs ys out
    assume vs: "vs = xs @ preorder pre (TrieNode l k n ch) @ ys"
    let ?i = "length xs"
    have small: "Suc ?i < 2 ^ 31" using assms(2) vs by auto
    have i: "vs ! ?i = (pre, TrieNode l k n ch)" "?i < length vs" using vs by auto
    have at: "place pre vs = ?i" using place_nth [OF assms(1) i(2)] i(1) by simp
    show "PrintDotGraphHelper get_id (TrieNode l k n ch) (place (butlast pre) vs) (out, ?i) =
      Some (out @ vertices_text get_id vs ?i (?i + length (preorder pre (TrieNode l k n ch))),
        ?i + length (preorder pre (TrieNode l k n ch)))"
    proof (cases l)
      case True
      then show ?thesis
        using k cur small i by (simp add: next_count_def vertices_text_def vertex_text_def)
    next
      case False
      have "draws get_id vs (pre @ [x]) t" if "(x, t) \<in> set ch" for x t
      proof (rule "1.IH" [OF False that])
        show "trie_ok (pre @ [x]) t" "node_cur t = Some (last (pre @ [x]))" using "1.prems"(1) that by auto
        show "get_id (last p) \<noteq> None" if "(p, u) \<in> set (preorder (pre @ [x]) t)" for p u
          using "1.prems"(3) [of p u] that \<open>(x, t) \<in> set ch\<close> False by (auto simp: mem_below)
      qed simp
      from draw_children [OF this, of ch "xs @ [(pre, TrieNode l k n ch)]" ys] vs False
      have "foldM (\<lambda>(x, t) st. PrintDotGraphHelper get_id t ?i st) ch (out', Suc ?i) =
          Some (out' @ vertices_text get_id vs (Suc ?i) (Suc ?i + length (below pre ch)), Suc ?i + length (below pre ch))"
        for out' using at by simp
      then show ?thesis
        using False k cur small i(1)
        by (simp add: next_count_def vertices_text_first vertex_text_def Let_def del: upt_Suc)
    qed
  qed
qed

text \<open>
  The graph: the vertex of the root, then one vertex per node in preorder, each with an edge from
  the vertex of its parent.
\<close>

lemma PrintDotGraph_spec:
  assumes "tries dr own_root = Some t" and "trie_ok [] t" and "\<not> isLeaf t"
    and "length (preorder [] t) < 2 ^ 31"
    and "\<And>p u. (p, u) \<in> set (preorder [] t) \<Longrightarrow> p \<noteq> [] \<Longrightarrow> get_id (last p) \<noteq> None"
  shows "PrintDotGraph get_id dr =
    Some (''digraph trie {'' @ [newline] @ ''    V_0 [label='' @ [CHR 0x22] @ ''root'' @ [CHR 0x22] @ ''];'' @ [newline] @
      vertices_text get_id (preorder [] t) 1 (length (preorder [] t)) @ ''}'' @ [newline])"
proof -
  obtain k n ch where t: "t = TrieNode False k n ch" using assms(3) by (cases t) auto
  let ?vs = "preorder [] t"
  have "draws get_id ?vs ([] @ [x]) u" if u: "(x, u) \<in> set ch" for x u
  proof (rule draws_subtree [OF distinct_preorder [OF assms(2)] assms(4)])
    show "trie_ok ([] @ [x]) u" "node_cur u = Some (last ([] @ [x]))" using assms(2) u t by auto
    show "get_id (last p) \<noteq> None" if "(p, w) \<in> set (preorder ([] @ [x]) u)" for p w
    proof (rule assms(5))
      show "(p, w) \<in> set ?vs" using that u t by (auto simp: mem_below)
      show "p \<noteq> []" using that mem_preorder [OF \<open>trie_ok ([] @ [x]) u\<close>] by auto
    qed
  qed
  from draw_children [OF this, of ch "[([], t)]" "[]"] have
    "foldM (\<lambda>(x, t) st. PrintDotGraphHelper get_id t (place [] ?vs) st) ch (out, 1) =
      Some (out @ vertices_text get_id ?vs 1 (1 + length (below [] ch)), 1 + length (below [] ch))" for out
    using t by simp
  then show ?thesis using assms(1) t by (simp add: PrintDotGraph_def place_def)
qed


lemma vertex_parent:
  assumes "trie_ok [] t" and "0 < i" and "i < length (preorder [] t)" and "preorder [] t ! i = (p, u)"
  shows "node_at t p = Some u" and "p \<noteq> []" and "place (butlast p) (preorder [] t) < length (preorder [] t)"
    and "fst (preorder [] t ! place (butlast p) (preorder [] t)) = butlast p"
proof -
  let ?vs = "preorder [] t"
  have "(p, u) \<in> set ?vs" using assms(3,4) nth_mem by metis
  then show u: "node_at t p = Some u" using mem_preorder [OF assms(1)] by auto
  show p: "p \<noteq> []"
  proof
    assume "p = []"
    moreover have "fst (?vs ! 0) = []" "0 < length ?vs" by (cases t, simp)+
    ultimately have "i = 0"
      using place_nth [OF distinct_preorder [OF assms(1)], of i] place_nth [OF distinct_preorder [OF assms(1)], of 0]
        assms(3,4) by simp
    with assms(2) show False by simp
  qed
  obtain w where "node_at t (butlast p) = Some w"
    using node_at_prefix [of t "butlast p" "[last p]"] u p by auto
  then have "(butlast p, w) \<in> set ?vs" using mem_preorder [OF assms(1)] by auto
  then obtain j where "j < length ?vs" "?vs ! j = (butlast p, w)" by (metis in_set_conv_nth)
  then show "place (butlast p) ?vs < length ?vs" "fst (?vs ! place (butlast p) ?vs) = butlast p"
    using place_nth [OF distinct_preorder [OF assms(1)], of j] by auto
qed

subsection \<open>The table of occurrences\<close>

text \<open>
  \<open>PrintBBLOccurrence\<close> counts in \<open>int\<close>, which takes a 64-bit counter modulo \<open>2 ^ 32\<close>. The rows grow on
  demand; a negative identifier is no index.
\<close>

record Occurrence =
  occurrence :: "(32 word \<times> 32 word) list list"
  total_occurrence :: "32 word list"
  length_dist :: "32 word list"

definition no_occurrence :: Occurrence where
  "no_occurrence = \<lparr>occurrence = [], total_occurrence = [], length_dist = []\<rparr>"

definition occurrence_elem :: "('a \<Rightarrow> BBLID option) \<Rightarrow> nat \<Rightarrow> u64 \<Rightarrow> 'a \<Rightarrow> Occurrence \<Rightarrow> Occurrence option" where
  "occurrence_elem get_id seg_length cnt elem oc = do {
     bblid \<leftarrow> get_id elem;
     let oc = (if int (length (occurrence oc)) \<le> bblid
               then oc\<lparr>occurrence := vec_grow (nat (bblid + 1)) [] (occurrence oc),
                       total_occurrence := vec_grow (nat (bblid + 1)) 0 (total_occurrence oc)\<rparr>
               else oc);
     row \<leftarrow> vec_at (occurrence oc) bblid;
     let row = (if length row \<le> seg_length then vec_grow (seg_length + 1) (0, 0) row else row);
     let dist = (if length (length_dist oc) \<le> seg_length then vec_grow (seg_length + 1) 0 (length_dist oc) else length_dist oc);
     let row = row[seg_length := (of_nat seg_length, snd (row ! seg_length) + ucast cnt)];
     rows \<leftarrow> vec_set (occurrence oc) bblid row;
     total \<leftarrow> vec_at (total_occurrence oc) bblid;
     totals \<leftarrow> vec_set (total_occurrence oc) bblid (total + ucast cnt);
     Some \<lparr>occurrence = rows, total_occurrence = totals,
           length_dist = dist[seg_length := dist ! seg_length + ucast cnt]\<rparr> }"

definition occurrence_segment :: "('a \<Rightarrow> BBLID option) \<Rightarrow> 'a DataReuseSegment \<Rightarrow> Occurrence \<Rightarrow> Occurrence option" where
  "occurrence_segment get_id seg oc = foldM (occurrence_elem get_id (seg_size seg) (seg_count seg)) (seg_set seg) oc"

definition occurrence_tables :: "('a::linorder \<Rightarrow> BBLID option) \<Rightarrow> 'a DataReuse \<Rightarrow> Occurrence option" where
  "occurrence_tables get_id dr =
     foldM (\<lambda>leaf oc. do { seg \<leftarrow> ExportSegment dr new_segment leaf; occurrence_segment get_id seg oc })
       (leaves dr) no_occurrence"

text \<open>Descending by count; the order \<open>std::sort\<close> leaves open between equal counts is kept here.\<close>

definition sort_lengths :: "(32 word \<times> 32 word) list \<Rightarrow> (32 word \<times> 32 word) list" where
  "sort_lengths row = sort_key (\<lambda>e. - sint (snd e)) row"

definition occurrence_line :: "Occurrence \<Rightarrow> nat \<Rightarrow> string option" where
  "occurrence_line oc i = do {
     total \<leftarrow> vec_at (total_occurrence oc) (int i);
     if sint total > 0 then do {
       row \<leftarrow> vec_at (occurrence oc) (int i);
       let shown = takeWhile (\<lambda>e. sint (snd e) > 0) (sort_lengths row);
       Some (''BBLID = '' @ show_nat i @ '', total = '' @ show_int (sint total) @ '' | '' @
         concat (map (\<lambda>(l, c). ''['' @ show_int (sint l) @ '']'' @ show_int (sint c) @ '' '') shown) @ [newline]) }
     else Some '''' }"

definition PrintBBLOccurrence :: "('a::linorder \<Rightarrow> BBLID option) \<Rightarrow> 'a DataReuse \<Rightarrow> string option" where
  "PrintBBLOccurrence get_id dr = do {
     oc \<leftarrow> occurrence_tables get_id dr;
     out \<leftarrow> foldM (\<lambda>i out. do { s \<leftarrow> occurrence_line oc i; Some (out @ s) }) [0..<length (total_occurrence oc)] '''';
     Some (out @ concat (map (\<lambda>i. ''length = '' @ show_nat i @ '' | '' @ show_int (sint (length_dist oc ! i)) @ [newline])
       [0..<length (length_dist oc)])) }"

definition PrintAllBBLOccurrence :: "int \<Rightarrow> ('a::linorder \<Rightarrow> BBLID option) \<Rightarrow> 'a DataReuse \<Rightarrow> string option" where
  "PrintAllBBLOccurrence tid get_id dr = do {
     s \<leftarrow> PrintBBLOccurrence get_id dr;
     Some (HORIZONTAL_LINE @ [newline] @ ''BBLOccurrence - Thread '' @ show_int tid @ [newline] @ s) }"


subsection \<open>What the table counts\<close>

definition total_at :: "Occurrence \<Rightarrow> nat \<Rightarrow> 32 word" where
  "total_at oc b = (if b < length (total_occurrence oc) then total_occurrence oc ! b else 0)"

definition row_at :: "(32 word \<times> 32 word) list \<Rightarrow> nat \<Rightarrow> 32 word" where
  "row_at row l = (if l < length row then snd (row ! l) else 0)"

definition occurrence_at :: "Occurrence \<Rightarrow> nat \<Rightarrow> nat \<Rightarrow> 32 word" where
  "occurrence_at oc b l = (if b < length (occurrence oc) then row_at (occurrence oc ! b) l else 0)"

definition dist_at :: "Occurrence \<Rightarrow> nat \<Rightarrow> 32 word" where
  "dist_at oc l = (if l < length (length_dist oc) then length_dist oc ! l else 0)"

text \<open>An entry that counts anything carries its own length.\<close>

definition row_named :: "(32 word \<times> 32 word) list \<Rightarrow> bool" where
  "row_named row \<longleftrightarrow> (\<forall>l < length row. row ! l = (0, 0) \<or> fst (row ! l) = of_nat l)"

definition occurrence_ok :: "Occurrence \<Rightarrow> bool" where
  "occurrence_ok oc \<longleftrightarrow> length (occurrence oc) = length (total_occurrence oc) \<and> (\<forall>row \<in> set (occurrence oc). row_named row)"

lemma no_occurrence_ok [simp]:
  "occurrence_ok no_occurrence" "total_at no_occurrence b = 0" "occurrence_at no_occurrence b l = 0" "dist_at no_occurrence l = 0"
  by (simp_all add: occurrence_ok_def no_occurrence_def total_at_def occurrence_at_def dist_at_def)

lemma row_at_grow: "row_at (vec_grow n (0, 0) row) l = row_at row l"
  by (auto simp: row_at_def nth_vec_grow)

lemma row_named_grow: "row_named row \<Longrightarrow> row_named (vec_grow n (0, 0) row)"
  by (auto simp: row_named_def nth_vec_grow)

lemma row_at_count:
  "l < length row \<Longrightarrow> row_at (row[l := (k, snd (row ! l) + c)]) j = row_at row j + (if j = l then c else 0)"
  by (auto simp: row_at_def)

lemma row_named_count: "row_named row \<Longrightarrow> row_named (row[l := (of_nat l, c)])"
  unfolding row_named_def by (metis fst_conv length_list_update nth_list_update_eq nth_list_update_neq)

text \<open>One element of a segment adds its counter to one entry of each table.\<close>

lemma occurrence_elem_spec:
  assumes ok: "occurrence_ok oc" and id: "get_id x = Some (int b)"
  shows "\<exists>oc'. occurrence_elem get_id l c x oc = Some oc' \<and> occurrence_ok oc' \<and>
    (\<forall>b'. total_at oc' b' = total_at oc b' + (if b' = b then ucast c else 0)) \<and>
    (\<forall>b' l'. occurrence_at oc' b' l' = occurrence_at oc b' l' + (if b' = b \<and> l' = l then ucast c else 0)) \<and>
    (\<forall>l'. dist_at oc' l' = dist_at oc l' + (if l' = l then ucast c else 0))"
proof -
  define rows tots where "rows = (if length (occurrence oc) \<le> b then vec_grow (b + 1) [] (occurrence oc) else occurrence oc)"
    and "tots = (if length (occurrence oc) \<le> b then vec_grow (b + 1) 0 (total_occurrence oc) else total_occurrence oc)"
  define row dist where "row = (if length (rows ! b) \<le> l then vec_grow (l + 1) (0, 0) (rows ! b) else rows ! b)"
    and "dist = (if length (length_dist oc) \<le> l then vec_grow (l + 1) 0 (length_dist oc) else length_dist oc)"
  let ?oc = "\<lparr>occurrence = rows[b := row[l := (of_nat l, snd (row ! l) + ucast c)]],
    total_occurrence = tots[b := tots ! b + ucast c], length_dist = dist[l := dist ! l + ucast c]\<rparr>"
  have len: "b < length rows" "length rows = length tots" "l < length row" "l < length dist"
    using ok by (auto simp: rows_def tots_def row_def dist_def occurrence_ok_def)
  have grown: "(if int (length (occurrence oc)) \<le> int b
      then oc\<lparr>occurrence := vec_grow (nat (int b + 1)) [] (occurrence oc),
              total_occurrence := vec_grow (nat (int b + 1)) 0 (total_occurrence oc)\<rparr> else oc)
    = oc\<lparr>occurrence := rows, total_occurrence := tots\<rparr>"
    by (simp add: rows_def tots_def nat_add_distrib)
  have step: "occurrence_elem get_id l c x oc = Some ?oc"
    using len unfolding occurrence_elem_def id bind.bind_lunit Let_def grown
    by (simp add: vec_at_int vec_set_in_range row_def [symmetric]) (simp add: dist_def)
  have "occurrence_ok ?oc"
  proof -
    have named: "\<forall>r \<in> set rows. row_named r"
      using ok by (auto simp: rows_def occurrence_ok_def vec_grow_def row_named_def)
    then have "row_named row" using len(1) by (simp add: row_def row_named_grow)
    then have "\<forall>r \<in> set (rows[b := row[l := (of_nat l, snd (row ! l) + ucast c)]]). row_named r"
      using named set_update_subset_insert [of rows b] row_named_count by fastforce
    then show ?thesis using len by (simp add: occurrence_ok_def)
  qed
  moreover have "total_at ?oc b' = total_at oc b' + (if b' = b then ucast c else 0)" for b'
  proof -
    have "total_at (oc\<lparr>total_occurrence := tots\<rparr>) b' = total_at oc b'"
      by (auto simp: total_at_def tots_def nth_vec_grow)
    then show ?thesis using len by (auto simp: total_at_def)
  qed
  moreover have "occurrence_at ?oc b' l' = occurrence_at oc b' l' + (if b' = b \<and> l' = l then ucast c else 0)" for b' l'
  proof -
    have "occurrence_at (oc\<lparr>occurrence := rows\<rparr>) b' l' = occurrence_at oc b' l'"
      by (auto simp: occurrence_at_def rows_def nth_vec_grow row_at_def)
    moreover have "row_at row l' = row_at (rows ! b) l'" by (simp add: row_def row_at_grow)
    ultimately show ?thesis using len by (cases "b' = b") (auto simp: occurrence_at_def row_at_count)
  qed
  moreover have "dist_at ?oc l' = dist_at oc l' + (if l' = l then ucast c else 0)" for l'
  proof -
    have "dist_at (oc\<lparr>length_dist := dist\<rparr>) l' = dist_at oc l'"
      by (auto simp: dist_at_def dist_def nth_vec_grow)
    then show ?thesis using len by (auto simp: dist_at_def)
  qed
  ultimately show ?thesis using step by blast
qed

lemma occurrence_segment_spec:
  assumes "occurrence_ok oc" and "\<And>x. x \<in> set xs \<Longrightarrow> get_id x = Some (int (f x))"
  shows "\<exists>oc'. foldM (occurrence_elem get_id l c) xs oc = Some oc' \<and> occurrence_ok oc' \<and>
    (\<forall>b. total_at oc' b = total_at oc b + (\<Sum>x \<leftarrow> xs. if f x = b then ucast c else 0)) \<and>
    (\<forall>b l'. occurrence_at oc' b l' = occurrence_at oc b l' + (\<Sum>x \<leftarrow> xs. if f x = b \<and> l' = l then ucast c else 0)) \<and>
    (\<forall>l'. dist_at oc' l' = dist_at oc l' + (if l' = l then of_nat (length xs) * ucast c else 0))"
  using assms
proof (induction xs arbitrary: oc)
  case (Cons x xs)
  obtain oc1 where 1: "occurrence_elem get_id l c x oc = Some oc1" "occurrence_ok oc1"
    "\<And>b. total_at oc1 b = total_at oc b + (if b = f x then ucast c else 0)"
    "\<And>b l'. occurrence_at oc1 b l' = occurrence_at oc b l' + (if b = f x \<and> l' = l then ucast c else 0)"
    "\<And>l'. dist_at oc1 l' = dist_at oc l' + (if l' = l then ucast c else 0)"
    using occurrence_elem_spec [OF Cons.prems(1), of get_id x "f x" l c] Cons.prems(2) [of x] by auto
  obtain oc2 where "foldM (occurrence_elem get_id l c) xs oc1 = Some oc2" "occurrence_ok oc2"
    "\<And>b. total_at oc2 b = total_at oc1 b + (\<Sum>x \<leftarrow> xs. if f x = b then ucast c else 0)"
    "\<And>b l'. occurrence_at oc2 b l' = occurrence_at oc1 b l' + (\<Sum>x \<leftarrow> xs. if f x = b \<and> l' = l then ucast c else 0)"
    "\<And>l'. dist_at oc2 l' = dist_at oc1 l' + (if l' = l then of_nat (length xs) * ucast c else 0)"
    using Cons.IH [OF 1(2)] Cons.prems(2) by auto
  with 1 show ?case by (auto simp: algebra_simps)
qed simp


text \<open>The tables over all leaves, \<open>seg\<close> being what each of them exports.\<close>

lemma occurrence_tables_spec:
  assumes leaves: "\<forall>p \<in> set (leaves dr). ExportSegment dr new_segment p = Some (seg p) \<and>
    (\<forall>x \<in> set (seg_set (seg p)). get_id x = Some (int (f x)))"
  shows "\<exists>oc. occurrence_tables get_id dr = Some oc \<and> occurrence_ok oc \<and>
    (\<forall>b. total_at oc b = (\<Sum>p \<leftarrow> leaves dr. \<Sum>x \<leftarrow> seg_set (seg p). if f x = b then ucast (seg_count (seg p)) else 0)) \<and>
    (\<forall>b l. occurrence_at oc b l =
      (\<Sum>p \<leftarrow> leaves dr. \<Sum>x \<leftarrow> seg_set (seg p). if f x = b \<and> l = seg_size (seg p) then ucast (seg_count (seg p)) else 0)) \<and>
    (\<forall>l. dist_at oc l = (\<Sum>p \<leftarrow> leaves dr. if l = seg_size (seg p) then of_nat l * ucast (seg_count (seg p)) else 0))"
proof -
  let ?f = "\<lambda>leaf oc. do { seg \<leftarrow> ExportSegment dr new_segment leaf; occurrence_segment get_id seg oc }"
  have "\<exists>oc'. foldM ?f ps oc = Some oc' \<and> occurrence_ok oc' \<and>
    (\<forall>b. total_at oc' b = total_at oc b + (\<Sum>p \<leftarrow> ps. \<Sum>x \<leftarrow> seg_set (seg p). if f x = b then ucast (seg_count (seg p)) else 0)) \<and>
    (\<forall>b l. occurrence_at oc' b l = occurrence_at oc b l +
      (\<Sum>p \<leftarrow> ps. \<Sum>x \<leftarrow> seg_set (seg p). if f x = b \<and> l = seg_size (seg p) then ucast (seg_count (seg p)) else 0)) \<and>
    (\<forall>l. dist_at oc' l = dist_at oc l +
      (\<Sum>p \<leftarrow> ps. if l = seg_size (seg p) then of_nat l * ucast (seg_count (seg p)) else 0))"
    if "set ps \<subseteq> set (leaves dr)" "occurrence_ok oc" for ps oc
    using that
  proof (induction ps arbitrary: oc)
    case (Cons p ps)
    have p: "p \<in> set (leaves dr)" using Cons.prems(1) by simp
    obtain oc1 where 1: "occurrence_segment get_id (seg p) oc = Some oc1" "occurrence_ok oc1"
      "\<And>b. total_at oc1 b = total_at oc b + (\<Sum>x \<leftarrow> seg_set (seg p). if f x = b then ucast (seg_count (seg p)) else 0)"
      "\<And>b l. occurrence_at oc1 b l = occurrence_at oc b l +
        (\<Sum>x \<leftarrow> seg_set (seg p). if f x = b \<and> l = seg_size (seg p) then ucast (seg_count (seg p)) else 0)"
      "\<And>l. dist_at oc1 l = dist_at oc l + (if l = seg_size (seg p) then of_nat l * ucast (seg_count (seg p)) else 0)"
      using occurrence_segment_spec [OF Cons.prems(2), of "seg_set (seg p)" get_id f "seg_size (seg p)" "seg_count (seg p)"]
        leaves p by (auto simp: occurrence_segment_def seg_size_def)
    have "set ps \<subseteq> set (leaves dr)" using Cons.prems(1) by simp
    with Cons.IH [OF this 1(2)] 1 leaves p show ?case by (auto simp: add.assoc)
  qed simp
  from this [OF subset_refl, of no_occurrence] show ?thesis by (simp add: occurrence_tables_def)
qed

text \<open>With its tables the report is written.\<close>

lemma PrintBBLOccurrence_defined:
  assumes "occurrence_tables get_id dr = Some oc" and "occurrence_ok oc"
  shows "PrintBBLOccurrence get_id dr = Some (
    concat (map (\<lambda>i. the (occurrence_line oc i)) [0..<length (total_occurrence oc)]) @
    concat (map (\<lambda>i. ''length = '' @ show_nat i @ '' | '' @ show_int (sint (length_dist oc ! i)) @ [newline])
       [0..<length (length_dist oc)]))"
proof -
  have line: "occurrence_line oc i = Some (the (occurrence_line oc i))" if "i < length (total_occurrence oc)" for i
    using that assms(2) by (simp add: occurrence_line_def vec_at_int occurrence_ok_def)
  have "foldM (\<lambda>i out. do { s \<leftarrow> occurrence_line oc i; Some (out @ s) }) [0..<length (total_occurrence oc)] '''' =
      Some ('''' @ concat (map (\<lambda>i. the (occurrence_line oc i)) [0..<length (total_occurrence oc)]))"
    by (rule foldM_concat) (subst line, simp_all)
  then show ?thesis using assms(1) by (simp add: PrintBBLOccurrence_def)
qed


subsection \<open>The table of a recording\<close>

lemma sum_list_if: "(\<Sum>x \<leftarrow> xs. if P x then c else 0) = c * of_nat (length (filter P xs))"
  for c :: "'b::comm_semiring_1"
  by (induction xs) (auto simp: algebra_simps)

lemma ucast_total: "(ucast (of_nat n :: u64) :: 32 word) = of_nat n"
  by (simp add: unsigned_of_nat word_eq_iff_unsigned take_bit_take_bit of_nat_take_bit take_bit_word_eq_self)

lemma recorded_sum:
  fixes h :: "'a::linorder list \<Rightarrow> 32 word"
  assumes rec: "recorded segs dr get_id f L n"
  shows "(\<Sum>p \<leftarrow> leaves dr. ucast (of_nat (key_total segs (snd p)) :: u64) * h (snd p)) =
    (\<Sum>seg \<leftarrow> big segs. of_nat (unat (seg_count seg)) * h (seg_key seg))"
proof -
  let ?K = "seg_key ` set (big segs)"
  have K: "distinct (map snd (leaves dr))" "set (map snd (leaves dr)) = ?K"
    using recorded_leaves(1) [OF rec] by auto
  have "(\<Sum>p \<leftarrow> leaves dr. ucast (of_nat (key_total segs (snd p)) :: u64) * h (snd p)) =
      (\<Sum>q \<leftarrow> map snd (leaves dr). of_nat (key_total segs q) * h q)"
    unfolding ucast_total by (simp add: o_def)
  also have "\<dots> = (\<Sum>q \<in> ?K. of_nat (key_total segs q) * h q)"
    by (simp only: sum_list_distinct_conv_sum_set [OF K(1)] K(2))
  also have "\<dots> = (\<Sum>seg \<leftarrow> big segs. of_nat (unat (seg_count seg)) * h (seg_key seg))"
    by (rule key_total_sum [symmetric]) simp_all
  finally show ?thesis .
qed

lemma sint_sum:
  assumes "(\<Sum>s \<leftarrow> xs. m s * c s) < 2 ^ 31" and "\<And>s. s \<in> set xs \<Longrightarrow> k s \<le> m s"
  shows "sint (\<Sum>s \<leftarrow> xs. of_nat (c s) * of_nat (k s) :: 32 word) = int (\<Sum>s \<leftarrow> xs. k s * c s)"
proof -
  have "(\<Sum>s \<leftarrow> xs. of_nat (c s) * of_nat (k s) :: 32 word) = of_nat (\<Sum>s \<leftarrow> xs. k s * c s)"
    by (induction xs) (simp_all add: mult.commute)
  moreover have "(\<Sum>s \<leftarrow> xs. k s * c s) \<le> (\<Sum>s \<leftarrow> xs. m s * c s)"
    using assms(2) by (intro sum_list_mono) simp
  ultimately show ?thesis
    using assms(1) by (simp add: signed_of_nat signed_take_bit_int_eq_self)
qed


lemma filter_const: "filter (\<lambda>y. P y \<and> c) xs = (if c then filter P xs else [])"
  by simp

lemma exact_occurrences:
  assumes "inj_on f L" and "set xs \<subseteq> L" and "distinct xs" and "x \<in> L" and "\<And>y. y \<in> L \<Longrightarrow> 0 \<le> f y"
  shows "length (filter (\<lambda>y. nat (f y) = nat (f x)) xs) = (if x \<in> set xs then 1 else 0)"
proof -
  have "filter (\<lambda>y. nat (f y) = nat (f x)) xs = filter (\<lambda>y. y = x) xs"
  proof (rule filter_cong [OF refl])
    fix y assume "y \<in> set xs"
    then have "y \<in> L" using assms(2) by auto
    then show "(nat (f y) = nat (f x)) = (y = x)"
      using assms(1,4) assms(5) [of x] assms(5) [of y] by (auto simp: inj_on_def)
  qed
  moreover have "length (filter (\<lambda>y. y = x) xs) = card (set (filter (\<lambda>y. y = x) xs))"
    using assms(3) by (simp only: distinct_card distinct_filter)
  moreover have "set (filter (\<lambda>y. y = x) xs) = (if x \<in> set xs then {x} else {})" by auto
  ultimately show ?thesis by simp
qed

text \<open>
  The table of a recording, as long as no counter leaves the range of \<open>int\<close>: the total of a block is
  the number of recorded segments it is a member of, its entry for a length the number of those of
  that length; the last table counts every segment once per member.
\<close>

lemma occurrences_recorded:
  assumes rec: "recorded segs dr get_id f L n"
    and small: "(\<Sum>seg \<leftarrow> big segs. seg_size seg * unat (seg_count seg)) < 2 ^ 31"
  shows "\<exists>oc. occurrence_tables get_id dr = Some oc \<and> occurrence_ok oc \<and>
    (\<forall>x \<in> L. sint (total_at oc (nat (f x))) =
       int (\<Sum>seg \<leftarrow> big segs. if x \<in> set (seg_set seg) then unat (seg_count seg) else 0)) \<and>
    (\<forall>x \<in> L. \<forall>l. sint (occurrence_at oc (nat (f x)) l) =
       int (\<Sum>seg \<leftarrow> big segs. if x \<in> set (seg_set seg) \<and> seg_size seg = l then unat (seg_count seg) else 0)) \<and>
    (\<forall>l. sint (dist_at oc l) =
       int (\<Sum>seg \<leftarrow> big segs. if seg_size seg = l then l * unat (seg_count seg) else 0))"
proof -
  let ?seg = "\<lambda>p. \<lparr>seg_head = Some (last (snd p)), seg_set = butlast (snd p), seg_count = of_nat (key_total segs (snd p)) :: u64\<rparr>"
  have lab: "inj_on f L" "\<And>x. x \<in> L \<Longrightarrow> get_id x = Some (f x) \<and> 0 \<le> f x"
    using recordedD(5) [OF rec] by (auto simp: labelling_def)
  have members: "set (butlast (snd p)) \<subseteq> L" if "p \<in> set (leaves dr)" for p
  proof -
    have "snd p \<in> seg_key ` set (big segs)" using that recorded_leaves(1) [OF rec] by (metis image_eqI set_map)
    then have "set (snd p) \<subseteq> L" using recorded_key [OF rec] by blast
    then show ?thesis by (auto dest: in_set_butlastD)
  qed
  have "\<forall>p \<in> set (leaves dr). ExportSegment dr new_segment p = Some (?seg p) \<and>
      (\<forall>x \<in> set (seg_set (?seg p)). get_id x = Some (int (nat (f x))))"
    using members lab(2) recorded_leaves(2) [OF rec] by fastforce
  note spec = occurrence_tables_spec [OF this, simplified seg_size_def]
  let ?sum = "\<lambda>h. \<Sum>p \<leftarrow> leaves dr. ucast (of_nat (key_total segs (snd p)) :: u64) * of_nat (h (snd p)) :: 32 word"
  obtain oc where oc: "occurrence_tables get_id dr = Some oc" "occurrence_ok oc"
    "\<And>b. total_at oc b = ?sum (\<lambda>p. length (filter (\<lambda>y. nat (f y) = b) (butlast p)))"
    "\<And>b l. occurrence_at oc b l = ?sum (\<lambda>p. length (filter (\<lambda>y. nat (f y) = b \<and> l = length (butlast p)) (butlast p)))"
    "\<And>l. dist_at oc l = ?sum (\<lambda>p. if l = length (butlast p) then l else 0)"
    using spec by (auto simp: sum_list_if if_distrib mult.commute cong: if_cong)
  have key: "butlast (seg_key seg) = seg_set seg" for seg :: "'a DataReuseSegment" by (simp add: seg_key_def)
  have count: "sint (?sum h) = int (\<Sum>seg \<leftarrow> big segs. h (seg_key seg) * unat (seg_count seg))"
    if "\<And>seg. h (seg_key seg) \<le> seg_size seg" for h
    unfolding recorded_sum [OF rec, of "\<lambda>p. of_nat (h p)"] using small that by (rule sint_sum)
  have exact: "length (filter (\<lambda>y. nat (f y) = nat (f x)) (seg_set seg)) = (if x \<in> set (seg_set seg) then 1 else 0)"
    if "x \<in> L" "seg \<in> set (big segs)" for x seg
    using recordedD(1,2) [OF rec] that lab
    by (intro exact_occurrences) (auto simp: big_def segs_ok_def seg_ok_def strict_sorted_iff)
  have none: "filter (\<lambda>y. nat (f y) = nat (f x)) (seg_set seg) = []"
    if "x \<in> L" "seg \<in> set (big segs)" "x \<notin> set (seg_set seg)" for x seg
    using exact [OF that(1,2)] that(3) by simp
  have "sint (total_at oc (nat (f x))) =
      int (\<Sum>seg \<leftarrow> big segs. if x \<in> set (seg_set seg) then unat (seg_count seg) else 0)" if "x \<in> L" for x
    unfolding oc(3) by (subst count) (auto simp: key seg_size_def exact [OF that] none [OF that] intro!: arg_cong [of _ _ sum_list] map_cong)
  moreover have "sint (occurrence_at oc (nat (f x)) l) =
      int (\<Sum>seg \<leftarrow> big segs. if x \<in> set (seg_set seg) \<and> seg_size seg = l then unat (seg_count seg) else 0)" if "x \<in> L" for x l
    unfolding oc(4) by (subst count) (auto simp: key seg_size_def filter_const exact [OF that] none [OF that] intro!: arg_cong [of _ _ sum_list] map_cong)
  moreover have "sint (dist_at oc l) = int (\<Sum>seg \<leftarrow> big segs. if seg_size seg = l then l * unat (seg_count seg) else 0)" for l
    unfolding oc(5) by (subst count) (auto simp: key seg_size_def intro!: arg_cong [of _ _ sum_list] map_cong)
  ultimately show ?thesis using oc(1,2) by blast
qed

end
