(* ===== verification/Solver_Print.thy ===== *)
theory Solver_Print
  imports Reuse_Roundtrip Solver_Cluster
begin

text \<open>
  Two reports of the solver: the switches a decision pays for (\<open>SwitchCountList::print\<close>,
  \<open>printSwitch\<close> of \<open>DataReuse.h\<close>) and the clusters of the important segments
  (\<open>CostSolver::PrintDisjointSets\<close>). \<open>show_cost\<close> prints a \<open>double\<close>; \<open>ord\<close> is the order in which the hash
  map of the disjoint sets is walked.
\<close>

subsection \<open>The switches a decision pays for\<close>

definition print_row :: "SwitchCountRow \<Rightarrow> string" where
  "print_row row =
     (if toidxvec row = [] then ''''
      else ''from = '' @ show_int (row_fromidx row) @ '' | '' @
        concat (map (\<lambda>(t, c). show_int t @ '':'' @ show_nat (unat c) @ '' '') (toidxvec row)) @ [newline])"

definition print_rows :: "SwitchCountList \<Rightarrow> string" where
  "print_rows rows = concat (map print_row rows)"

definition printSwitch_elem :: "DECISION \<Rightarrow> CostSite \<Rightarrow> BBLID \<times> u64 \<Rightarrow> string \<Rightarrow> string option" where
  "printSwitch_elem decision fromsite = (\<lambda>(toidx, cnt) out. do {
     tosite \<leftarrow> vec_at decision toidx;
     if fromsite \<noteq> INVALID \<and> tosite \<noteq> INVALID \<and> fromsite \<noteq> tosite then do {
       s \<leftarrow> getCostSiteString tosite;
       Some (out @ show_int toidx @ s @ '':'' @ show_nat (unat cnt) @ '' '') }
     else Some out })"

definition printSwitch_row :: "(COST \<Rightarrow> string) \<Rightarrow> DECISION \<Rightarrow> COST list \<Rightarrow> SwitchCountRow \<Rightarrow> string \<Rightarrow> string option" where
  "printSwitch_row show_cost decision sc row out = do {
     cost \<leftarrow> Row_Cost row decision sc;
     if cost = 0 then Some out
     else do {
       fromsite \<leftarrow> vec_at decision (row_fromidx row);
       s \<leftarrow> getCostSiteString fromsite;
       out \<leftarrow> foldM (printSwitch_elem decision fromsite) (toidxvec row)
         (out @ ''cost = '' @ show_cost cost @ '', '' @ ''from = '' @ show_int (row_fromidx row) @ s @ '' | '');
       Some (out @ [newline]) } }"

definition printSwitch :: "(COST \<Rightarrow> string) \<Rightarrow> DECISION \<Rightarrow> COST list \<Rightarrow> SwitchCountList \<Rightarrow> string option" where
  "printSwitch show_cost decision sc rows =
     foldM (printSwitch_row show_cost decision sc) rows ''''"

text \<open>The line of a row: its cost and the transitions that cross sites.\<close>

definition site_letter :: "CostSite \<Rightarrow> string" where
  "site_letter s = the (getCostSiteString s)"

lemma getCostSiteString_placed: "s \<in> {CPU, PIM} \<Longrightarrow> getCostSiteString s = Some (site_letter s)"
  by (auto simp: site_letter_def getCostSiteString_def CostSiteString_def vec_at_def)

definition crossing :: "DECISION \<Rightarrow> SwitchCountRow \<Rightarrow> (BBLID \<times> u64) list" where
  "crossing d row = filter (\<lambda>(t, c). crosses (d ! nat (row_fromidx row)) (d ! nat t)) (toidxvec row)"

definition switch_text :: "DECISION \<Rightarrow> BBLID \<times> u64 \<Rightarrow> string" where
  "switch_text d = (\<lambda>(t, c). show_int t @ site_letter (d ! nat t) @ '':'' @ show_nat (unat c) @ '' '')"

definition switch_line :: "(COST \<Rightarrow> string) \<Rightarrow> DECISION \<Rightarrow> COST list \<Rightarrow> SwitchCountRow \<Rightarrow> string" where
  "switch_line show_cost d sc row =
     ''cost = '' @ show_cost (row_cost_spec d sc row) @ '', from = '' @ show_int (row_fromidx row) @
     site_letter (d ! nat (row_fromidx row)) @ '' | '' @
     concat (map (switch_text d) (crossing d row)) @ [newline]"

lemma row_cost_crossing:
  "row_cost_spec d sc row =
     (\<Sum>(t, c) \<leftarrow> crossing d row. sc ! nat (site_code (d ! nat (row_fromidx row))) * real (unat c))"
  unfolding row_cost_spec_def crossing_def
  by (induction "toidxvec row" arbitrary: row rule: list.induct) (auto simp: sum_list_map_filter' split_def)

lemma printSwitch_elem_spec:
  assumes "\<forall>s \<in> set d. placed s" and "0 \<le> t" and "t < int (length d)"
  shows "printSwitch_elem d f (t, c) out = Some (out @ (if crosses f (d ! nat t) then switch_text d (t, c) else []))"
proof -
  have at: "vec_at d t = Some (d ! nat t)" using assms(2,3) by (rule vec_at_in_range)
  have "d ! nat t \<in> {CPU, PIM, INVALID}" using assms by (auto simp: placed_def nat_less_iff)
  then show ?thesis using at getCostSiteString_placed [of "d ! nat t"]
    by (auto simp: printSwitch_elem_def switch_text_def crosses_def)
qed

lemma printSwitch_row_spec:
  assumes row: "row_ok (length d) row" and d: "\<forall>s \<in> set d. placed s" and sc: "length sc = 2"
  shows "printSwitch_row show_cost d sc row out = Some (out @
    (if row_cost_spec d sc row = 0 then '''' else switch_line show_cost d sc row))"
proof (cases "row_cost_spec d sc row = 0")
  case True
  then show ?thesis using Row_Cost_spec [OF assms] by (simp add: printSwitch_row_def)
next
  case False
  let ?f = "d ! nat (row_fromidx row)"
  have "crossing d row \<noteq> []" using False by (auto simp: row_cost_crossing)
  then obtain t c where "(t, c) \<in> set (crossing d row)" by (metis hd_in_set surj_pair)
  then have "(t, c) \<in> set (toidxvec row)" "crosses ?f (d ! nat t)" by (auto simp: crossing_def)
  with row have frm: "0 \<le> row_fromidx row" "row_fromidx row < int (length d)" "?f \<noteq> INVALID"
    by (auto simp: row_ok_def crosses_def)
  then have "?f \<in> set d" by (simp add: nat_less_iff)
  then have f: "?f \<in> {CPU, PIM}" using d frm(3) by (auto simp: placed_def)
  have "foldM (printSwitch_elem d ?f) (toidxvec row) out' = Some (out' @
      concat (map (\<lambda>e. if crosses ?f (d ! nat (fst e)) then switch_text d e else []) (toidxvec row)))" for out'
    by (rule foldM_concat) (use row printSwitch_elem_spec [OF d] in \<open>auto simp: row_ok_def\<close>)
  then show ?thesis
    using False f Row_Cost_spec [OF assms] getCostSiteString_placed [OF f] vec_at_in_range [OF frm(1,2)]
    by (simp add: printSwitch_row_def switch_line_def crossing_def concat_map_filter split_def)
qed

text \<open>The report: one line per row that costs anything; what it names is all the decision pays for switches.\<close>

lemma printSwitch_spec:
  assumes "solver_ok S" and "decision_ok S d" and "\<forall>row \<in> set rows. row_ok (block_count S) row"
  shows "printSwitch show_cost d (switch_cost S) rows =
      Some (concat (map (switch_line show_cost d (switch_cost S)) (filter (\<lambda>row. row_cost_spec d (switch_cost S) row \<noteq> 0) rows)))"
    and "SwitchCost S d rows =
      Some (\<Sum>row \<leftarrow> filter (\<lambda>row. row_cost_spec d (switch_cost S) row \<noteq> 0) rows. row_cost_spec d (switch_cost S) row)"
proof -
  let ?line = "\<lambda>row. if row_cost_spec d (switch_cost S) row \<noteq> 0 then switch_line show_cost d (switch_cost S) row else []"
  have "printSwitch show_cost d (switch_cost S) rows = Some ([] @ concat (map ?line rows))"
    unfolding printSwitch_def
    by (rule foldM_concat, subst printSwitch_row_spec) (use assms in \<open>auto simp: decision_ok_def solver_ok_def\<close>)
  then show "printSwitch show_cost d (switch_cost S) rows =
      Some (concat (map (switch_line show_cost d (switch_cost S)) (filter (\<lambda>row. row_cost_spec d (switch_cost S) row \<noteq> 0) rows)))"
    by (simp add: concat_map_filter)
  have "switch_spec S d rows =
      (\<Sum>row \<leftarrow> filter (\<lambda>row. row_cost_spec d (switch_cost S) row \<noteq> 0) rows. row_cost_spec d (switch_cost S) row)"
    unfolding switch_spec_def by (induction rows) auto
  then show "SwitchCost S d rows =
      Some (\<Sum>row \<leftarrow> filter (\<lambda>row. row_cost_spec d (switch_cost S) row \<noteq> 0) rows. row_cost_spec d (switch_cost S) row)"
    using SwitchCost_spec [OF assms] by simp
qed


subsection \<open>The clusters of the important segments\<close>

text \<open>The loop over the sorted leaves ends behind the first unimportant one.\<close>

definition union_segment :: "BBLID DataReuseSegment \<Rightarrow> DisjointSet \<Rightarrow> DisjointSet option" where
  "union_segment seg ds = do {
     first \<leftarrow> vec_at (seg_set seg) 0;
     foldM (\<lambda>elem ds. Union ds first elem) (seg_set seg) ds }"

fun union_leaves :: "CostSolver \<Rightarrow> COST \<Rightarrow> COST \<Rightarrow> BBLID DataReuse \<Rightarrow> BBLID node_ptr list \<Rightarrow> DisjointSet \<Rightarrow> DisjointSet option" where
  "union_leaves S rm em dr [] ds = Some ds"
| "union_leaves S rm em dr (l # ls) ds = do {
     seg \<leftarrow> ExportSegment dr new_segment l;
     ds \<leftarrow> union_segment seg ds;
     if unimportant S rm em (seg_count seg) then Some ds else union_leaves S rm em dr ls ds }"

definition print_member :: "BBLID \<Rightarrow> BBLID \<Rightarrow> string \<times> nat \<times> DisjointSet \<Rightarrow> (string \<times> nat \<times> DisjointSet) option" where
  "print_member h l = (\<lambda>(out, n, ds). do {
     (ds, r) \<leftarrow> Find ds l;
     Some (if r = h then (out @ show_int l @ '' '', n + 1, ds) else (out, n, ds)) })"

definition print_set :: "BBLID list \<Rightarrow> BBLID \<Rightarrow> string \<times> DisjointSet \<Rightarrow> (string \<times> DisjointSet) option" where
  "print_set ks h = (\<lambda>(out, ds). do {
     (ds, r) \<leftarrow> Find ds h;
     if r = h then do {
       (out, n, ds) \<leftarrow> foldM (print_member h) ks (out, 0, ds);
       Some (out @ '' | Count = '' @ show_nat n @ [newline], ds) }
     else Some (out, ds) })"

definition PrintDisjointSets :: "(BBLID set \<Rightarrow> BBLID list) \<Rightarrow> CostSolver \<Rightarrow> (string \<times> CostSolver) option" where
  "PrintDisjointSets ord S = do {
     dr \<leftarrow> SortLeaves (bbl_data_reuse S);
     em \<leftarrow> elapsed_min S;
     rm \<leftarrow> SingleSegMaxReuseCost S;
     ds \<leftarrow> union_leaves S rm em dr (leaves dr) Map.empty;
     let ks = ord (dom ds);
     let out = concat (map (\<lambda>l. show_int l @ '' '' @ show_int (the (ds l)) @ [newline]) ks);
     (out, ds) \<leftarrow> foldM (print_set ks) ks (out, ds);
     Some (out, S\<lparr>bbl_data_reuse := dr\<rparr>) }"

text \<open>The pairs that are united, and the loop as a sequence of unions.\<close>

definition segment_pairs :: "BBLID DataReuseSegment \<Rightarrow> (BBLID \<times> BBLID) list" where
  "segment_pairs seg = map (Pair (hd (seg_set seg))) (seg_set seg)"

fun merged :: "(BBLID DataReuseSegment \<Rightarrow> bool) \<Rightarrow> BBLID DataReuseSegment list \<Rightarrow> (BBLID \<times> BBLID) list" where
  "merged low [] = []"
| "merged low (seg # segs) = segment_pairs seg @ (if low seg then [] else merged low segs)"

lemma Union_all_append: "Union_all p (ps @ qs) = do { p \<leftarrow> Union_all p ps; Union_all p qs }"
  by (simp add: Union_all_def foldM_append)

lemma union_segment_all: "seg_set seg \<noteq> [] \<Longrightarrow> union_segment seg ds = Union_all ds (segment_pairs seg)"
proof -
  have "foldM (\<lambda>elem ds. Union ds h elem) xs ds = foldM (\<lambda>(m, n) p. Union p m n) (map (Pair h) xs) ds" for h xs
    by (induction xs arbitrary: ds) (auto cong: Option.bind_cong)
  then show "seg_set seg \<noteq> [] \<Longrightarrow> ?thesis"
    by (simp add: union_segment_def Union_all_def segment_pairs_def vec_at_def hd_conv_nth)
qed

lemma union_leaves_all:
  assumes "list_all2 (\<lambda>l seg. ExportSegment dr new_segment l = Some seg \<and> seg_set seg \<noteq> []) ls segs"
  shows "union_leaves S rm em dr ls ds = Union_all ds (merged (\<lambda>seg. unimportant S rm em (seg_count seg)) segs)"
  using assms
proof (induction ls segs arbitrary: ds rule: list_all2_induct)
  case Nil
  show ?case by (simp add: Union_all_def)
next
  case (Cons l ls seg segs)
  have "Union_all v [] = Some v" for v by (simp add: Union_all_def)
  with Cons show ?case by (auto simp: union_segment_all Union_all_append split: bind_splits)
qed

text \<open>Walking the sets keeps the roots.\<close>

definition class_of :: "(BBLID \<times> BBLID) list \<Rightarrow> BBLID list \<Rightarrow> BBLID \<Rightarrow> BBLID list" where
  "class_of ps ks h = filter (\<lambda>l. (l, h) \<in> linked ps) ks"

lemma Find_present:
  assumes "uf_ok p" and "l \<in> dom p"
  obtains q r where "Find p l = Some (q, r)" "same_roots p q" "root_of p l r"
proof -
  have "with_elem p l = p" using assms(2) by (simp add: with_elem_def)
  with Find_spec [OF assms(1), of l] that show thesis by metis
qed

lemma print_member_all:
  assumes "uf_ok p" and "set ls \<subseteq> dom p"
  shows "same_roots p q \<Longrightarrow> \<exists>q'. foldM (print_member h) ls (out, n, q) =
      Some (out @ concat (map (\<lambda>l. show_int l @ '' '') (filter (\<lambda>l. root_of p l h) ls)),
        n + length (filter (\<lambda>l. root_of p l h) ls), q') \<and> same_roots p q'"
  using assms(2)
proof (induction ls arbitrary: out n q)
  case (Cons l ls)
  have q: "uf_ok q" "l \<in> dom q" using Cons.prems assms(1) by (auto intro: same_roots_ok simp: same_roots_def)
  obtain q1 r where f: "Find q l = Some (q1, r)" "same_roots q q1" "root_of q l r"
    by (rule Find_present [OF q])
  have r: "root_of p l r" using f(3) same_roots_iff [OF Cons.prems(1) assms(1)] by simp
  then have "r = h \<longleftrightarrow> root_of p l h" by (blast dest: root_of_unique)
  moreover have "same_roots p q1" using Cons.prems(1) f(2) by (rule same_roots_trans)
  ultimately show ?case
    using Cons.IH [of q1 "if r = h then out @ show_int l @ '' '' else out" "if r = h then n + 1 else n"] Cons.prems f(1)
    by (simp add: print_member_def split: if_splits)
qed simp


definition set_text :: "BBLID list \<Rightarrow> string" where
  "set_text ls = concat (map (\<lambda>l. show_int l @ '' '') ls) @ '' | Count = '' @ show_nat (length ls) @ [newline]"

lemma print_set_all:
  assumes "uf_ok p" and "set ks = dom p" and "set ls \<subseteq> dom p"
  shows "same_roots p q \<Longrightarrow> \<exists>q'. foldM (print_set ks) ls (out, q) =
      Some (out @ concat (map (\<lambda>h. set_text (filter (\<lambda>l. root_of p l h) ks)) (filter (\<lambda>h. root_of p h h) ls)), q') \<and>
      same_roots p q'"
  using assms(3)
proof (induction ls arbitrary: out q)
  case (Cons h ls)
  have q: "uf_ok q" "h \<in> dom q" using Cons.prems assms(1) by (auto intro: same_roots_ok simp: same_roots_def)
  obtain q1 r where f: "Find q h = Some (q1, r)" "same_roots q q1" "root_of q h r"
    by (rule Find_present [OF q])
  have r: "root_of p h r" using f(3) same_roots_iff [OF Cons.prems(1) assms(1)] by simp
  have s1: "same_roots p q1" using Cons.prems(1) f(2) by (rule same_roots_trans)
  have sub: "set ls \<subseteq> dom p" using Cons.prems(2) by simp
  show ?case
  proof (cases "r = h")
    case True
    obtain q2 where m: "foldM (print_member h) ks (out, 0, q1) =
        Some (out @ concat (map (\<lambda>l. show_int l @ '' '') (filter (\<lambda>l. root_of p l h) ks)),
          length (filter (\<lambda>l. root_of p l h) ks), q2)" "same_roots p q2"
      using print_member_all [OF assms(1) _ s1, of ks h out 0] assms(2) by auto
    then have "print_set ks h (out, q) = Some (out @ set_text (filter (\<lambda>l. root_of p l h) ks), q2)"
      using True f(1) by (simp add: print_set_def set_text_def)
    then show ?thesis
      using Cons.IH [OF m(2) sub, of "out @ set_text (filter (\<lambda>l. root_of p l h) ks)"] True r by simp
  next
    case False
    then have "\<not> root_of p h h" using r by (blast dest: root_of_unique)
    moreover have "print_set ks h (out, q) = Some (out, q1)" using False f(1) by (simp add: print_set_def)
    ultimately show ?thesis using Cons.IH [OF s1 sub] by simp
  qed
qed simp

lemma root_of_parent: "root_of p x r \<Longrightarrow> p x = Some a \<Longrightarrow> root_of p a r"
proof -
  assume r: "root_of p x r" and a: "p x = Some a"
  from r obtain n where "root_in p x n r" by (auto simp: root_of_def)
  then show "root_of p a r"
  proof cases
    case root
    then show ?thesis using r a by simp
  next
    case (up b m)
    then show ?thesis using a by (auto simp: root_of_def)
  qed
qed

text \<open>
  What the report says of the united pairs: for every block one it is linked to, then one line per
  class of the least equivalence, with exactly the blocks of the class.
\<close>

definition parents_text :: "DisjointSet \<Rightarrow> BBLID list \<Rightarrow> string" where
  "parents_text ds ks = concat (map (\<lambda>l. show_int l @ '' '' @ show_int (the (ds l)) @ [newline]) ks)"

definition clusters_report :: "BBLID list \<Rightarrow> (BBLID \<times> BBLID) list \<Rightarrow> string \<Rightarrow> bool" where
  "clusters_report ks ps out \<longleftrightarrow> (\<exists>ds. dom ds = ends ps \<and> (\<forall>x \<in> ends ps. (x, the (ds x)) \<in> linked ps) \<and>
     (\<forall>x \<in> ends ps. \<exists>!r. r \<in> ends ps \<and> ds r = Some r \<and> (x, r) \<in> linked ps) \<and>
     out = parents_text ds ks @ concat (map (\<lambda>h. set_text (class_of ps ks h)) (filter (\<lambda>h. ds h = Some h) ks)))"

lemma forest_classes:
  assumes p: "uf_ok p" "dom p = ends ps"
    and same: "\<And>x y. same_set p x y \<longleftrightarrow> x \<in> ends ps \<and> y \<in> ends ps \<and> (x, y) \<in> linked ps"
  shows "root_of p h h \<longleftrightarrow> p h = Some h"
    and "p h = Some h \<Longrightarrow> root_of p l h \<longleftrightarrow> l \<in> ends ps \<and> (l, h) \<in> linked ps"
    and "x \<in> ends ps \<Longrightarrow> (x, the (p x)) \<in> linked ps"
    and "x \<in> ends ps \<Longrightarrow> \<exists>!r. r \<in> ends ps \<and> p r = Some r \<and> (x, r) \<in> linked ps"
proof -
  show root: "root_of p h h \<longleftrightarrow> p h = Some h" for h by (auto intro: root_of_self dest: root_of_root)
  show below: "root_of p l h \<longleftrightarrow> l \<in> ends ps \<and> (l, h) \<in> linked ps" if "p h = Some h" for l h
  proof -
    have h: "root_of p h h" using that root by simp
    then have "root_of p l h \<longleftrightarrow> same_set p l h" by (auto simp: same_set_def dest: root_of_unique [OF h])
    moreover have "h \<in> ends ps" using that p(2) by auto
    ultimately show ?thesis using same by simp
  qed
  assume x: "x \<in> ends ps"
  obtain r where r: "root_of p x r" using uf_ok_root [OF p(1)] p(2) x by blast
  obtain a where a: "p x = Some a" using p(2) x by auto
  have "same_set p x a" using r root_of_parent [OF r a] by (auto simp: same_set_def)
  then show "(x, the (p x)) \<in> linked ps" using same a by simp
  have rr: "p r = Some r" using r by (rule root_of_root)
  moreover from this have "r \<in> ends ps" using p(2) by auto
  ultimately have "r \<in> ends ps \<and> p r = Some r \<and> (x, r) \<in> linked ps" using below r by simp
  moreover have "r' = r" if "r' \<in> ends ps \<and> p r' = Some r' \<and> (x, r') \<in> linked ps" for r'
    using that below x root_of_unique [OF r] by auto
  ultimately show "\<exists>!r. r \<in> ends ps \<and> p r = Some r \<and> (x, r) \<in> linked ps" by blast
qed

lemma PrintDisjointSets_spec:
  assumes dr: "SortLeaves (bbl_data_reuse S) = Some dr" and "elapsed_min S = Some em" "SingleSegMaxReuseCost S = Some rm"
    and segs: "list_all2 (\<lambda>l seg. ExportSegment dr new_segment l = Some seg \<and> seg_set seg \<noteq> []) (leaves dr) segs"
    and ps: "ps = merged (\<lambda>seg. unimportant S rm em (seg_count seg)) segs"
    and ord: "set (ord (ends ps)) = ends ps"
  shows "\<exists>out. PrintDisjointSets ord S = Some (out, S\<lparr>bbl_data_reuse := dr\<rparr>) \<and> clusters_report (ord (ends ps)) ps out"
proof -
  obtain p where p: "Union_all Map.empty ps = Some p" "uf_ok p" "dom p = ends ps"
    and same: "\<And>x y. same_set p x y \<longleftrightarrow> x \<in> ends ps \<and> y \<in> ends ps \<and> (x, y) \<in> linked ps"
    using Union_all_spec [of ps] by blast
  note forest = forest_classes [OF p(2,3) same]
  let ?ks = "ord (ends ps)"
  let ?reps = "filter (\<lambda>h. p h = Some h) ?ks"
  have ks: "set ?ks = dom p" using ord p(3) by simp
  have unions: "union_leaves S rm em dr (leaves dr) Map.empty = Some p"
    using union_leaves_all [OF segs] p(1) by (simp add: ps)
  have "filter (\<lambda>l. root_of p l h) ?ks = class_of ps ?ks h" if "p h = Some h" for h
    using forest(2) [OF that] ord by (auto simp: class_of_def intro: filter_cong)
  then have lines: "map (\<lambda>h. set_text (filter (\<lambda>l. root_of p l h) ?ks)) (filter (\<lambda>h. root_of p h h) ?ks) =
      map (\<lambda>h. set_text (class_of ps ?ks h)) ?reps" by (auto simp: forest(1))
  obtain q where "foldM (print_set ?ks) ?ks (parents_text p ?ks, p) =
      Some (parents_text p ?ks @ concat (map (\<lambda>h. set_text (class_of ps ?ks h)) ?reps), q)"
    using print_set_all [OF p(2) ks _ same_roots_refl, of ?ks "parents_text p ?ks"] ks lines by auto
  then have print: "PrintDisjointSets ord S = Some (parents_text p ?ks @
      concat (map (\<lambda>h. set_text (class_of ps ?ks h)) ?reps), S\<lparr>bbl_data_reuse := dr\<rparr>)"
    using unions assms(1-3) p(3) by (simp add: PrintDisjointSets_def parents_text_def Let_def)
  have "clusters_report ?ks ps (parents_text p ?ks @ concat (map (\<lambda>h. set_text (class_of ps ?ks h)) ?reps))"
    unfolding clusters_report_def using p(3) forest(3,4) by (intro exI [of _ p] conjI ballI refl)
  with print show ?thesis by blast
qed

text \<open>On a solver state the search can start from, the leaves are those of its own trie.\<close>

lemma PrintDisjointSets_own:
  assumes "search_ok S" and own: "own_ok S t ls"
    and "tries (bbl_data_reuse S) own_root = Some t" and "leaves (bbl_data_reuse S) = map (Pair own_root) ls"
    and ord: "\<And>A. finite A \<Longrightarrow> set (ord A) = A"
  shows "\<exists>em rm ls' out S'. elapsed_min S = Some em \<and> SingleSegMaxReuseCost S = Some rm \<and>
    distinct ls' \<and> set ls' = set ls \<and> sorted_wrt (\<lambda>p q. the (leaf_at t q) \<le> the (leaf_at t p)) ls' \<and>
    PrintDisjointSets ord S = Some (out, S') \<and>
    (let ps = merged (\<lambda>seg. unimportant S rm em (seg_count seg)) (map (leaf_seg t) ls')
     in clusters_report (ord (ends ps)) ps out)"
proof -
  have "solver_ok S" using assms(1) by (simp add: search_ok_def)
  then obtain em rm where th: "elapsed_min S = Some em" "SingleSegMaxReuseCost S = Some rm"
    by (rule thresholds_defined)
  obtain dr ls' where dr: "SortLeaves (bbl_data_reuse S) = Some dr" "reuse_view dr t ls'" "leaves dr = map (Pair own_root) ls'"
    "own_ok S t ls'" "set ls' = set ls" "sorted_wrt (\<lambda>p q. the (leaf_at t q) \<le> the (leaf_at t p)) ls'"
    by (rule sort_leaves_own [OF own assms(3,4)])
  have t: "tries dr own_root = Some t" using dr(2) by (simp add: reuse_view_def)
  let ?ps = "merged (\<lambda>seg. unimportant S rm em (seg_count seg)) (map (leaf_seg t) ls')"
  have "ExportSegment dr new_segment (own_root, p) = Some (leaf_seg t p) \<and> seg_set (leaf_seg t p) \<noteq> []"
    if "p \<in> set ls'" for p
    using own_leaf [OF dr(4) that t] by (auto simp: seg_size_def)
  then have "list_all2 (\<lambda>l seg. ExportSegment dr new_segment l = Some seg \<and> seg_set seg \<noteq> []) (leaves dr) (map (leaf_seg t) ls')"
    by (simp add: dr(3) list_all2_map1 list_all2_map2 list_all2_same)
  from PrintDisjointSets_spec [OF dr(1) th this refl, of ord]
  obtain out where "PrintDisjointSets ord S = Some (out, S\<lparr>bbl_data_reuse := dr\<rparr>)" "clusters_report (ord (ends ?ps)) ?ps out"
    using ord [of "ends ?ps"] by (auto simp: ends_def)
  moreover have "distinct ls'" using dr(4) by (simp add: own_ok_def)
  ultimately show ?thesis using th dr(5,6) unfolding Let_def by blast
qed

end
