(* ===== verification/Spec2Isabelle.thy ===== *)
theory Spec2Isabelle
  imports Inject_Demo Config_Demo Run_Demo VTune_Calls Trie_Print Solver_Print
begin

text \<open>
  PIMProf decides which basic blocks of a program run on the CPU and which on a processor in memory
  (PIM). An LLVM pass marks every block, a simulator counts what each block costs on either side and
  how data and control move between blocks, and a solver searches for the placement of least cost.
  This library models the C++ of the repository and proves what its parts compute.

  The parts, in the order of the pipeline, the theories that model them and what is shown.

  \<^item> \<open>Prelude\<close>: bounds-checked vectors, ordered maps and sets, loops in the option monad.
    \<open>PIM_Common\<close>: \<open>PIMProfSolver/Common.h\<close>.
  \<^item> Injection. \<open>LLVM_Inject\<close> (\<open>LLVMAnalysis/InjectMagic.h\<close>, \<open>AnnotationInjection.cpp\<close>) and
    \<open>Offload_Inject\<close> (\<open>OffloaderInjection.cpp\<close>) are the passes as functions from modules to modules;
    \<open>Murmur\<close> (\<open>MurmurHash3.cpp\<close>) is the hash that names a block. \<open>Inject_Trace\<close> and \<open>Inject_Correct\<close>
    show that every execution of an injected program brackets its blocks correctly, so that the
    recorder never fails on it. \<open>VTune_Calls\<close> (\<open>PIMProfAnnotation.cpp\<close>) is the run-time function of
    the VTune mode: it passes on the calls without immediate repetitions.
  \<^item> Recording. \<open>Reuse_Trie\<close> and \<open>Switch_Count\<close> (\<open>DataReuse.h\<close>), \<open>Run_Stats\<close>, \<open>Reuse_Chain\<close>,
    \<open>Thread_Stats\<close> and \<open>Block_Ids\<close> (\<open>Stats.h\<close>): the trie of reuse segments, the matrix of switches,
    the state of one thread with its two stacks, the cutting of the accesses to a line into segments,
    and the numbering of the blocks over all threads. Every reachable state keeps its invariant,
    nested traces run, the trie counts exactly the pieces of the accesses, all threads agree on the
    identifiers.
  \<^item> The configuration. \<open>INI_Reader\<close> (\<open>INIReader.h\<close>) is the parser and its typed reads, \<open>INI_Roundtrip\<close>
    the language of its lines: a well-formed file is read as the list of its assignments, each name
    with its values in order. \<open>Config_File\<close> (\<open>Storage.cpp\<close>, \<open>InstructionLatency.cpp\<close>) takes the settings
    of the caches and the latencies out of the reader and reads the written latencies back.
  \<^item> The cache simulation. \<open>Cache_Sets\<close>, \<open>Cache_Levels\<close> and \<open>Cache_Access\<close> (\<open>Storage.h\<close>,
    \<open>Storage.cpp\<close>): replacement policies against their references (most recently used tags, queue),
    the multi-level access, the construction of the hierarchy from a configuration.
  \<^item> The Pin tool. \<open>Pin_Tool\<close> (\<open>PinInstrument.cpp\<close>, \<open>Simulation.cpp\<close>, the comments of \<open>CostPackage.h\<close>)
    and \<open>Pin_Trace\<close>: the handlers as steps of a machine over the events of all threads, refined to
    one stack of open blocks per thread.
  \<^item> Files. \<open>Text_Stream\<close> models the stream operations in use; \<open>Reuse_File\<close>, \<open>Reuse_Roundtrip\<close>,
    \<open>Stats_Print\<close> and \<open>Stats_File\<close> the writers of the recorder and the readers of the solver
    (\<open>CostSolver.cpp\<close>): what is written is read back with the same cost. \<open>Trie_Print\<close> (\<open>DataReuse.h\<close>,
    \<open>Stats.h\<close>) has the two reports the solver does not read, the graph of the trie and the table of
    occurrences: the graph is the trie in preorder, the table counts the recorded segments.
  \<^item> The solver. \<open>Union_Sets\<close> (\<open>Util.h\<close>), \<open>Solver_Cost\<close>, \<open>Solver_Search\<close>, \<open>Search_Correct\<close>,
    \<open>Solver_Cluster\<close>, \<open>Solver_Heuristics\<close> and \<open>Solver_Report\<close> (\<open>CostSolver.h\<close>, \<open>CostSolver.cpp\<close>): the cost
    of a placement is the sum its specification names; the batch search is optimal on its batch; the
    drivers return complete placements that no round beats; clustering follows the least equivalence
    of the hot pairs; the tables report what they should, if they are ever finished. \<open>Solver_Print\<close> is the list of the
    switches a decision pays for, which add up to its switch cost, and the list of the clusters of the
    important segments, which are the classes of the least equivalence of their members.
    \<open>Report_Text\<close> is the printed table, as the offloading pass reads it.
  \<^item> The program. \<open>Command_Line\<close> (\<open>Util.cpp\<close>, \<open>main.cpp\<close>) and \<open>Solver_Run\<close>: from the command line and
    the files to the decision.
  \<^item> \<open>Demo_Instance\<close>, \<open>Cache_Demo\<close>, \<open>Config_Demo\<close>, \<open>Inject_Demo\<close>, \<open>Pin_Demo\<close> and \<open>Run_Demo\<close> hold the
    concrete states the properties are applied to.

  Conventions. Operations are functions in the option monad: \<open>None\<close> is a failed assertion, an
  exception, a read outside a container or a loop that does not end. Loops over containers are
  \<open>foldM\<close>; loops that may run forever (\<open>Find\<close>, the lowering of the threshold in \<open>PrintDecision\<close>, the
  access to a range of addresses) are partial functions, and where they return is proved; there is no
  fuel. Counters are words of the width of the code; identifiers that only index tables are
  integers; a \<open>double\<close> is an exact real, with the divisions by zero written out. Interfaces are the
  locales \<open>cache_set\<close>, \<open>group_hash\<close>, \<open>partition\<close>, \<open>decision_cost\<close>, \<open>accepting_handler\<close> and its extension
  \<open>collecting_handler\<close>, each interpreted where its provider is defined.

  Parameters stand for what is not in the repository: the answers of LLVM (record \<open>LLVM\<close>, laws
  \<open>llvm_laws\<close>) and of Pin (record \<open>INS\<close>), the allocator (\<open>new_addr\<close>, only freshness is used), the order
  of a hash map (\<open>ord\<close>), the values of a \<open>float\<close> counter (\<open>grid\<close>), the settings that are never
  initialised (\<open>start\<close>), how the stream prints a time (\<open>show_cost\<close>), Pin's names of the opcodes and its
  padding (\<open>opcode_name\<close>, \<open>ljstr\<close>), the names of the latency sections (\<open>section_name\<close>), the ITT library
  (\<open>create\<close>) and the file system (\<open>files\<close>).

  Not modelled: the formatting of a \<open>double\<close>; messages and progress output; the statistics printers
  of the cache simulation and of the Pin tool (\<open>StatsLong\<close>, \<open>WriteStats\<close>, \<open>STORAGE::WriteConfig\<close>); the
  infinities and hexadecimal numbers of \<open>strtod\<close>; the parts under
  \<open>PIMPROF_MPKI\<close>, \<open>PIMPROFTRACE\<close> and \<open>TSJ\<close>; destructors; the registration of passes and callbacks; the
  macros of \<open>PIMProfSniperHooks.h\<close>; test programs and scripts. \<open>Storage\<close>, \<open>Simulation\<close> and
  \<open>PinInstrument\<close> are in no build file and use members that are commented out: they are modelled with
  those members restored.
\<close>

section \<open>The cost model\<close>

text \<open>C1. The cost of a placement is exactly the sum of the reuse cost of every leaf of the
  trie, the switch cost of every row, and the elapsed times of the blocks on their sites; no
  read of the three loops is out of range.\<close>

theorem Cost_is_sum:
  assumes "instance_ok S t rows" and "decision_ok S d"
  shows "Cost S d t rows =
    Some (reuse_spec S d t + switch_spec S d rows + elapsed_spec S d CPU + elapsed_spec S d PIM)"
  using Cost_spec [OF assms] by (simp add: cost_spec_def)

theorem Cost_is_sum_witness:
  "Cost demo_solver [CPU, PIM] demo_trie (bbl_switch_count demo_solver) = Some 2021090"
proof -
  have "decision_ok demo_solver [CPU, PIM]" by (simp add: decision_ok_def placed_def)
  from Cost_is_sum [OF demo_instance_ok this] show ?thesis
    unfolding cost_spec_def [symmetric] using demo_cost(2) by simp
qed

text \<open>C2. Walking the trie that \<open>UpdateTrie\<close> built from a sequence of segments charges exactly
  what the segments themselves cost: each segment of two or more blocks that spans both sites
  pays a flush and a fetch per occurrence, every other one is free.\<close>

theorem ReuseCost_of_segments:
  assumes "solver_ok S" and "segs_ok segs" and "segs_in (block_count S) segs" and "length d = block_count S"
  shows "\<exists>dr t. insert_segs own_root segs new_DataReuse = Some dr \<and> tries dr own_root = Some t \<and>
    ReuseCost S d t =
      Some (\<Sum>seg \<leftarrow> big segs. real (unat (seg_count seg)) *
        (if uniform d (seg_set seg @ [the (seg_head seg)]) then 0
         else if d ! nat (the (seg_head seg)) = CPU then flush_cost S ! 0 + fetch_cost S ! 1
         else flush_cost S ! 1 + fetch_cost S ! 0))"
proof -
  obtain dr t where dr: "insert_segs own_root segs new_DataReuse = Some dr" "tries dr = [own_root \<mapsto> t]"
    "trie_holds t segs" "keys_in (length d) t"
    using insert_segs_instance [OF assms(2,3)] assms(4) by metis
  then have "tries dr own_root = Some t" by simp
  moreover note ReuseCost_segments [OF assms(1) dr(3,4)]
  ultimately show ?thesis using dr(1) by (simp add: seg_cost_def seg_key_def cong: if_cong)
qed

theorem ReuseCost_of_segments_witness:
  "\<exists>dr t. insert_segs own_root demo_segs new_DataReuse = Some dr \<and> tries dr own_root = Some t \<and>
    ReuseCost demo_solver [CPU, PIM] t = Some 9090"
proof -
  have len: "segs_in (block_count demo_solver) demo_segs" "length [CPU, PIM] = block_count demo_solver"
    using demo_segs_ok(2) by simp_all
  from ReuseCost_of_segments [OF demo_solver_ok demo_segs_ok(1) len] show ?thesis
    by (simp add: demo_segs_def big_def seg_size_def uniform_def)
qed

text \<open>C3. Every leaf gives back the segment it stands for: after any sequence of well-formed
  segments the leaf list names each distinct segment of two or more blocks exactly once, and
  \<open>ExportSegment\<close> returns its members, its head and the sum of its counts.\<close>

theorem trie_roundtrip:
  assumes "segs_ok segs"
  shows "\<exists>dr. insert_segs own_root segs new_DataReuse = Some dr \<and> distinct (leaves dr) \<and>
    set (leaves dr) = Pair own_root ` seg_key ` set (big segs) \<and>
    (\<forall>p \<in> seg_key ` set (big segs). ExportSegment dr new_segment (own_root, p) =
       Some \<lparr>seg_head = Some (last p), seg_set = butlast p, seg_count = of_nat (key_total segs p)\<rparr>)"
  by (rule insert_segs_exports [OF assms])

theorem trie_roundtrip_witness:
  "\<exists>dr. insert_segs own_root demo_segs new_DataReuse = Some dr \<and>
    set (leaves dr) = {(own_root, [0, 1, 0]), (own_root, [0, 1, 1])} \<and>
    ExportSegment dr new_segment (own_root, [0, 1, 0]) = Some \<lparr>seg_head = Some 0, seg_set = [0, 1], seg_count = 100\<rparr>"
  using trie_roundtrip [OF demo_segs_ok(1)] demo_segs_big by auto

section \<open>The search for a placement\<close>

text \<open>C4. The exhaustive search over a batch returns a placement that differs from the given one
  in the blocks of the batch only, and no such placement is cheaper.\<close>

theorem PermuteDecision_optimal:
  assumes "instance_ok S t (bbl_switch_count S)" and "decision_ok S d" and "batch_ok (block_count S) batch"
    and "\<And>e. variant batch d e \<Longrightarrow> cost_spec S e t (bbl_switch_count S) < FLT_MAX"
  shows "\<exists>c d'. PermuteDecision S d batch t = Some (c, d') \<and> variant batch d d' \<and>
    c = cost_spec S d' t (bbl_switch_count S) \<and>
    (\<forall>e. variant batch d e \<longrightarrow> c \<le> cost_spec S e t (bbl_switch_count S))"
proof -
  let ?i = "(S, t, bbl_switch_count S)"
  have len: "length d = block_count S" and pl: "\<forall>s \<in> set d. placed s" using assms(2) by (simp_all add: decision_ok_def)
  have cost: "Cost S e t (bbl_switch_count S) = Some (cost_spec S e t (bbl_switch_count S))" if "variant batch d e" for e
    using Cost_spec [OF assms(1)] placed_variant [OF that pl] variant_length [OF that] len
    by (simp add: decision_ok_def)
  obtain c d' where r: "permute_all (\<lambda>d. Cost S d t (bbl_switch_count S)) d batch = Some (c, d')"
    "variant batch d d'" "Cost S d' t (bbl_switch_count S) = Some c"
    "\<And>e. variant batch d e \<Longrightarrow> c \<le> the (Cost S e t (bbl_switch_count S))"
    using solver.permute_all_optimal [of ?i d batch] assms(1,3,4) len pl cost by auto
  then show ?thesis using cost by (auto simp: PermuteDecision_def)
qed

theorem PermuteDecision_optimal_witness:
  "\<exists>c d'. PermuteDecision demo_solver [INVALID, INVALID] [0, 1] demo_trie = Some (c, d') \<and> c \<le> 2021090"
proof -
  have v: "variant [0, 1] [INVALID, INVALID] e \<longleftrightarrow> complete e \<and> length e = 2" for e
    by (auto simp: variant_def complete_def numeral_2_eq_2 length_Suc_conv All_less_Suc)
  have small: "cost_spec demo_solver e demo_trie (bbl_switch_count demo_solver) < FLT_MAX"
    if "variant [0, 1] [INVALID, INVALID] e" for e
    using demo_decisions [of e] that unfolding v by (auto simp: FLT_MAX_def simp del: demo_fields)
  have ok: "decision_ok demo_solver [INVALID, INVALID]" "batch_ok (block_count demo_solver) [0, 1]"
    by (simp_all add: decision_ok_def placed_def batch_ok_def)
  obtain c d' where "PermuteDecision demo_solver [INVALID, INVALID] [0, 1] demo_trie = Some (c, d')"
    and le: "\<forall>e. variant [0, 1] [INVALID, INVALID] e \<longrightarrow>
      c \<le> cost_spec demo_solver e demo_trie (bbl_switch_count demo_solver)"
    using PermuteDecision_optimal [OF demo_instance_ok ok small] by blast
  moreover have "variant [0, 1] [INVALID, INVALID] [CPU, PIM]" unfolding v by (simp add: complete_def)
  ultimately show ?thesis using le demo_cost(2) by metis
qed

text \<open>C5. When some leaf is below the importance threshold, \<open>PrintReuseStats\<close> reads nothing out
  of range, every block ends on the CPU or the PIM side, the reported total is the cost of the
  placement, and it is the cheapest of the three rounds (all CPU, all PIM, all undecided).\<close>

theorem PrintReuseStats_best_round:
  assumes "search_ok S" and "own_ok S t ls"
    and "tries (bbl_data_reuse S) own_root = Some t" and "leaves (bbl_data_reuse S) = map (Pair own_root) ls"
    and "\<And>m. set (ord m) = set m"
    and "elapsed_min S = Some em" and "SingleSegMaxReuseCost S = Some rm"
    and "\<exists>p \<in> set ls. unimportant S rm em (the (leaf_at t p))"
    and "\<And>d. complete d \<Longrightarrow> length d = block_count S \<Longrightarrow> cost_spec S d t (bbl_switch_count S) < FLT_MAX"
  shows "\<exists>d S' dr0 d1 dr1 d2 dr2 d3 dr3.
    PrintReuseStats ord S = Some (d, cost_spec S d t (bbl_switch_count S), S') \<and>
    complete d \<and> length d = block_count S \<and> SortLeaves (bbl_data_reuse S) = Some dr0 \<and>
    reuse_round ord S rm em 1 CPU dr0 = Some (d1, cost_spec S d1 t (bbl_switch_count S), dr1) \<and>
    reuse_round ord S rm em 2 PIM dr1 = Some (d2, cost_spec S d2 t (bbl_switch_count S), dr2) \<and>
    reuse_round ord S rm em 3 INVALID dr2 = Some (d3, cost_spec S d3 t (bbl_switch_count S), dr3) \<and>
    d \<in> {d1, d2, d3} \<and>
    (\<forall>e \<in> {d1, d2, d3}. cost_spec S d t (bbl_switch_count S) \<le> cost_spec S e t (bbl_switch_count S))"
  by (rule PrintReuseStats_spec [OF assms(1-8)]) (use assms(9) in blast)+

theorem PrintReuseStats_best_round_witness:
  "\<exists>d c S'. PrintReuseStats rev demo_solver = Some (d, c, S') \<and> complete d \<and> length d = 2"
proof -
  have small: "cost_spec demo_solver d demo_trie (bbl_switch_count demo_solver) < FLT_MAX"
    if "complete d" "length d = block_count demo_solver" for d
    using demo_decisions [of d] that by (auto simp: FLT_MAX_def simp del: demo_fields(3))
  have low: "\<exists>p \<in> set [[0, 1, 0], [0, 1, 1]]. unimportant demo_solver 90 3000000 (the (leaf_at demo_trie p))"
    by (simp add: unimportant_def) (simp add: demo_trie_def)
  have ord: "set (rev m) = set m" for m :: "(BBLID \<times> u64) list" by simp
  show ?thesis
    using PrintReuseStats_best_round [OF demo_search_ok demo_own_ok _ demo_fields(5) ord demo_thresholds low small]
    by (simp del: demo_fields(3,5)) blast
qed

text \<open>C6. When every leaf reaches the threshold (in particular when there is no leaf at all), the
  descent of \<open>PrintReuseStats\<close> starts at index \<open>leaves_size\<close>, one past the last leaf: the read has
  no defined result.\<close>

theorem PrintReuseStats_overrun:
  assumes "search_ok S" and "own_ok S t ls"
    and "tries (bbl_data_reuse S) own_root = Some t" and "leaves (bbl_data_reuse S) = map (Pair own_root) ls"
    and "elapsed_min S = Some em" and "SingleSegMaxReuseCost S = Some rm"
    and "\<forall>p \<in> set ls. \<not> unimportant S rm em (the (leaf_at t p))"
  shows "PrintReuseStats ord S = None"
  by (rule reuse_search_overrun [OF assms])

theorem PrintReuseStats_overrun_witness:
  "PrintReuseStats rev (demo_solver\<lparr>bbl_data_reuse := new_DataReuse\<rparr>) = None"
proof -
  let ?S = "demo_solver\<lparr>bbl_data_reuse := new_DataReuse\<rparr>"
  have ok: "search_ok ?S"
    using demo_search_ok by (simp add: search_ok_def solver_ok_def block_count_def del: demo_fields)
  have own: "own_ok ?S (new_node None) []" by (simp add: own_ok_def new_node_def)
  obtain em rm where th: "elapsed_min ?S = Some em" "SingleSegMaxReuseCost ?S = Some rm"
    using thresholds_defined ok unfolding search_ok_def by blast
  show ?thesis
    by (rule PrintReuseStats_overrun [OF ok own _ _ th]) (simp_all add: new_DataReuse_def)
qed

text \<open>C7. Filling up and swapping: the undecided blocks go where they run faster, the decided ones
  stay, and the two rounds of swaps end in a complete placement that costs no more.\<close>

theorem improve_never_worse:
  assumes "search_ok S" and "own_ok S t ls" and "tries dr own_root = Some t" and "decision_ok S d"
  shows "\<exists>e d'. fill_invalid S d = Some e \<and>
    (\<forall>i < block_count S. e ! i = (if d ! i = INVALID then faster S i else d ! i)) \<and>
    improve S dr d = Some (d', cost_spec S d' t (bbl_switch_count S)) \<and>
    complete d' \<and> length d' = block_count S \<and>
    cost_spec S d' t (bbl_switch_count S) \<le> cost_spec S e t (bbl_switch_count S)"
proof -
  obtain e d' where e: "fill_invalid S d = Some e"
    "improve S dr d = Some (d', cost_spec S d' t (bbl_switch_count S))" "complete d'" "length d' = block_count S"
    "cost_spec S d' t (bbl_switch_count S) \<le> cost_spec S e t (bbl_switch_count S)"
    by (rule improve_spec [OF assms]) blast
  moreover have "solver_ok S" using assms(1) by (simp add: search_ok_def)
  then have "\<forall>i < block_count S. e ! i = (if d ! i = INVALID then faster S i else d ! i)"
    using e(1) fill_invalid_spec [OF _ assms(4)] by (metis option.inject)
  ultimately show ?thesis by blast
qed

theorem improve_never_worse_witness:
  "\<exists>d' c. improve demo_solver (bbl_data_reuse demo_solver) [INVALID, PIM] = Some (d', c) \<and> complete d'"
proof -
  have "decision_ok demo_solver [INVALID, PIM]" by (simp add: decision_ok_def placed_def)
  moreover have "tries (bbl_data_reuse demo_solver) own_root = Some demo_trie" by simp
  ultimately show ?thesis
    using improve_never_worse [OF demo_search_ok demo_own_ok] by blast
qed

text \<open>The single-round drivers return a complete placement and report its cost.\<close>

theorem Debug_drivers_complete:
  assumes "search_ok S" and "own_ok S t ls"
    and "tries (bbl_data_reuse S) own_root = Some t" and "leaves (bbl_data_reuse S) = map (Pair own_root) ls"
    and "\<And>m. set (ord m) = set m"
    and "elapsed_min S = Some em" and "SingleSegMaxReuseCost S = Some rm"
    and "\<exists>p \<in> set ls. unimportant S rm em (the (leaf_at t p))"
  shows "(\<exists>d S'. Debug_HierarchicalDecision ord S = Some (d, cost_spec S d t (bbl_switch_count S), S') \<and>
      complete d \<and> length d = block_count S) \<and>
    (\<exists>d S'. Debug_StartFromUnimportantSegment S = Some (d, cost_spec S d t (bbl_switch_count S), S') \<and>
      complete d \<and> length d = block_count S)"
proof
  show "\<exists>d S'. Debug_HierarchicalDecision ord S = Some (d, cost_spec S d t (bbl_switch_count S), S') \<and>
      complete d \<and> length d = block_count S"
    by (rule Debug_HierarchicalDecision_spec [OF assms]) blast
  show "\<exists>d S'. Debug_StartFromUnimportantSegment S = Some (d, cost_spec S d t (bbl_switch_count S), S') \<and>
      complete d \<and> length d = block_count S"
    by (rule Debug_StartFromUnimportantSegment_spec [OF assms(1-4,6-8)]) blast
qed

theorem Debug_drivers_complete_witness:
  "(\<exists>d c S'. Debug_HierarchicalDecision rev demo_solver = Some (d, c, S') \<and> complete d) \<and>
   (\<exists>d c S'. Debug_StartFromUnimportantSegment demo_solver = Some (d, c, S') \<and> complete d)"
proof -
  have low: "\<exists>p \<in> set [[0, 1, 0], [0, 1, 1]]. unimportant demo_solver 90 3000000 (the (leaf_at demo_trie p))"
    by (simp add: unimportant_def) (simp add: demo_trie_def)
  have ord: "set (rev m) = set m" for m :: "(BBLID \<times> u64) list" by simp
  show ?thesis
    using Debug_drivers_complete [OF demo_search_ok demo_own_ok _ demo_fields(5) ord demo_thresholds low]
    by (simp del: demo_fields(3,5)) blast
qed

section \<open>Placements that look at one block at a time\<close>

text \<open>C8. The greedy placement minimises the sum of the elapsed times over all placements.\<close>

theorem Greedy_minimises_elapsed_time:
  assumes "report_ok S t"
  shows "\<exists>d. PrintGreedyStats S = Some (d, cost_spec S d t (bbl_switch_count S), S) \<and>
    complete d \<and> length d = block_count S \<and>
    (\<forall>e. complete e \<longrightarrow> length e = block_count S \<longrightarrow>
       elapsed_spec S d CPU + elapsed_spec S d PIM \<le> elapsed_spec S e CPU + elapsed_spec S e PIM)"
  using PrintGreedyStats_spec [OF assms] greedy_minimal [of _ S]
  by (intro exI [of _ "greedy S"]) (auto simp: complete_def greedy_def faster_def)

theorem Greedy_minimises_elapsed_time_witness:
  "\<exists>d c. PrintGreedyStats demo_solver = Some (d, c, demo_solver) \<and>
    elapsed_spec demo_solver d CPU + elapsed_spec demo_solver d PIM
      \<le> elapsed_spec demo_solver [CPU, CPU] CPU + elapsed_spec demo_solver [CPU, CPU] PIM"
proof -
  have "complete [CPU, CPU]" "length [CPU, CPU] = block_count demo_solver" by (simp_all add: complete_def)
  with Greedy_minimises_elapsed_time [OF demo_report_ok] show ?thesis by blast
qed

text \<open>The MPKI placement: the global block stays on the CPU, any other block goes to PIM exactly
  when it misses often, runs with enough threads and executes more than one percent of the
  instructions; the reported total is the cost of that placement.\<close>

theorem PrintMPKIStats_places:
  assumes "report_ok S t"
  shows "\<exists>d. PrintMPKIStats S = Some (d, cost_spec S d t (bbl_switch_count S), S) \<and> length d = block_count S \<and>
    (\<forall>i < block_count S. d ! i = PIM \<longleftrightarrow>
       (let c = sorted_CPU S ! i; p = sorted_PIM S ! i; n = unat (instruction_count p) in
        bblhash c \<noteq> GLOBAL_BBLHASH \<and> 0 < n \<and>
        real (unat (memory_access p)) / real n * 1000 > of_int (mpki_threshold S) \<and>
        parallelism p > parallelism_threshold S \<and>
        n > unat (instr_threshold (pim_total_instr S) (1 / 100)))) \<and>
    (\<forall>i < block_count S. d ! i \<in> {CPU, PIM})"
  using PrintMPKIStats_spec [OF assms]
  by (intro exI [of _ "placed_by S (mpki_site S)"])
    (auto simp: placed_by_nth mpki_site_def mpki_above_def Let_def unat_gt_0)

theorem PrintMPKIStats_places_witness:
  "\<exists>d c. PrintMPKIStats demo_solver = Some (d, c, demo_solver) \<and> length d = 2"
  using PrintMPKIStats_places [OF demo_report_ok] by force

text \<open>A placement read from the CTS file: the file decides, a block it does not name stays on the
  CPU, and the block of \<open>main\<close> goes where it runs faster.\<close>

theorem CTS_placement:
  assumes "report_ok S t" and "\<forall>(h, s) \<in> set file. s \<in> {CPU, PIM}"
  shows "\<exists>d. PrintCTSStatsFromfile S file = Some (d, cost_spec S d t (bbl_switch_count S), S) \<and>
    complete d \<and> length d = block_count S \<and>
    (\<forall>i < block_count S. d ! i =
       (if bblhash (sorted_CPU S ! i) = MAIN_BBLHASH then faster S i
        else case map_of file (bblhash (sorted_CPU S ! i)) of Some s \<Rightarrow> s | None \<Rightarrow> CPU))"
  by (rule PrintCTSStatsFromfile_spec [OF assms])

theorem CTS_placement_witness:
  "\<exists>d c. PrintCTSStatsFromfile demo_solver [((2, 2), PIM)] = Some (d, c, demo_solver) \<and> d ! 1 = PIM"
proof -
  have "\<forall>(h, s) \<in> set [((2, 2), PIM)]. s \<in> {CPU, PIM}" by simp
  from CTS_placement [OF demo_report_ok this] obtain d where
    d: "PrintCTSStatsFromfile demo_solver [((2, 2), PIM)] =
        Some (d, cost_spec demo_solver d demo_trie (bbl_switch_count demo_solver), demo_solver)"
    and at: "\<forall>i < block_count demo_solver. d ! i =
       (if bblhash (sorted_CPU demo_solver ! i) = MAIN_BBLHASH then faster demo_solver i
        else case map_of [((2, 2), PIM)] (bblhash (sorted_CPU demo_solver ! i)) of Some s \<Rightarrow> s | None \<Rightarrow> CPU)"
    by blast
  have "d ! 1 = PIM" using at [rule_format, of 1] by (simp add: MAIN_BBLHASH_def)
  with d show ?thesis by blast
qed

text \<open>A placement read from the SCA file: a \<open>Follower\<close> takes the site of the block before it
  (the first one follows PIM); then the clusters are decided again, and the result is complete.\<close>

theorem SCA_file_placement:
  assumes "report_ok S t" and "moves_ok S" and "\<forall>(h, s) \<in> set file. s \<in> {CPU, PIM, Follower}"
  shows "\<exists>d0 d. length d0 = block_count S \<and>
    (\<forall>i < block_count S. d0 ! i = follow_site S file i (if i = 0 then PIM else d0 ! (i - 1))) \<and>
    TopReuseBBPairs S d0 = Some d \<and> complete d \<and> length d = block_count S \<and>
    PrintSCAStatsFromfile S file = Some (d, cost_spec S d t (bbl_switch_count S), S)"
  by (rule PrintSCAStatsFromfile_spec [OF assms])

lemma demo_moves: "interBBTotalCost demo_solver = Some [((0, 1), 15600)]"
  by (simp add: interBBTotalCost_def omap_add_def)
    (simp add: demo_solver_def set_costs_def omap_add_def)

lemma demo_moves_ok: "moves_ok demo_solver"
  by (simp add: moves_ok_def demo_moves)

theorem SCA_file_placement_witness:
  "\<exists>d c. PrintSCAStatsFromfile demo_solver (scaDecision demo_solver) = Some (d, c, demo_solver) \<and> complete d"
proof -
  have "\<forall>(h, s) \<in> set (scaDecision demo_solver). s \<in> {CPU, PIM, Follower}"
    by (simp add: demo_solver_def set_costs_def)
  from SCA_file_placement [OF demo_report_ok demo_moves_ok this] show ?thesis by blast
qed

text \<open>C9. Clustering: the blocks of the pairs whose data movement reaches the threshold are grouped
  by the least equivalence that relates the pairs; all blocks of one group get one site, PIM when
  the SCA file votes PIM at least half as often as not; every other block keeps its site.\<close>

theorem TopReuseBBPairs_clusters:
  assumes "interBBTotalCost S = Some tot" and "tot \<noteq> []"
    and "\<forall>((m, n), c) \<in> set tot. 0 \<le> m \<and> m < int (length d) \<and> 0 \<le> n \<and> n < int (length d)"
    and "length d = block_count S"
    and "ps = hot_pairs (dataMoveThreshold S * snd (hd (sort_key (\<lambda>e. - snd e) tot))) (sort_key (\<lambda>e. - snd e) tot)"
  shows "\<exists>d'. TopReuseBBPairs S d = Some d' \<and> length d' = length d \<and>
    (\<forall>i < length d. d' ! i =
       (if int i \<in> ends ps
        then vote_site (tally (\<lambda>x. sca_is_pim S x = Some True)
               (filter (\<lambda>x. (x, int i) \<in> linked ps) (hot_blocks ps)))
        else d ! i)) \<and>
    (\<forall>i < length d. \<forall>j < length d. (int i, int j) \<in> linked ps \<longrightarrow> int i \<in> ends ps \<longrightarrow> d' ! i = d' ! j)"
proof -
  obtain d' where d': "TopReuseBBPairs S d = Some d'" "length d' = length d"
    "\<forall>i < length d. d' ! i = (if int i \<in> ends ps
        then vote_site (tally (\<lambda>x. sca_is_pim S x = Some True)
               (filter (\<lambda>x. (x, int i) \<in> linked ps) (hot_blocks ps)))
        else d ! i)"
    using TopReuseBBPairs_spec [OF assms] by blast
  have "d' ! i = d' ! j" if ij: "i < length d" "j < length d" "(int i, int j) \<in> linked ps" "int i \<in> ends ps" for i j
  proof -
    have "int j \<in> ends ps"
      using ij(3,4) linked_outside [OF linked_sym [OF ij(3)]] by metis
    moreover have "(x, int i) \<in> linked ps \<longleftrightarrow> (x, int j) \<in> linked ps" for x
      using ij(3) linked_trans linked_sym by blast
    ultimately show ?thesis using d'(3) ij by simp
  qed
  with d' show ?thesis by blast
qed

theorem TopReuseBBPairs_clusters_witness:
  "\<exists>d'. TopReuseBBPairs demo_solver [CPU, PIM] = Some d' \<and> length d' = 2"
  using TopReuseBBPairs_clusters [OF demo_moves, of "[CPU, PIM]"] by fastforce

text \<open>Without any recorded data movement \<open>vec[0]\<close> is read from an empty vector, so the SCA
  placement has no defined result.\<close>

theorem SCA_file_no_moves:
  assumes "interBBTotalCost S = Some []"
  shows "PrintSCAStatsFromfile S file = None"
proof -
  have "interBBTotalCost S' = Some []" if "getBBLSortedStats S = Some S'" for S'
    using that assms
    by (auto simp: getBBLSortedStats_def interBBTotalCost_def Let_def bind_eq_Some_conv split: if_splits)
  then show ?thesis by (auto simp: PrintSCAStatsFromfile_def TopReuseBBPairs_no_moves bind_eq_None_conv)
qed

theorem SCA_file_no_moves_witness:
  "PrintSCAStatsFromfile (demo_solver\<lparr>interBB_CL_DM := [], interBB_REG_DM := []\<rparr>) [] = None"
  by (rule SCA_file_no_moves) (simp add: interBBTotalCost_def)



section \<open>The data structures of the solver\<close>

text \<open>Merging a list of pairs in the disjoint sets, with path halving in every \<open>Find\<close>, computes
  the least equivalence relating them: two blocks are in one set exactly when they are linked.\<close>

theorem Union_all_least_equivalence:
  "\<exists>p. Union_all Map.empty ps = Some p \<and> uf_ok p \<and> dom p = ends ps \<and>
     (\<forall>x y. same_set p x y \<longleftrightarrow> x \<in> ends ps \<and> y \<in> ends ps \<and> (x, y) \<in> linked ps)"
  by (rule Union_all_spec)

text \<open>C11. \<open>PrintDisjointSets\<close> lists the clusters of the important segments: the leaves in descending
  order up to the first below the threshold are united member by member, and the report has, for
  every block, one it is linked to, and then exactly one line per class of the least equivalence,
  with the blocks of the class and their number; no search in the forest fails or runs for ever.\<close>

theorem PrintDisjointSets_classes:
  assumes "search_ok S" and "own_ok S t ls"
    and "tries (bbl_data_reuse S) own_root = Some t" and "leaves (bbl_data_reuse S) = map (Pair own_root) ls"
    and "\<And>A. finite A \<Longrightarrow> set (ord A) = A"
  shows "\<exists>em rm ls' out S'. elapsed_min S = Some em \<and> SingleSegMaxReuseCost S = Some rm \<and>
    distinct ls' \<and> set ls' = set ls \<and> sorted_wrt (\<lambda>p q. the (leaf_at t q) \<le> the (leaf_at t p)) ls' \<and>
    PrintDisjointSets ord S = Some (out, S') \<and>
    (let ps = merged (\<lambda>seg. unimportant S rm em (seg_count seg)) (map (leaf_seg t) ls')
     in clusters_report (ord (ends ps)) ps out)"
  by (rule PrintDisjointSets_own [OF assms])

theorem PrintDisjointSets_classes_witness:
  "\<exists>out S'. PrintDisjointSets sorted_list_of_set demo_solver = Some (out, S') \<and>
    clusters_report [0, 1] [(0, 0), (0, 1), (0, 0), (0, 1)] out"
proof -
  have fin: "set (sorted_list_of_set A) = A" if "finite A" for A :: "BBLID set" using that by simp
  obtain ls out S' where ls: "distinct ls" "set ls = {[0, 1, 0], [0, 1, 1]}"
    "sorted_wrt (\<lambda>p q. the (leaf_at demo_trie q) \<le> the (leaf_at demo_trie p)) ls"
    and out: "PrintDisjointSets sorted_list_of_set demo_solver = Some (out, S')"
    "let ps = merged (\<lambda>seg. unimportant demo_solver 90 3000000 (seg_count seg)) (map (leaf_seg demo_trie) ls)
     in clusters_report (sorted_list_of_set (ends ps)) ps out"
    using PrintDisjointSets_classes [OF demo_search_ok demo_own_ok _ demo_fields(5) fin] demo_thresholds
    by (simp del: demo_fields(5)) blast
  have "length ls = 2" using distinct_card [OF ls(1)] ls(2) by simp
  then obtain p q where pq: "ls = [p, q]" by (auto simp: numeral_2_eq_2 length_Suc_conv)
  have counts: "leaf_at demo_trie [0, 1, 0] = Some 100" "leaf_at demo_trie [0, 1, 1] = Some 1" by (simp_all add: demo_trie_def)
  have "{p, q} = {[0, 1, 0], [0, 1, 1]}" using ls(2) pq by simp
  then have "ls = [[0, 1, 0], [0, 1, 1]]" using ls(3) pq counts by (auto simp: doubleton_eq_iff word_le_nat_alt)
  then have ps: "merged (\<lambda>seg. unimportant demo_solver 90 3000000 (seg_count seg)) (map (leaf_seg demo_trie) ls) =
      [(0, 0), (0, 1), (0, 0), (0, 1)]"
    using counts by (simp add: leaf_seg_def segment_pairs_def unimportant_def)
  have "ends [(0, 0), (0, 1), (0, 0), (0, 1)] = {0, 1}" by (auto simp: ends_def)
  moreover have "sorted_list_of_set {0, 1 :: BBLID} = [0, 1]" by simp
  ultimately have "clusters_report [0, 1] [(0, 0), (0, 1), (0, 0), (0, 1)] out"
    using out(2) unfolding ps Let_def by simp
  with out(1) show ?thesis by blast
qed

text \<open>C12. The switch matrix counts: whatever the order of the insertions, the counter of a pair is
  the sum inserted for it and the total of a source the sum of its row.\<close>

theorem SwitchCountMatrix_counts:
  "\<exists>m. matrix_inserts es = Some m \<and> matrix_ok m \<and>
     (\<forall>x y. matrix_count m x y = (\<Sum>(f, t, c) \<leftarrow> es. if x = f \<and> y = t then c else 0)) \<and>
     (\<forall>x. matrix_total m x = (\<Sum>(f, t, c) \<leftarrow> es. if x = f then c else 0))"
  by (rule matrix_inserts_spec)

text \<open>Aligning the statistics of the two runs: the CPU side is sorted by hash, the PIM side has
  the same blocks in the same order, with its own time where it ran the block and 0 otherwise.\<close>

theorem getBBLSortedStats_aligns:
  assumes "stale S" and "sorted_PIM S = []"
    and "stats_map_ok (hash2stats_CPU S)" and "stats_map_ok (hash2stats_PIM S)"
  shows "\<exists>S'. getBBLSortedStats S = Some S' \<and> \<not> stale S' \<and>
    sorted_CPU S' = SortStatsMap (hash2stats_CPU S) \<and>
    sorted_wrt (<) (map bblhash (sorted_CPU S')) \<and> aligned (sorted_CPU S') (sorted_PIM S') \<and>
    list_all2 (\<lambda>c p. max_time p =
        (case map_of (hash2stats_PIM S) (bblhash c) of Some q \<Rightarrow> max_time q | None \<Rightarrow> Some 0))
      (sorted_CPU S') (sorted_PIM S')"
  using getBBLSortedStats_spec [OF assms] by blast

theorem getBBLSortedStats_aligns_witness:
  "\<exists>S'. getBBLSortedStats (empty_solver
      \<lparr>hash2stats_CPU := [((1, 1), (demo_stats 0 1 5)\<lparr>dirty := True\<rparr>)], hash2stats_PIM := []\<rparr>) = Some S' \<and>
    aligned (sorted_CPU S') (sorted_PIM S') \<and> length (sorted_CPU S') = 1"
proof -
  let ?S = "empty_solver\<lparr>hash2stats_CPU := [((1, 1), (demo_stats 0 1 5)\<lparr>dirty := True\<rparr>)], hash2stats_PIM := []\<rparr>"
  have "stale ?S" "sorted_PIM ?S = []" "stats_map_ok (hash2stats_CPU ?S)" "stats_map_ok (hash2stats_PIM ?S)"
    by (simp_all add: empty_solver_def stats_map_ok_def fresh_threads_def) (simp_all add: demo_stats_def)
  from getBBLSortedStats_aligns [OF this] obtain S' where
    "getBBLSortedStats ?S = Some S'" "aligned (sorted_CPU S') (sorted_PIM S')"
    "sorted_CPU S' = SortStatsMap (hash2stats_CPU ?S)" by blast
  moreover have "length (SortStatsMap (hash2stats_CPU ?S)) = 1" by (simp add: SortStatsMap_def)
  ultimately show ?thesis by auto
qed

text \<open>The elapsed time of a block that was filled thread by thread is the maximum over its
  threads, and reading it again gives the same value.\<close>

theorem MaxElapsedTime_is_max:
  assumes "fresh_threads s"
  shows "\<exists>s'. MaxElapsedTime s = Some (Max (set (thread_elapsed_time s)), s') \<and>
    MaxElapsedTime s' = Some (Max (set (thread_elapsed_time s)), s') \<and>
    thread_elapsed_time s' = thread_elapsed_time s"
  using MaxElapsedTime_fresh [OF assms] MaxElapsedTime_stable by blast

theorem MaxElapsedTime_is_max_witness:
  "\<exists>s'. MaxElapsedTime ((demo_stats 0 1 5)\<lparr>dirty := True\<rparr>) = Some (5, s')"
proof -
  have f: "fresh_threads ((demo_stats 0 1 5)\<lparr>dirty := True\<rparr>)"
    by (simp add: fresh_threads_def demo_stats_def)
  have "Max (set (thread_elapsed_time ((demo_stats 0 1 5)\<lparr>dirty := True\<rparr>))) = 5"
    by (simp add: demo_stats_def)
  with MaxElapsedTime_is_max [OF f] show ?thesis by metis
qed

text \<open>Merging two \<open>ThreadRunStats\<close> adds the times per thread but not the sorted copy the
  maximum is read from: the merged object reports the time it had before.\<close>

theorem MergeStats_threads_keeps_old_time:
  assumes "fresh_threads s" and "length (thread_elapsed_time r) = length (thread_elapsed_time s)"
  shows "thread_elapsed_time (MergeStats_threads s r) =
      map2 (+) (thread_elapsed_time s) (thread_elapsed_time r) \<and>
    max_time (MergeStats_threads s r) = max_time s"
  by (rule MergeStats_threads_stale [OF assms])

theorem MergeStats_threads_keeps_old_time_witness:
  "max_time (MergeStats_threads ((demo_stats 0 1 5)\<lparr>dirty := True\<rparr>) (demo_stats 0 1 7)) = Some 5"
proof -
  let ?s = "(demo_stats 0 1 5)\<lparr>dirty := True\<rparr>"
  have f: "fresh_threads ?s" "length (thread_elapsed_time (demo_stats 0 1 7)) = length (thread_elapsed_time ?s)"
    by (simp_all add: fresh_threads_def demo_stats_def)
  have "max_time ?s = Some 5" using max_time_fresh [OF f(1)] by (simp add: demo_stats_def)
  with MergeStats_threads_keeps_old_time [OF f] show ?thesis by simp
qed

section \<open>Recording\<close>

text \<open>C13. Whatever the interleaving of the accesses to the cache lines, the recorder ends with a
  trie in which the leaf of a path counts how often a piece with that head and those blocks was
  cut off: the list of accesses to a line is cut after every store, which also opens the next
  piece, and before every miss.\<close>

theorem recorded_segments:
  assumes "length accs < 2 ^ 64"
  shows "\<exists>m dr t. run_accesses accs (Map.empty, new_DataReuse) = Some (m, dr) \<and> tries dr own_root = Some t \<and>
    (\<forall>p. map_option unat (leaf_at t p) = (if pieces_at accs p = 0 then None else Some (pieces_at accs p)))"
  by (rule run_accesses_leaves [OF assms])

theorem recorded_segments_witness:
  "\<exists>m dr t c. run_accesses demo_accs (Map.empty, new_DataReuse) = Some (m, dr) \<and> tries dr own_root = Some t \<and>
    leaf_at t [1, 2, 1] = Some c \<and> unat c = 1 \<and> leaf_at t [3, 3] = None"
proof -
  have "length demo_accs < 2 ^ 64" by (simp add: demo_accs_def)
  from recorded_segments [OF this] obtain m dr t where
    r: "run_accesses demo_accs (Map.empty, new_DataReuse) = Some (m, dr)" "tries dr own_root = Some t"
    and p: "\<forall>p. map_option unat (leaf_at t p) =
      (if pieces_at demo_accs p = 0 then None else Some (pieces_at demo_accs p))" by blast
  have n: "pieces_at demo_accs [1, 2, 1] = 1" "pieces_at demo_accs [3, 3] = 0"
    by (simp_all add: pieces_at_def demo_pieces seg_size_def seg_key_def)
  have "map_option unat (leaf_at t [1, 2, 1]) = Some 1" "map_option unat (leaf_at t [3, 3]) = None"
    using p n by simp_all
  then show ?thesis using r by auto
qed



text \<open>C15. A correctly nested trace runs to its end: no assertion fails, nothing is read from an
  empty stack, and both stacks are as before.\<close>

theorem balanced_trace_runs:
  assumes "allocates na" and "balanced es" and "length es < 2 ^ 64"
  shows "\<exists>ts'. run na es (new_ThreadStats na h0 i) = Some ts' \<and>
    current_bblstats ts' = current_bblstats (new_ThreadStats na h0 i) \<and> using_pim ts' = [False] \<and>
    switch_cpu2pim ts' = switch_pim2cpu ts'"
proof -
  obtain ts' accs where "run na es (new_ThreadStats na h0 i) = Some ts'" "live_state ts' accs"
    "same_stacks (new_ThreadStats na h0 i) ts'"
    using balanced_run [OF assms(1,2) new_ThreadStats_live [OF assms(1)]] assms(3) by fastforce
  moreover have "using_pim (new_ThreadStats na h0 i) = [False]"
    by (simp add: new_ThreadStats_def alloc_def Let_def)
  ultimately show ?thesis
    by (intro exI [of _ ts']) (simp add: same_stacks_def live_state_def thread_inv_def switch_inv_def)
qed

theorem balanced_trace_runs_witness:
  "\<exists>ts'. run demo_addr demo_trace (new_ThreadStats demo_addr (0, 0) 0) = Some ts' \<and>
    switch_cpu2pim ts' = switch_pim2cpu ts'"
proof -
  have "length demo_trace < 2 ^ 64" by (simp add: demo_trace_def)
  from balanced_trace_runs [OF demo_addr_allocates demo_trace_balanced this] show ?thesis by blast
qed

text \<open>C16. After the threads have been merged and numbered, every thread files each of its blocks
  under the same identifier, the rank of the block's hash among the hashes of all threads, and the
  merged time of a block is the sum over the threads.\<close>

theorem block_ids_agree:
  assumes "\<forall>ts \<in> set tss. thread_inv ts"
  shows "\<exists>m m'. merge_all tss = Some m \<and> GenerateBBLID m = Some m' \<and>
    (\<forall>h. time_at m h = (\<Sum>ts \<leftarrow> tss. thread_time ts h)) \<and>
    (\<forall>ts \<in> set tss. \<exists>ts'. AssignBBLID m' ts = Some ts' \<and>
       (\<forall>(h, p) \<in> set (bbl_hash2stats ts). \<exists>r. map_of (ts_heap ts') p = Some r \<and> bblhash r = h \<and>
          bblid r = rank (\<Union> (hashes ` set tss)) h)) \<and>
    inj_on (rank (\<Union> (hashes ` set tss))) (\<Union> (hashes ` set tss))"
proof -
  have "finite (\<Union> (hashes ` set tss))" by (simp add: hashes_def)
  then have "inj_on (rank (\<Union> (hashes ` set tss))) (\<Union> (hashes ` set tss))"
    by (intro linorder_inj_onI') (metis rank_inj less_irrefl)
  with block_id_consensus [OF assms] show ?thesis by blast
qed

theorem block_ids_agree_witness:
  "\<exists>m'. \<exists>m. merge_all [new_ThreadStats demo_addr (0, 0) 0, new_ThreadStats demo_addr (0, 0) 1] = Some m \<and>
    GenerateBBLID m = Some m'"
  using block_ids_agree [of "[new_ThreadStats demo_addr (0, 0) 0, new_ThreadStats demo_addr (0, 0) 1]"]
    new_ThreadStats_inv [OF demo_addr_allocates] by auto

section \<open>Block hashes\<close>

text \<open>C17. The 128-bit hash that names functions and blocks reads its key in bounds, and two texts of
  the same length that differ only inside one group of 16 bytes never get the same hash.\<close>

theorem x64_hash_separates:
  assumes "length bs = length cs" and "bs \<noteq> cs" and "\<forall>i < length bs. i div 16 \<noteq> j \<longrightarrow> bs ! i = cs ! i"
  shows "\<exists>h h'. MurmurHash3_x64_128 bs (length bs) seed = Some h \<and> MurmurHash3_x64_128 cs (length cs) seed = Some h' \<and> h \<noteq> h'"
  using h64.one_group_differs [OF assms] by (simp add: MurmurHash3_x64_128_spec hash64_spec_def)

theorem x64_hash_separates_witness:
  "\<exists>h h'. MurmurHash3_x64_128 [104, 101, 97, 100] (length [104, 101, 97, 100 :: u8]) 0 = Some h \<and>
    MurmurHash3_x64_128 [104, 101, 97, 108] (length [104, 101, 97, 108 :: u8]) 0 = Some h' \<and> h \<noteq> h'"
  by (rule x64_hash_separates [where j = 0]) simp_all

text \<open>The two hashes for 32-bit targets have the same property, with groups of 4 and of 16 bytes.\<close>

theorem x86_hashes_separate:
  assumes "length bs = length cs" and "bs \<noteq> cs"
  shows "((\<forall>i < length bs. i div 4 \<noteq> j \<longrightarrow> bs ! i = cs ! i) \<longrightarrow>
      (\<exists>h h'. MurmurHash3_x86_32 bs (length bs) seed = Some h \<and> MurmurHash3_x86_32 cs (length cs) seed = Some h' \<and> h \<noteq> h')) \<and>
    ((\<forall>i < length bs. i div 16 \<noteq> j \<longrightarrow> bs ! i = cs ! i) \<longrightarrow>
      (\<exists>h h'. MurmurHash3_x86_128 bs (length bs) seed = Some h \<and> MurmurHash3_x86_128 cs (length cs) seed = Some h' \<and> h \<noteq> h'))"
  using h32.one_group_differs [OF assms] h128.one_group_differs [OF assms]
  by (auto simp: MurmurHash3_x86_32_spec hash32_spec_def MurmurHash3_x86_128_spec hash128_spec_def)

theorem x86_hashes_separate_witness:
  "\<exists>h h'. MurmurHash3_x86_128 [1, 2, 3, 4, 5] (length [1, 2, 3, 4, 5 :: u8]) 7 = Some h \<and>
    MurmurHash3_x86_128 [1, 2, 3, 4, 6] (length [1, 2, 3, 4, 6 :: u8]) 7 = Some h' \<and> h \<noteq> h'"
proof -
  have "length [1, 2, 3, 4, 5 :: u8] = length [1, 2, 3, 4, 6 :: u8]" "[1, 2, 3, 4, 5 :: u8] \<noteq> [1, 2, 3, 4, 6]" by simp_all
  from x86_hashes_separate [OF this, of 0 7, THEN conjunct2] show ?thesis by (rule mp) simp
qed

section \<open>The files between recorder and solver\<close>



text \<open>C19. The graph of a thread's reuse is its trie: after the vertex of the root the vertices are those
  of the nodes in preorder, numbered without gaps, each node once; the label of a vertex is the
  identifier and, in a box, the counter of its node, and its one incoming edge comes from the vertex
  of its parent.\<close>

theorem PrintDotGraph_draws_trie:
  assumes "tries dr own_root = Some t" and "trie_ok [] t" and "length (preorder [] t) < 2 ^ 31"
    and "\<And>p u. node_at t p = Some u \<Longrightarrow> p \<noteq> [] \<Longrightarrow> get_id (last p) \<noteq> None"
  shows "PrintDotGraph get_id dr =
      Some (''digraph trie {'' @ [newline] @ ''    V_0 [label='' @ [CHR 0x22] @ ''root'' @ [CHR 0x22] @ ''];'' @ [newline] @
        vertices_text get_id (preorder [] t) 1 (length (preorder [] t)) @ ''}'' @ [newline]) \<and>
    distinct (map fst (preorder [] t)) \<and> (\<forall>p u. (p, u) \<in> set (preorder [] t) \<longleftrightarrow> node_at t p = Some u) \<and>
    (\<forall>i p u. 0 < i \<and> i < length (preorder [] t) \<and> preorder [] t ! i = (p, u) \<longrightarrow> p \<noteq> [] \<and>
       fst (preorder [] t ! place (butlast p) (preorder [] t)) = butlast p)"
proof -
  have mem: "(p, u) \<in> set (preorder [] t) \<longleftrightarrow> node_at t p = Some u" for p u
    using mem_preorder [OF assms(2)] by simp
  have "get_id (last p) \<noteq> None" if "(p, u) \<in> set (preorder [] t)" "p \<noteq> []" for p u
    using that assms(4) mem by blast
  then have "PrintDotGraph get_id dr =
      Some (''digraph trie {'' @ [newline] @ ''    V_0 [label='' @ [CHR 0x22] @ ''root'' @ [CHR 0x22] @ ''];'' @ [newline] @
        vertices_text get_id (preorder [] t) 1 (length (preorder [] t)) @ ''}'' @ [newline])"
    by (intro PrintDotGraph_spec assms(1-3) trie_ok_root_inner [OF assms(2)])
  moreover have "p \<noteq> [] \<and> fst (preorder [] t ! place (butlast p) (preorder [] t)) = butlast p"
    if "0 < i \<and> i < length (preorder [] t) \<and> preorder [] t ! i = (p, u)" for i p u
    using vertex_parent(2,4) [OF assms(2)] that by metis
  ultimately show ?thesis using mem distinct_preorder [OF assms(2)] by simp
qed

theorem PrintDotGraph_draws_trie_witness:
  "\<exists>text. PrintDotGraph Some (bbl_data_reuse demo_solver) = Some text \<and>
    map fst (preorder [] demo_trie) = [[], [0], [0, 1], [0, 1, 0], [0, 1, 1]]"
proof -
  have small: "length (preorder [] demo_trie) < 2 ^ 31" by (simp add: demo_trie_def)
  have t: "tries (bbl_data_reuse demo_solver) own_root = Some demo_trie" by simp
  have "map fst (preorder [] demo_trie) = [[], [0], [0, 1], [0, 1, 0], [0, 1, 1]]" by (simp add: demo_trie_def)
  moreover have "PrintDotGraph Some (bbl_data_reuse demo_solver) \<noteq> None"
    using PrintDotGraph_draws_trie [of _ _ Some, OF t demo_trie_ok(1) small, THEN conjunct1] by simp
  ultimately show ?thesis by simp
qed

text \<open>C20. The table of occurrences of a thread: as long as the counters fit an \<open>int\<close>, the total of a
  block is the number of recorded segments it is a member of, its entry for a length the number of
  those of that length, and the last table counts every segment once for each of its members.\<close>

theorem occurrences_counted:
  assumes "recorded segs dr get_id f L n"
    and "(\<Sum>seg \<leftarrow> big segs. seg_size seg * unat (seg_count seg)) < 2 ^ 31"
  shows "\<exists>oc text. occurrence_tables get_id dr = Some oc \<and> PrintBBLOccurrence get_id dr = Some text \<and>
    (\<forall>x \<in> L. sint (total_at oc (nat (f x))) =
       int (\<Sum>seg \<leftarrow> big segs. if x \<in> set (seg_set seg) then unat (seg_count seg) else 0)) \<and>
    (\<forall>x \<in> L. \<forall>l. sint (occurrence_at oc (nat (f x)) l) =
       int (\<Sum>seg \<leftarrow> big segs. if x \<in> set (seg_set seg) \<and> seg_size seg = l then unat (seg_count seg) else 0)) \<and>
    (\<forall>l. sint (dist_at oc l) =
       int (\<Sum>seg \<leftarrow> big segs. if seg_size seg = l then l * unat (seg_count seg) else 0))"
  using occurrences_recorded [OF assms] PrintBBLOccurrence_defined by blast

theorem occurrences_counted_witness:
  "\<exists>dr oc. insert_segs own_root demo_recorded new_DataReuse = Some dr \<and>
    occurrence_tables (Some \<circ> demo_label) dr = Some oc \<and> sint (total_at oc 1) = 3 \<and>
    sint (occurrence_at oc 0 2) = 3 \<and> sint (dist_at oc 2) = 6"
proof -
  obtain dr where rec: "recorded demo_recorded dr (Some \<circ> demo_label) demo_label {10, 20} 2"
    using demo_recording by blast
  have small: "(\<Sum>seg \<leftarrow> big demo_recorded. seg_size seg * unat (seg_count seg)) < 2 ^ 31"
    unfolding demo_recorded_big(1) by (simp add: demo_recorded_def seg_size_def)
  from occurrences_counted [OF rec small] recordedD(4) [OF rec] show ?thesis
    unfolding demo_recorded_big(1) by (auto simp: demo_recorded_def seg_size_def demo_label_def)
qed

text \<open>Reading the statistics of a run: if no time is negative the reader ends with one object
  per block hash, which holds for each thread the last time the file gives for it and the sum of
  the instruction counts; the map satisfies what the alignment of the two runs needs.\<close>

theorem ParseStats_per_thread:
  assumes "\<forall>e \<in> set (stats_entries (lines_of ifs) 0). entry_ok e"
  shows "\<exists>m. ParseStats ifs [] = Some m \<and> stats_map_ok m \<and>
    fst ` set m = (bblhash \<circ> snd) ` set (stats_entries (lines_of ifs) 0) \<and>
    (\<forall>h p. map_of m h = Some p \<longrightarrow> instruction_count p = instr_sum (stats_entries (lines_of ifs) 0) h \<and>
       (\<forall>t. slot p t = last_time (stats_entries (lines_of ifs) 0) h t))"
  using ParseStats_spec [OF assms] by (simp add: stats_spec_def)

theorem ParseStats_per_thread_witness:
  "\<exists>m p. ParseStats demo_stats_text [] = Some m \<and> map_of m (175, 11) = Some p \<and>
    instruction_count p = 10 \<and> slot p 1 = 5 / 2 \<and> slot p 0 = 0"
proof -
  have "\<forall>e \<in> set (stats_entries (lines_of demo_stats_text) 0). entry_ok e"
    unfolding demo_entries by (simp add: entry_ok_def)
  from ParseStats_per_thread [OF this] obtain m where m: "ParseStats demo_stats_text [] = Some m"
    "fst ` set m = {(175, 11)}"
    "\<forall>h p. map_of m h = Some p \<longrightarrow> instruction_count p = instr_sum (stats_entries (lines_of demo_stats_text) 0) h \<and>
       (\<forall>t. slot p t = last_time (stats_entries (lines_of demo_stats_text) 0) h t)"
    by (auto simp: demo_entries)
  obtain p where p: "map_of m (175, 11) = Some p" using m(2) by (metis insertI1 map_of_eq_None_iff not_None_eq)
  have "instr_sum (stats_entries (lines_of demo_stats_text) 0) (175, 11) = 10"
    "last_time (stats_entries (lines_of demo_stats_text) 0) (175, 11) 1 = 5 / 2"
    "last_time (stats_entries (lines_of demo_stats_text) 0) (175, 11) 0 = 0"
    unfolding demo_entries by (simp_all add: instr_sum_def)
  moreover from m(3) p have "instruction_count p = instr_sum (stats_entries (lines_of demo_stats_text) 0) (175, 11)"
    "slot p t = last_time (stats_entries (lines_of demo_stats_text) 0) (175, 11) t" for t by blast+
  ultimately show ?thesis using m(1) p by (intro exI [of _ m] exI [of _ p]) metis
qed

text \<open>C21. From the recorder to the solver: the statistics file that the threads of a run print, one
  table per thread, is read back completely. The reader ends with one object per block of some
  thread, which holds the time of the block in every thread and the sum of its instruction counts
  over all threads, as long as every number leaves room for a blank in its column and the times
  are printed legibly.\<close>

theorem statistics_read_back:
  assumes "\<forall>ts \<in> set tss. thread_inv ts \<and> thread_fits show_cost ts" and "distinct (map tid tss)"
    and "stats_file show_cost tss = Some out"
  shows "\<exists>m. ParseStats out [] = Some m \<and> stats_map_ok m \<and> fst ` set m = \<Union> (hashes ` set tss) \<and>
    (\<forall>h p. map_of m h = Some p \<longrightarrow> instruction_count p = (\<Sum>ts \<leftarrow> tss. thread_instr ts h) \<and>
       (\<forall>ts \<in> set tss. slot p (nat (tid ts)) = thread_time ts h))"
  by (rule stats_file_read [OF assms])

theorem statistics_read_back_witness:
  "\<exists>out m p. stats_file whole_cost [demo_thread 0 5000000 11, demo_thread 1 7000000 4] = Some out \<and>
    ParseStats out [] = Some m \<and> map_of m GLOBAL_BBLHASH = Some p \<and>
    instruction_count p = 15 \<and> slot p 0 = 5 \<and> slot p 1 = 7"
proof -
  let ?a = "demo_thread 0 5000000 11" and ?b = "demo_thread 1 7000000 4"
  have fits: "\<forall>ts \<in> set [?a, ?b]. thread_inv ts \<and> thread_fits whole_cost ts"
    using demo_thread_inv whole_cost_legible [of 5] whole_cost_legible [of 7]
    by (simp add: thread_fits_def demo_thread_fields(1) demo_thread_rows row_fits_def GLOBAL_BBLID_def)
  then obtain out where out: "stats_file whole_cost [?a, ?b] = Some out" using stats_file_lines [of "[?a, ?b]" whole_cost] by blast
  have "distinct (map tid [?a, ?b])" by (simp add: demo_thread_fields(1))
  from statistics_read_back [OF fits this out]
  obtain m where m: "ParseStats out [] = Some m" "fst ` set m = {GLOBAL_BBLHASH}"
    "\<forall>h p. map_of m h = Some p \<longrightarrow> instruction_count p = (\<Sum>ts \<leftarrow> [?a, ?b]. thread_instr ts h) \<and>
       (\<forall>ts \<in> set [?a, ?b]. slot p (nat (tid ts)) = thread_time ts h)"
    by (auto simp: hashes_def demo_thread_fields(2))
  obtain p where p: "map_of m GLOBAL_BBLHASH = Some p" using m(2) by (metis insertI1 map_of_eq_None_iff not_None_eq)
  have "thread_time ?a GLOBAL_BBLHASH = 5" "thread_time ?b GLOBAL_BBLHASH = 7"
    "(\<Sum>ts \<leftarrow> [?a, ?b]. thread_instr ts GLOBAL_BBLHASH) = 15"
    using demo_thread_fields(3) by (simp_all add: thread_time_def thread_instr_def demo_thread_fields(2))
  with m p out show ?thesis by (fastforce simp: demo_thread_fields(1))
qed

section \<open>The reports\<close>

text \<open>C22. Printing the tables ends exactly when the second placement puts some block on a side
  where it runs slower. The loop that lowers the threshold stops only when it has found such a
  block, so for a placement that is already fastest block by block (what the greedy driver and a
  good CTS file give) the tool never returns.\<close>

theorem PrintDecision_returns_iff:
  assumes "decisions_ok S t d s"
  shows "PrintDecision S d s False \<noteq> None \<longleftrightarrow>
    (\<exists>i < block_count S.
       s ! i = CPU \<and> time_of (sorted_CPU S) i > time_of (sorted_PIM S) i \<or>
       s ! i = PIM \<and> time_of (sorted_CPU S) i < time_of (sorted_PIM S) i)"
proof -
  have "PrintDecision S d s False \<noteq> None \<longleftrightarrow> (\<exists>i < block_count S. wrong S s 0 i)"
    using PrintDecision_reports_spec [OF assms] PrintDecision_hangs [OF assms] by fastforce
  then show ?thesis by (simp add: wrong_def cpu_wrong_def pim_wrong_def gap_def)
qed

theorem PrintDecision_returns_iff_witness:
  "PrintDecision demo_solver [CPU, PIM] [CPU, PIM] False = None \<and>
   PrintDecision demo_solver [CPU, PIM] [CPU, CPU] False \<noteq> None"
proof
  have "decisions_ok demo_solver demo_trie [CPU, PIM] [CPU, PIM]" by (rule demo_decisions_ok) simp
  from PrintDecision_returns_iff [OF this] show "PrintDecision demo_solver [CPU, PIM] [CPU, PIM] False = None"
    by (auto simp: less_Suc_eq numeral_2_eq_2 time_of_def)
  have "decisions_ok demo_solver demo_trie [CPU, PIM] [CPU, CPU]" by (rule demo_decisions_ok) simp
  from PrintDecision_returns_iff [OF this] show "PrintDecision demo_solver [CPU, PIM] [CPU, CPU] False \<noteq> None"
    by (auto simp: less_Suc_eq numeral_2_eq_2 time_of_def)
qed

text \<open>C23. When the tables are printed they have one row per block; the two lists of badly placed
  blocks hold exactly the blocks of the second placement that lose more than \<open>10\<^sup>7 / 10\<^sup>k\<close> ns,
  for the smallest \<open>k\<close> at which there is such a block; the potential is what they lose relative
  to the running time; every block above the display threshold is represented in the list of
  expensive blocks by a block with the same time; and the log lists exactly the segments whose
  cost exceeds \<open>10\<^sup>6\<close>.\<close>

theorem PrintDecision_reports:
  assumes "decisions_ok S t d s" and "\<exists>i < block_count S. wrong S s 0 i"
  shows "\<exists>r S' k. PrintDecision S d s False = Some (Inr r, S') \<and>
    map row_bblid (decision_table r) = [0..<block_count S] \<and>
    map row_bblid (IncorrectCPUDecision r) = filter (cpu_wrong S s (10000000 / 10 ^ k)) [0..<block_count S] \<and>
    map row_bblid (IncorrectPIMDecision r) = filter (pim_wrong S s (10000000 / 10 ^ k)) [0..<block_count S] \<and>
    (\<exists>i < block_count S. wrong S s (10000000 / 10 ^ k) i) \<and>
    (\<forall>j < k. \<forall>i < block_count S. \<not> wrong S s (10000000 / 10 ^ j) i) \<and>
    (\<forall>i < block_count S. site_time S d i > showThrehold * cost_spec S d t (bbl_switch_count S) \<longrightarrow>
       (\<exists>j \<in> set (map show_bblid (top10PIMProfBB r)). site_time S d j = site_time S d i)) \<and>
    OptimizePotential r = quotient (\<Sum>i<block_count S. if wrong S s (10000000 / 10 ^ k) i then \<bar>gap S i\<bar> else 0)
      (elapsed_spec S d CPU + elapsed_spec S d PIM) \<and>
    ReuseCostLog r = log_spec S s [] t"
  using PrintDecision_reports_spec [OF assms(1)] assms(2) by blast

theorem PrintDecision_reports_witness:
  "\<exists>r S'. PrintDecision demo_solver [CPU, PIM] [CPU, CPU] False = Some (Inr r, S') \<and>
    map row_bblid (IncorrectCPUDecision r) = [1] \<and> map row_bblid (IncorrectPIMDecision r) = []"
proof -
  have ok: "decisions_ok demo_solver demo_trie [CPU, PIM] [CPU, CPU]" by (rule demo_decisions_ok) simp
  have "\<exists>i < block_count demo_solver. wrong demo_solver [CPU, CPU] 0 i"
    by (rule exI [of _ 1]) (simp add: demo_wrong)
  from PrintDecision_reports [OF ok this] obtain r S' k where r:
    "PrintDecision demo_solver [CPU, PIM] [CPU, CPU] False = Some (Inr r, S')"
    "map row_bblid (IncorrectCPUDecision r) = filter (cpu_wrong demo_solver [CPU, CPU] (10000000 / 10 ^ k)) [0..<2]"
    "map row_bblid (IncorrectPIMDecision r) = filter (pim_wrong demo_solver [CPU, CPU] (10000000 / 10 ^ k)) [0..<2]"
    "\<exists>i < 2. wrong demo_solver [CPU, CPU] (10000000 / 10 ^ k) i" by auto
  define thr where "thr = (10000000 :: real) / 10 ^ k"
  have thr: "0 \<le> thr" by (simp add: thr_def)
  with r(4) have "thr < 2000000" unfolding thr_def [symmetric] by (auto simp: demo_wrong)
  with thr have "filter (cpu_wrong demo_solver [CPU, CPU] thr) [0..<2] = [1]"
    "filter (pim_wrong demo_solver [CPU, CPU] thr) [0..<2] = []"
    by (auto simp: cpu_wrong_def pim_wrong_def demo_gap numeral_2_eq_2)
  with r(1-3) show ?thesis unfolding thr_def by auto
qed

text \<open>C24. The walk that prints the expensive segments charges exactly what the walk of the cost
  model charges, on every trie and for every decision, also where both are undefined.\<close>

theorem ReuseCostPrint_charges: "map_option fst (ReuseCostPrint S d t) = ReuseCost S d t"
  by (rule ReuseCostPrint_cost)

text \<open>In the mode \<open>mpki\<close> no CTS placement is computed; \<open>PrintSolution\<close> still prints the tables
  for one and reads the empty vector, so on a program with at least one block it has no defined
  result.\<close>

theorem PrintSolution_mpki_undefined:
  assumes "report_ok S t" and "0 < block_count S"
  shows "PrintSolution ord grid start MPKI S = None"
  using PrintDecision_empty [OF assms] PrintMPKIStats_spec [OF assms(1)]
  by (simp add: PrintSolution_def split: bind_splits)

theorem PrintSolution_mpki_undefined_witness:
  "PrintSolution id [0] \<lparr>sca_total_time = 0, sca_elapsed_time = (0, 0), sca_reuse_cost = 0, sca_switch_cost = 0,
     sca_mpki_threshold = 0, sca_parallelism_threshold = 0, instr_threshold_percentage = 0\<rparr> MPKI demo_solver = None"
  by (rule PrintSolution_mpki_undefined [OF demo_report_ok]) simp

text \<open>C25. The integer logarithms of the cache model: the floor and the ceiling of the logarithm of
  every 32-bit number but the smallest ones, where the ceiling of 0 is 32, and the test for a power
  of two, which 0 also passes.\<close>

theorem storage_logarithms:
  "(if n = 0 then FloorLog2 n = - 1
     else 0 \<le> FloorLog2 n \<and> 2 ^ nat (FloorLog2 n) \<le> unat n \<and> unat n < 2 ^ Suc (nat (FloorLog2 n))) \<and>
   (if 1 < unat n then 0 < CeilLog2 n \<and> 2 ^ nat (CeilLog2 n - 1) < unat n \<and> unat n \<le> 2 ^ nat (CeilLog2 n)
     else CeilLog2 n = (if n = 0 then 32 else 0)) \<and>
   (IsPower2 n \<longleftrightarrow> n = 0 \<or> (\<exists>k<32. n = 2 ^ k))"
proof (intro conjI)
  show "if n = 0 then FloorLog2 n = - 1
     else 0 \<le> FloorLog2 n \<and> 2 ^ nat (FloorLog2 n) \<le> unat n \<and> unat n < 2 ^ Suc (nat (FloorLog2 n))"
    using FloorLog2_spec [of n] by (auto simp: FloorLog2_def)
  show "if 1 < unat n then 0 < CeilLog2 n \<and> 2 ^ nat (CeilLog2 n - 1) < unat n \<and> unat n \<le> 2 ^ nat (CeilLog2 n)
     else CeilLog2 n = (if n = 0 then 32 else 0)"
    using CeilLog2_spec [of n] CeilLog2_small [of n] by auto
qed (rule IsPower2_iff)

text \<open>C26. After any sequence of accesses to a new LRU set of \<open>n\<close> ways, an access hits exactly when
  its tag is among the \<open>n\<close> most recently used distinct tags (an unused way holds the tag 0).\<close>

theorem LRU_hits_recent:
  assumes "new_LRU storage n = Some s" and "0 < unat n"
  shows "\<exists>s' s''. LRU_accesses as s = Some s' \<and> LRU_access a s' = Some (a \<in> set (recent_ways (unat n) as), s'')"
  unfolding LRU_access_touch by (rule lru_hit_recent [OF assms])

theorem LRU_hits_recent_witness:
  "\<exists>s s' s''. new_LRU 0 2 = Some s \<and> LRU_accesses [7, 8, 9, 8] s = Some s' \<and> LRU_access 7 s' = Some (False, s'')"
proof -
  obtain s where s: "new_LRU 0 2 = Some s" by (simp add: new_LRU_def MAX_ASSOCIATIVITY_def)
  have "7 \<notin> set (recent_ways 2 [7, 8, 9, 8])" by (simp add: recent_ways_def recent_def)
  with LRU_hits_recent [OF s, of "[7, 8, 9, 8]" 7] s show ?thesis by simp
qed

text \<open>A round robin set refines a queue of its ways: a replacement takes out the tag that was
  brought in longest ago and appends the new one, and the indices stay inside the array.\<close>

theorem RR_Replace_refines_queue:
  assumes "rr_inv s"
  shows "\<exists>t s'. RR_Replace a s = Some (t, s') \<and> rr_inv s' \<and> rr_queue s' = tl (rr_queue s) @ [a]"
  by (rule RR_Replace_queue [OF assms])

theorem RR_Replace_refines_queue_witness:
  "\<exists>t s'. RR_Replace 7 demo_rr = Some (t, s') \<and> rr_inv s' \<and> rr_queue s' = [0, 7]"
  using RR_Replace_refines_queue [OF demo_rr(1), of 7] by (simp add: demo_rr(2))

text \<open>C27. The hierarchy that \<open>ReadConfig\<close> builds is well formed whenever every configured cache
  holds at least one set and an instruction cache comes with a data cache: every cache level has
  well-formed sets and points to an existing level further down, and the references of both sites
  start at existing levels.\<close>

theorem ReadConfig_well_formed:
  assumes "ReadConfig reader nm junk this (new_STORAGE pkg) = Some st" and "usable reader nm"
  shows "hierarchy_ok st \<and> site_ready st CPU \<and> site_ready st PIM \<and> cost_package st = pkg \<and> last_icacheline st = [0, 0]"
  by (rule ReadConfig_spec [OF assms])

theorem ReadConfig_well_formed_witness: "hierarchy_ok demo_storage \<and> site_ready demo_storage CPU \<and> site_ready demo_storage PIM"
  using ReadConfig_well_formed [OF demo_config demo_usable] by blast

text \<open>C28. An access to one line always returns and keeps the hierarchy and the package well formed.
  It reports a hit exactly when the line is present, counts one hit or one miss at the level, and
  leaves the line present after a hit or a load; a load that misses leaves it present at the next
  level as well.\<close>

theorem AccessSingleLine_keeps:
  assumes "hierarchy_ok st" and "package_ok B T N (cost_package st)" and "N + T < 2 ^ 64"
    and "0 \<le> b" and "b < int B" and "levels st p = Some l"
  shows "\<exists>st' l'. AccessSingleLine p addr ty b simd_len st = Some (holds st p addr, st') \<and>
    hierarchy_ok st' \<and> package_ok B T (N + T) (cost_package st') \<and>
    levels st' p = Some l' \<and> access_count l' = access_count (count_access ty (holds st p addr) l) \<and>
    (holds st p addr \<or> ty = ACCESS_TYPE_LOAD \<longrightarrow> holds st' p addr) \<and>
    (\<not> holds st p addr \<and> ty = ACCESS_TYPE_LOAD \<longrightarrow> (\<forall>n. next_level l = Some n \<longrightarrow> holds st' n addr))"
  using AccessSingleLine_post [OF assms] .

theorem AccessSingleLine_keeps_witness:
  "\<exists>st'. AccessSingleLine (CPU, DL1) 1000 ACCESS_TYPE_LOAD 0 0 demo_storage = Some (False, st') \<and> holds st' (CPU, DL1) 1000"
  using AccessSingleLine_keeps [OF demo_CPU(3,4) _ _ _ demo_CPU(1), of 0 1000 ACCESS_TYPE_LOAD 0] demo_miss by auto

text \<open>C29. The loop of an access to a range ends exactly when the end of the range is not inside the
  last line of the address space; then it is the sequence of the accesses to the lines of the
  range, and it counts each of them once. Otherwise the start of the next line wraps around and
  stays below the end for ever.\<close>

theorem Access_returns_iff:
  assumes "hierarchy_ok st" and "package_ok B T N (cost_package st)" and "0 \<le> b" and "b < int B" and "levels st p = Some l"
    and "N + T * length (range_addresses (range_line l) addr (addr + ucast sz)) < 2 ^ 64"
  shows "if unat (addr + ucast sz) + unat (range_line l) \<le> 2 ^ 64
    then \<exists>hit st' l'. Access p addr sz ty b simd_len st = Some (hit, st') \<and>
      visit p ty b simd_len (range_addresses (range_line l) addr (addr + ucast sz)) (True, st) = Some (hit, st') \<and>
      levels st' p = Some l' \<and>
      Accesses ty l' = Accesses ty l + of_nat (length (range_addresses (range_line l) addr (addr + ucast sz)))
    else Access p addr sz ty b simd_len st = None"
proof (cases "unat (addr + ucast sz) + unat (range_line l) \<le> 2 ^ 64")
  case True
  with Access_spec(2) [OF assms True, of ty simd_len] visit_spec [OF assms(1,2,6,3-5), of ty simd_len True] show ?thesis
    by (simp only: if_True) metis
next
  case False
  with Access_spec(1) [OF assms, of ty simd_len] show ?thesis by (simp only: if_False) blast
qed

theorem Access_returns_iff_witness:
  "Access (CPU, DL1) (- 8) 4 ACCESS_TYPE_LOAD 0 0 demo_storage = None \<and>
   (\<exists>hit st' l'. Access (CPU, DL1) 100 100 ACCESS_TYPE_LOAD 0 0 demo_storage = Some (hit, st') \<and>
     levels st' (CPU, DL1) = Some l' \<and> Accesses ACCESS_TYPE_LOAD l' = 3)"
proof -
  note top = Access_returns_iff [OF demo_CPU(3,4) _ _ demo_CPU(1), of 0 "- 8" 4 ACCESS_TYPE_LOAD 0, unfolded demo_CPU(2)]
  note low = Access_returns_iff [OF demo_CPU(3,4) _ _ demo_CPU(1), of 0 100 100 ACCESS_TYPE_LOAD 0, unfolded demo_CPU(2)]
  have "Access (CPU, DL1) (- 8) 4 ACCESS_TYPE_LOAD 0 0 demo_storage = None" using top demo_ranges(1,2) by simp
  moreover have "\<exists>hit st' l'. Access (CPU, DL1) 100 100 ACCESS_TYPE_LOAD 0 0 demo_storage = Some (hit, st') \<and>
     levels st' (CPU, DL1) = Some l' \<and> Accesses ACCESS_TYPE_LOAD l' = 3"
    using low demo_ranges(3) by (auto simp: demo_counts)
  ultimately show ?thesis ..
qed

text \<open>C30. On a storage that was built from a usable configuration, references never fail: a data
  reference whose end stays clear of the top of the address space, and an instruction fetch when
  both sites have an instruction cache, return and leave the storage in the same condition, as
  long as the reuse counters have room.\<close>

theorem references_ready:
  assumes "storage_ok B T N st" and "fetch_ready st" and "0 \<le> b" and "b < int B"
    and "unat (addr + ucast sz) + 2 ^ 31 < 2 ^ 64" and "N + 4 * T * (unat sz + 1) < 2 ^ 64"
  shows "(\<exists>st'. DataCacheRef addr sz ty b simd_len st = Some st' \<and> storage_ok B T (N + 2 * T * (unat sz + 1)) st') \<and>
    (\<exists>st'. InstrCacheRef addr sz b simd_len st = Some st' \<and> storage_ok B T (N + 4 * T) st' \<and> fetch_ready st')"
  using DataCacheRef_ready [OF assms(1,3-5), of ty simd_len] InstrCacheRef_ready [OF assms(1-4), of addr sz simd_len] assms(6)
  by auto

theorem references_ready_witness:
  "(\<exists>st'. DataCacheRef 100 100 ACCESS_TYPE_STORE 0 4 demo_storage = Some st' \<and> storage_ok 1 1 202 st') \<and>
   (\<exists>st'. InstrCacheRef 100 100 0 4 demo_storage = Some st' \<and> storage_ok 1 1 4 st')"
  using references_ready [OF demo_storage_ok demo_fetch, of 0 100 100 ACCESS_TYPE_STORE 4] by auto

text \<open>Flushing a cache has no defined result: the loop starts at the index \<open>NumSets()\<close>, one past
  the last set.\<close>

theorem CACHE_Flush_overrun:
  assumes "cache_ok c" and "NumSets c < 2 ^ 31"
  shows "CACHE_Flush c = None"
  by (rule CACHE_Flush_undefined [OF assms])

theorem CACHE_Flush_overrun_witness: "\<exists>c. cache_part (demo_cache CPU DL1) = Some c \<and> NumSets c = 1 \<and> CACHE_Flush c = None"
  using CACHE_Flush_overrun demo_cache_part [of CPU DL1] by auto

section \<open>Injected programs\<close>

text \<open>C31. From the pass to the statistics of a thread: annotating a module for Sniper has a defined
  result, and every completed activation of one of its functions, whatever it calls and whatever is
  measured in between, is recorded without a failed assertion or a read from an empty stack; at its
  end both stacks are as before.\<close>

theorem annotated_program_runs:
  assumes "llvm_laws L is_head is_term" and "program_module is_term M" and "env \<in> {''SNIPER'', ''SNIPER2''}"
    and "allocates na"
  shows "\<exists>M'. AnnotationInjection L (Some env) M = Some M' \<and>
    (\<forall>F es. activation L M' F es \<longrightarrow> length es < 2 ^ 64 \<longrightarrow>
      (\<exists>ts'. run na es (new_ThreadStats na h0 i) = Some ts' \<and>
        current_bblstats ts' = current_bblstats (new_ThreadStats na h0 i) \<and> using_pim ts' = [False]))"
  using annotated_module [OF assms(1-3)] activation_runs [OF assms(4)] by blast

theorem annotated_program_runs_witness:
  "\<exists>h. AnnotationInjection demo_llvm (Some ''SNIPER2'') demo_module = Some [demo_main, demo_work h] \<and>
    (\<exists>ts'. run demo_addr (demo_events h) (new_ThreadStats demo_addr (0, 0) 0) = Some ts' \<and> using_pim ts' = [False])"
proof -
  obtain h where h: "AnnotationInjection demo_llvm (Some ''SNIPER2'') demo_module = Some [demo_main, demo_work h]"
    using demo_annotated by blast
  moreover have "length (demo_events h) < 2 ^ 64" by (simp add: demo_events_def)
  moreover have "''SNIPER2'' \<in> {''SNIPER'', ''SNIPER2''}" by simp
  ultimately show ?thesis
    using annotated_program_runs [OF demo_llvm_laws demo_module_ok _ demo_addr_allocates]
      demo_activation [of h] by (metis option.inject)
qed



text \<open>C33. The offloading pass cannot read the report of the solver: behind the first separator comes the
  title of the table, no number is read from it, and the decision is filed under a key of two
  variables that were never written. This holds for every table, whatever comes after it.\<close>

theorem report_not_readable:
  assumes "\<forall>l \<in> set before. newline \<notin> set l \<and> \<not> contains l HORIZONTAL_LINE"
  shows "OffloaderInjection L (Some file) (Some env)
    (\<lambda>_. concat (map (\<lambda>l. l @ [newline]) before) @ table_text show_cost rows @ rest) M = None"
  using table_unread [OF assms] by (cases "offload_mode env") (simp_all add: OffloaderInjection_def)

theorem report_not_readable_witness:
  "OffloaderInjection demo_llvm (Some ''d'') (Some ''SNIPER'')
    (\<lambda>_. concat (map (\<lambda>l. l @ [newline]) [''Instruction 5'']) @ table_text demo_show [demo_row] @ []) demo_module = None"
proof -
  have "\<not> contains ''Instruction 5'' HORIZONTAL_LINE" by (rule no_separator) simp
  then show ?thesis by (intro report_not_readable) (simp add: newline_def)
qed

text \<open>A row of that table, as the offloading pass reads it: the site is the printed decision, but
  the key is the pair of the two elapsed times instead of the hash, and the difference is the number of
  executions.\<close>

theorem report_row_misread:
  assumes "printable show_cost r" and "show_cost (row_CPU r) = show_int a" and "show_cost (row_PIM r) = show_int b"
    and "\<bar>a\<bar> < 2 ^ 63" and "\<bar>b\<bar> < 2 ^ 63"
  shows "decision_line (row_text show_cost r) = Some ((of_int a, of_int b),
    \<lparr>site_decision = (if row_decision r = ''P'' then PIM else CPU), decision_bblid = Some (int (row_bblid r)),
     decision_difference = Some (real (unat (row_bbCount r))), decision_parallel = None\<rparr>)"
  by (rule decision_line_row [OF assms])

theorem report_row_misread_witness:
  "\<exists>d. decision_line (row_text demo_show demo_row) = Some ((40, 25), d) \<and> site_decision d = PIM \<and>
    decision_difference d = Some 7 \<and> row_hash demo_row = (171, 205)"
proof -
  have "show_nat n = [digit_char n]" if "n < 10" for n using that by (simp add: show_nat_def show_base.simps [of 10 n])
  moreover have "show_nat 40 = ''40''" "show_nat 25 = ''25''"
    by (simp_all add: show_nat_def show_base.simps digit_char_def char_of_eq_iff)
  ultimately have "printable demo_show demo_row" "demo_show (row_CPU demo_row) = show_int 40"
    "demo_show (row_PIM demo_row) = show_int 25"
    by (simp_all add: printable_def demo_row_def demo_show_def show_int_def)
  from report_row_misread [OF this] show ?thesis by (simp add: demo_row_def)
qed

section \<open>The Pin tool\<close>

text \<open>C34. Whatever the interleaving of the threads: as long as every thread opens and closes its
  blocks in a nested way, and refers only to known opcodes and to accesses that stay inside the
  address space, no handler fails an assertion or reads a table out of range, the open blocks of
  every thread are the ones its own events left open, and the running threads are counted.\<close>

theorem pin_interleaving_runs:
  assumes "pin_ok B T N st" and "nested sh st" and "thread_count (pin_package st) = int n"
    and "nest_run es (sh, n) = Some (sh', n')" and "list_all event_ok es"
    and "B + length es \<le> 2 ^ 32" and "n + length es \<le> T" and "T < 2 ^ 31"
    and "N + (\<Sum>e\<leftarrow>es. event_room T e) < 2 ^ 64"
  shows "\<exists>st' B'. pin_run es st = Some st' \<and> pin_ok B' T (N + (\<Sum>e\<leftarrow>es. event_room T e)) st' \<and>
    nested sh' st' \<and> thread_count (pin_package st') = int n'"
  by (rule interleaving_runs [OF assms])

theorem pin_interleaving_runs_witness:
  "\<exists>st'. pin_run demo_interleaving demo_tool = Some st' \<and>
    nested [[GLOBAL_BBLHASH], [GLOBAL_BBLHASH]] st' \<and> thread_count (pin_package st') = 1"
proof -
  have "pin_ok 1 20 0 demo_tool" by (rule demo_tool_ok) simp
  moreover have "thread_count (pin_package demo_tool) = int 1" by (simp add: demo_threads)
  ultimately show ?thesis
    using pin_interleaving_runs [of 1 20 0 demo_tool _ 1 demo_interleaving] demo_nested demo_interleaving_ok by fastforce
qed

text \<open>The four instructions the passes emit are instrumented with a single call, of the handler of
  the magic; none of them is counted, fetched or simulated.\<close>

theorem magic_sequence_instrumented:
  assumes "is_xchg_rcx x" and "\<forall>m \<in> {m1, m2, m3}. INS_IsMov m \<and> \<not> is_xchg_rcx m"
  shows "instrument_all [x, m1, m2, m3] skip = Some ([[], [], [], [CallHandleMagic]], - 1)"
  by (rule magic_instrumented [OF assms])

theorem magic_sequence_instrumented_witness:
  "instrument_all [demo_ins True False, demo_ins False True, demo_ins False True, demo_ins False True] 7 =
    Some ([[], [], [], [CallHandleMagic]], - 1)"
  by (rule magic_sequence_instrumented) (simp_all add: demo_ins_def)

section \<open>Configuration files\<close>



text \<open>C36. From the text of a configuration to a cache: when the assignments of a file give a level its
  line size, size, associativity and allocation as decimal numbers, a policy and a hit cost, then
  \<open>ReadConfig\<close> creates the first-level cache with exactly these parameters, or fails where the
  constructor does.\<close>

theorem cache_section_configures:
  assumes "files filename = Some (ini_text ls)" and "lines_ok False ls" and "take 3 (ini_text ls) \<noteq> BOM"
    and "cache_section (assignments [] [] ls) (level_name i j) linesize cachesize assoc allocation policy cost_text"
    and "stod cost_text = Some x" and "0 \<le> x" and "g = - 1 \<or> g = linesize" and "j = IL1 \<or> j = DL1"
  shows "read_level (open_config e files filename) level_name junk this i j (g, st) =
    map_option (\<lambda>c. (linesize, put_level (i, j) c st))
      (new_CACHE_LEVEL junk this i j policy (word_of_int cachesize) (word_of_int linesize) (word_of_int assoc)
         (word_of_int allocation) (site_hitcost i x))"
  unfolding open_config_def by (rule read_level_section [where level_name = level_name and i = i and j = j,
      OF INIReader_file(2) [of files filename ls e, OF assms(1-3)] assms(4-8)])

theorem cache_section_configures_witness:
  "read_level (open_config 7 demo_files ''small.ini'') demo_names 0 0 CPU IL1 (- 1, demo_storage) =
     Some (64, put_level (CPU, IL1) (demo_cache CPU IL1) demo_storage)"
proof -
  have "cache_section (assignments [] [] demo_ini) (demo_names CPU IL1) 64 128 2 0 ''lru'' ''4''"
    using demo_section by (simp add: demo_names_def)
  from cache_section_configures [where files = demo_files and filename = "''small.ini''" and e = 7
      and level_name = demo_names and i = CPU and j = IL1 and g = "- 1" and st = demo_storage and junk = 0 and this = 0, OF demo_ini_ok(3,1,2) this show_demo(5)]
  show ?thesis using demo_level [of CPU IL1] by simp
qed

text \<open>C37. The latencies that \<open>WriteConfig\<close> writes are read back: if the names of the sites and opcodes
  fit the limits of the parser, no two of them are alike in lower case, and the latencies are
  written legibly and are not negative, then \<open>ReadConfig\<close> on the file that was written gives every
  opcode on both sites the latency it had, and changes nothing but the table.\<close>

theorem written_latencies_read_back:
  assumes "left_justifies ljstr" and "table_ok st" and "names_ok section_name opcode_name"
    and "legible_table show_cost opcode_name st"
    and "InstructionLatency_WriteConfig ljstr show_cost section_name opcode_name st = files filename"
    and "table_ok st0"
  shows "\<exists>st'. InstructionLatency_ReadConfig (open_config e files filename) section_name opcode_name st0 = Some st' \<and>
    st' = st0\<lparr>instruction_latency := instruction_latency st'\<rparr> \<and>
    (\<forall>i < 2. \<forall>j < MAX_INDEX. instruction_latency st' ! i ! j =
       (if opcode_name j = ''LAST'' then instruction_latency st0 else instruction_latency st) ! i ! j)"
proof -
  have "latency_of (open_config e files filename) section_name opcode_name i j = instruction_latency st ! i ! j"
    if "i < 2" "j < MAX_INDEX" "opcode_name j \<noteq> ''LAST''" for i j
  proof -
    have j: "j \<in> set (real_opcodes opcode_name)" using that by (simp add: real_opcodes_def)
    then have "0 \<le> instruction_latency st ! i ! j" using assms(4) that(1) by (simp add: legible_table_def)
    then show ?thesis using latency_in_file [of ljstr st section_name opcode_name show_cost files filename i j e, OF assms(1-5) that(1) j] by (simp add: latency_of_def)
  qed
  then show ?thesis
    using ReadConfig_table [OF assms(6), of "open_config e files filename" section_name opcode_name] by auto
qed

theorem written_latencies_read_back_witness:
  "\<exists>st'. InstructionLatency_ReadConfig (open_config 7 (\<lambda>_. InstructionLatency_WriteConfig pad_right demo_digit latency_sections demo_opcodes slow_tool)
       ''latency.ini'') latency_sections demo_opcodes (InstructionLatency_initialize demo_tool) = Some st' \<and>
    instruction_latency st' ! 0 ! 0 = 3 \<and> instruction_latency st' ! 0 ! 1 = 1"
proof -
  have "table_ok (InstructionLatency_initialize demo_tool)" by (simp add: table_ok_def InstructionLatency_initialize_def)
  from written_latencies_read_back [where e = 7 and filename = "''latency.ini''" and ljstr = pad_right
      and files = "\<lambda>_. InstructionLatency_WriteConfig pad_right demo_digit latency_sections demo_opcodes slow_tool",
      OF demo_justifies slow_table(1) demo_names_ok demo_legible refl this]
  obtain st' where read: "InstructionLatency_ReadConfig (open_config 7 (\<lambda>_. InstructionLatency_WriteConfig pad_right demo_digit latency_sections demo_opcodes slow_tool)
       ''latency.ini'') latency_sections demo_opcodes (InstructionLatency_initialize demo_tool) = Some st'"
    and "\<And>i j. i < 2 \<Longrightarrow> j < MAX_INDEX \<Longrightarrow> instruction_latency st' ! i ! j =
       (if demo_opcodes j = ''LAST'' then instruction_latency (InstructionLatency_initialize demo_tool) else instruction_latency slow_tool) ! i ! j"
    by blast
  from this(2) [of 0 0] this(2) [of 0 1] have "instruction_latency st' ! 0 ! 0 = 3" "instruction_latency st' ! 0 ! 1 = 1"
    using slow_table by (simp_all add: demo_opcodes_def MAX_INDEX_def)
  with read show ?thesis by blast
qed

section \<open>VTune annotations\<close>

text \<open>C38. Of the annotations of a program the run-time part passes on those of the five modes it
  knows, in their order, except that a call equal to the one passed on before is dropped; each frame
  is begun and ended in the domain of its block. So of nested activations of one block only the
  first begin and the first end are seen.\<close>

theorem vtune_calls:
  assumes "domains_ok create st"
    and "\<forall>(mode, hi, lo) \<in> set calls. mode = mode_int VTUNE_MODE_FRAME_BEGIN \<longrightarrow> create (domain_name hi lo) \<noteq> None"
  shows "\<exists>st'. vtune_run create calls st = Some st' \<and> domains_ok create st' \<and>
    itt_calls st' = itt_calls st @
      map (itt_of create) (tl (remdups_adj (prev_call st # filter (\<lambda>(mode, _). passed_mode mode) calls)))"
  using vtune_run_passes [OF assms] by (simp add: passed_def)

theorem vtune_calls_witness:
  "map_option itt_calls (vtune_run Some [(1, 1, 1), (4, 7, 9), (4, 7, 9), (0, 5, 5), (5, 7, 9), (5, 7, 9), (3, 1, 1)] new_VTune) =
    Some [Resume, FrameBegin (Some (domain_name 7 9)), FrameEnd (Some (domain_name 7 9)), Detach]"
proof -
  have "domains_ok Some (new_VTune :: string VTune)" by (simp add: domains_ok_def new_VTune_def)
  from vtune_calls [OF this, of "[(1, 1, 1), (4, 7, 9), (4, 7, 9), (0, 5, 5), (5, 7, 9), (5, 7, 9), (3, 1, 1)]"] show ?thesis
    by (auto simp: prev_call_def new_VTune_def passed_mode_iff itt_of_def)
qed

section \<open>The solver as a program\<close>

text \<open>C39. The command line of the mode \<open>reuse\<close>: whatever the order and the spelling of the options,
  the parser ends with the file each option was last given, provided that all six files are given;
  otherwise the program prints its usage. The call in the documentation names four of the files.\<close>

theorem reuse_command_line:
  assumes "list_all spelled_ok xs"
  shows "CommandLineParser_initialize (program # ''reuse'' # concat (map spell xs)) new_CommandLineParser =
    Some (if \<exists>c \<in> fst ` set file_options. last_value xs c [] = [] then Inl Usage
      else Inr \<lparr>dataMove_threshold = 1 / 100, decisionFile = last_value xs CHR ''t'' [], scaDecisionFile = last_value xs CHR ''s'' [],
        cpustatsfile = last_value xs CHR ''c'' [], pimstatsfile = last_value xs CHR ''p'' [], reusefile = last_value xs CHR ''r'' [],
        outputfile = last_value xs CHR ''o'' [], parser_mode = Some REUSE\<rparr>)"
  by (rule reuse_parsed [OF assms])

theorem reuse_command_line_witness:
  "CommandLineParser_initialize [''Solver.exe'', ''reuse'', ''-c'', ''inj_cpu/pimprofstats.out'', ''-p'', ''inj_pim/pimprofstats.out'',
     ''-r'', ''inj_cpu/pimprofreuse.out'', ''-o'', ''reusedecision.out''] new_CommandLineParser = Some (Inl Usage)"
proof -
  let ?xs = "[(Short, CHR ''c'', ''inj_cpu/pimprofstats.out''), (Short, CHR ''p'', ''inj_pim/pimprofstats.out''),
    (Short, CHR ''r'', ''inj_cpu/pimprofreuse.out''), (Short, CHR ''o'', ''reusedecision.out'')]"
  have "list_all spelled_ok ?xs" by (simp add: spelled_ok_def file_options_def)
  from reuse_command_line [OF this, of "''Solver.exe''"] show ?thesis by (simp add: file_options_def)
qed

text \<open>C40. The whole run in the mode \<open>reuse\<close>, from the command line over the five files to the tables:
  if the files can be read and the reuse file describes a solvable instance, every placement of the
  run is defined and the decision is the complete one of the reuse search; the program then ends
  with it exactly when the placement of the CTS file puts some block on its slower side.\<close>

theorem reuse_run_decides:
  assumes "list_all spelled_ok xs" and "\<forall>c \<in> fst ` set file_options. last_value xs c [] \<noteq> []"
    and "initialize (1 / 100) (files (last_value xs CHR ''s'' [])) (files (last_value xs CHR ''t'' []))
      (files (last_value xs CHR ''c'' [])) (files (last_value xs CHR ''p'' [])) (files (last_value xs CHR ''r'' [])) empty_solver = Some S0"
    and "getBBLSortedStats S0 = Some S" and "solvable S t ls" and "\<And>m. set (ord m) = set m"
  shows "\<exists>d r S'. PrintReuseStats ord S = Some (d, cost_spec S d t (bbl_switch_count S), S') \<and>
    complete d \<and> length d = block_count S \<and>
    solver_main files ord grid start (program # ''reuse'' # concat (map spell xs)) =
      (if \<exists>i < block_count S. wrong S (cts_placement S) 0 i then Some (Inr (d, Inr r)) else None)"
  by (rule reuse_run [OF assms])

theorem reuse_run_decides_witness:
  "\<exists>d r. solver_main run_files rev [0] run_start (''Solver.exe'' # ''reuse'' # concat (map spell run_options)) = Some (Inr (d, Inr r)) \<and>
    complete d \<and> length d = 2"
proof -
  have named: "last_value run_options CHR ''s'' [] = ''sca.out''" "last_value run_options CHR ''t'' [] = ''cts.out''"
    "last_value run_options CHR ''c'' [] = ''cpu.out''" "last_value run_options CHR ''p'' [] = ''pim.out''"
    "last_value run_options CHR ''r'' [] = ''reuse.out''"
    by (simp_all add: run_options_def)
  have ord: "set (rev m) = set m" for m :: "(BBLID \<times> u64) list" by simp
  have "wrong run_solver (cts_placement run_solver) 0 1"
    by (simp add: cts_placement_def wrong_def cpu_wrong_def gap_def time_of_def MAIN_BBLHASH_def upt_rec)
  then have wrong: "\<exists>i < block_count run_solver. wrong run_solver (cts_placement run_solver) 0 i" by (intro exI [of _ 1]) simp
  from reuse_run_decides [OF run_options_ok, of run_files run_read run_solver demo_trie "[[0, 1, 0], [0, 1, 1]]" rev "[0]" run_start "''Solver.exe''",
      unfolded named, OF run_initialize run_aligned run_solvable ord]
  show ?thesis using wrong by auto
qed

end
